(* ===== verification/Prelude.thy ===== *)
theory Prelude
  imports Main "HOL-Library.Word" "HOL-Library.Signed_Division"
begin

text \<open>
  Shared vocabulary of the development: failures as values and the sequencing of fallible
  steps, the arithmetic of \<open>size_t\<close> and of the C++ signed integer types, and the
  memory copies (\<open>std::copy\<close>, \<open>memcpy\<close>) into vectors and arrays.
\<close>

unbundle bit_operations_syntax

section \<open>Failures and fallible steps\<close>

text \<open>
  How an operation can end other than by returning: a failed \<open>assert\<close>, a fatal log
  message (\<open>LOG_FATAL\<close> and \<open>LOG_SYSFATAL\<close> call \<open>abort()\<close> in \<open>Logger::~Logger\<close>), a read or
  write outside an object, the use of a null or deleted object, an exception of the
  standard library (\<open>std::length_error\<close>, \<open>std::logic_error\<close>), a direct call of \<open>abort()\<close>.
\<close>

datatype failure =
    AssertionFailed
  | FatalLogged
  | OutOfBounds
  | DanglingPointer
  | LengthError
  | LogicError string
  | Aborted

type_synonym 'a result = "failure + 'a"

definition bindR :: "'e + 'a \<Rightarrow> ('a \<Rightarrow> 'e + 'b) \<Rightarrow> 'e + 'b" where
  "bindR m f = (case m of Inl e \<Rightarrow> Inl e | Inr x \<Rightarrow> f x)"

abbreviation assertR :: "bool \<Rightarrow> 'a result \<Rightarrow> 'a result" where
  "assertR b r \<equiv> (if b then r else Inl AssertionFailed)"

text \<open>A loop over the elements of a container that stops at the first failure.\<close>

fun foldR :: "('a \<Rightarrow> 's \<Rightarrow> 'e + 's) \<Rightarrow> 'a list \<Rightarrow> 's \<Rightarrow> 'e + 's" where
  "foldR f [] s = Inr s"
| "foldR f (x # xs) s = bindR (f x s) (foldR f xs)"

text \<open>Dereferencing: looking an object up in a store of live objects.\<close>

definition derefR :: "('k \<Rightarrow> 'v option) \<Rightarrow> 'k \<Rightarrow> 'v result" where
  "derefR m k = (case m k of None \<Rightarrow> Inl DanglingPointer | Some v \<Rightarrow> Inr v)"

named_theorems res_simps \<open>rewriting of fallible steps\<close>

lemma bindR_Inl [simp, res_simps]: "bindR (Inl e) f = Inl e"
  by (simp add: bindR_def)

lemma bindR_Inr [simp, res_simps]: "bindR (Inr x) f = f x"
  by (simp add: bindR_def)

lemma bindR_assoc: "bindR (bindR m f) g = bindR m (\<lambda>x. bindR (f x) g)"
  by (cases m) simp_all

lemma bindR_cong: "m = m' \<Longrightarrow> (\<And>x. m' = Inr x \<Longrightarrow> f x = g x) \<Longrightarrow> bindR m f = bindR m' g"
  by (cases m') simp_all

lemma bindR_eq_Inr [res_simps]:
  "bindR m f = Inr y \<longleftrightarrow> (\<exists>x. m = Inr x \<and> f x = Inr y)"
  by (cases m) auto

lemma bindR_eq_Inl:
  "bindR m f = Inl e \<longleftrightarrow> m = Inl e \<or> (\<exists>x. m = Inr x \<and> f x = Inl e)"
  by (cases m) auto

lemma derefR_Some [simp, res_simps]: "m k = Some v \<Longrightarrow> derefR m k = Inr v"
  by (simp add: derefR_def)

lemma derefR_None [simp, res_simps]: "m k = None \<Longrightarrow> derefR m k = Inl DanglingPointer"
  by (simp add: derefR_def)

lemma derefR_eq_Inr [res_simps]: "derefR m k = Inr v \<longleftrightarrow> m k = Some v"
  by (simp add: derefR_def split: option.splits)

lemma assertR_eq_Inr [res_simps]:
  "(if b then r else Inl e) = Inr y \<longleftrightarrow> b \<and> r = Inr y"
  by simp

lemma foldR_append: "foldR f (xs @ ys) s = bindR (foldR f xs s) (foldR f ys)"
  by (induction xs arbitrary: s) (auto simp: bindR_assoc intro!: bindR_cong)

lemma foldR_invariant:
  assumes "\<And>x s s'. x \<in> set xs \<Longrightarrow> P s \<Longrightarrow> f x s = Inr s' \<Longrightarrow> P s'"
    and "P s" and "foldR f xs s = Inr s'"
  shows "P s'"
  using assms by (induction xs arbitrary: s) (auto simp: bindR_eq_Inr)

section \<open>size_t and the signed integer types\<close>

text \<open>
  \<open>size_t\<close> is a 64-bit unsigned integer, kept as a natural number below \<open>2 ^ 64\<close>; its sums
  and differences wrap around. A \<open>std::vector\<open><char>\<close>\<close> refuses to grow past
  \<open>max_size()\<close>, which is \<open>2 ^ 63 - 1\<close>.
\<close>

definition size_add :: "nat \<Rightarrow> nat \<Rightarrow> nat" where
  "size_add a b = (a + b) mod 2 ^ 64"

definition size_sub :: "nat \<Rightarrow> nat \<Rightarrow> nat" where
  "size_sub a b = (if b \<le> a then a - b else a + 2 ^ 64 - b)"

definition max_size :: nat where
  "max_size = 2 ^ 63 - 1"

named_theorems size_simps \<open>size_t expressions that do not wrap around\<close>

lemma size_sub_le [size_simps]: "b \<le> a \<Longrightarrow> size_sub a b = a - b"
  by (simp add: size_sub_def)

lemma size_add_small [size_simps]: "a + b < 2 ^ 64 \<Longrightarrow> size_add a b = a + b"
  by (simp add: size_add_def)

lemma size_sub_self [simp]: "size_sub a a = 0"
  by (simp add: size_sub_def)

lemma max_size_bound: "a \<le> max_size \<Longrightarrow> b \<le> max_size \<Longrightarrow> a + b < 2 ^ 64"
  by (simp add: max_size_def)

definition int32_range :: "int \<Rightarrow> bool" where
  "int32_range x \<longleftrightarrow> - (2 ^ 31) \<le> x \<and> x < 2 ^ 31"

definition int64_range :: "int \<Rightarrow> bool" where
  "int64_range x \<longleftrightarrow> - (2 ^ 63) \<le> x \<and> x < 2 ^ 63"

text \<open>On non-negative numbers C++ division agrees with \<open>div\<close> and \<open>mod\<close>.\<close>

lemma sdiv_nonneg: "(0::int) \<le> a \<Longrightarrow> 0 < b \<Longrightarrow> a sdiv b = a div b"
  by (cases "a = 0") (simp_all add: signed_divide_int_def)

lemma smod_nonneg: "(0::int) \<le> a \<Longrightarrow> 0 < b \<Longrightarrow> a smod b = a mod b"
  by (cases "a = 0") (simp_all add: signed_modulo_int_def)

lemma sdiv_neg: "a \<le> (0::int) \<Longrightarrow> 0 < b \<Longrightarrow> a sdiv b = - (- a div b)"
  by (cases "a = 0") (simp_all add: signed_divide_int_def)

lemma smod_neg: "a \<le> (0::int) \<Longrightarrow> 0 < b \<Longrightarrow> a smod b = - (- a mod b)"
  by (cases "a = 0") (simp_all add: signed_modulo_int_def)

lemma sdiv_smod_split:
  assumes "0 < b"
  shows "(a::int) = b * (a sdiv b) + a smod b"
proof (cases "0 \<le> a")
  case True
  then show ?thesis using assms by (simp add: sdiv_nonneg smod_nonneg)
next
  case False
  have "b * (- a div b) + - a mod b = - a" by (rule mult_div_mod_eq)
  moreover have "a sdiv b = - (- a div b)" "a smod b = - (- a mod b)"
    using False assms by (simp_all add: sdiv_neg smod_neg)
  ultimately show ?thesis by (simp only: mult_minus_right)
qed

section \<open>Copies between byte ranges\<close>

text \<open>
  \<open>read_range v i n\<close> reads \<open>n\<close> elements from position \<open>i\<close>; \<open>write_range v i xs\<close> stores \<open>xs\<close>
  from position \<open>i\<close>. Both fail when the range leaves the object.
\<close>

definition read_range :: "'a list \<Rightarrow> nat \<Rightarrow> nat \<Rightarrow> 'a list result" where
  "read_range v i n =
     (if i + n \<le> length v then Inr (take n (drop i v)) else Inl OutOfBounds)"

definition write_range :: "'a list \<Rightarrow> nat \<Rightarrow> 'a list \<Rightarrow> 'a list result" where
  "write_range v i xs =
     (if i + length xs \<le> length v
      then Inr (take i v @ xs @ drop (i + length xs) v) else Inl OutOfBounds)"

lemma read_range_ok [simp]:
  "i + n \<le> length v \<Longrightarrow> read_range v i n = Inr (take n (drop i v))"
  by (simp add: read_range_def)

lemma write_range_ok:
  "i + length xs \<le> length v \<Longrightarrow>
   write_range v i xs = Inr (take i v @ xs @ drop (i + length xs) v)"
  by (simp add: write_range_def)

lemma write_range_length: "write_range v i xs = Inr v' \<Longrightarrow> length v' = length v"
  by (auto simp: write_range_def split: if_splits)

lemma take_write_before:
  "i + length xs \<le> length v \<Longrightarrow> r \<le> i \<Longrightarrow>
   take (i - r + length xs) (drop r (take i v @ xs @ drop (i + length xs) v))
   = take (i - r) (drop r v) @ xs"
  by (simp add: drop_take)

end
