(* ===== verification/Format.thy ===== *)
theory Format
  imports Prelude
begin

text \<open>
  What the sources use of \<open>snprintf\<close>: decimal conversions with a minimum width, and the
  truncation of the result to the size of the buffer. The decimal digits are the reference
  against which the hand-written conversions of \<^verbatim>\<open>LogStream.cc\<close> are compared.
\<close>

section \<open>Decimal digits\<close>

definition digit_char :: "nat \<Rightarrow> char" where
  "digit_char d = char_of (48 + d)"

fun dec_nat :: "nat \<Rightarrow> string" where
  "dec_nat n = (if n < 10 then [digit_char n] else dec_nat (n div 10) @ [digit_char (n mod 10)])"

declare dec_nat.simps [simp del]

definition dec_int :: "int \<Rightarrow> string" where
  "dec_int i = (if i < 0 then ''-'' @ dec_nat (nat (- i)) else dec_nat (nat i))"

text \<open>Reading decimal digits back.\<close>

definition digit_val :: "char \<Rightarrow> nat" where
  "digit_val c = of_char c - 48"

definition val_nat :: "string \<Rightarrow> nat" where
  "val_nat s = foldl (\<lambda>a c. 10 * a + digit_val c) 0 s"

definition val_int :: "string \<Rightarrow> int" where
  "val_int s = (case s of [] \<Rightarrow> 0
     | c # cs \<Rightarrow> if c = CHR ''-'' then - int (val_nat cs) else int (val_nat s))"

definition is_digit :: "char \<Rightarrow> bool" where
  "is_digit c \<longleftrightarrow> 48 \<le> (of_char c :: nat) \<and> (of_char c :: nat) \<le> 57"

section \<open>snprintf\<close>

text \<open>\<open>%d\<close> with a minimum width: \<open>%4d\<close> pads with spaces, \<open>%04d\<close> with zeros after the sign.\<close>

definition fmt_d :: "nat \<Rightarrow> int \<Rightarrow> string" where
  "fmt_d w i = (let s = dec_int i in replicate (w - length s) (CHR '' '') @ s)"

definition fmt_0d :: "nat \<Rightarrow> int \<Rightarrow> string" where
  "fmt_0d w i =
     (if i < 0
      then ''-'' @ (let s = dec_nat (nat (- i)) in replicate (w - 1 - length s) (CHR ''0'') @ s)
      else (let s = dec_nat (nat i) in replicate (w - length s) (CHR ''0'') @ s))"

text \<open>
  \<open>snprintf(buf, sz, ...)\<close> stores at most \<open>sz - 1\<close> characters and the terminating null; it
  returns the length of the whole text.
\<close>

definition snprintf :: "nat \<Rightarrow> string \<Rightarrow> string \<times> nat" where
  "snprintf sz txt = (take (sz - 1) txt, length txt)"

section \<open>Facts about digits\<close>

lemma digit_char_val [simp]: "d < 10 \<Longrightarrow> digit_val (digit_char d) = d"
  by (simp add: digit_val_def digit_char_def)

lemma is_digit_digit_char [simp]: "d < 10 \<Longrightarrow> is_digit (digit_char d)"
  by (simp add: is_digit_def digit_char_def)

lemma digit_char_not_minus: "d < 10 \<Longrightarrow> digit_char d \<noteq> CHR ''-''"
proof
  assume "d < 10" and "digit_char d = CHR ''-''"
  then have "(of_char (digit_char d) :: nat) = 45" by simp
  then show False using \<open>d < 10\<close> by (simp add: digit_char_def)
qed

lemma dec_nat_not_Nil [simp]: "dec_nat n \<noteq> []"
  by (subst dec_nat.simps) simp

lemma dec_nat_digits: "c \<in> set (dec_nat n) \<Longrightarrow> is_digit c"
proof (induction n rule: dec_nat.induct)
  case (1 n)
  then show ?case
    by (subst (asm) dec_nat.simps) (auto split: if_splits)
qed

lemma val_nat_snoc [simp]: "val_nat (s @ [c]) = 10 * val_nat s + digit_val c"
  by (simp add: val_nat_def)

lemma val_nat_dec_nat [simp]: "val_nat (dec_nat n) = n"
proof (induction n rule: dec_nat.induct)
  case (1 n)
  show ?case
  proof (cases "n < 10")
    case True
    then show ?thesis by (subst dec_nat.simps) (simp add: val_nat_def)
  next
    case False
    with "1.IH" show ?thesis by (subst dec_nat.simps) simp
  qed
qed

lemma not_is_digit_minus: "\<not> is_digit (CHR ''-'')"
  by (simp add: is_digit_def)

lemma dec_nat_hd_not_minus: "dec_nat n = c # cs \<Longrightarrow> c \<noteq> CHR ''-''"
  using dec_nat_digits [of c n] not_is_digit_minus by auto

lemma val_int_dec_int [simp]: "val_int (dec_int i) = i"
proof (cases "i < 0")
  case True
  then show ?thesis by (simp add: dec_int_def val_int_def)
next
  case False
  obtain c cs where cs: "dec_nat (nat i) = c # cs" by (cases "dec_nat (nat i)") auto
  then have "val_nat (c # cs) = nat i" by (metis val_nat_dec_nat)
  with False cs dec_nat_hd_not_minus [OF cs] show ?thesis
    by (simp add: dec_int_def val_int_def)
qed

lemma dec_nat_inj: "dec_nat m = dec_nat n \<longleftrightarrow> m = n"
  by (metis val_nat_dec_nat)

lemma dec_int_inj: "dec_int i = dec_int j \<longleftrightarrow> i = j"
  by (metis val_int_dec_int)

text \<open>The length of a decimal number.\<close>

lemma length_dec_nat_le: "n < 10 ^ k \<Longrightarrow> 0 < k \<Longrightarrow> length (dec_nat n) \<le> k"
proof (induction n arbitrary: k rule: dec_nat.induct)
  case (1 n)
  show ?case
  proof (cases "n < 10")
    case True
    then show ?thesis using "1.prems" by (subst dec_nat.simps) simp
  next
    case False
    from "1.prems"(2) obtain k' where k: "k = Suc k'" by (cases k) auto
    with "1.prems"(1) False have "k' \<noteq> 0" by (intro notI) simp
    with k have k: "k = Suc k'" "0 < k'" by simp_all
    with "1.prems" have "n div 10 < 10 ^ k'" by (simp add: less_mult_imp_div_less mult.commute)
    with False k "1.IH" show ?thesis by (subst dec_nat.simps) simp
  qed
qed

lemma length_dec_nat_ge: "10 ^ k \<le> n \<Longrightarrow> k < length (dec_nat n)"
proof (induction n arbitrary: k rule: dec_nat.induct)
  case (1 n)
  show ?case
  proof (cases k)
    case 0
    then show ?thesis by simp
  next
    case (Suc k')
    have "(1::nat) \<le> 10 ^ k'" by simp
    moreover from Suc "1.prems" have ge: "10 * 10 ^ k' \<le> n" by simp
    ultimately have big: "\<not> n < 10" by linarith
    from ge have "10 ^ k' \<le> n div 10"
      by (simp add: less_eq_div_iff_mult_less_eq mult.commute)
    with big "1.IH" have "k' < length (dec_nat (n div 10))" by simp
    with big Suc show ?thesis by (subst dec_nat.simps) simp
  qed
qed

lemma length_fmt_0d:
  assumes "0 \<le> i" and "i < 10 ^ w" and "0 < w"
  shows "length (fmt_0d w i) = w"
proof -
  have "nat i < 10 ^ w" using assms by (simp add: nat_less_iff)
  from length_dec_nat_le [OF this assms(3)] assms(1) show ?thesis
    by (simp add: fmt_0d_def Let_def)
qed

lemma length_fmt_d:
  assumes "0 \<le> i" and "i < 10 ^ w" and "0 < w"
  shows "length (fmt_d w i) = w"
proof -
  have "nat i < 10 ^ w" using assms by (simp add: nat_less_iff)
  from length_dec_nat_le [OF this assms(3)] assms(1) show ?thesis
    by (simp add: fmt_d_def dec_int_def Let_def)
qed

text \<open>Zero padding does not change the value.\<close>

lemma digit_val_0 [simp]: "digit_val (CHR ''0'') = 0"
  by (simp add: digit_val_def)

lemma val_nat_zeros: "val_nat (replicate k (CHR ''0'') @ s) = val_nat s"
  by (induction k) (simp_all add: val_nat_def)

lemma val_nat_fmt_0d: "0 \<le> i \<Longrightarrow> val_nat (fmt_0d w i) = nat i"
  by (simp add: fmt_0d_def Let_def val_nat_zeros)

end
