(* ===== verification/Date.thy ===== *)
theory Date
  imports Format
begin

text \<open>
  \<^verbatim>\<open>muduo/datetime/Date.h\<close> and \<^verbatim>\<open>Date.cc\<close>: dates as Julian day numbers, compared with the
  Gregorian calendar. C++ \<open>int\<close> division truncates, so the formulas use \<open>sdiv\<close> and \<open>smod\<close>.
\<close>

section \<open>The class\<close>

record YearMonthDay =
  ymd_year :: int
  ymd_month :: int
  ymd_day :: int

datatype date = Date (julianDayNumber: int)

definition kDaysPerWeek :: int where
  "kDaysPerWeek = 7"

definition getJulianDayNumber :: "int \<Rightarrow> int \<Rightarrow> int \<Rightarrow> int" where
  "getJulianDayNumber year month day =
     (let a = (14 - month) sdiv 12;
          y = year + 4800 - a;
          m = month + 12 * a - 3
      in day + (153 * m + 2) sdiv 5 + y * 365 + y sdiv 4 - y sdiv 100 + y sdiv 400 - 32045)"

definition getYearMonthDay :: "int \<Rightarrow> YearMonthDay" where
  "getYearMonthDay jdn =
     (let a = jdn + 32044;
          b = (4 * a + 3) sdiv 146097;
          c = a - (b * 146097) sdiv 4;
          d = (4 * c + 3) sdiv 1461;
          e = c - (1461 * d) sdiv 4;
          m = (5 * e + 2) sdiv 153
      in \<lparr>ymd_year = b * 100 + d - 4800 + m sdiv 10,
          ymd_month = m + 3 - 12 * (m sdiv 10),
          ymd_day = e - (153 * m + 2) sdiv 5 + 1\<rparr>)"

definition kJulianDayOf1970_01_01 :: int where
  "kJulianDayOf1970_01_01 = getJulianDayNumber 1970 1 1"

definition Date_invalid :: date where
  "Date_invalid = Date 0"

definition Date_ymd :: "int \<Rightarrow> int \<Rightarrow> int \<Rightarrow> date" where
  "Date_ymd y m d = Date (getJulianDayNumber y m d)"

definition Date_swap :: "date \<Rightarrow> date \<Rightarrow> date \<times> date" where
  "Date_swap this that = (Date (julianDayNumber that), Date (julianDayNumber this))"

definition Date_valid :: "date \<Rightarrow> bool" where
  "Date_valid x \<longleftrightarrow> julianDayNumber x > 0"

definition yearMonthDay :: "date \<Rightarrow> YearMonthDay" where
  "yearMonthDay x = getYearMonthDay (julianDayNumber x)"

definition Date_year :: "date \<Rightarrow> int" where
  "Date_year x = ymd_year (yearMonthDay x)"

definition Date_month :: "date \<Rightarrow> int" where
  "Date_month x = ymd_month (yearMonthDay x)"

definition Date_day :: "date \<Rightarrow> int" where
  "Date_day x = ymd_day (yearMonthDay x)"

definition weekDay :: "date \<Rightarrow> int" where
  "weekDay x = (julianDayNumber x + 1) smod kDaysPerWeek"

definition toIsoString :: "date \<Rightarrow> string" where
  "toIsoString x =
     (let ymd = yearMonthDay x in
      fst (snprintf 32 (fmt_d 4 (ymd_year ymd) @ ''-'' @ fmt_0d 2 (ymd_month ymd)
                        @ ''-'' @ fmt_0d 2 (ymd_day ymd))))"

text \<open>The comparison operators of \<^verbatim>\<open>Date.h\<close>; they make the type a linear order.\<close>

definition Date_less :: "date \<Rightarrow> date \<Rightarrow> bool" where
  "Date_less x y \<longleftrightarrow> julianDayNumber x < julianDayNumber y"

definition Date_equal :: "date \<Rightarrow> date \<Rightarrow> bool" where
  "Date_equal x y \<longleftrightarrow> julianDayNumber x = julianDayNumber y"

lemma Date_equal_eq: "Date_equal x y \<longleftrightarrow> x = y"
  by (cases x; cases y) (simp add: Date_equal_def)

instantiation date :: linorder
begin

definition less_date :: "date \<Rightarrow> date \<Rightarrow> bool" where
  "less_date = Date_less"

definition less_eq_date :: "date \<Rightarrow> date \<Rightarrow> bool" where
  "less_eq_date x y \<longleftrightarrow> Date_less x y \<or> Date_equal x y"

instance
  by intro_classes (auto simp: less_date_def less_eq_date_def Date_less_def Date_equal_def date.expand)

end

lemma less_date_iff: "x < y \<longleftrightarrow> julianDayNumber x < julianDayNumber y" for x y :: date
  by (simp add: less_date_def Date_less_def)

lemma less_eq_date_iff: "x \<le> y \<longleftrightarrow> julianDayNumber x \<le> julianDayNumber y" for x y :: date
  by (auto simp: less_eq_date_def Date_less_def Date_equal_def)

section \<open>The Gregorian calendar\<close>

definition leap_year :: "int \<Rightarrow> bool" where
  "leap_year y \<longleftrightarrow> y mod 4 = 0 \<and> (y mod 100 \<noteq> 0 \<or> y mod 400 = 0)"

definition days_in_month :: "int \<Rightarrow> int \<Rightarrow> int" where
  "days_in_month y m =
     (if m = 2 then if leap_year y then 29 else 28
      else if m \<in> {4, 6, 9, 11} then 30 else 31)"

definition calendar_date :: "int \<Rightarrow> int \<Rightarrow> int \<Rightarrow> bool" where
  "calendar_date y m d \<longleftrightarrow> 1 \<le> m \<and> m \<le> 12 \<and> 1 \<le> d \<and> d \<le> days_in_month y m"

definition next_day :: "int \<Rightarrow> int \<Rightarrow> int \<Rightarrow> int \<times> int \<times> int" where
  "next_day y m d =
     (if d < days_in_month y m then (y, m, d + 1)
      else if m < 12 then (y, m + 1, 1) else (y + 1, 1, 1))"

section \<open>The formulas, digit by digit\<close>

text \<open>
  Inside, years start in March of the year -4800: \<open>y = 100 * b + d\<close> is the year, \<open>m\<close> its
  month from 0, \<open>e\<close> the day of the year from 0.
\<close>

definition day_index :: "int \<Rightarrow> int \<Rightarrow> int" where
  "day_index m day = (153 * m + 2) div 5 + day - 1"

definition march_jdn :: "int \<Rightarrow> int \<Rightarrow> int \<Rightarrow> int" where
  "march_jdn b d e = (146097 * b) div 4 + (1461 * d) div 4 + e - 32044"

lemma march_month_index:
  assumes "1 \<le> month" and "month \<le> (12::int)"
  shows "(14 - month) sdiv 12 = (if month \<le> 2 then 1 else 0)"
  using assms by (simp add: sdiv_nonneg) linarith

lemma div4_146097: "(146097 * b) div 4 = 36524 * b + b div (4::int)"
proof -
  have "146097 * b = b + 36524 * b * 4" by simp
  then show ?thesis by simp
qed

lemma div4_1461: "(1461 * d) div 4 = 365 * d + d div (4::int)"
proof -
  have "1461 * d = d + 365 * d * 4" by simp
  then show ?thesis by simp
qed

lemma leap_days_split:
  "y * 365 + y div 4 - y div 100 + y div 400
   = (146097 * (y div 100)) div 4 + (1461 * (y mod 100)) div (4::int)"
proof -
  define q r where "q = y div 100" and "r = y mod 100"
  have y: "y = 100 * q + r" by (simp add: q_def r_def)
  have "y div 4 = (r + 25 * q * 4) div 4" by (simp add: y)
  also have "\<dots> = 25 * q + r div 4" by (rule div_mult_self1) simp
  finally have "y div 4 = 25 * q + r div 4" .
  moreover have "y div 400 = q div 4" using zdiv_zmult2_eq [of 4 y 100] by (simp add: q_def)
  moreover have "y * 365 = 36500 * q + 365 * r" by (simp add: y)
  ultimately show ?thesis
    by (simp add: div4_146097 div4_1461 q_def [symmetric] r_def [symmetric])
qed

lemma getJulianDayNumber_march:
  assumes m: "1 \<le> month" "month \<le> 12"
    and y: "y = year + 4800 - (if month \<le> 2 then 1 else 0)" "0 \<le> y"
    and mm: "m = month + 12 * (if month \<le> 2 then 1 else 0) - 3"
  shows "getJulianDayNumber year month day = march_jdn (y div 100) (y mod 100) (day_index m day)"
proof -
  have "0 \<le> m" using mm m by auto
  then have "getJulianDayNumber year month day =
      day + (153 * m + 2) div 5 + y * 365 + y div 4 - y div 100 + y div 400 - 32045"
    using y(2) unfolding getJulianDayNumber_def march_month_index [OF m] Let_def
    by (simp add: y(1) [symmetric] mm [symmetric] sdiv_nonneg)
  with leap_days_split [of y] show ?thesis by (simp add: march_jdn_def day_index_def)
qed

lemma getYearMonthDay_march:
  assumes "0 \<le> b" "0 \<le> d" "d < 100" "0 \<le> e" "e \<le> 365"
    and last: "e = 365 \<longrightarrow> d mod 4 = 3 \<and> (d = 99 \<longrightarrow> b mod 4 = 3)"
    and m: "m = (5 * e + 2) div 153"
  shows "getYearMonthDay (march_jdn b d e) =
           \<lparr>ymd_year = b * 100 + d - 4800 + m div 10, ymd_month = m + 3 - 12 * (m div 10),
            ymd_day = e - (153 * m + 2) div 5 + 1\<rparr>"
proof -
  let ?a = "march_jdn b d e + 32044"
  have a: "?a = (146097 * b) div 4 + (1461 * d) div 4 + e" by (simp add: march_jdn_def)
  have "0 \<le> ?a" using assms(1-4) a by simp
  have q4: "4 * (b div 4) = b - b mod 4" "4 * (d div 4) = d - d mod 4"
    by (simp_all add: minus_mod_eq_mult_div)
  have q: "0 \<le> b mod 4" "b mod 4 < 4" "0 \<le> d mod 4" "d mod 4 < 4" by simp_all
  have b: "(4 * ?a + 3) sdiv 146097 = b"
  proof -
    have "4 * ?a + 3 - 146097 * b = 1461 * d - d mod 4 + 4 * e + 3 - b mod 4"
      unfolding a div4_146097 div4_1461 distrib_left q4 by simp
    moreover have "4 * e + 3 - d mod 4 + 1461 * d - b mod 4 < 146097"
    proof (cases "d = 99")
      case True
      with assms(5) last q show ?thesis by (cases "e = 365") simp_all
    next
      case False
      with assms(3,5) q show ?thesis by linarith
    qed
    ultimately have "0 \<le> 4 * ?a + 3 - 146097 * b" "4 * ?a + 3 - 146097 * b < 146097"
      using assms(2,4) q zmod_le_nonneg_dividend [OF assms(2), of 4] by linarith+
    then have "(4 * ?a + 3) div 146097 = b" by (intro int_div_pos_eq [where r = "4 * ?a + 3 - 146097 * b"]) auto
    then show ?thesis using \<open>0 \<le> ?a\<close> by (simp add: sdiv_nonneg)
  qed
  have c: "?a - (b * 146097) sdiv 4 = (1461 * d) div 4 + e"
    using assms(1) a by (simp add: sdiv_nonneg mult.commute)
  have d: "(4 * ((1461 * d) div 4 + e) + 3) sdiv 1461 = d"
  proof -
    have "4 * ((1461 * d) div 4 + e) + 3 - 1461 * d = 4 * e + 3 - d mod 4"
      unfolding div4_1461 distrib_left q4 by simp
    moreover have "4 * e + 3 - d mod 4 < 1461"
      using assms(5) last q by (cases "e = 365") simp_all
    ultimately have "0 \<le> 4 * ((1461 * d) div 4 + e) + 3 - 1461 * d"
      "4 * ((1461 * d) div 4 + e) + 3 - 1461 * d < 1461"
      using assms(4) q by simp_all
    then have "(4 * ((1461 * d) div 4 + e) + 3) div 1461 = d"
      by (intro int_div_pos_eq [where r = "4 * ((1461 * d) div 4 + e) + 3 - 1461 * d"]) auto
    then show ?thesis using assms(2,4) by (simp add: sdiv_nonneg)
  qed
  have e: "(1461 * d) div 4 + e - (1461 * d) sdiv 4 = e"
    using assms(2) by (simp add: sdiv_nonneg)
  have m0: "(5 * e + 2) sdiv 153 = m" and "0 \<le> m" using m assms(4) by (simp_all add: sdiv_nonneg)
  show ?thesis
    unfolding getYearMonthDay_def Let_def b c d e m0
    using \<open>0 \<le> m\<close> by (simp add: sdiv_nonneg)
qed

section \<open>Every calendar date has one number\<close>

lemma five_div_bounds:
  fixes x :: int
  shows "x - 4 \<le> 5 * (x div 5)" "5 * (x div 5) \<le> x"
proof -
  have "5 * (x div 5) = x - x mod 5" by (simp add: minus_mod_eq_mult_div)
  moreover have "0 \<le> x mod 5" "x mod 5 < 5" by simp_all
  ultimately show "x - 4 \<le> 5 * (x div 5)" "5 * (x div 5) \<le> x" by linarith+
qed

text \<open>The first day of March-month \<open>m\<close> is day \<open>month_start m\<close> of the year.\<close>

definition month_start :: "int \<Rightarrow> int" where
  "month_start m = (153 * m + 2) div 5"

lemma month_start_bounds: "153 * m - 2 \<le> 5 * month_start m" "5 * month_start m \<le> 153 * m + 2"
  using five_div_bounds [of "153 * m + 2"] by (simp_all add: month_start_def)

lemma month_start_Suc_bounds:
  "153 * m + 151 \<le> 5 * month_start (m + 1)" "5 * month_start (m + 1) \<le> 153 * m + 155"
  using month_start_bounds [of "m + 1"] by simp_all

lemma month_index_range:
  assumes "0 \<le> e" and "e \<le> 365" and m: "m = (5 * e + 2) div (153::int)"
  shows "0 \<le> m" "m \<le> 11" "month_start m \<le> e" "e < month_start (m + 1)"
proof -
  show "0 \<le> m" "m \<le> 11" using assms by simp_all
  have "153 * m = 5 * e + 2 - (5 * e + 2) mod 153" by (simp add: m minus_mod_eq_mult_div)
  moreover have "0 \<le> (5 * e + 2) mod 153" "(5 * e + 2) mod 153 < 153" by simp_all
  ultimately have b: "153 * m \<le> 5 * e + 2" "5 * e + 2 < 153 * m + 153" by linarith+
  from b show "month_start m \<le> e" "e < month_start (m + 1)"
    using month_start_bounds [of m] month_start_Suc_bounds [of m] by linarith+
qed

lemma month_of_day_index:
  assumes "1 \<le> day" and "day \<le> month_start (m + 1) - month_start m"
  shows "(5 * day_index m day + 2) div 153 = m"
proof -
  have e: "day_index m day = month_start m + day - 1" by (simp add: day_index_def month_start_def)
  have "153 * m \<le> 5 * day_index m day + 2" "5 * day_index m day + 2 < 153 * m + 153"
    unfolding e using assms month_start_bounds [of m] month_start_Suc_bounds [of m]
    by (simp_all add: algebra_simps)
  then show ?thesis
    by (intro int_div_pos_eq [where r = "5 * day_index m day + 2 - 153 * m"]) auto
qed

text \<open>The lengths of the months, seen from March.\<close>

lemma month_numbers: "[1..12::int] = [1, 2, 3, 4, 5, 6, 7, 8, 9, 10, 11, 12]"
  by code_simp

lemma month_cases:
  fixes m :: int
  assumes "1 \<le> m" "m \<le> 12"
  shows "m \<in> {1, 2, 3, 4, 5, 6, 7, 8, 9, 10, 11, 12}"
proof -
  have "m \<in> set [1..12]" using assms by simp
  then show ?thesis unfolding month_numbers by simp
qed

definition march_month :: "int \<Rightarrow> int" where
  "march_month month = (if month \<le> 2 then month + 9 else month - 3)"

definition march_year :: "int \<Rightarrow> int \<Rightarrow> int" where
  "march_year year month = (if month \<le> 2 then year + 4799 else year + 4800)"

lemma march_month_range: "1 \<le> month \<Longrightarrow> month \<le> 12 \<Longrightarrow> 0 \<le> march_month month \<and> march_month month \<le> 11"
  by (simp add: march_month_def)

lemma days_in_month_march:
  assumes "1 \<le> month" "month \<le> 12" "month \<noteq> 2"
  shows "days_in_month y month = month_start (march_month month + 1) - month_start (march_month month)"
  using month_cases [OF assms(1,2)] assms(3)
  by (auto simp: days_in_month_def month_start_def march_month_def)

lemma days_in_month_le_march:
  assumes "1 \<le> month" "month \<le> 12"
  shows "days_in_month y month \<le> month_start (march_month month + 1) - month_start (march_month month)"
proof (cases "month = 2")
  case True
  then show ?thesis by (simp add: days_in_month_def march_month_def month_start_def)
next
  case False
  with assms show ?thesis by (simp add: days_in_month_march)
qed

lemma getJulianDayNumber_parts:
  assumes "1 \<le> month" "month \<le> 12" "0 \<le> march_year year month"
  shows "getJulianDayNumber year month day =
           march_jdn (march_year year month div 100) (march_year year month mod 100)
             (month_start (march_month month) + day - 1)"
  using getJulianDayNumber_march [of month "march_year year month" year "march_month month" day] assms
  by (simp add: march_year_def march_month_def day_index_def month_start_def add.commute split: if_splits)

lemma calendar_day_index:
  assumes "calendar_date year month day" and "0 \<le> march_year year month"
  defines "e \<equiv> month_start (march_month month) + day - 1"
  shows "0 \<le> e" "e \<le> 365" "e = 365 \<longrightarrow> month = 2 \<and> leap_year year"
    "(5 * e + 2) div 153 = march_month month"
proof -
  have m: "1 \<le> month" "month \<le> 12" and d: "1 \<le> day" "day \<le> days_in_month year month"
    using assms(1) by (auto simp: calendar_date_def)
  note r = march_month_range [OF m] and le = days_in_month_le_march [OF m, of year]
  show "0 \<le> e" using month_start_bounds(1) [of "march_month month"] r d unfolding e_def by linarith
  show "(5 * e + 2) div 153 = march_month month"
    using month_of_day_index [of day "march_month month"] d le
    by (simp add: e_def day_index_def month_start_def)
  have *: "e \<le> 365 \<and> (e = 365 \<longrightarrow> month = 2 \<and> leap_year year)"
  proof (cases "month = 2")
    case True
    with d show ?thesis
      by (auto simp: e_def march_month_def month_start_def days_in_month_def split: if_splits)
  next
    case False
    then have "march_month month \<le> 10" using m by (simp add: march_month_def)
    with d le show ?thesis
      using month_start_Suc_bounds(2) [of "march_month month"] unfolding e_def by linarith
  qed
  then show "e \<le> 365" "e = 365 \<longrightarrow> month = 2 \<and> leap_year year" by blast+
qed

lemma leap_year_march:
  assumes "leap_year year" and "y = year + 4799"
  shows "y mod 100 mod 4 = 3" and "y mod 100 = 99 \<longrightarrow> y div 100 mod 4 = 3"
proof -
  have "4 dvd year" using assms(1) by (auto simp: leap_year_def)
  then obtain j where "year = 4 * j" by (auto elim: dvdE)
  then have "y = 3 + (j + 1199) * 4" using assms(2) by simp
  then have "y mod 4 = 3" by (simp only: mod_mult_self1) simp
  then show "y mod 100 mod 4 = 3" by (simp add: mod_mod_cancel)
  show "y mod 100 = 99 \<longrightarrow> y div 100 mod 4 = 3"
  proof
    assume "y mod 100 = 99"
    then have "year = 100 * (y div 100) - 4700" using assms(2) mult_div_mod_eq [of 100 y] by linarith
    then have "year = (y div 100 - 47) * 100" by simp
    then have "year mod 100 = 0" by (simp only: mod_mult_self2_is_0)
    then have "400 dvd year" using assms(1) by (auto simp: leap_year_def)
    then obtain k where "year = 400 * k" by (auto elim: dvdE)
    then have "y = 4799 + 4 * k * 100" using assms(2) by simp
    then have "y div 100 = 3 + (k + 11) * 4" by simp
    then show "y div 100 mod 4 = 3" by (simp only: mod_mult_self1) simp
  qed
qed

lemma div10_month: "0 \<le> m \<Longrightarrow> m \<le> 11 \<Longrightarrow> m div 10 = (if m < 10 then 0 else (1::int))"
  by simp linarith

lemma ymd_of_jdn:
  assumes c: "calendar_date year month day" and y: "0 \<le> march_year year month"
  shows "getYearMonthDay (getJulianDayNumber year month day) =
           \<lparr>ymd_year = year, ymd_month = month, ymd_day = day\<rparr>"
proof -
  define yy mm e where "yy = march_year year month" and "mm = march_month month"
    and "e = month_start mm + day - 1"
  have m: "1 \<le> month" "month \<le> 12" using c by (auto simp: calendar_date_def)
  note ci = calendar_day_index [OF c y, folded mm_def, folded e_def]
  have last: "e = 365 \<longrightarrow> yy mod 100 mod 4 = 3 \<and> (yy mod 100 = 99 \<longrightarrow> yy div 100 mod 4 = 3)"
    using ci(3) leap_year_march [of year yy] by (auto simp: yy_def march_year_def)
  have "getYearMonthDay (march_jdn (yy div 100) (yy mod 100) e) =
      \<lparr>ymd_year = yy div 100 * 100 + yy mod 100 - 4800 + mm div 10,
       ymd_month = mm + 3 - 12 * (mm div 10), ymd_day = e - (153 * mm + 2) div 5 + 1\<rparr>"
    using y ci last by (intro getYearMonthDay_march) (simp_all add: yy_def)
  moreover have "getJulianDayNumber year month day = march_jdn (yy div 100) (yy mod 100) e"
    using getJulianDayNumber_parts [OF m y] by (simp add: yy_def mm_def e_def)
  moreover have "mm div 10 = (if month \<le> 2 then 1 else 0)"
    using m div10_month [of mm] march_month_range [OF m] by (simp add: mm_def march_month_def)
  ultimately show ?thesis
    by (simp add: e_def month_start_def yy_def mm_def march_year_def march_month_def)
qed

text \<open>Every number from -32044 (1 March -4800) on is the number of a calendar date.\<close>

lemma march_decomposition:
  assumes "0 \<le> a"
  obtains b d e where "a = (146097 * b) div 4 + (1461 * d) div 4 + e" "0 \<le> b" "0 \<le> d" "d < 100"
    "0 \<le> e" "e \<le> 365" "e = 365 \<longrightarrow> d mod 4 = 3 \<and> (d = 99 \<longrightarrow> b mod 4 = (3::int))"
proof -
  define b c where "b = (4 * a + 3) div 146097" and "c = a - (146097 * b) div 4"
  define d e where "d = (4 * c + 3) div 1461" and "e = c - (1461 * d) div 4"
  have b: "146097 * b = 4 * a + 3 - (4 * a + 3) mod 146097"
    by (simp add: b_def minus_mod_eq_mult_div)
  have bm: "0 \<le> (4 * a + 3) mod 146097" "(4 * a + 3) mod 146097 < 146097" by simp_all
  have b4: "4 * ((146097 * b) div 4) = 146097 * b - b mod 4"
    using minus_mod_eq_mult_div [of b 4] unfolding div4_146097 by simp
  have r4: "0 \<le> b mod 4" "b mod 4 < 4" "0 \<le> d mod 4" "d mod 4 < 4" by simp_all
  have c4: "4 * c = 4 * a - 146097 * b + b mod 4" using b4 by (simp add: c_def)
  have c: "0 \<le> c" "4 * c \<le> 146093 + b mod 4" using c4 b bm r4 by linarith+
  have d: "1461 * d = 4 * c + 3 - (4 * c + 3) mod 1461"
    by (simp add: d_def minus_mod_eq_mult_div)
  have dm: "0 \<le> (4 * c + 3) mod 1461" "(4 * c + 3) mod 1461 < 1461" by simp_all
  have "4 * ((1461 * d) div 4) = 1461 * d - d mod 4"
    using minus_mod_eq_mult_div [of d 4] unfolding div4_1461 by simp
  then have e4: "4 * e = 4 * c - 1461 * d + d mod 4" by (simp add: e_def)
  have e: "0 \<le> e" "4 * e \<le> 1457 + d mod 4" using e4 d dm r4 by linarith+
  have "0 \<le> b" "0 \<le> d" using assms c by (simp_all add: b_def d_def)
  have "d < 100" using d dm c r4 by linarith
  have "d mod 4 = 3 \<and> (d = 99 \<longrightarrow> b mod 4 = 3)" if "e = 365"
  proof
    show "d mod 4 = 3" using that e r4 by linarith
    show "d = 99 \<longrightarrow> b mod 4 = 3"
    proof
      assume "d = 99"
      with that have "c = 36524" by (simp add: e_def)
      with c r4 show "b mod 4 = 3" by linarith
    qed
  qed
  moreover have "e \<le> 365" using e r4 by linarith
  moreover have "a = (146097 * b) div 4 + (1461 * d) div 4 + e" by (simp add: e_def c_def)
  ultimately show ?thesis using that [of b d e] \<open>0 \<le> b\<close> \<open>0 \<le> d\<close> \<open>d < 100\<close> e by blast
qed

lemma feb_29_leap:
  fixes b d :: int
  assumes "0 \<le> d" "d < 100" "d mod 4 = 3" "d = 99 \<longrightarrow> b mod 4 = 3"
  shows "leap_year (b * 100 + d - 4799)"
proof -
  define k where "k = d div 4"
  have d: "d = 4 * k + 3" using mult_div_mod_eq [of 4 d] assms(3) by (simp add: k_def)
  then have y: "b * 100 + d - 4799 = 4 * (25 * b + k - 1199)" by simp
  then have "(b * 100 + d - 4799) mod 4 = 0" by (simp only: mod_mult_self1_is_0)
  moreover have "(b * 100 + d - 4799) mod 100 = 0 \<longrightarrow> (b * 100 + d - 4799) mod 400 = 0"
  proof
    assume z: "(b * 100 + d - 4799) mod 100 = 0"
    have "b * 100 + d - 4799 = (d + 1) + (b - 48) * 100" by simp
    with z have "(d + 1) mod 100 = 0" by (simp only: mod_mult_self1)
    then have "100 dvd d + 1" by (rule dvd_eq_mod_eq_0 [THEN iffD2])
    then have "100 \<le> d + 1" using assms(1) by (intro zdvd_imp_le) simp_all
    then have "d = 99" using assms(2) by linarith
    with assms(4) have "b mod 4 = 3" by simp
    with mult_div_mod_eq [of 4 b] \<open>d = 99\<close> have "b * 100 + d - 4799 = 400 * (b div 4 - 11)" by simp
    then show "(b * 100 + d - 4799) mod 400 = 0" by (simp only: mod_mult_self1_is_0)
  qed
  ultimately show ?thesis by (auto simp: leap_year_def)
qed

lemma jdn_of_ymd:
  assumes "- 32044 \<le> jdn"
  defines "ymd \<equiv> getYearMonthDay jdn"
  shows "getJulianDayNumber (ymd_year ymd) (ymd_month ymd) (ymd_day ymd) = jdn"
    and "calendar_date (ymd_year ymd) (ymd_month ymd) (ymd_day ymd)"
proof -
  have "0 \<le> jdn + 32044" using assms(1) by simp
  from march_decomposition [OF this] obtain b d e
    where a: "jdn + 32044 = (146097 * b) div 4 + (1461 * d) div 4 + e"
      and r: "0 \<le> b" "0 \<le> d" "d < 100" "0 \<le> e" "e \<le> 365"
        "e = 365 \<longrightarrow> d mod 4 = 3 \<and> (d = 99 \<longrightarrow> b mod 4 = 3)" .
  have jdn: "jdn = march_jdn b d e" using a by (simp add: march_jdn_def)
  define m where "m = (5 * e + 2) div 153"
  note mr = month_index_range [OF r(4,5) m_def]
  have ymd: "ymd = \<lparr>ymd_year = b * 100 + d - 4800 + m div 10, ymd_month = m + 3 - 12 * (m div 10),
                    ymd_day = e - month_start m + 1\<rparr>"
    using getYearMonthDay_march [OF r m_def] by (simp add: ymd_def jdn month_start_def)
  have m10: "m div 10 = (if m < 10 then 0 else 1)" using div10_month mr by blast
  have mon: "1 \<le> ymd_month ymd" "ymd_month ymd \<le> 12" and mm: "march_month (ymd_month ymd) = m"
    using mr by (simp_all add: ymd m10 march_month_def)
  have my: "march_year (ymd_year ymd) (ymd_month ymd) = b * 100 + d"
    using mr by (simp add: ymd m10 march_year_def)
  have "(b * 100 + d) div 100 = b" "(b * 100 + d) mod 100 = d" using r by simp_all
  moreover have "0 \<le> b * 100 + d" using r by simp
  ultimately show "getJulianDayNumber (ymd_year ymd) (ymd_month ymd) (ymd_day ymd) = jdn"
    using getJulianDayNumber_parts [OF mon] by (simp add: my mm jdn) (simp add: ymd)
  show "calendar_date (ymd_year ymd) (ymd_month ymd) (ymd_day ymd)"
  proof (cases "ymd_month ymd = 2")
    case True
    then have "m = 11" using mr by (simp add: ymd m10 split: if_splits)
    then show ?thesis
      using mr r feb_29_leap [of d b]
      by (auto simp: calendar_date_def ymd days_in_month_def month_start_def)
  next
    case False
    with days_in_month_march [OF mon False] mon mm mr show ?thesis
      by (simp add: calendar_date_def) (simp add: ymd)
  qed
qed

section \<open>The successor of a date\<close>

lemma div_add_one:
  assumes "0 < (n::int)"
  shows "(y + 1) div n = y div n + (if (y + 1) mod n = 0 then 1 else 0)"
proof -
  have yr: "y = n * (y div n) + y mod n" "0 \<le> y mod n" "y mod n < n" using assms by simp_all
  show ?thesis
  proof (cases "y mod n = n - 1")
    case True
    then have "y + 1 = n * (y div n + 1)" using yr(1) by (simp add: distrib_left)
    then have "(y + 1) div n = y div n + 1" "(y + 1) mod n = 0" using assms by simp_all
    then show ?thesis by simp
  next
    case False
    then have lt: "y mod n + 1 < n" using yr by linarith
    have q: "(y + 1) div n = y div n"
      using yr lt by (intro int_div_pos_eq [where r = "y mod n + 1"]) auto
    have "(y + 1) mod n = y mod n + 1"
      using yr lt by (intro int_mod_pos_eq [where q = "y div n"]) auto
    with q yr show ?thesis by simp
  qed
qed

definition year_days :: "int \<Rightarrow> int" where
  "year_days y = y * 365 + y div 4 - y div 100 + y div 400"

lemma march_jdn_year_days:
  "march_jdn (y div 100) (y mod 100) e = year_days y + e - 32044"
  using leap_days_split [of y] by (simp add: march_jdn_def year_days_def)

lemma leap_year_shift: "leap_year (x - 4800) \<longleftrightarrow> leap_year x"
proof -
  have "(x + (- 1200) * 4) mod 4 = x mod 4" "(x + (- 48) * 100) mod 100 = x mod 100"
    "(x + (- 12) * 400) mod 400 = x mod 400" by (rule mod_mult_self1)+
  then show ?thesis by (simp add: leap_year_def)
qed

lemma mod_400_100: "x mod 400 = 0 \<Longrightarrow> x mod 100 = (0::int)"
  using mod_mod_cancel [of 100 400 x] by simp

lemma mod_100_4: "x mod 100 = 0 \<Longrightarrow> x mod 4 = (0::int)"
  using mod_mod_cancel [of 4 100 x] by simp

lemma year_days_Suc: "year_days (y + 1) = year_days y + 365 + (if leap_year (y - 4799) then 1 else 0)"
proof -
  define p4 p100 p400 where "p4 \<longleftrightarrow> (y + 1) mod 4 = 0" and "p100 \<longleftrightarrow> (y + 1) mod 100 = 0"
    and "p400 \<longleftrightarrow> (y + 1) mod 400 = 0"
  have sub: "p400 \<Longrightarrow> p100" "p100 \<Longrightarrow> p4"
    unfolding p4_def p100_def p400_def by (rule mod_400_100, assumption, rule mod_100_4, assumption)
  have div: "(y + 1) div 4 = y div 4 + (if p4 then 1 else 0)"
    "(y + 1) div 100 = y div 100 + (if p100 then 1 else 0)"
    "(y + 1) div 400 = y div 400 + (if p400 then 1 else 0)"
    unfolding p4_def p100_def p400_def by (rule div_add_one, simp)+
  have "leap_year (y - 4799) \<longleftrightarrow> p4 \<and> (\<not> p100 \<or> p400)"
    using leap_year_shift [of "y + 1"] by (simp add: leap_year_def p4_def p100_def p400_def)
  moreover obtain a b c where "a = y div 4" "b = y div 100" "c = y div 400" by blast
  ultimately have "year_days (y + 1) = (y + 1) * 365 + (a + (if p4 then 1 else 0))
        - (b + (if p100 then 1 else 0)) + (c + (if p400 then 1 else 0))"
    and "year_days y = y * 365 + a - b + c" and "leap_year (y - 4799) \<longleftrightarrow> p4 \<and> (\<not> p100 \<or> p400)"
    by (simp_all only: year_days_def div)
  with sub show ?thesis by (cases p4; cases p100; cases p400) simp_all
qed

lemma getJulianDayNumber_year_days:
  assumes "1 \<le> month" "month \<le> 12" "0 \<le> march_year year month"
  shows "getJulianDayNumber year month day =
           year_days (march_year year month) + month_start (march_month month) + day - 32045"
  using getJulianDayNumber_parts [OF assms] by (simp add: march_jdn_year_days)

lemma getJulianDayNumber_next_month:
  assumes m: "1 \<le> month" "month < 12" and y: "0 \<le> march_year year month"
  shows "getJulianDayNumber year (month + 1) 1
         = getJulianDayNumber year month (days_in_month year month) + 1"
proof (cases "month = 2")
  case True
  have *: "march_year year 3 = march_year year 2 + 1" by (simp add: march_year_def)
  have "0 \<le> march_year year 3" using y True by (simp add: march_year_def)
  then show ?thesis
    using True y year_days_Suc [of "march_year year 2"]
    by (simp add: getJulianDayNumber_year_days * days_in_month_def march_month_def month_start_def)
      (simp add: march_year_def)
next
  case False
  have "march_year year (month + 1) = march_year year month"
    and "march_month (month + 1) = march_month month + 1"
    using False m by (simp_all add: march_year_def march_month_def)
  with y m False show ?thesis
    by (simp add: getJulianDayNumber_year_days days_in_month_march)
qed

lemma getJulianDayNumber_next_year:
  assumes "0 \<le> march_year year 12"
  shows "getJulianDayNumber (year + 1) 1 1 = getJulianDayNumber year 12 31 + 1"
proof -
  have "march_year (year + 1) 1 = march_year year 12" by (simp add: march_year_def)
  then show ?thesis
    using assms by (simp add: getJulianDayNumber_year_days march_month_def month_start_def)
qed

section \<open>Properties\<close>

text \<open>
  The two conversions of \<^verbatim>\<open>Date.cc\<close> are inverse to each other: from the year -4799 on, every
  date of the Gregorian calendar is recovered from its Julian day number, and every day
  number from -32044 on is the number of the calendar date computed from it.
\<close>

theorem Date_round_trip:
  "(calendar_date y m d \<and> - 4799 \<le> y \<longrightarrow>
      yearMonthDay (Date_ymd y m d) = \<lparr>ymd_year = y, ymd_month = m, ymd_day = d\<rparr>)
   \<and> (- 32044 \<le> jdn \<longrightarrow>
      Date_ymd (Date_year (Date jdn)) (Date_month (Date jdn)) (Date_day (Date jdn)) = Date jdn
      \<and> calendar_date (Date_year (Date jdn)) (Date_month (Date jdn)) (Date_day (Date jdn)))"
proof (intro conjI impI)
  assume "calendar_date y m d \<and> - 4799 \<le> y"
  then show "yearMonthDay (Date_ymd y m d) = \<lparr>ymd_year = y, ymd_month = m, ymd_day = d\<rparr>"
    by (simp add: yearMonthDay_def Date_ymd_def ymd_of_jdn march_year_def)
next
  assume j: "- 32044 \<le> jdn"
  show "Date_ymd (Date_year (Date jdn)) (Date_month (Date jdn)) (Date_day (Date jdn)) = Date jdn"
    using jdn_of_ymd(1) [OF j]
    by (simp add: Date_ymd_def Date_year_def Date_month_def Date_day_def yearMonthDay_def)
  show "calendar_date (Date_year (Date jdn)) (Date_month (Date jdn)) (Date_day (Date jdn))"
    using jdn_of_ymd(2) [OF j]
    by (simp add: Date_year_def Date_month_def Date_day_def yearMonthDay_def)
qed

theorem Date_round_trip_witness:
  "yearMonthDay (Date_ymd 2000 2 29) = \<lparr>ymd_year = 2000, ymd_month = 2, ymd_day = 29\<rparr>
   \<and> Date_ymd (Date_year (Date 2440588)) (Date_month (Date 2440588)) (Date_day (Date 2440588))
     = Date 2440588"
  using Date_round_trip [of 2000 2 29 2440588]
  by (simp add: calendar_date_def days_in_month_def leap_year_def)

text \<open>
  Julian day numbers count days: 1 January 1970 has the number 2440588, the day after a
  calendar date has the next number (across ends of months, leap days and ends of
  years), and the day of the week moves on by one, modulo 7.
\<close>

theorem Date_successor:
  assumes "calendar_date y m d" and "- 4799 \<le> y"
  shows "kJulianDayOf1970_01_01 = 2440588
    \<and> (case next_day y m d of (y', m', d') \<Rightarrow>
          julianDayNumber (Date_ymd y' m' d') = julianDayNumber (Date_ymd y m d) + 1
          \<and> (0 \<le> julianDayNumber (Date_ymd y m d) \<longrightarrow>
             weekDay (Date_ymd y' m' d') = (weekDay (Date_ymd y m d) + 1) mod kDaysPerWeek))"
proof -
  have m: "1 \<le> m" "m \<le> 12" "1 \<le> d" "d \<le> days_in_month y m"
    using assms(1) by (auto simp: calendar_date_def)
  have y: "0 \<le> march_year y m" using assms(2) by (simp add: march_year_def)
  obtain y' m' d' where nd: "next_day y m d = (y', m', d')" by (cases "next_day y m d")
  have jd: "getJulianDayNumber y' m' d' = getJulianDayNumber y m d + 1"
  proof (cases "d < days_in_month y m")
    case True
    with nd m y show ?thesis
      by (auto simp: next_day_def getJulianDayNumber_year_days)
  next
    case False
    with m have "d = days_in_month y m" by simp
    with nd m y show ?thesis
      using getJulianDayNumber_next_month [of m y] getJulianDayNumber_next_year [of y]
      by (cases "m < 12") (auto simp: next_day_def days_in_month_def)
  qed
  have "(x + 1 + 1) mod 7 = ((x + 1) mod 7 + 1) mod (7::int)" for x by (simp add: mod_add_left_eq)
  with nd jd show ?thesis
    by (simp add: Date_ymd_def weekDay_def kDaysPerWeek_def smod_nonneg kJulianDayOf1970_01_01_def)
      (simp add: getJulianDayNumber_def)
qed

theorem Date_successor_witness:
  "julianDayNumber (Date_ymd 2001 1 1) = julianDayNumber (Date_ymd 2000 12 31) + 1"
  using Date_successor [of 2000 12 31]
  by (simp add: calendar_date_def days_in_month_def next_day_def)

end
