(* ===== verification/Timestamp.thy ===== *)
theory Timestamp
  imports Complex_Main Date
begin

text \<open>
  \<^verbatim>\<open>muduo/datetime/Timestamp.h\<close> and \<^verbatim>\<open>Timestamp.cc\<close>: points in time in microseconds since the
  Epoch. The wall clock (\<open>gettimeofday\<close>) is an argument of \<open>Timestamp_now\<close>. A C++ \<open>double\<close> is a
  rational number here, and the rounded product \<open>seconds * kMicroSecondsPerSecond\<close>
  truncated to \<open>int64_t\<close> is an argument of \<open>addTime\<close>.
\<close>

section \<open>The class\<close>

datatype timestamp = Timestamp (microSecondsSinceEpoch: int)

type_synonym double = rat

definition kMicroSecondsPerSecond :: int where
  "kMicroSecondsPerSecond = 1000 * 1000"

definition Timestamp_default :: timestamp where
  "Timestamp_default = Timestamp 0"

definition Timestamp_invalid :: timestamp where
  "Timestamp_invalid = Timestamp_default"

definition Timestamp_swap :: "timestamp \<Rightarrow> timestamp \<Rightarrow> timestamp \<times> timestamp" where
  "Timestamp_swap this that =
     (Timestamp (microSecondsSinceEpoch that), Timestamp (microSecondsSinceEpoch this))"

definition Timestamp_valid :: "timestamp \<Rightarrow> bool" where
  "Timestamp_valid t \<longleftrightarrow> microSecondsSinceEpoch t > 0"

text \<open>\<open>tv_sec\<close> and \<open>tv_usec\<close> of \<open>gettimeofday\<close>.\<close>

definition Timestamp_now :: "int \<times> int \<Rightarrow> timestamp" where
  "Timestamp_now tv = Timestamp (fst tv * kMicroSecondsPerSecond + snd tv)"

definition addTime :: "(double \<Rightarrow> int) \<Rightarrow> timestamp \<Rightarrow> double \<Rightarrow> timestamp" where
  "addTime toMicros t secs = Timestamp (microSecondsSinceEpoch t + toMicros secs)"

text \<open>\<open>rnd\<close> is the rounding of a quotient to the nearest \<open>double\<close>.\<close>

definition timeDifference :: "(rat \<Rightarrow> double) \<Rightarrow> timestamp \<Rightarrow> timestamp \<Rightarrow> double" where
  "timeDifference rnd high low =
     (let diff = microSecondsSinceEpoch high - microSecondsSinceEpoch low
      in rnd (rnd (of_int diff) / of_int kMicroSecondsPerSecond))"

definition Timestamp_toString :: "timestamp \<Rightarrow> string" where
  "Timestamp_toString t =
     (let secs = microSecondsSinceEpoch t sdiv kMicroSecondsPerSecond;
          micros = microSecondsSinceEpoch t smod kMicroSecondsPerSecond
      in fst (snprintf 31 (dec_int secs @ ''.'' @ fmt_0d 6 micros)))"

text \<open>
  \<open>struct tm\<close> and \<open>gmtime_r(3)\<close>: the broken-down time, in the Gregorian calendar, of a number of
  seconds since the Epoch.
\<close>

record tm =
  tm_sec :: int
  tm_min :: int
  tm_hour :: int
  tm_mday :: int
  tm_mon :: int
  tm_year :: int
  tm_wday :: int
  tm_yday :: int
  tm_isdst :: int
  tm_gmtoff :: int
  tm_zone :: string

definition gmtime_r :: "int \<Rightarrow> tm" where
  "gmtime_r secs =
     (let dayno = secs div 86400; rest = secs mod 86400;
          ymd = getYearMonthDay (dayno + kJulianDayOf1970_01_01)
      in \<lparr>tm_sec = rest mod 60, tm_min = rest div 60 mod 60, tm_hour = rest div 3600,
          tm_mday = ymd_day ymd, tm_mon = ymd_month ymd - 1, tm_year = ymd_year ymd - 1900,
          tm_wday = (dayno + 4) mod 7,
          tm_yday = dayno + kJulianDayOf1970_01_01 - getJulianDayNumber (ymd_year ymd) 1 1,
          tm_isdst = 0, tm_gmtoff = 0, tm_zone = ''GMT''\<rparr>)"

text \<open>The constructor of \<^verbatim>\<open>Date.cc\<close> from a broken-down time.\<close>

definition Date_tm :: "tm \<Rightarrow> date" where
  "Date_tm t = Date (getJulianDayNumber (tm_year t + 1900) (tm_mon t + 1) (tm_mday t))"

definition Timestamp_toFormattedString :: "timestamp \<Rightarrow> string" where
  "Timestamp_toFormattedString t =
     (let secs = microSecondsSinceEpoch t sdiv kMicroSecondsPerSecond;
          micros = microSecondsSinceEpoch t smod kMicroSecondsPerSecond;
          tt = gmtime_r secs
      in fst (snprintf 64
           (fmt_d 4 (tm_year tt + 1900) @ fmt_0d 2 (tm_mon tt + 1) @ fmt_0d 2 (tm_mday tt) @ '' ''
            @ fmt_0d 2 (tm_hour tt) @ '':'' @ fmt_0d 2 (tm_min tt) @ '':'' @ fmt_0d 2 (tm_sec tt)
            @ ''.'' @ fmt_0d 6 micros)))"

text \<open>The comparison operators of \<^verbatim>\<open>Timestamp.h\<close>; they make the type a linear order.\<close>

definition Timestamp_less :: "timestamp \<Rightarrow> timestamp \<Rightarrow> bool" where
  "Timestamp_less lhs rhs \<longleftrightarrow> microSecondsSinceEpoch lhs < microSecondsSinceEpoch rhs"

definition Timestamp_equal :: "timestamp \<Rightarrow> timestamp \<Rightarrow> bool" where
  "Timestamp_equal lhs rhs \<longleftrightarrow> microSecondsSinceEpoch lhs = microSecondsSinceEpoch rhs"

lemma Timestamp_equal_eq: "Timestamp_equal lhs rhs \<longleftrightarrow> lhs = rhs"
  by (cases lhs; cases rhs) (simp add: Timestamp_equal_def)

instantiation timestamp :: linorder
begin

definition less_timestamp :: "timestamp \<Rightarrow> timestamp \<Rightarrow> bool" where
  "less_timestamp = Timestamp_less"

definition less_eq_timestamp :: "timestamp \<Rightarrow> timestamp \<Rightarrow> bool" where
  "less_eq_timestamp lhs rhs \<longleftrightarrow> Timestamp_less lhs rhs \<or> Timestamp_equal lhs rhs"

instance
  by intro_classes (auto simp: less_timestamp_def less_eq_timestamp_def Timestamp_less_def Timestamp_equal_def timestamp.expand)

end

lemma less_timestamp_iff: "lhs < rhs \<longleftrightarrow> microSecondsSinceEpoch lhs < microSecondsSinceEpoch rhs" for lhs rhs :: timestamp
  by (simp add: less_timestamp_def Timestamp_less_def)

lemma less_eq_timestamp_iff: "lhs \<le> rhs \<longleftrightarrow> microSecondsSinceEpoch lhs \<le> microSecondsSinceEpoch rhs" for lhs rhs :: timestamp
  by (auto simp: less_eq_timestamp_def Timestamp_less_def Timestamp_equal_def)

section \<open>The printed form\<close>

lemma Timestamp_toString_eq:
  assumes "0 \<le> u" and "u < 2 ^ 63"
  shows "Timestamp_toString (Timestamp u)
         = dec_nat (nat (u div 1000000)) @ ''.'' @ fmt_0d 6 (u mod 1000000)"
proof -
  have "nat (u div 1000000) < 10 ^ 13" using assms by simp
  then have "length (dec_nat (nat (u div 1000000))) \<le> 13" by (intro length_dec_nat_le) simp_all
  moreover have "length (fmt_0d 6 (u mod 1000000)) = 6"
    by (intro length_fmt_0d) simp_all
  ultimately show ?thesis
    using assms(1)
    by (simp add: Timestamp_toString_def snprintf_def kMicroSecondsPerSecond_def Let_def sdiv_nonneg
        smod_nonneg dec_int_def pos_imp_zdiv_neg_iff)
qed

text \<open>Reading the text back: the digits before the point, then six digits.\<close>

definition parse_timestamp :: "string \<Rightarrow> int" where
  "parse_timestamp s =
     int (val_nat (takeWhile is_digit s)) * 1000000
     + int (val_nat (drop 1 (dropWhile is_digit s)))"

section \<open>Properties\<close>

text \<open>
  For every time stamp from the Epoch on, \<open>toString\<close> prints the seconds, a point and exactly
  six digits of microseconds without truncation, so the text determines the time stamp.
\<close>

theorem Timestamp_toString_round_trip:
  assumes "0 \<le> microSecondsSinceEpoch t" and "microSecondsSinceEpoch t < 2 ^ 63"
  shows "Timestamp (parse_timestamp (Timestamp_toString t)) = t"
proof -
  let ?u = "microSecondsSinceEpoch t"
  define a b where "a = dec_nat (nat (?u div 1000000))" and "b = fmt_0d 6 (?u mod 1000000)"
  have pr: "Timestamp_toString t = a @ CHR ''.'' # b"
    using Timestamp_toString_eq [OF assms] by (simp add: a_def b_def)
  have dig: "\<forall>c \<in> set a. is_digit c" unfolding a_def using dec_nat_digits by blast
  have "\<not> is_digit (CHR ''.'')" by (simp add: is_digit_def)
  with dig have "takeWhile is_digit (a @ CHR ''.'' # b) = a"
    and "dropWhile is_digit (a @ CHR ''.'' # b) = CHR ''.'' # b"
    by (simp_all add: takeWhile_tail dropWhile_append3)
  moreover have "int (val_nat a) = ?u div 1000000" "int (val_nat b) = ?u mod 1000000"
    using assms(1) by (simp_all add: a_def b_def val_nat_fmt_0d)
  ultimately have "parse_timestamp (Timestamp_toString t) = ?u"
    unfolding pr parse_timestamp_def by simp
  then show ?thesis by simp
qed

theorem Timestamp_toString_round_trip_witness:
  "Timestamp (parse_timestamp (Timestamp_toString (Timestamp 1234567890000042))) = Timestamp 1234567890000042"
  using Timestamp_toString_round_trip [of "Timestamp 1234567890000042"] by simp

end
