(* ===== verification/Channel.thy ===== *)
theory Channel
  imports Timestamp
begin

text \<open>
  \<^verbatim>\<open>muduo/Channel.h\<close> and \<^verbatim>\<open>Channel.cpp\<close>: a channel binds a file descriptor to the events a loop
  watches and to the callbacks that handle them. Channels live in a store indexed by
  their addresses; a callback is a value of the type variable \<open>'cb\<close> that a loop knows how to
  execute. \<open>int\<close> bit masks are 32-bit words.
\<close>

unbundle bit_operations_syntax

section \<open>The class\<close>

definition POLLIN :: "32 word" where "POLLIN = 0x001"
definition POLLPRI :: "32 word" where "POLLPRI = 0x002"
definition POLLOUT :: "32 word" where "POLLOUT = 0x004"
definition POLLERR :: "32 word" where "POLLERR = 0x008"
definition POLLHUP :: "32 word" where "POLLHUP = 0x010"
definition POLLNVAL :: "32 word" where "POLLNVAL = 0x020"
definition POLLRDHUP :: "32 word" where "POLLRDHUP = 0x2000"

definition kNoneEvent :: "32 word" where "kNoneEvent = 0"
definition kReadEvent :: "32 word" where "kReadEvent = POLLIN OR POLLPRI"
definition kWriteEvent :: "32 word" where "kWriteEvent = POLLOUT"

lemmas poll_bits = POLLIN_def POLLPRI_def POLLOUT_def POLLERR_def POLLHUP_def POLLNVAL_def
  POLLRDHUP_def kNoneEvent_def kReadEvent_def kWriteEvent_def

record 'cb channel =
  readCallback :: "'cb option"
  writeCallback :: "'cb option"
  errorCallback :: "'cb option"
  closeCallback :: "'cb option"
  eventHandling :: bool
  ownerLoop :: nat
  ch_fd :: int
  ch_events :: "32 word"
  ch_revents :: "32 word"
  ch_index :: int

definition Channel_new :: "nat \<Rightarrow> int \<Rightarrow> 'cb channel" where
  "Channel_new loop fd =
     \<lparr>readCallback = None, writeCallback = None, errorCallback = None, closeCallback = None,
      eventHandling = False, ownerLoop = loop, ch_fd = fd, ch_events = 0, ch_revents = 0,
      ch_index = -1\<rparr>"

definition setReadCallback :: "'cb \<Rightarrow> 'cb channel \<Rightarrow> 'cb channel" where
  "setReadCallback cb ch = ch\<lparr>readCallback := Some cb\<rparr>"

definition setWriteCallback :: "'cb \<Rightarrow> 'cb channel \<Rightarrow> 'cb channel" where
  "setWriteCallback cb ch = ch\<lparr>writeCallback := Some cb\<rparr>"

definition setErrorCallback :: "'cb \<Rightarrow> 'cb channel \<Rightarrow> 'cb channel" where
  "setErrorCallback cb ch = ch\<lparr>errorCallback := Some cb\<rparr>"

definition setCloseCallback :: "'cb \<Rightarrow> 'cb channel \<Rightarrow> 'cb channel" where
  "setCloseCallback cb ch = ch\<lparr>closeCallback := Some cb\<rparr>"

definition isNoneEvent :: "'cb channel \<Rightarrow> bool" where
  "isNoneEvent ch \<longleftrightarrow> ch_events ch = kNoneEvent"

definition isWriting :: "'cb channel \<Rightarrow> bool" where
  "isWriting ch \<longleftrightarrow> ch_events ch AND kWriteEvent \<noteq> 0"

section \<open>The store of channels and the thread that runs\<close>

text \<open>
  \<open>loopId\<close> and \<open>threadId\<close> are the identity and the thread of the \<open>EventLoop\<close> whose state this is;
  \<open>currentTid\<close> is \<open>CurrentThread::tid()\<close> of the code that runs now.
\<close>

record loop_ctx =
  loopId :: nat
  threadId :: int
  currentTid :: int

record 'cb chan_world = loop_ctx +
  chans :: "nat \<Rightarrow> 'cb channel option"

definition isInLoopThread :: "'m loop_ctx_scheme \<Rightarrow> bool" where
  "isInLoopThread s \<longleftrightarrow> threadId s = currentTid s"

text \<open>\<open>assertInLoopThread\<close> ends in \<open>LOG_FATAL\<close> when another thread calls it.\<close>

definition assertInLoopThread :: "'m loop_ctx_scheme \<Rightarrow> 'a result \<Rightarrow> 'a result" where
  "assertInLoopThread s r = (if isInLoopThread s then r else Inl FatalLogged)"

definition upd_chan :: "nat \<Rightarrow> ('cb channel \<Rightarrow> 'cb channel) \<Rightarrow> ('cb, 'm) chan_world_scheme
    \<Rightarrow> ('cb, 'm) chan_world_scheme" where
  "upd_chan c f s = s\<lparr>chans := (chans s)(c := map_option f (chans s c))\<rparr>"

definition setRevents :: "nat \<Rightarrow> 32 word \<Rightarrow> ('cb, 'm) chan_world_scheme
    \<Rightarrow> ('cb, 'm) chan_world_scheme result" where
  "setRevents c r s = bindR (derefR (chans s) c) (\<lambda>_. Inr (upd_chan c (\<lambda>ch. ch\<lparr>ch_revents := r\<rparr>) s))"

definition setIndex :: "nat \<Rightarrow> int \<Rightarrow> ('cb, 'm) chan_world_scheme
    \<Rightarrow> ('cb, 'm) chan_world_scheme result" where
  "setIndex c i s = bindR (derefR (chans s) c) (\<lambda>_. Inr (upd_chan c (\<lambda>ch. ch\<lparr>ch_index := i\<rparr>) s))"

text \<open>\<open>Channel::~Channel\<close>: the channel must not be inside \<open>handleEvent\<close>.\<close>

definition Channel_delete :: "nat \<Rightarrow> ('cb, 'm) chan_world_scheme
    \<Rightarrow> ('cb, 'm) chan_world_scheme result" where
  "Channel_delete c s =
     bindR (derefR (chans s) c)
       (\<lambda>ch. assertR (\<not> eventHandling ch) (Inr (s\<lparr>chans := (chans s)(c := None)\<rparr>)))"

lemma chans_upd_chan: "chans (upd_chan c f s) = (chans s)(c := map_option f (chans s c))"
  by (simp add: upd_chan_def)

lemma upd_chan_ctx [simp]:
  "loopId (upd_chan c f s) = loopId s" "threadId (upd_chan c f s) = threadId s"
  "currentTid (upd_chan c f s) = currentTid s" "isInLoopThread (upd_chan c f s) = isInLoopThread s"
  by (simp_all add: upd_chan_def isInLoopThread_def)

section \<open>handleEvent\<close>

text \<open>
  \<open>exec cb t s\<close> runs a callback in the state \<open>s\<close>; read callbacks get the receive time. Each of the
  four tests of \<open>handleEvent\<close> reads the channel's fields when it is reached.
\<close>

definition invoke :: "('cb \<Rightarrow> timestamp \<Rightarrow> ('cb, 'm) chan_world_scheme \<Rightarrow> ('cb, 'm) chan_world_scheme result)
    \<Rightarrow> nat \<Rightarrow> timestamp \<Rightarrow> (32 word \<Rightarrow> bool) \<Rightarrow> ('cb channel \<Rightarrow> 'cb option)
    \<Rightarrow> ('cb, 'm) chan_world_scheme \<Rightarrow> ('cb, 'm) chan_world_scheme result" where
  "invoke exec c t test slot s =
     bindR (derefR (chans s) c)
       (\<lambda>ch. if test (ch_revents ch)
             then (case slot ch of None \<Rightarrow> Inr s | Some cb \<Rightarrow> exec cb t s)
             else Inr s)"

definition closeTest :: "32 word \<Rightarrow> bool" where
  "closeTest r \<longleftrightarrow> r AND POLLHUP \<noteq> 0 \<and> r AND POLLIN = 0"

definition errorTest :: "32 word \<Rightarrow> bool" where
  "errorTest r \<longleftrightarrow> r AND (POLLERR OR POLLNVAL) \<noteq> 0"

definition readTest :: "32 word \<Rightarrow> bool" where
  "readTest r \<longleftrightarrow> r AND (POLLIN OR POLLPRI OR POLLRDHUP) \<noteq> 0"

definition writeTest :: "32 word \<Rightarrow> bool" where
  "writeTest r \<longleftrightarrow> r AND POLLOUT \<noteq> 0"

definition setEventHandling :: "nat \<Rightarrow> bool \<Rightarrow> ('cb, 'm) chan_world_scheme
    \<Rightarrow> ('cb, 'm) chan_world_scheme result" where
  "setEventHandling c b s =
     bindR (derefR (chans s) c) (\<lambda>_. Inr (upd_chan c (\<lambda>ch. ch\<lparr>eventHandling := b\<rparr>) s))"

definition handleEvent :: "('cb \<Rightarrow> timestamp \<Rightarrow> ('cb, 'm) chan_world_scheme \<Rightarrow> ('cb, 'm) chan_world_scheme result)
    \<Rightarrow> nat \<Rightarrow> timestamp \<Rightarrow> ('cb, 'm) chan_world_scheme \<Rightarrow> ('cb, 'm) chan_world_scheme result" where
  "handleEvent exec c t s =
     bindR (setEventHandling c True s) (\<lambda>s1.
     bindR (invoke exec c t closeTest closeCallback s1) (\<lambda>s2.
     bindR (invoke exec c t errorTest errorCallback s2) (\<lambda>s3.
     bindR (invoke exec c t readTest readCallback s3) (\<lambda>s4.
     bindR (invoke exec c t writeTest writeCallback s4) (\<lambda>s5.
     setEventHandling c False s5)))))"

text \<open>Reference: the callbacks an event mask selects, in order.\<close>

definition dispatch :: "'cb channel \<Rightarrow> 'cb list" where
  "dispatch ch =
     (let r = ch_revents ch;
          pick = (\<lambda>b cb. if b then (case cb of None \<Rightarrow> [] | Some x \<Rightarrow> [x]) else [])
      in pick (r AND POLLHUP \<noteq> 0 \<and> r AND POLLIN = 0) (closeCallback ch)
         @ pick (r AND POLLERR \<noteq> 0 \<or> r AND POLLNVAL \<noteq> 0) (errorCallback ch)
         @ pick (r AND POLLIN \<noteq> 0 \<or> r AND POLLPRI \<noteq> 0 \<or> r AND POLLRDHUP \<noteq> 0) (readCallback ch)
         @ pick (r AND POLLOUT \<noteq> 0) (writeCallback ch))"

text \<open>A callback that leaves the slots and the result mask of channel \<open>c\<close> alone.\<close>

definition same_slots :: "'cb channel \<Rightarrow> 'cb channel \<Rightarrow> bool" where
  "same_slots ch ch' \<longleftrightarrow> closeCallback ch' = closeCallback ch \<and> errorCallback ch' = errorCallback ch
     \<and> readCallback ch' = readCallback ch \<and> writeCallback ch' = writeCallback ch
     \<and> ch_revents ch' = ch_revents ch"

definition keeps_slots :: "nat \<Rightarrow> (('cb, 'm) chan_world_scheme \<Rightarrow> ('cb, 'm) chan_world_scheme result) \<Rightarrow> bool" where
  "keeps_slots c f \<longleftrightarrow>
     (\<forall>s s' ch. f s = Inr s' \<longrightarrow> chans s c = Some ch \<longrightarrow>
        (\<exists>ch'. chans s' c = Some ch' \<and> same_slots ch ch'))"

definition selected :: "(32 word \<Rightarrow> bool) \<Rightarrow> ('cb channel \<Rightarrow> 'cb option) \<Rightarrow> 'cb channel \<Rightarrow> 'cb list" where
  "selected test slot ch = (if test (ch_revents ch) then (case slot ch of None \<Rightarrow> [] | Some x \<Rightarrow> [x]) else [])"

lemma word_and_or_neq_0: "(r::32 word) AND (a OR b) \<noteq> 0 \<longleftrightarrow> r AND a \<noteq> 0 \<or> r AND b \<noteq> 0"
  by (simp add: bit.conj_disj_distrib or_eq_0_iff)

lemma dispatch_selected:
  "dispatch ch = selected closeTest closeCallback ch @ selected errorTest errorCallback ch
     @ selected readTest readCallback ch @ selected writeTest writeCallback ch"
  by (simp add: dispatch_def selected_def closeTest_def errorTest_def readTest_def writeTest_def Let_def
      word_and_or_neq_0 disj_assoc)

lemma invoke_selected:
  assumes "chans s c = Some ch" and "ch_revents ch = ch_revents ch0" and "slot ch = slot ch0"
  shows "invoke exec c t test slot s = foldR (\<lambda>cb. exec cb t) (selected test slot ch0) s"
  using assms by (auto simp: invoke_def selected_def bindR_def split: option.splits sum.splits)

lemma foldR_keeps_slots:
  assumes "\<forall>cb \<in> set cbs. keeps_slots c (exec cb t)" and "foldR (\<lambda>cb. exec cb t) cbs s = Inr s'"
    and "chans s c = Some ch" and "same_slots ch0 ch"
  shows "\<exists>ch'. chans s' c = Some ch' \<and> same_slots ch0 ch'"
proof -
  have "\<exists>ch. chans s c = Some ch \<and> same_slots ch0 ch" using assms(3,4) by blast
  then show ?thesis
  proof (rule foldR_invariant [rotated, OF _ assms(2)])
    fix cb s s'
    assume "cb \<in> set cbs" "\<exists>ch. chans s c = Some ch \<and> same_slots ch0 ch" "exec cb t s = Inr s'"
    with assms(1) show "\<exists>ch. chans s' c = Some ch \<and> same_slots ch0 ch"
      by (fastforce simp: keeps_slots_def same_slots_def)
  qed
qed

lemma handleEvent_dispatch:
  assumes ch: "chans s c = Some ch"
    and keeps: "\<forall>cb \<in> set (dispatch ch). keeps_slots c (exec cb t)"
  shows "handleEvent exec c t s =
           bindR (setEventHandling c True s)
             (\<lambda>s1. bindR (foldR (\<lambda>cb. exec cb t) (dispatch ch) s1) (setEventHandling c False))"
proof -
  let ?run = "foldR (\<lambda>cb. exec cb t)"
  let ?P = "\<lambda>s. \<exists>ch'. chans s c = Some ch' \<and> same_slots ch ch'"
  let ?c = "selected closeTest closeCallback ch" and ?e = "selected errorTest errorCallback ch"
  let ?r = "selected readTest readCallback ch" and ?w = "selected writeTest writeCallback ch"
  have P1: "?P (upd_chan c (\<lambda>ch. ch\<lparr>eventHandling := True\<rparr>) s)"
    using ch by (simp add: chans_upd_chan same_slots_def)
  have kept: "?P s'" if "?P s0" "?run l s0 = Inr s'" "set l \<subseteq> set (dispatch ch)" for s0 s' l
    using that keeps foldR_keeps_slots [of l c exec t s0 s' _ ch] by blast
  have sub: "set ?c \<subseteq> set (dispatch ch)" "set ?e \<subseteq> set (dispatch ch)" "set ?r \<subseteq> set (dispatch ch)"
    by (auto simp: dispatch_selected)
  have inv: "invoke exec c t closeTest closeCallback s0 = ?run ?c s0"
    "invoke exec c t errorTest errorCallback s0 = ?run ?e s0"
    "invoke exec c t readTest readCallback s0 = ?run ?r s0"
    "invoke exec c t writeTest writeCallback s0 = ?run ?w s0" if "?P s0" for s0
    using that by (auto simp: same_slots_def intro!: invoke_selected)
  let ?F = "setEventHandling c False"
  have w: "bindR (invoke exec c t writeTest writeCallback x) ?F = bindR (?run ?w x) ?F" if "?P x" for x
    using inv(4) [OF that] by simp
  have r: "bindR (invoke exec c t readTest readCallback x)
             (\<lambda>y. bindR (invoke exec c t writeTest writeCallback y) ?F)
           = bindR (?run ?r x) (\<lambda>y. bindR (?run ?w y) ?F)" if "?P x" for x
    unfolding inv(3) [OF that] by (rule bindR_cong [OF refl w]) (rule kept [OF that _ sub(3)])
  have e: "bindR (invoke exec c t errorTest errorCallback x)
             (\<lambda>z. bindR (invoke exec c t readTest readCallback z)
             (\<lambda>y. bindR (invoke exec c t writeTest writeCallback y) ?F))
           = bindR (?run ?e x) (\<lambda>z. bindR (?run ?r z) (\<lambda>y. bindR (?run ?w y) ?F))" if "?P x" for x
    unfolding inv(2) [OF that] by (rule bindR_cong [OF refl r]) (rule kept [OF that _ sub(2)])
  have "handleEvent exec c t s = bindR (setEventHandling c True s)
      (\<lambda>s1. bindR (?run ?c s1) (\<lambda>x. bindR (?run ?e x) (\<lambda>z. bindR (?run ?r z) (\<lambda>y. bindR (?run ?w y) ?F))))"
    unfolding handleEvent_def
  proof (rule bindR_cong [OF refl])
    fix s1 assume "setEventHandling c True s = Inr s1"
    with ch P1 have P: "?P s1" by (auto simp: setEventHandling_def)
    show "bindR (invoke exec c t closeTest closeCallback s1) (\<lambda>s2.
        bindR (invoke exec c t errorTest errorCallback s2) (\<lambda>s3.
        bindR (invoke exec c t readTest readCallback s3) (\<lambda>s4.
        bindR (invoke exec c t writeTest writeCallback s4) ?F)))
      = bindR (?run ?c s1) (\<lambda>x. bindR (?run ?e x) (\<lambda>z. bindR (?run ?r z) (\<lambda>y. bindR (?run ?w y) ?F)))"
      unfolding inv(1) [OF P] by (rule bindR_cong [OF refl e]) (rule kept [OF P _ sub(1)])
  qed
  then show ?thesis by (simp only: dispatch_selected foldR_append bindR_assoc)
qed

section \<open>Properties\<close>

text \<open>
  \<open>handleEvent\<close> runs exactly the callbacks its event mask selects, in the order close
  (hang-up with nothing to read), error, read, write, skipping slots that are not set, and
  sets and clears \<open>eventHandling\<close> around them; this for callbacks that do not rewrite the
  channel's own slots or delete the channel.
\<close>

theorem handleEvent_runs_dispatch:
  assumes "chans s c = Some ch" and "\<forall>cb \<in> set (dispatch ch). keeps_slots c (exec cb t)"
  shows "handleEvent exec c t s =
           bindR (setEventHandling c True s)
             (\<lambda>s1. bindR (foldR (\<lambda>cb. exec cb t) (dispatch ch) s1) (setEventHandling c False))"
  using assms by (rule handleEvent_dispatch)

theorem handleEvent_runs_dispatch_witness:
  "handleEvent (\<lambda>cb t s. Inr (s\<lparr>currentTid := 10 * currentTid s + cb\<rparr>)) 0 (Timestamp 1)
     \<lparr>loopId = 0, threadId = 7, currentTid = 7,
      chans = [0 \<mapsto> (Channel_new 0 5)\<lparr>errorCallback := Some 1, readCallback := Some 2,
                     writeCallback := Some 3, ch_revents := POLLERR OR POLLOUT\<rparr>]\<rparr>
   = Inr \<lparr>loopId = 0, threadId = 7, currentTid = 713,
      chans = [0 \<mapsto> (Channel_new 0 5)\<lparr>errorCallback := Some 1, readCallback := Some 2,
                     writeCallback := Some 3, ch_revents := POLLERR OR POLLOUT\<rparr>]\<rparr>"
  (is "handleEvent ?exec 0 ?t ?s = _")
proof -
  let ?ch = "(Channel_new 0 5)\<lparr>errorCallback := Some 1, readCallback := Some 2,
                     writeCallback := Some 3, ch_revents := POLLERR OR POLLOUT\<rparr>"
  have "\<forall>cb \<in> set (dispatch ?ch). keeps_slots 0 (?exec cb ?t)"
    by (auto simp: keeps_slots_def same_slots_def)
  from handleEvent_runs_dispatch [of ?s 0 ?ch, OF _ this] show ?thesis
    by (simp add: dispatch_def Let_def poll_bits setEventHandling_def upd_chan_def Channel_new_def)
qed

end
