(* ===== verification/Multiplexer.thy ===== *)
theory Multiplexer
  imports Channel
begin

text \<open>
  What the event loop relies on in a poller. The loop's two pollers (\<^verbatim>\<open>Poller\<close>, \<^verbatim>\<open>EPoller\<close>) keep
  different tables; both let a channel announce the events it wants and be removed, and both
  determine which descriptors the kernel watches for what. The contract is stated over any
  state with an invariant and such an interest map, and the life of a channel is proved once
  from it.
\<close>

text \<open>
  \<open>interest s fd\<close> is what the kernel is asked to watch descriptor \<open>fd\<close> for. \<open>upd c e s\<close> sets the
  event mask of channel \<open>c\<close> to \<open>e\<close> and updates the poller; \<open>rem c s\<close> removes the channel.
  A channel is \<open>fresh\<close> when the poller has never seen it, \<open>watched\<close> when it is registered and
  watched, \<open>idle\<close> when it is registered with an empty mask and not watched.
\<close>

locale multiplexer =
  fixes inv :: "'s \<Rightarrow> bool" and interest :: "'s \<Rightarrow> int \<Rightarrow> 32 word option"
    and fdOf :: "'s \<Rightarrow> nat \<Rightarrow> int"
    and fresh :: "'s \<Rightarrow> nat \<Rightarrow> bool" and watched :: "'s \<Rightarrow> nat \<Rightarrow> bool" and idle :: "'s \<Rightarrow> nat \<Rightarrow> bool"
    and upd :: "nat \<Rightarrow> 32 word \<Rightarrow> 's \<Rightarrow> 's result" and rem :: "nat \<Rightarrow> 's \<Rightarrow> 's result"
    and ok_mask :: "32 word \<Rightarrow> bool"
  assumes upd_watch: "inv s \<Longrightarrow> fresh s c \<or> watched s c \<Longrightarrow> ok_mask e \<Longrightarrow>
      \<exists>s'. upd c e s = Inr s' \<and> inv s' \<and> watched s' c \<and> fdOf s' c = fdOf s c
           \<and> interest s' = (interest s)(fdOf s c \<mapsto> e)"
    and upd_none: "inv s \<Longrightarrow> watched s c \<Longrightarrow>
      \<exists>s'. upd c 0 s = Inr s' \<and> inv s' \<and> idle s' c \<and> fdOf s' c = fdOf s c
           \<and> interest s' = (interest s)(fdOf s c := None)"
    and rem_idle: "inv s \<Longrightarrow> idle s c \<Longrightarrow>
      \<exists>s'. rem c s = Inr s' \<and> inv s' \<and> interest s' = interest s"
begin

lemma upd_many:
  assumes "inv s" and "fresh s c \<or> watched s c" and "\<forall>e \<in> set (x # es). ok_mask e"
  shows "\<exists>s'. foldR (upd c) (x # es) s = Inr s' \<and> inv s' \<and> watched s' c \<and> fdOf s' c = fdOf s c
           \<and> interest s' = (interest s)(fdOf s c \<mapsto> last (x # es))"
  using assms
proof (induction es arbitrary: x s)
  case Nil
  then show ?case using upd_watch [of s c x] by auto
next
  case (Cons y es)
  from upd_watch [OF Cons.prems(1,2), of x] Cons.prems(3)
  obtain s1 where s1: "upd c x s = Inr s1" "inv s1" "watched s1 c" "fdOf s1 c = fdOf s c"
    "interest s1 = (interest s)(fdOf s c \<mapsto> x)" by auto
  have "\<forall>e \<in> set (y # es). ok_mask e" using Cons.prems(3) by simp
  from Cons.IH [OF s1(2) disjI2 [OF s1(3)] this] obtain s2
    where "foldR (upd c) (y # es) s1 = Inr s2" "inv s2" "watched s2 c" "fdOf s2 c = fdOf s1 c"
      "interest s2 = (interest s1)(fdOf s1 c \<mapsto> last (y # es))" by blast
  with s1 show ?case by (simp add: fun_eq_iff)
qed

text \<open>
  The life of a channel: enabled with some sequence of non-empty masks, disabled, removed. Every
  step succeeds, and in the end no descriptor but the channel's own has been touched.
\<close>

lemma channel_life:
  assumes "inv s" and "fresh s c" and "es \<noteq> []" and "\<forall>e \<in> set es. ok_mask e"
  shows "\<exists>s'. bindR (foldR (upd c) es s) (\<lambda>s1. bindR (upd c 0 s1) (rem c)) = Inr s' \<and> inv s'
           \<and> interest s' = (interest s)(fdOf s c := None)"
proof -
  obtain x xs where es: "es = x # xs" using assms(3) by (cases es) auto
  from upd_many [of s c x xs] assms es obtain s1
    where s1: "foldR (upd c) es s = Inr s1" "inv s1" "watched s1 c" "fdOf s1 c = fdOf s c"
      "interest s1 = (interest s)(fdOf s c \<mapsto> last es)" by auto
  from upd_none [OF s1(2,3)] obtain s2 where s2: "upd c 0 s1 = Inr s2" "inv s2" "idle s2 c"
    "interest s2 = (interest s1)(fdOf s1 c := None)" by blast
  from rem_idle [OF s2(2,3)] obtain s3 where "rem c s2 = Inr s3" "inv s3" "interest s3 = interest s2"
    by blast
  with s1 s2 show ?thesis by auto
qed

end

text \<open>
  A poller that also accepts an empty mask for a channel that is already idle, as the two calls of
  \<open>disableAll\<close> in \<open>TcpConnection::handleClose\<close> and \<open>connectDestroyed\<close> need.
\<close>

locale idempotent_multiplexer = multiplexer +
  assumes upd_idle: "inv s \<Longrightarrow> idle s c \<Longrightarrow>
      \<exists>s'. upd c 0 s = Inr s' \<and> inv s' \<and> idle s' c \<and> fdOf s' c = fdOf s c
           \<and> interest s' = interest s"
begin

lemma close_twice:
  assumes "inv s" and "watched s c"
  shows "\<exists>s'. bindR (upd c 0 s) (\<lambda>s1. bindR (upd c 0 s1) (rem c)) = Inr s' \<and> inv s'
           \<and> interest s' = (interest s)(fdOf s c := None)"
proof -
  from upd_none [OF assms] obtain s1 where s1: "upd c 0 s = Inr s1" "inv s1" "idle s1 c"
    "interest s1 = (interest s)(fdOf s c := None)" by blast
  from upd_idle [OF s1(2,3)] obtain s2 where s2: "upd c 0 s1 = Inr s2" "inv s2" "idle s2 c"
    "interest s2 = interest s1" by blast
  from rem_idle [OF s2(2,3)] obtain s3 where "rem c s2 = Inr s3" "inv s3" "interest s3 = interest s2"
    by blast
  with s1 s2 show ?thesis by auto
qed

end

end
