(* ===== verification/EPoller.thy ===== *)
theory EPoller
  imports Multiplexer
begin

text \<open>
  \<^verbatim>\<open>muduo/EPoller.h\<close> and \<^verbatim>\<open>EPoller.cpp\<close>: the poller over \<open>epoll(7)\<close>. The kernel's side is a parameter:
  a state \<open>'k\<close>, the call \<open>epoll_ctl\<close> on it and the result of \<open>epoll_wait\<close>; what the class relies on is
  stated as the contract \<open>epoll_contract\<close>.
\<close>

unbundle bit_operations_syntax

section \<open>The class\<close>

definition kNew :: int where "kNew = -1"
definition kAdded :: int where "kAdded = 1"
definition kDeleted :: int where "kDeleted = 2"

definition EPOLL_CTL_ADD :: int where "EPOLL_CTL_ADD = 1"
definition EPOLL_CTL_DEL :: int where "EPOLL_CTL_DEL = 2"
definition EPOLL_CTL_MOD :: int where "EPOLL_CTL_MOD = 3"

definition kInitEventListSize :: nat where "kInitEventListSize = 16"

lemmas epoll_consts = kNew_def kAdded_def kDeleted_def EPOLL_CTL_ADD_def EPOLL_CTL_DEL_def EPOLL_CTL_MOD_def

record epoll_event =
  ep_events :: "32 word"
  ep_ptr :: nat

record ('cb, 'k) epoller = "'cb chan_world" +
  epollfd :: int
  epEvents :: "epoll_event list"
  epChannels :: "int \<Rightarrow> nat option"
  kernel :: 'k

type_synonym 'k epoll_ctl = "int \<Rightarrow> int \<Rightarrow> epoll_event \<Rightarrow> 'k \<Rightarrow> int \<times> 'k"

datatype epoll_wait_result = EpollErr int | EpollOk "epoll_event list"

text \<open>The constructor: \<open>fd\<close> is the result of \<open>epoll_create1\<close>.\<close>

definition EPoller_new :: "int \<Rightarrow> 'cb chan_world \<Rightarrow> 'k \<Rightarrow> ('cb, 'k) epoller result" where
  "EPoller_new fd w k =
     (if fd < 0 then Inl FatalLogged
      else Inr (chan_world.extend w
        \<lparr>epollfd = fd, epEvents = replicate kInitEventListSize \<lparr>ep_events = 0, ep_ptr = 0\<rparr>,
         epChannels = Map.empty, kernel = k\<rparr>))"

fun EPoller_fill_loop :: "epoll_event list \<Rightarrow> nat list \<Rightarrow> ('cb, 'k, 'm) epoller_scheme
    \<Rightarrow> (nat list \<times> ('cb, 'k, 'm) epoller_scheme) result" where
  "EPoller_fill_loop [] active s = Inr (active, s)"
| "EPoller_fill_loop (ev # evs) active s =
     bindR (derefR (chans s) (ep_ptr ev)) (\<lambda>ch.
       assertR (epChannels s (ch_fd ch) \<noteq> None)
         (assertR (epChannels s (ch_fd ch) = Some (ep_ptr ev))
           (bindR (setRevents (ep_ptr ev) (ep_events ev) s)
             (\<lambda>s'. EPoller_fill_loop evs (active @ [ep_ptr ev]) s'))))"

definition EPoller_fillActiveChannels :: "nat \<Rightarrow> nat list \<Rightarrow> ('cb, 'k, 'm) epoller_scheme
    \<Rightarrow> (nat list \<times> ('cb, 'k, 'm) epoller_scheme) result" where
  "EPoller_fillActiveChannels numEvents active s =
     assertR (numEvents \<le> length (epEvents s))
       (EPoller_fill_loop (take numEvents (epEvents s)) active s)"

text \<open>\<open>epoll_wait\<close> stores the reported events at the front of \<open>events_\<close>.\<close>

definition EPoller_poll :: "epoll_wait_result \<Rightarrow> timestamp \<Rightarrow> nat list \<Rightarrow> ('cb, 'k, 'm) epoller_scheme
    \<Rightarrow> (timestamp \<times> nat list \<times> ('cb, 'k, 'm) epoller_scheme) result" where
  "EPoller_poll r now active s =
     (case r of
        EpollErr e \<Rightarrow> Inr (now, active, s)
      | EpollOk evs \<Rightarrow>
          (let numEvents = length evs;
               s1 = s\<lparr>epEvents := evs @ drop numEvents (epEvents s)\<rparr> in
           if 0 < numEvents then
             bindR (EPoller_fillActiveChannels numEvents active s1) (\<lambda>(a, s2).
               Inr (now, a,
                 if numEvents = length (epEvents s2)
                 then s2\<lparr>epEvents := epEvents s2
                        @ replicate (length (epEvents s2)) \<lparr>ep_events = 0, ep_ptr = 0\<rparr>\<rparr>
                 else s2))
           else Inr (now, active, s1)))"

text \<open>\<open>update\<close>: a failed \<open>EPOLL_CTL_DEL\<close> is only logged, any other failure is fatal.\<close>

definition EPoller_update :: "'k epoll_ctl \<Rightarrow> int \<Rightarrow> nat \<Rightarrow> ('cb, 'k, 'm) epoller_scheme
    \<Rightarrow> ('cb, 'k, 'm) epoller_scheme result" where
  "EPoller_update ctl operation c s =
     bindR (derefR (chans s) c) (\<lambda>ch.
       let event = \<lparr>ep_events = ch_events ch, ep_ptr = c\<rparr>;
           (r, k) = ctl operation (ch_fd ch) event (kernel s)
       in if r < 0 \<and> operation \<noteq> EPOLL_CTL_DEL then Inl FatalLogged else Inr (s\<lparr>kernel := k\<rparr>))"

definition EPoller_updateChannel :: "'k epoll_ctl \<Rightarrow> nat \<Rightarrow> ('cb, 'k, 'm) epoller_scheme
    \<Rightarrow> ('cb, 'k, 'm) epoller_scheme result" where
  "EPoller_updateChannel ctl c s =
     assertInLoopThread s
       (bindR (derefR (chans s) c) (\<lambda>ch.
          let index = ch_index ch; fd = ch_fd ch in
          if index = kNew \<or> index = kDeleted then
            bindR (if index = kNew
                   then assertR (epChannels s fd = None) (Inr (s\<lparr>epChannels := (epChannels s)(fd \<mapsto> c)\<rparr>))
                   else assertR (epChannels s fd \<noteq> None) (assertR (epChannels s fd = Some c) (Inr s)))
              (\<lambda>s1. bindR (setIndex c kAdded s1) (EPoller_update ctl EPOLL_CTL_ADD c))
          else
            assertR (epChannels s fd \<noteq> None)
              (assertR (epChannels s fd = Some c)
                (assertR (index = kAdded)
                  (if isNoneEvent ch
                   then bindR (EPoller_update ctl EPOLL_CTL_DEL c s) (setIndex c kDeleted)
                   else EPoller_update ctl EPOLL_CTL_MOD c s)))))"

definition EPoller_removeChannel :: "'k epoll_ctl \<Rightarrow> nat \<Rightarrow> ('cb, 'k, 'm) epoller_scheme
    \<Rightarrow> ('cb, 'k, 'm) epoller_scheme result" where
  "EPoller_removeChannel ctl c s =
     assertInLoopThread s
       (bindR (derefR (chans s) c) (\<lambda>ch.
          let fd = ch_fd ch; index = ch_index ch in
          assertR (epChannels s fd \<noteq> None)
            (assertR (epChannels s fd = Some c)
              (assertR (isNoneEvent ch)
                (assertR (index = kAdded \<or> index = kDeleted)
                  (let s1 = s\<lparr>epChannels := (epChannels s)(fd := None)\<rparr> in
                   bindR (if index = kAdded then EPoller_update ctl EPOLL_CTL_DEL c s1 else Inr s1)
                     (setIndex c kNew)))))))"

text \<open>A channel changes its mask and calls \<open>update()\<close>, in a loop that uses this poller.\<close>

definition EPoller_setEvents :: "'k epoll_ctl \<Rightarrow> nat \<Rightarrow> 32 word \<Rightarrow> ('cb, 'k, 'm) epoller_scheme
    \<Rightarrow> ('cb, 'k, 'm) epoller_scheme result" where
  "EPoller_setEvents ctl c e s =
     bindR (derefR (chans s) c)
       (\<lambda>_. EPoller_updateChannel ctl c (upd_chan c (\<lambda>ch. ch\<lparr>ch_events := e\<rparr>) s))"

section \<open>The kernel's contract and the invariant\<close>

text \<open>
  \<open>epoll_ctl(2)\<close>: \<open>tbl k fd\<close> is the event registered for \<open>fd\<close>, if any. Adding an absent descriptor,
  changing or deleting a present one succeeds and changes that entry only.
\<close>

definition epoll_contract :: "'k epoll_ctl \<Rightarrow> ('k \<Rightarrow> int \<Rightarrow> epoll_event option) \<Rightarrow> bool" where
  "epoll_contract ctl tbl \<longleftrightarrow> (\<forall>k fd ev.
     (tbl k fd = None \<longrightarrow> fst (ctl EPOLL_CTL_ADD fd ev k) = 0
        \<and> tbl (snd (ctl EPOLL_CTL_ADD fd ev k)) = (tbl k)(fd \<mapsto> ev))
     \<and> (tbl k fd \<noteq> None \<longrightarrow> fst (ctl EPOLL_CTL_MOD fd ev k) = 0
        \<and> tbl (snd (ctl EPOLL_CTL_MOD fd ev k)) = (tbl k)(fd \<mapsto> ev))
     \<and> (tbl k fd \<noteq> None \<longrightarrow> fst (ctl EPOLL_CTL_DEL fd ev k) = 0
        \<and> tbl (snd (ctl EPOLL_CTL_DEL fd ev k)) = (tbl k)(fd := None)))"

definition ep_registered :: "('k \<Rightarrow> int \<Rightarrow> epoll_event option) \<Rightarrow> ('cb, 'k, 'm) epoller_scheme
    \<Rightarrow> int \<Rightarrow> nat \<Rightarrow> bool" where
  "ep_registered tbl s fd c \<longleftrightarrow> (\<exists>ch. chans s c = Some ch \<and> ch_fd ch = fd \<and>
     (ch_index ch = kAdded \<and> tbl (kernel s) fd = Some \<lparr>ep_events = ch_events ch, ep_ptr = c\<rparr>
      \<or> ch_index ch = kDeleted \<and> tbl (kernel s) fd = None))"

definition epoller_inv :: "('k \<Rightarrow> int \<Rightarrow> epoll_event option) \<Rightarrow> ('cb, 'k, 'm) epoller_scheme \<Rightarrow> bool" where
  "epoller_inv tbl s \<longleftrightarrow> isInLoopThread s
     \<and> (\<forall>fd c. epChannels s fd = Some c \<longrightarrow> ep_registered tbl s fd c)
     \<and> (\<forall>fd. epChannels s fd = None \<longrightarrow> tbl (kernel s) fd = None)"

definition ep_interest :: "('k \<Rightarrow> int \<Rightarrow> epoll_event option) \<Rightarrow> ('cb, 'k, 'm) epoller_scheme
    \<Rightarrow> int \<Rightarrow> 32 word option" where
  "ep_interest tbl s fd = map_option ep_events (tbl (kernel s) fd)"

definition ep_fd :: "('cb, 'k, 'm) epoller_scheme \<Rightarrow> nat \<Rightarrow> int" where
  "ep_fd s c = (case chans s c of None \<Rightarrow> -1 | Some ch \<Rightarrow> ch_fd ch)"

definition ep_state :: "int \<Rightarrow> ('cb, 'k, 'm) epoller_scheme \<Rightarrow> nat \<Rightarrow> bool" where
  "ep_state i s c \<longleftrightarrow> (\<exists>ch. chans s c = Some ch \<and> ch_index ch = i
     \<and> epChannels s (ch_fd ch) = (if i = kNew then None else Some c)
     \<and> (i = kDeleted \<longrightarrow> ch_events ch = 0))"

abbreviation ep_fresh :: "('cb, 'k, 'm) epoller_scheme \<Rightarrow> nat \<Rightarrow> bool" where "ep_fresh \<equiv> ep_state kNew"
abbreviation ep_watched :: "('cb, 'k, 'm) epoller_scheme \<Rightarrow> nat \<Rightarrow> bool" where "ep_watched \<equiv> ep_state kAdded"
abbreviation ep_idle :: "('cb, 'k, 'm) epoller_scheme \<Rightarrow> nat \<Rightarrow> bool" where "ep_idle \<equiv> ep_state kDeleted"

text \<open>The state after an operation: one channel replaced, its table entries set.\<close>

definition ep_upd :: "nat \<Rightarrow> 'cb channel \<Rightarrow> nat option \<Rightarrow> 'k \<Rightarrow> ('cb, 'k, 'm) epoller_scheme
    \<Rightarrow> ('cb, 'k, 'm) epoller_scheme" where
  "ep_upd c ch o' k s = s\<lparr>chans := (chans s)(c \<mapsto> ch), epChannels := (epChannels s)(ch_fd ch := o'), kernel := k\<rparr>"

lemma ep_upd_sel [simp]:
  "chans (ep_upd c ch r k s) = (chans s)(c \<mapsto> ch)"
  "epChannels (ep_upd c ch r k s) = (epChannels s)(ch_fd ch := r)"
  "kernel (ep_upd c ch r k s) = k" "isInLoopThread (ep_upd c ch r k s) = isInLoopThread s"
  by (simp_all add: ep_upd_def isInLoopThread_def)

lemma ep_upd_inv:
  assumes inv: "epoller_inv tbl s" and ch: "chans s c = Some ch" "ch_fd ch' = ch_fd ch"
    and own: "\<And>d. epChannels s (ch_fd ch) = Some d \<Longrightarrow> d = c"
    and tbl: "\<And>fd. fd \<noteq> ch_fd ch \<Longrightarrow> tbl k fd = tbl (kernel s) fd"
    and new: "case r of None \<Rightarrow> tbl k (ch_fd ch) = None | Some d \<Rightarrow> d = c \<and>
        (ch_index ch' = kAdded \<and> tbl k (ch_fd ch) = Some \<lparr>ep_events = ch_events ch', ep_ptr = c\<rparr>
         \<or> ch_index ch' = kDeleted \<and> tbl k (ch_fd ch) = None)"
  shows "epoller_inv tbl (ep_upd c ch' r k s)"
proof -
  have other: "d \<noteq> c \<and> ep_registered tbl s fd d" if "epChannels s fd = Some d" "fd \<noteq> ch_fd ch" for fd d
  proof -
    have "ep_registered tbl s fd d" using inv that(1) by (simp add: epoller_inv_def)
    with that(2) ch(1) show ?thesis by (auto simp: ep_registered_def)
  qed
  have "ep_registered tbl (ep_upd c ch' r k s) fd d" if "epChannels (ep_upd c ch' r k s) fd = Some d" for fd d
  proof (cases "fd = ch_fd ch")
    case True
    with that ch(2) have "r = Some d" by simp
    with new True ch(2) show ?thesis by (auto simp: ep_registered_def)
  next
    case False
    with that ch(2) have "epChannels s fd = Some d" by simp
    from other [OF this False] tbl [OF False] show ?thesis by (auto simp: ep_registered_def)
  qed
  moreover have "tbl k fd = None" if "epChannels (ep_upd c ch' r k s) fd = None" for fd
    using that inv new ch(2) tbl [of fd] by (cases "fd = ch_fd ch") (auto simp: epoller_inv_def)
  ultimately show ?thesis using inv by (simp add: epoller_inv_def)
qed

lemma ep_inv_table:
  assumes "epoller_inv tbl s" and "chans s c = Some ch" and "epChannels s (ch_fd ch) = Some c"
  shows "tbl (kernel s) (ch_fd ch) =
           (if ch_index ch = kAdded then Some \<lparr>ep_events = ch_events ch, ep_ptr = c\<rparr> else None)"
proof -
  have "ep_registered tbl s (ch_fd ch) c" using assms(1,3) by (simp add: epoller_inv_def)
  with assms(2) show ?thesis by (auto simp: ep_registered_def epoll_consts)
qed

section \<open>The operations on registered and new channels\<close>

lemmas ep_op_defs = EPoller_setEvents_def EPoller_updateChannel_def EPoller_removeChannel_def EPoller_update_def
  assertInLoopThread_def setIndex_def upd_chan_def isNoneEvent_def kNoneEvent_def isInLoopThread_def

lemma ep_setEvents_add:
  assumes ct: "epoll_contract ctl tbl" and inv: "epoller_inv tbl s" and c: "ep_fresh s c \<or> ep_idle s c"
  obtains ch k where "chans s c = Some ch"
    "EPoller_setEvents ctl c e s = Inr (ep_upd c (ch\<lparr>ch_events := e, ch_index := kAdded\<rparr>) (Some c) k s)"
    "tbl k = (tbl (kernel s))(ch_fd ch \<mapsto> \<lparr>ep_events = e, ep_ptr = c\<rparr>)"
    "\<And>d. epChannels s (ch_fd ch) = Some d \<Longrightarrow> d = c"
proof -
  from c obtain ch where ch: "chans s c = Some ch" "ch_index ch = kNew \<and> epChannels s (ch_fd ch) = None
      \<or> ch_index ch = kDeleted \<and> epChannels s (ch_fd ch) = Some c"
    by (auto simp: ep_state_def epoll_consts)
  have none: "tbl (kernel s) (ch_fd ch) = None"
    using ch(2)
  proof (elim disjE conjE)
    assume "epChannels s (ch_fd ch) = None"
    with inv show ?thesis by (simp add: epoller_inv_def)
  next
    assume "ch_index ch = kDeleted" "epChannels s (ch_fd ch) = Some c"
    with ep_inv_table [OF inv ch(1)] show ?thesis by (simp add: epoll_consts)
  qed
  let ?ev = "\<lparr>ep_events = e, ep_ptr = c\<rparr>"
  obtain r k where k: "ctl EPOLL_CTL_ADD (ch_fd ch) ?ev (kernel s) = (r, k)" by (cases "ctl EPOLL_CTL_ADD (ch_fd ch) ?ev (kernel s)")
  with ct none have rk: "r = 0" "tbl k = (tbl (kernel s))(ch_fd ch \<mapsto> ?ev)"
    by (auto simp: epoll_contract_def dest!: spec [of _ "kernel s"] spec [of _ "ch_fd ch"] spec [of _ ?ev])
  have "EPoller_setEvents ctl c e s = Inr (ep_upd c (ch\<lparr>ch_events := e, ch_index := kAdded\<rparr>) (Some c) k s)"
    using ch(2) by (elim disjE) (use inv ch(1) k rk(1) in
        \<open>simp_all add: ep_op_defs epoller_inv_def Let_def epoll_consts ep_upd_def fun_upd_idem\<close>)
  with that [OF ch(1) _ rk(2)] ch(2) show ?thesis by auto
qed

lemma ep_setEvents_change:
  assumes ct: "epoll_contract ctl tbl" and inv: "epoller_inv tbl s" and c: "ep_watched s c"
  obtains ch k where "chans s c = Some ch" "epChannels s (ch_fd ch) = Some c"
    "EPoller_setEvents ctl c e s =
       Inr (ep_upd c (ch\<lparr>ch_events := e, ch_index := (if e = 0 then kDeleted else kAdded)\<rparr>) (Some c) k s)"
    "tbl k = (tbl (kernel s))(ch_fd ch := (if e = 0 then None else Some \<lparr>ep_events = e, ep_ptr = c\<rparr>))"
proof -
  from c obtain ch where ch: "chans s c = Some ch" "ch_index ch = kAdded" "epChannels s (ch_fd ch) = Some c"
    by (auto simp: ep_state_def epoll_consts)
  have some: "tbl (kernel s) (ch_fd ch) \<noteq> None"
    using ep_inv_table [OF inv ch(1,3)] ch(2) by simp
  let ?ev = "\<lparr>ep_events = e, ep_ptr = c\<rparr>" and ?op = "if e = 0 then EPOLL_CTL_DEL else EPOLL_CTL_MOD"
  obtain r k where k: "ctl ?op (ch_fd ch) ?ev (kernel s) = (r, k)" by (cases "ctl ?op (ch_fd ch) ?ev (kernel s)")
  with ct some have rk: "r = 0" "tbl k = (tbl (kernel s))(ch_fd ch := (if e = 0 then None else Some ?ev))"
    by (auto simp: epoll_contract_def split: if_splits
        dest!: spec [of _ "kernel s"] spec [of _ "ch_fd ch"] spec [of _ ?ev])
  have "EPoller_setEvents ctl c e s =
       Inr (ep_upd c (ch\<lparr>ch_events := e, ch_index := (if e = 0 then kDeleted else kAdded)\<rparr>) (Some c) k s)"
  proof (cases "e = 0")
    case True
    then show ?thesis using inv ch k rk(1)
      by (simp add: ep_op_defs epoller_inv_def Let_def epoll_consts ep_upd_def fun_upd_idem)
  next
    case False
    have eq: "ch\<lparr>ch_events := e, ch_index := 1\<rparr> = ch\<lparr>ch_events := e\<rparr>"
      using ch(2) by (cases ch) (simp add: kAdded_def)
    show ?thesis using inv ch k rk(1) False
      by (simp add: eq ep_op_defs epoller_inv_def Let_def epoll_consts ep_upd_def fun_upd_idem)
  qed
  with that [OF ch(1,3)] rk(2) show ?thesis by blast
qed

lemma ep_removeChannel:
  assumes ct: "epoll_contract ctl tbl" and inv: "epoller_inv tbl s"
    and c: "ep_idle s c \<or> ep_watched s c \<and> map_option ch_events (chans s c) = Some 0"
  obtains ch k where "chans s c = Some ch" "epChannels s (ch_fd ch) = Some c"
    "EPoller_removeChannel ctl c s = Inr (ep_upd c (ch\<lparr>ch_index := kNew\<rparr>) None k s)"
    "tbl k = (tbl (kernel s))(ch_fd ch := None)"
proof -
  from c obtain ch where ch: "chans s c = Some ch" "epChannels s (ch_fd ch) = Some c" "ch_events ch = 0"
    "ch_index ch = kAdded \<or> ch_index ch = kDeleted"
    by (auto simp: ep_state_def epoll_consts)
  have reg: "ep_registered tbl s (ch_fd ch) c" using inv ch(2) by (simp add: epoller_inv_def)
  let ?ev = "\<lparr>ep_events = 0, ep_ptr = c\<rparr>"
  obtain r k where k: "ctl EPOLL_CTL_DEL (ch_fd ch) ?ev (kernel s) = (r, k)"
    by (cases "ctl EPOLL_CTL_DEL (ch_fd ch) ?ev (kernel s)")
  from ch(4) show ?thesis
  proof
    assume a: "ch_index ch = kAdded"
    with reg ch(1) have "tbl (kernel s) (ch_fd ch) \<noteq> None" by (auto simp: ep_registered_def epoll_consts)
    with ct k have rk: "r = 0" "tbl k = (tbl (kernel s))(ch_fd ch := None)"
      by (auto simp: epoll_contract_def dest!: spec [of _ "kernel s"] spec [of _ "ch_fd ch"] spec [of _ ?ev])
    have "EPoller_removeChannel ctl c s = Inr (ep_upd c (ch\<lparr>ch_index := kNew\<rparr>) None k s)"
      using inv ch(1-3) a k rk(1)
      by (simp add: ep_op_defs epoller_inv_def Let_def epoll_consts ep_upd_def)
    with that [OF ch(1,2)] rk(2) show ?thesis by blast
  next
    assume a: "ch_index ch = kDeleted"
    with reg ch(1) have none: "tbl (kernel s) (ch_fd ch) = None" by (auto simp: ep_registered_def epoll_consts)
    have "EPoller_removeChannel ctl c s = Inr (ep_upd c (ch\<lparr>ch_index := kNew\<rparr>) None (kernel s) s)"
      using inv ch(1-3) a by (simp add: ep_op_defs epoller_inv_def Let_def epoll_consts ep_upd_def)
    with that [OF ch(1,2)] none show ?thesis by (simp add: fun_upd_idem)
  qed
qed

section \<open>The contract of the event loop\<close>

lemma ep_watch:
  assumes ct: "epoll_contract ctl tbl" and inv: "epoller_inv tbl s"
    and c: "ep_fresh s c \<or> ep_idle s c \<or> ep_watched s c" and e: "e \<noteq> 0"
  shows "\<exists>s'. EPoller_setEvents ctl c e s = Inr s' \<and> epoller_inv tbl s' \<and> ep_watched s' c
           \<and> ep_fd s' c = ep_fd s c \<and> ep_interest tbl s' = (ep_interest tbl s)(ep_fd s c \<mapsto> e)"
proof -
  obtain ch k where ch: "chans s c = Some ch"
    "EPoller_setEvents ctl c e s = Inr (ep_upd c (ch\<lparr>ch_events := e, ch_index := kAdded\<rparr>) (Some c) k s)"
    "tbl k = (tbl (kernel s))(ch_fd ch \<mapsto> \<lparr>ep_events = e, ep_ptr = c\<rparr>)"
    "\<And>d. epChannels s (ch_fd ch) = Some d \<Longrightarrow> d = c"
  proof (cases "ep_watched s c")
    case True
    show ?thesis by (rule ep_setEvents_change [OF ct inv True, of e]) (rule that, use e in auto)
  next
    case False
    then have "ep_fresh s c \<or> ep_idle s c" using c by blast
    then show ?thesis by (rule ep_setEvents_add [OF ct inv]) (rule that)
  qed
  let ?s = "ep_upd c (ch\<lparr>ch_events := e, ch_index := kAdded\<rparr>) (Some c) k s"
  have "epoller_inv tbl ?s" by (rule ep_upd_inv [OF inv ch(1) _ ch(4)]) (simp_all add: ch(3))
  moreover have "ep_watched ?s c" by (simp add: ep_state_def epoll_consts)
  moreover have "ep_fd ?s c = ep_fd s c" "ep_fd s c = ch_fd ch" by (simp_all add: ep_fd_def ch(1))
  moreover have "ep_interest tbl ?s = (ep_interest tbl s)(ep_fd s c \<mapsto> e)"
    by (auto simp: ep_interest_def [abs_def] ch(3) \<open>ep_fd s c = ch_fd ch\<close>)
  ultimately show ?thesis using ch(2) by blast
qed

lemma ep_none:
  assumes ct: "epoll_contract ctl tbl" and inv: "epoller_inv tbl s" and c: "ep_watched s c"
  shows "\<exists>s'. EPoller_setEvents ctl c 0 s = Inr s' \<and> epoller_inv tbl s' \<and> ep_idle s' c
           \<and> ep_fd s' c = ep_fd s c \<and> ep_interest tbl s' = (ep_interest tbl s)(ep_fd s c := None)"
proof -
  obtain ch k where ch: "chans s c = Some ch" "epChannels s (ch_fd ch) = Some c"
    "EPoller_setEvents ctl c 0 s = Inr (ep_upd c (ch\<lparr>ch_events := 0, ch_index := kDeleted\<rparr>) (Some c) k s)"
    "tbl k = (tbl (kernel s))(ch_fd ch := None)"
    using ep_setEvents_change [OF ct inv c, of 0] by auto
  let ?s = "ep_upd c (ch\<lparr>ch_events := 0, ch_index := kDeleted\<rparr>) (Some c) k s"
  have "epoller_inv tbl ?s" by (rule ep_upd_inv [OF inv ch(1)]) (simp_all add: ch(2,4))
  moreover have "ep_idle ?s c" by (simp add: ep_state_def epoll_consts)
  moreover have "ep_fd ?s c = ep_fd s c" "ep_fd s c = ch_fd ch" by (simp_all add: ep_fd_def ch(1))
  moreover have "ep_interest tbl ?s = (ep_interest tbl s)(ep_fd s c := None)"
    by (auto simp: ep_interest_def [abs_def] ch(4) \<open>ep_fd s c = ch_fd ch\<close>)
  ultimately show ?thesis using ch(3) by blast
qed

lemma ep_rem:
  assumes ct: "epoll_contract ctl tbl" and inv: "epoller_inv tbl s"
    and c: "ep_idle s c \<or> ep_watched s c \<and> map_option ch_events (chans s c) = Some 0"
  shows "\<exists>s'. EPoller_removeChannel ctl c s = Inr s' \<and> epoller_inv tbl s' \<and> ep_fresh s' c
           \<and> ep_interest tbl s' = (ep_interest tbl s)(ep_fd s c := None)"
proof -
  obtain ch k where ch: "chans s c = Some ch" "epChannels s (ch_fd ch) = Some c"
    "EPoller_removeChannel ctl c s = Inr (ep_upd c (ch\<lparr>ch_index := kNew\<rparr>) None k s)"
    "tbl k = (tbl (kernel s))(ch_fd ch := None)"
    using ep_removeChannel [OF ct inv c] by blast
  let ?s = "ep_upd c (ch\<lparr>ch_index := kNew\<rparr>) None k s"
  have "epoller_inv tbl ?s" by (rule ep_upd_inv [OF inv ch(1)]) (simp_all add: ch(2,4))
  moreover have "ep_fresh ?s c" by (simp add: ep_state_def epoll_consts)
  moreover have "ep_interest tbl ?s = (ep_interest tbl s)(ep_fd s c := None)"
    by (auto simp: ep_interest_def [abs_def] ch(4) ep_fd_def ch(1))
  ultimately show ?thesis using ch(3) by blast
qed

lemma ep_idle_interest:
  assumes "epoller_inv tbl s" and "ep_idle s c"
  shows "ep_interest tbl s (ep_fd s c) = None"
  using assms ep_inv_table [OF assms(1), of c] by (auto simp: ep_state_def ep_interest_def ep_fd_def epoll_consts)

lemma epoller_multiplexer:
  assumes "epoll_contract ctl tbl"
  shows "multiplexer (epoller_inv tbl) (ep_interest tbl) ep_fd ep_fresh ep_watched ep_idle
     (EPoller_setEvents ctl) (EPoller_removeChannel ctl) (\<lambda>e. e \<noteq> 0)"
proof
  show "\<exists>s'. EPoller_removeChannel ctl c s = Inr s' \<and> epoller_inv tbl s' \<and> ep_interest tbl s' = ep_interest tbl s"
    if "epoller_inv tbl s" "ep_idle s c" for s :: "('b, 'a, 'c) epoller_scheme" and c
    using ep_rem [OF assms that(1)] that(2) ep_idle_interest [OF that] by (metis fun_upd_triv)
qed (use ep_watch [OF assms] ep_none [OF assms] in blast)+

section \<open>Reporting active channels\<close>

definition ep_mark_all :: "epoll_event list \<Rightarrow> ('cb, 'k, 'm) epoller_scheme \<Rightarrow> ('cb, 'k, 'm) epoller_scheme" where
  "ep_mark_all = fold (\<lambda>ev. upd_chan (ep_ptr ev) (\<lambda>ch. ch\<lparr>ch_revents := ep_events ev\<rparr>))"

definition ep_known :: "('cb, 'k, 'm) epoller_scheme \<Rightarrow> nat \<Rightarrow> bool" where
  "ep_known s c \<longleftrightarrow> (\<exists>ch. chans s c = Some ch \<and> epChannels s (ch_fd ch) = Some c)"

lemma ep_upd_chan_sel [simp]:
  "epChannels (upd_chan c f s) = epChannels s" "epEvents (upd_chan c f s) = epEvents s"
  by (simp_all add: upd_chan_def)

lemma ep_known_mark: "ep_known s d \<Longrightarrow> ep_known (upd_chan c (\<lambda>ch. ch\<lparr>ch_revents := r\<rparr>) s) d"
  by (auto simp: ep_known_def chans_upd_chan)

lemma EPoller_fill_loop_reports:
  assumes "\<forall>ev \<in> set evs. ep_known s (ep_ptr ev)"
  shows "EPoller_fill_loop evs active s = Inr (active @ map ep_ptr evs, ep_mark_all evs s)"
  using assms
proof (induction evs arbitrary: active s)
  case Nil
  then show ?case by (simp add: ep_mark_all_def)
next
  case (Cons ev evs)
  from Cons.prems obtain ch where "chans s (ep_ptr ev) = Some ch" "epChannels s (ch_fd ch) = Some (ep_ptr ev)"
    by (auto simp: ep_known_def)
  moreover have "\<forall>ev' \<in> set evs. ep_known (upd_chan (ep_ptr ev) (\<lambda>ch. ch\<lparr>ch_revents := ep_events ev\<rparr>) s) (ep_ptr ev')"
    using Cons.prems by (auto intro: ep_known_mark)
  ultimately show ?case by (simp add: Cons.IH setRevents_def ep_mark_all_def)
qed

lemma ep_mark_all_events [simp]: "epEvents (ep_mark_all evs s) = epEvents s"
  by (induction evs arbitrary: s) (simp_all add: ep_mark_all_def)

section \<open>Properties\<close>

text \<open>A kernel table that meets the contract, and a loop with one new channel.\<close>

definition table_ctl :: "(int \<Rightarrow> epoll_event option) epoll_ctl" where
  "table_ctl operation fd ev k =
     (if operation = EPOLL_CTL_ADD then (if k fd = None then (0, k(fd \<mapsto> ev)) else (-1, k))
      else if operation = EPOLL_CTL_MOD then (if k fd = None then (-1, k) else (0, k(fd \<mapsto> ev)))
      else if k fd = None then (-1, k) else (0, k(fd := None)))"

definition epoller_sample :: "(unit, int \<Rightarrow> epoll_event option) epoller" where
  "epoller_sample = \<lparr>loopId = 0, threadId = 7, currentTid = 7, chans = [0 \<mapsto> Channel_new 0 5],
     epollfd = 4, epEvents = [\<lparr>ep_events = 0, ep_ptr = 0\<rparr>], epChannels = Map.empty, kernel = Map.empty\<rparr>"

lemma epoller_sample_ok:
  "epoll_contract table_ctl id" "epoller_inv id epoller_sample" "ep_fresh epoller_sample 0" "ep_fd epoller_sample 0 = 5"
  by (auto simp: epoll_contract_def table_ctl_def epoller_sample_def epoller_inv_def isInLoopThread_def
      ep_state_def ep_fd_def Channel_new_def epoll_consts)



text \<open>
  Unlike the poll-based one, the epoll-based poller watches a channel that is enabled again
  after it was disabled.
\<close>

theorem EPoller_reenabled_is_watched:
  assumes "epoll_contract ctl tbl" and "epoller_inv tbl s" and "ep_idle s c" and "e \<noteq> 0"
  shows "\<exists>s'. EPoller_setEvents ctl c e s = Inr s' \<and> epoller_inv tbl s'
           \<and> ep_interest tbl s' = (ep_interest tbl s)(ep_fd s c \<mapsto> e)"
  using ep_watch [OF assms(1,2) disjI2 [OF disjI1 [OF assms(3)]] assms(4)] by blast

theorem EPoller_reenabled_is_watched_witness:
  "\<exists>s s'. bindR (EPoller_setEvents table_ctl 0 kReadEvent epoller_sample) (EPoller_setEvents table_ctl 0 0) = Inr s
     \<and> EPoller_setEvents table_ctl 0 kWriteEvent s = Inr s' \<and> ep_interest id s' 5 = Some kWriteEvent"
proof -
  obtain s1 where s1: "EPoller_setEvents table_ctl 0 kReadEvent epoller_sample = Inr s1" "epoller_inv id s1"
    "ep_watched s1 0" "ep_fd s1 0 = 5"
    using ep_watch [OF epoller_sample_ok(1,2) disjI1 [OF epoller_sample_ok(3)], of kReadEvent]
    by (auto simp: epoller_sample_ok(4) poll_bits)
  obtain s2 where s2: "EPoller_setEvents table_ctl 0 0 s1 = Inr s2" "epoller_inv id s2" "ep_idle s2 0" "ep_fd s2 0 = 5"
    using ep_none [OF epoller_sample_ok(1) s1(2,3)] s1(4) by auto
  from EPoller_reenabled_is_watched [OF epoller_sample_ok(1) s2(2,3), of kWriteEvent] s1(1) s2(1,4)
  show ?thesis by (auto simp: poll_bits)
qed

text \<open>
  \<open>EPoller::poll\<close> with the events \<open>epoll_wait\<close> delivered (at most as many as the array holds, each
  carrying a registered channel): the channels of the events are appended to \<open>activeChannels\<close> in
  order, each gets its result mask, and the event array is doubled exactly when it was full.
\<close>

theorem EPoller_poll_reports:
  assumes "length evs \<le> length (epEvents s)" and "evs \<noteq> []" and "\<forall>ev \<in> set evs. ep_known s (ep_ptr ev)"
  shows "\<exists>s'. EPoller_poll (EpollOk evs) now active s = Inr (now, active @ map ep_ptr evs, s')
           \<and> chans s' = chans (ep_mark_all evs s)
           \<and> length (epEvents s') = (if length evs = length (epEvents s) then 2 else 1) * length (epEvents s)"
proof -
  let ?s = "s\<lparr>epEvents := evs @ drop (length evs) (epEvents s)\<rparr>"
  have "\<forall>ev \<in> set evs. ep_known ?s (ep_ptr ev)" using assms(3) by (simp add: ep_known_def)
  from EPoller_fill_loop_reports [OF this, of active]
  have fill: "EPoller_fillActiveChannels (length evs) active ?s = Inr (active @ map ep_ptr evs, ep_mark_all evs ?s)"
    by (simp add: EPoller_fillActiveChannels_def)
  have ch: "chans (ep_mark_all evs (s\<lparr>epEvents := l\<rparr>)) = chans (ep_mark_all evs s)" for l
  proof (induction evs arbitrary: s)
    case (Cons ev evs)
    have "upd_chan c f (s\<lparr>epEvents := l\<rparr>) = (upd_chan c f s)\<lparr>epEvents := l\<rparr>" for c f
      by (simp add: upd_chan_def)
    with Cons show ?case by (simp add: ep_mark_all_def)
  qed (simp add: ep_mark_all_def)
  show ?thesis using assms(1,2) fill ch by (auto simp: EPoller_poll_def Let_def)
qed

theorem EPoller_poll_reports_witness:
  "\<exists>s s'. EPoller_setEvents table_ctl 0 kReadEvent epoller_sample = Inr s
     \<and> EPoller_poll (EpollOk [\<lparr>ep_events = POLLIN, ep_ptr = 0\<rparr>]) (Timestamp 3) [] s = Inr (Timestamp 3, [0], s')
     \<and> map_option ch_revents (chans s' 0) = Some POLLIN \<and> length (epEvents s') = 2"
proof -
  let ?ev = "\<lparr>ep_events = POLLIN, ep_ptr = 0\<rparr>"
  obtain s where s: "EPoller_setEvents table_ctl 0 kReadEvent epoller_sample = Inr s" "ep_known s 0"
      "length (epEvents s) = 1"
    by (simp add: ep_op_defs epoller_sample_def Channel_new_def epoll_consts table_ctl_def ep_known_def)
  from EPoller_poll_reports [of "[?ev]" s "Timestamp 3" "[]"] s show ?thesis
    by (auto simp: ep_known_def ep_mark_all_def chans_upd_chan)
qed

end
