(* ===== verification/Buffer.thy ===== *)
theory Buffer
  imports Prelude
begin

text \<open>
  \<^verbatim>\<open>muduo/Buffer.h\<close> and \<^verbatim>\<open>muduo/Buffer.cpp\<close>: the byte buffer of a connection. The state is the
  vector and the two indices of the class; pointers into the vector are offsets from
  \<open>begin()\<close>. The kernel's part of \<open>readv(2)\<close> is an argument of \<open>Buffer_readFd\<close>.
\<close>

section \<open>The class and its operations\<close>

record buffer =
  bufferData :: "char list"
  readerIndex :: nat
  writerIndex :: nat

definition kCheapPrepend :: nat where
  "kCheapPrepend = 8"

definition kInitialSize :: nat where
  "kInitialSize = 1024"

definition Buffer_new :: buffer where
  "Buffer_new =
     \<lparr>bufferData = replicate (kCheapPrepend + kInitialSize) (CHR 0x00),
      readerIndex = kCheapPrepend, writerIndex = kCheapPrepend\<rparr>"

definition Buffer_swap :: "buffer \<Rightarrow> buffer \<Rightarrow> buffer \<times> buffer" where
  "Buffer_swap this rhs =
     (this\<lparr>bufferData := bufferData rhs, readerIndex := readerIndex rhs,
           writerIndex := writerIndex rhs\<rparr>,
      rhs\<lparr>bufferData := bufferData this, readerIndex := readerIndex this,
          writerIndex := writerIndex this\<rparr>)"

definition readableBytes :: "buffer \<Rightarrow> nat" where
  "readableBytes b = size_sub (writerIndex b) (readerIndex b)"

definition writableBytes :: "buffer \<Rightarrow> nat" where
  "writableBytes b = size_sub (length (bufferData b)) (writerIndex b)"

definition prependableBytes :: "buffer \<Rightarrow> nat" where
  "prependableBytes b = readerIndex b"

definition peek :: "buffer \<Rightarrow> nat" where
  "peek b = readerIndex b"

definition beginWrite :: "buffer \<Rightarrow> nat" where
  "beginWrite b = writerIndex b"

definition retrieve :: "buffer \<Rightarrow> nat \<Rightarrow> buffer result" where
  "retrieve b len =
     assertR (len \<le> readableBytes b)
       (Inr (b\<lparr>readerIndex := size_add (readerIndex b) len\<rparr>))"

definition retrieveUntil :: "buffer \<Rightarrow> nat \<Rightarrow> buffer result" where
  "retrieveUntil b endp =
     assertR (peek b \<le> endp)
       (assertR (endp \<le> beginWrite b)
         (retrieve b (size_sub endp (peek b))))"

definition retrieveAll :: "buffer \<Rightarrow> buffer" where
  "retrieveAll b = b\<lparr>readerIndex := kCheapPrepend, writerIndex := kCheapPrepend\<rparr>"

definition retrieveAsString :: "buffer \<Rightarrow> (string \<times> buffer) result" where
  "retrieveAsString b =
     bindR (read_range (bufferData b) (peek b) (readableBytes b))
       (\<lambda>str. Inr (str, retrieveAll b))"

definition hasWritten :: "buffer \<Rightarrow> nat \<Rightarrow> buffer" where
  "hasWritten b len = b\<lparr>writerIndex := size_add (writerIndex b) len\<rparr>"

text \<open>\<open>vector::resize\<close>: value-initialises new elements, throws past \<open>max_size()\<close>.\<close>

definition vector_resize :: "char list \<Rightarrow> nat \<Rightarrow> char list result" where
  "vector_resize v n =
     (if max_size < n then Inl LengthError
      else Inr (take n v @ replicate (n - length v) (CHR 0x00)))"

definition makeSpace :: "buffer \<Rightarrow> nat \<Rightarrow> buffer result" where
  "makeSpace b len =
     (if size_add (writableBytes b) (prependableBytes b) < size_add len kCheapPrepend
      then bindR (vector_resize (bufferData b) (size_add (writerIndex b) len))
             (\<lambda>v. Inr (b\<lparr>bufferData := v\<rparr>))
      else assertR (kCheapPrepend < readerIndex b)
        (let readable = readableBytes b in
         bindR (read_range (bufferData b) (readerIndex b) readable)
           (\<lambda>bytes. bindR (write_range (bufferData b) kCheapPrepend bytes)
             (\<lambda>v. let b' = b\<lparr>bufferData := v, readerIndex := kCheapPrepend,
                             writerIndex := size_add kCheapPrepend readable\<rparr>
                  in assertR (readable = readableBytes b') (Inr b')))))"

definition ensureWritableBytes :: "buffer \<Rightarrow> nat \<Rightarrow> buffer result" where
  "ensureWritableBytes b len =
     bindR (if writableBytes b < len then makeSpace b len else Inr b)
       (\<lambda>b'. assertR (len \<le> writableBytes b') (Inr b'))"

definition Buffer_append :: "buffer \<Rightarrow> string \<Rightarrow> buffer result" where
  "Buffer_append b dat =
     bindR (ensureWritableBytes b (length dat))
       (\<lambda>b'. bindR (write_range (bufferData b') (beginWrite b') dat)
         (\<lambda>v. Inr (hasWritten (b'\<lparr>bufferData := v\<rparr>) (length dat))))"

definition prepend :: "buffer \<Rightarrow> string \<Rightarrow> buffer result" where
  "prepend b dat =
     assertR (length dat \<le> prependableBytes b)
       (let r = size_sub (readerIndex b) (length dat) in
        bindR (write_range (bufferData b) r dat)
          (\<lambda>v. Inr (b\<lparr>bufferData := v, readerIndex := r\<rparr>)))"

text \<open>\<open>shrink\<close> swaps the storage only: the two indices keep their values.\<close>

definition shrink :: "buffer \<Rightarrow> nat \<Rightarrow> buffer result" where
  "shrink b reserve =
     bindR (vector_resize [] (size_add (size_add kCheapPrepend (readableBytes b)) reserve))
       (\<lambda>buf. bindR (read_range (bufferData b) (peek b) (readableBytes b))
         (\<lambda>bytes. bindR (write_range buf kCheapPrepend bytes)
           (\<lambda>buf'. Inr (b\<lparr>bufferData := buf'\<rparr>))))"

text \<open>
  What \<open>readv\<close> returns: an error number, or the bytes the kernel delivered. It fills the
  writable part of the vector first and puts what does not fit there into \<open>extrabuf\<close>.
\<close>

datatype readv_result = ReadErr int | ReadOk string

definition extrabufSize :: nat where
  "extrabufSize = 65536"

definition Buffer_readFd :: "buffer \<Rightarrow> readv_result \<Rightarrow> (int \<times> int option \<times> buffer) result" where
  "Buffer_readFd b r =
     (case r of
        ReadErr e \<Rightarrow> Inr (-1, Some e, b)
      | ReadOk dat \<Rightarrow>
          (let writable = writableBytes b; n = length dat in
           bindR (write_range (bufferData b) (writerIndex b) (take writable dat))
             (\<lambda>v. let b1 = b\<lparr>bufferData := v\<rparr> in
                  bindR (if n \<le> writable
                         then Inr (b1\<lparr>writerIndex := size_add (writerIndex b1) n\<rparr>)
                         else Buffer_append (b1\<lparr>writerIndex := length (bufferData b1)\<rparr>)
                                (drop writable dat))
                    (\<lambda>b2. Inr (int n, None, b2)))))"

section \<open>Invariant and abstraction\<close>

text \<open>
  The picture in \<^verbatim>\<open>Buffer.h\<close>: \<open>0 <= readerIndex <= writerIndex <= size\<close>. The content is what
  lies between the indices.
\<close>

definition buffer_inv :: "buffer \<Rightarrow> bool" where
  "buffer_inv b \<longleftrightarrow>
     readerIndex b \<le> writerIndex b \<and> writerIndex b \<le> length (bufferData b) \<and>
     kCheapPrepend \<le> length (bufferData b) \<and> length (bufferData b) \<le> max_size"

definition content :: "buffer \<Rightarrow> string" where
  "content b = take (writerIndex b - readerIndex b) (drop (readerIndex b) (bufferData b))"

text \<open>The writer can advance by \<open>n\<close> bytes without the vector passing its largest size.\<close>

definition buffer_room :: "buffer \<Rightarrow> nat \<Rightarrow> bool" where
  "buffer_room b n \<longleftrightarrow> writerIndex b + n \<le> max_size"

lemma buffer_inv_bounds:
  assumes "buffer_inv b"
  shows "readerIndex b \<le> writerIndex b" "writerIndex b \<le> length (bufferData b)"
    "length (bufferData b) \<le> max_size" "kCheapPrepend \<le> length (bufferData b)"
    "writerIndex b \<le> max_size" "readerIndex b \<le> max_size"
  using assms by (auto simp: buffer_inv_def)

lemma readableBytes_inv [simp]:
  "buffer_inv b \<Longrightarrow> readableBytes b = writerIndex b - readerIndex b"
  by (simp add: readableBytes_def size_sub_le buffer_inv_def)

lemma writableBytes_inv [simp]:
  "buffer_inv b \<Longrightarrow> writableBytes b = length (bufferData b) - writerIndex b"
  by (simp add: writableBytes_def size_sub_le buffer_inv_def)

lemma length_content: "buffer_inv b \<Longrightarrow> length (content b) = readableBytes b"
  by (auto simp: content_def) (auto simp: buffer_inv_def)

lemma Buffer_new_inv: "buffer_inv Buffer_new \<and> content Buffer_new = []"
  by (simp add: buffer_inv_def Buffer_new_def content_def kCheapPrepend_def kInitialSize_def
      max_size_def)

lemma Buffer_new_asserts:
  "readableBytes Buffer_new = 0 \<and> writableBytes Buffer_new = kInitialSize
   \<and> prependableBytes Buffer_new = kCheapPrepend"
  by (simp add: readableBytes_def writableBytes_def prependableBytes_def Buffer_new_def
      size_sub_def)

section \<open>Every operation implements its effect on the content\<close>

lemma size_add_index:
  assumes "buffer_inv b" and "n \<le> length (bufferData b) - writerIndex b"
  shows "size_add (writerIndex b) n = writerIndex b + n"
proof (rule size_add_small)
  show "writerIndex b + n < 2 ^ 64"
    using assms by (auto simp: buffer_inv_def max_size_def)
qed

lemma retrieve_spec:
  assumes "buffer_inv b" and "n \<le> readableBytes b"
  shows "\<exists>b'. retrieve b n = Inr b' \<and> buffer_inv b' \<and> content b' = drop n (content b)
              \<and> writerIndex b' = writerIndex b"
proof -
  have "size_add (readerIndex b) n = readerIndex b + n"
    using assms by (intro size_add_small) (auto simp: buffer_inv_def max_size_def)
  moreover have "drop (readerIndex b + n) (bufferData b) = drop n (drop (readerIndex b) (bufferData b))"
    by (simp add: add.commute)
  ultimately show ?thesis
    using assms unfolding retrieve_def
    by (auto simp: buffer_inv_def content_def drop_take)
qed

lemma retrieveUntil_spec:
  assumes "buffer_inv b" and "peek b \<le> e" and "e \<le> beginWrite b"
  shows "\<exists>b'. retrieveUntil b e = Inr b' \<and> buffer_inv b' \<and> content b' = drop (e - peek b) (content b)
              \<and> writerIndex b' = writerIndex b"
proof -
  have "e - peek b \<le> readableBytes b"
    using assms by (simp add: peek_def beginWrite_def)
  from retrieve_spec [OF assms(1) this] assms show ?thesis
    by (simp add: retrieveUntil_def size_sub_le)
qed

lemma retrieveAll_spec:
  "buffer_inv b \<Longrightarrow> buffer_inv (retrieveAll b) \<and> content (retrieveAll b) = []"
  by (simp add: buffer_inv_def retrieveAll_def content_def)

lemma retrieveAsString_spec:
  assumes "buffer_inv b"
  shows "retrieveAsString b = Inr (content b, retrieveAll b)"
  using assms unfolding retrieveAsString_def
  by (simp add: peek_def content_def) (simp add: buffer_inv_def)

lemma makeSpace_grow:
  assumes inv: "buffer_inv b" and room: "buffer_room b n" and few: "writableBytes b < n"
    and grow: "writableBytes b + prependableBytes b < n + kCheapPrepend"
  shows "\<exists>b'. makeSpace b n = Inr b' \<and> buffer_inv b' \<and> content b' = content b
              \<and> writerIndex b' = writerIndex b \<and> n \<le> writableBytes b'"
proof -
  let ?w = "writerIndex b" and ?l = "length (bufferData b)"
  have n: "?w + n \<le> max_size" using room by (simp add: buffer_room_def)
  have 1: "size_add (writableBytes b) (prependableBytes b) = writableBytes b + prependableBytes b"
    using buffer_inv_bounds [OF inv] inv
    by (intro size_add_small max_size_bound) (auto simp: prependableBytes_def)
  have 2: "size_add n kCheapPrepend = n + kCheapPrepend"
    using n by (intro size_add_small) (auto simp: max_size_def kCheapPrepend_def)
  have 3: "size_add ?w n = ?w + n"
    using n by (intro size_add_small) (auto simp: max_size_def)
  define v where "v = bufferData b @ replicate (?w + n - ?l) (CHR 0x00)"
  have "?l \<le> ?w + n" using few inv by (auto simp: buffer_inv_def)
  then have "vector_resize (bufferData b) (?w + n) = Inr v"
    using n by (simp add: vector_resize_def v_def)
  then have ms: "makeSpace b n = Inr (b\<lparr>bufferData := v\<rparr>)"
    using grow by (simp add: makeSpace_def 1 2 3)
  have inv': "buffer_inv (b\<lparr>bufferData := v\<rparr>)"
    using inv n \<open>?l \<le> ?w + n\<close> by (auto simp: buffer_inv_def v_def)
  moreover have "content (b\<lparr>bufferData := v\<rparr>) = content b"
    using inv by (auto simp: content_def v_def buffer_inv_def)
  moreover have "n \<le> writableBytes (b\<lparr>bufferData := v\<rparr>)"
    using inv' \<open>?l \<le> ?w + n\<close> by (simp add: v_def)
  ultimately show ?thesis using ms by auto
qed

lemma makeSpace_move:
  assumes inv: "buffer_inv b" and room: "buffer_room b n" and few: "writableBytes b < n"
    and enough: "n + kCheapPrepend \<le> writableBytes b + prependableBytes b"
  shows "\<exists>b'. makeSpace b n = Inr b' \<and> buffer_inv b' \<and> content b' = content b
              \<and> writerIndex b' \<le> writerIndex b \<and> n \<le> writableBytes b'"
proof -
  let ?r = "readerIndex b" and ?w = "writerIndex b" and ?l = "length (bufferData b)"
  note bnds = buffer_inv_bounds [OF inv]
  have 1: "size_add (writableBytes b) (prependableBytes b) = writableBytes b + prependableBytes b"
    using bnds inv by (intro size_add_small max_size_bound) (auto simp: prependableBytes_def)
  have 2: "size_add n kCheapPrepend = n + kCheapPrepend"
    using room by (intro size_add_small) (auto simp: max_size_def kCheapPrepend_def buffer_room_def)
  have 3: "size_add kCheapPrepend (?w - ?r) = kCheapPrepend + (?w - ?r)"
    using bnds by (intro size_add_small) (auto simp: max_size_def kCheapPrepend_def)
  have r8: "kCheapPrepend < ?r"
    using few enough inv by (simp add: prependableBytes_def)
  have rd: "read_range (bufferData b) ?r (?w - ?r) = Inr (content b)"
    using bnds by (simp add: content_def)
  have lc: "length (content b) = ?w - ?r" using length_content [OF inv] inv by simp
  define v where "v = take kCheapPrepend (bufferData b) @ content b
                      @ drop (kCheapPrepend + (?w - ?r)) (bufferData b)"
  have wr: "write_range (bufferData b) kCheapPrepend (content b) = Inr v"
    using bnds r8 lc by (simp add: write_range_def v_def)
  have lv: "length v = ?l" using bnds r8 lc by (simp add: v_def)
  define b' where "b' = b\<lparr>bufferData := v, readerIndex := kCheapPrepend,
                          writerIndex := kCheapPrepend + (?w - ?r)\<rparr>"
  have inv': "buffer_inv b'"
    using bnds r8 lv by (auto simp: buffer_inv_def b'_def)
  have rb: "readableBytes b = ?w - ?r" and rb': "readableBytes b' = ?w - ?r"
    using inv inv' by (simp_all add: b'_def)
  have "makeSpace b n = Inr b'"
    unfolding makeSpace_def 1 2 rb Let_def
    using enough r8 rd wr rb' by (simp add: 3 b'_def [symmetric])
  moreover have "content b' = take (?w - ?r) (drop kCheapPrepend v)"
    by (simp add: content_def b'_def)
  then have "content b' = content b"
    using bnds r8 lc by (simp add: v_def)
  moreover have "writerIndex b' \<le> ?w" using bnds r8 by (simp add: b'_def)
  moreover have "n \<le> writableBytes b'"
    using inv' inv lv enough r8 bnds by (simp add: b'_def prependableBytes_def)
  ultimately show ?thesis using inv' by blast
qed

lemma ensureWritableBytes_spec:
  assumes inv: "buffer_inv b" and room: "buffer_room b n"
  shows "\<exists>b'. ensureWritableBytes b n = Inr b' \<and> buffer_inv b' \<and> content b' = content b
              \<and> writerIndex b' \<le> writerIndex b \<and> n \<le> writableBytes b'"
proof (cases "writableBytes b < n")
  case True
  then obtain b' where "makeSpace b n = Inr b'" "buffer_inv b'" "content b' = content b"
    "writerIndex b' \<le> writerIndex b" "n \<le> writableBytes b'"
    using makeSpace_grow [OF assms True] makeSpace_move [OF assms True]
    by (metis order_refl not_le)
  then show ?thesis using True by (simp add: ensureWritableBytes_def)
next
  case False
  then show ?thesis using inv by (auto simp: ensureWritableBytes_def)
qed

lemma Buffer_append_spec:
  assumes inv: "buffer_inv b" and room: "buffer_room b (length dat)"
  shows "\<exists>b'. Buffer_append b dat = Inr b' \<and> buffer_inv b' \<and> content b' = content b @ dat
              \<and> writerIndex b' \<le> writerIndex b + length dat"
proof -
  from ensureWritableBytes_spec [OF assms] obtain b1
    where e: "ensureWritableBytes b (length dat) = Inr b1" and inv1: "buffer_inv b1"
      and c1: "content b1 = content b" and w1: "writerIndex b1 \<le> writerIndex b"
      and n1: "length dat \<le> writableBytes b1" by blast
  note bnds = buffer_inv_bounds [OF inv1]
  have fits: "writerIndex b1 + length dat \<le> length (bufferData b1)"
    using n1 inv1 bnds by simp
  define v where "v = take (writerIndex b1) (bufferData b1) @ dat
                      @ drop (writerIndex b1 + length dat) (bufferData b1)"
  define b' where "b' = b1\<lparr>bufferData := v, writerIndex := writerIndex b1 + length dat\<rparr>"
  have lv: "length v = length (bufferData b1)" using fits by (simp add: v_def)
  have sa: "size_add (writerIndex b1) (length dat) = writerIndex b1 + length dat"
    using fits by (intro size_add_index [OF inv1]) simp
  have "Buffer_append b dat = Inr b'"
    using fits by (simp add: Buffer_append_def e write_range_ok beginWrite_def hasWritten_def
        v_def [symmetric] b'_def sa)
  moreover have "buffer_inv b'" using bnds fits lv by (auto simp: buffer_inv_def b'_def)
  moreover have "content b' = content b1 @ dat"
    using take_write_before [OF fits bnds(1)] bnds(1)
    by (simp add: content_def b'_def v_def)
  ultimately show ?thesis using c1 w1 by (auto simp: b'_def)
qed

lemma prepend_spec:
  assumes inv: "buffer_inv b" and "length dat \<le> prependableBytes b"
  shows "\<exists>b'. prepend b dat = Inr b' \<and> buffer_inv b' \<and> content b' = dat @ content b
              \<and> writerIndex b' = writerIndex b"
proof -
  let ?r = "readerIndex b" and ?n = "length dat"
  note bnds = buffer_inv_bounds [OF inv]
  have le: "?n \<le> ?r" using assms(2) by (simp add: prependableBytes_def)
  define v where "v = take (?r - ?n) (bufferData b) @ dat @ drop ?r (bufferData b)"
  define b' where "b' = b\<lparr>bufferData := v, readerIndex := ?r - ?n\<rparr>"
  have "write_range (bufferData b) (?r - ?n) dat = Inr v"
    using le bnds by (simp add: write_range_def v_def)
  then have "prepend b dat = Inr b'"
    using le by (simp add: prepend_def prependableBytes_def size_sub_le b'_def)
  moreover have "buffer_inv b'" using le bnds by (auto simp: buffer_inv_def b'_def v_def)
  moreover have "content b' = dat @ content b"
    using le bnds by (simp add: content_def b'_def v_def)
  ultimately show ?thesis by (auto simp: b'_def)
qed

section \<open>readFd\<close>

text \<open>
  The kernel delivers at most as many bytes as the two \<open>iovec\<close>s of the call can hold.
\<close>

definition readv_fits :: "buffer \<Rightarrow> readv_result \<Rightarrow> bool" where
  "readv_fits b r \<longleftrightarrow>
     (case r of ReadErr e \<Rightarrow> True | ReadOk dat \<Rightarrow> length dat \<le> writableBytes b + extrabufSize)"

lemma readFd_within:
  assumes inv: "buffer_inv b" and n: "length dat \<le> writableBytes b"
  shows "\<exists>b'. Buffer_readFd b (ReadOk dat) = Inr (int (length dat), None, b') \<and> buffer_inv b'
              \<and> content b' = content b @ dat \<and> writerIndex b' = writerIndex b + length dat"
proof -
  let ?w = "writerIndex b"
  note bnds = buffer_inv_bounds [OF inv]
  have fits: "?w + length dat \<le> length (bufferData b)" using n inv bnds by simp
  define v where "v = take ?w (bufferData b) @ dat @ drop (?w + length dat) (bufferData b)"
  define b' where "b' = b\<lparr>bufferData := v, writerIndex := ?w + length dat\<rparr>"
  have "Buffer_readFd b (ReadOk dat) = Inr (int (length dat), None, b')"
    using n fits size_add_index [OF inv, of "length dat"] inv
    by (simp add: Buffer_readFd_def Let_def write_range_ok v_def [symmetric] b'_def)
  moreover have "buffer_inv b'" using bnds fits by (auto simp: buffer_inv_def b'_def v_def)
  moreover have "content b' = content b @ dat"
    using take_write_before [OF fits bnds(1)] bnds(1)
    by (simp add: content_def b'_def v_def)
  ultimately show ?thesis by (auto simp: b'_def)
qed

lemma readFd_overflow:
  assumes inv: "buffer_inv b" and n: "writableBytes b < length dat"
    and room: "buffer_room b (length dat)"
  shows "\<exists>b'. Buffer_readFd b (ReadOk dat) = Inr (int (length dat), None, b') \<and> buffer_inv b'
              \<and> content b' = content b @ dat \<and> writerIndex b' \<le> writerIndex b + length dat"
proof -
  let ?w = "writerIndex b" and ?k = "writableBytes b"
  note bnds = buffer_inv_bounds [OF inv]
  have k: "?k = length (bufferData b) - ?w" using inv by simp
  define v where "v = take ?w (bufferData b) @ take ?k dat"
  define b1 where "b1 = b\<lparr>bufferData := v, writerIndex := length (bufferData b)\<rparr>"
  have lv: "length v = length (bufferData b)" using n k bnds by (simp add: v_def)
  have wr: "write_range (bufferData b) ?w (take ?k dat) = Inr v"
    using n k bnds by (simp add: write_range_def v_def)
  have inv1: "buffer_inv b1" using bnds lv by (auto simp: buffer_inv_def b1_def)
  have c1: "content b1 = content b @ take ?k dat"
  proof -
    have "content b1 = drop (readerIndex b) v"
      using bnds lv by (simp add: content_def b1_def)
    then show ?thesis using bnds by (simp add: v_def content_def drop_take)
  qed
  have "buffer_room b1 (length (drop ?k dat))"
    using room n k bnds by (simp add: buffer_room_def b1_def)
  from Buffer_append_spec [OF inv1 this] obtain b'
    where b': "Buffer_append b1 (drop ?k dat) = Inr b'" "buffer_inv b'"
      "content b' = content b1 @ drop ?k dat"
      "writerIndex b' \<le> writerIndex b1 + length (drop ?k dat)" by blast
  have "Buffer_readFd b (ReadOk dat) = Inr (int (length dat), None, b')"
    unfolding Buffer_readFd_def Let_def
    using n wr b'(1) lv by (simp add: b1_def)
  moreover have "writerIndex b' \<le> ?w + length dat"
    using b'(4) n k bnds by (simp add: b1_def)
  ultimately show ?thesis using b' c1 by auto
qed

lemma readFd_spec:
  assumes "buffer_inv b" and "buffer_room b (length dat)"
  shows "\<exists>b'. Buffer_readFd b (ReadOk dat) = Inr (int (length dat), None, b') \<and> buffer_inv b'
              \<and> content b' = content b @ dat \<and> writerIndex b' \<le> writerIndex b + length dat"
  using readFd_within [OF assms(1)] readFd_overflow [OF assms(1) _ assms(2)]
  by (metis not_le order_refl)

section \<open>The contract a connection relies on\<close>

text \<open>
  A connection uses its buffers as byte queues: what it appends comes out in order. The
  contract is a locale over any representation with a content, and its client lemma says
  that a run of appends and retrieves is a run over the content alone.
\<close>

datatype buf_op = OpAppend string | OpRetrieve nat

fun queue_run :: "buf_op list \<Rightarrow> string \<Rightarrow> string option" where
  "queue_run [] q = Some q"
| "queue_run (OpAppend s # ops) q = queue_run ops (q @ s)"
| "queue_run (OpRetrieve n # ops) q =
     (if n \<le> length q then queue_run ops (drop n q) else None)"

fun appended :: "buf_op list \<Rightarrow> string" where
  "appended [] = []"
| "appended (OpAppend s # ops) = s @ appended ops"
| "appended (OpRetrieve n # ops) = appended ops"

fun retrieved :: "buf_op list \<Rightarrow> nat" where
  "retrieved [] = 0"
| "retrieved (OpAppend s # ops) = retrieved ops"
| "retrieved (OpRetrieve n # ops) = n + retrieved ops"

lemma queue_run_fifo:
  "queue_run ops q = Some q' \<Longrightarrow> q' = drop (retrieved ops) (q @ appended ops)
   \<and> retrieved ops \<le> length q + length (appended ops)"
proof (induction ops q rule: queue_run.induct)
  case (3 n ops q)
  then show ?case by (auto split: if_splits simp: add.commute)
qed auto

locale byte_queue =
  fixes bytes :: "'b \<Rightarrow> string" and invar :: "'b \<Rightarrow> bool" and used :: "'b \<Rightarrow> nat"
    and cap :: nat and app :: "'b \<Rightarrow> string \<Rightarrow> 'b result" and ret :: "'b \<Rightarrow> nat \<Rightarrow> 'b result"
  assumes app_law: "invar b \<Longrightarrow> used b + length s \<le> cap \<Longrightarrow>
      \<exists>b'. app b s = Inr b' \<and> invar b' \<and> bytes b' = bytes b @ s \<and> used b' \<le> used b + length s"
    and ret_law: "invar b \<Longrightarrow> n \<le> length (bytes b) \<Longrightarrow>
      \<exists>b'. ret b n = Inr b' \<and> invar b' \<and> bytes b' = drop n (bytes b) \<and> used b' \<le> used b"
    and ret_guard: "invar b \<Longrightarrow> length (bytes b) < n \<Longrightarrow> ret b n = Inl AssertionFailed"
begin

definition run_op :: "buf_op \<Rightarrow> 'b \<Rightarrow> 'b result" where
  "run_op x b = (case x of OpAppend s \<Rightarrow> app b s | OpRetrieve n \<Rightarrow> ret b n)"

lemma run_refines:
  "invar b \<Longrightarrow> used b + length (appended ops) \<le> cap \<Longrightarrow> queue_run ops (bytes b) = Some q' \<Longrightarrow>
   \<exists>b'. foldR run_op ops b = Inr b' \<and> invar b' \<and> bytes b' = q'"
proof (induction ops arbitrary: b)
  case Nil
  then show ?case by simp
next
  case (Cons x ops)
  show ?case
  proof (cases x)
    case (OpAppend s)
    with Cons.prems app_law [of b s] obtain b1
      where b1: "app b s = Inr b1" "invar b1" "bytes b1 = bytes b @ s" "used b1 \<le> used b + length s"
      by auto
    with Cons.IH [of b1] Cons.prems OpAppend show ?thesis by (simp add: run_op_def)
  next
    case (OpRetrieve n)
    with Cons.prems have n: "n \<le> length (bytes b)" by (auto split: if_splits)
    with Cons.prems ret_law [of b n] obtain b1
      where b1: "ret b n = Inr b1" "invar b1" "bytes b1 = drop n (bytes b)" "used b1 \<le> used b"
      by auto
    with Cons.IH [of b1] Cons.prems OpRetrieve n show ?thesis by (simp add: run_op_def)
  qed
qed

lemma run_fifo:
  assumes "invar b" and "used b + length (appended ops) \<le> cap"
    and "queue_run ops (bytes b) = Some q"
  shows "\<exists>b'. foldR run_op ops b = Inr b' \<and> invar b'
              \<and> bytes b' = drop (retrieved ops) (bytes b @ appended ops)"
  using run_refines [OF assms] queue_run_fifo [OF assms(3)] by blast

end

lemma ensureWritableBytes_length:
  assumes inv: "buffer_inv b" and room: "buffer_room b n" and e: "ensureWritableBytes b n = Inr b'"
  shows "length (bufferData b') =
        (if n \<le> writableBytes b \<or> n + kCheapPrepend \<le> writableBytes b + prependableBytes b
         then length (bufferData b) else writerIndex b + n)"
proof -
  have 1: "size_add (writableBytes b) (prependableBytes b) = writableBytes b + prependableBytes b"
    using buffer_inv_bounds [OF inv] inv
    by (intro size_add_small max_size_bound) (auto simp: prependableBytes_def)
  have 2: "size_add n kCheapPrepend = n + kCheapPrepend" "size_add (writerIndex b) n = writerIndex b + n"
    using room by (auto intro!: size_add_small simp: max_size_def kCheapPrepend_def buffer_room_def)
  have "makeSpace b n = Inr b'" if "writableBytes b < n"
    using that e by (auto simp: ensureWritableBytes_def bindR_eq_Inr split: if_splits)
  moreover have "b' = b" if "n \<le> writableBytes b"
    using that e by (auto simp: ensureWritableBytes_def bindR_eq_Inr split: if_splits)
  ultimately show ?thesis
    by (cases "n \<le> writableBytes b")
      (auto simp: makeSpace_def 1 2 bindR_eq_Inr Let_def vector_resize_def not_le
        dest: write_range_length split: if_splits)
qed

lemma retrieve_guard:
  "buffer_inv b \<Longrightarrow> length (content b) < n \<Longrightarrow> retrieve b n = Inl AssertionFailed"
  using length_content [of b] by (simp add: retrieve_def)

interpretation bq: byte_queue content buffer_inv writerIndex max_size Buffer_append retrieve
proof
  fix b :: buffer and s :: string
  assume "buffer_inv b" and "writerIndex b + length s \<le> max_size"
  then show "\<exists>b'. Buffer_append b s = Inr b' \<and> buffer_inv b' \<and> content b' = content b @ s
      \<and> writerIndex b' \<le> writerIndex b + length s"
    using Buffer_append_spec [of b s] by (simp add: buffer_room_def)
next
  fix b :: buffer and n :: nat
  assume inv: "buffer_inv b" and "n \<le> length (content b)"
  then have "n \<le> readableBytes b" using length_content [OF inv] by simp
  from retrieve_spec [OF inv this]
  show "\<exists>b'. retrieve b n = Inr b' \<and> buffer_inv b' \<and> content b' = drop n (content b)
      \<and> writerIndex b' \<le> writerIndex b"
    by (metis order_refl)
qed (rule retrieve_guard)

text \<open>The operations of the contract, on the class itself.\<close>

definition Buffer_op :: "buf_op \<Rightarrow> buffer \<Rightarrow> buffer result" where
  "Buffer_op x b = (case x of OpAppend s \<Rightarrow> Buffer_append b s | OpRetrieve n \<Rightarrow> retrieve b n)"

lemma bq_run_op: "bq.run_op = Buffer_op"
  by (simp add: bq.run_op_def Buffer_op_def fun_eq_iff)

section \<open>Shrinking\<close>

lemma shrink_new_storage:
  assumes inv: "buffer_inv b" and "kCheapPrepend + readableBytes b + reserve \<le> max_size"
  shows "shrink b reserve = Inr (b\<lparr>bufferData :=
           replicate kCheapPrepend (CHR 0x00) @ content b @ replicate reserve (CHR 0x00)\<rparr>)"
proof -
  let ?n = "writerIndex b - readerIndex b"
  note bnds = buffer_inv_bounds [OF inv]
  have rb: "readableBytes b = ?n" using inv by simp
  have sz: "size_add (size_add kCheapPrepend ?n) reserve = kCheapPrepend + ?n + reserve"
    using assms(2) rb by (simp add: size_add_def max_size_def)
  have lc: "length (content b) = ?n" using length_content [OF inv] rb by simp
  have "vector_resize [] (kCheapPrepend + ?n + reserve) =
        Inr (replicate (kCheapPrepend + ?n + reserve) (CHR 0x00))"
    using assms(2) rb by (simp add: vector_resize_def)
  moreover have "read_range (bufferData b) (readerIndex b) ?n = Inr (content b)"
    using bnds by (simp add: content_def)
  moreover have "write_range (replicate (kCheapPrepend + ?n + reserve) (CHR 0x00)) kCheapPrepend (content b)
      = Inr (replicate kCheapPrepend (CHR 0x00) @ content b @ replicate reserve (CHR 0x00))"
    using lc by (simp add: write_range_def)
  ultimately show ?thesis by (simp add: shrink_def rb sz peek_def)
qed

section \<open>Properties\<close>

text \<open>
  C3. First in, first out: from any well-formed buffer, a sequence of appends and retrieves in
  which no retrieve asks for more than is readable runs without a failed assertion or a
  memory error, keeps \<open>readerIndex <= writerIndex <= size\<close>, and leaves exactly the old content followed
  by everything appended, minus the bytes retrieved from the front; this as long as
  the writer index can grow by the appended bytes without passing the vector's largest size.
\<close>

theorem Buffer_run_fifo:
  assumes "buffer_inv b" and "writerIndex b + length (appended ops) \<le> max_size"
    and "queue_run ops (content b) \<noteq> None"
  shows "\<exists>b'. foldR Buffer_op ops b = Inr b' \<and> buffer_inv b'
              \<and> content b' = drop (retrieved ops) (content b @ appended ops)"
  using assms(3) bq.run_fifo [OF assms(1,2)] by (auto simp: bq_run_op)

theorem Buffer_run_fifo_witness:
  "\<exists>b'. foldR Buffer_op [OpAppend ''hello'', OpRetrieve 2, OpAppend ''!''] Buffer_new = Inr b'
        \<and> buffer_inv b' \<and> content b' = ''llo!''"
  using Buffer_run_fifo [of Buffer_new "[OpAppend ''hello'', OpRetrieve 2, OpAppend ''!'']"]
    Buffer_new_inv
  by (simp add: Buffer_new_def kCheapPrepend_def max_size_def)

text \<open>
  C29. \<open>readFd\<close> appends exactly the bytes the kernel delivered, whether they fit in the writable
  space or spill into \<open>extrabuf\<close>, returns their number and keeps the invariant; on an error of
  \<open>readv\<close> it returns -1, saves \<open>errno\<close> and leaves the buffer alone.
\<close>

theorem Buffer_readFd_delivers:
  assumes "buffer_inv b"
  shows "(\<forall>dat. buffer_room b (length dat) \<longrightarrow>
            (\<exists>b'. Buffer_readFd b (ReadOk dat) = Inr (int (length dat), None, b')
                  \<and> buffer_inv b' \<and> content b' = content b @ dat))
         \<and> (\<forall>e. Buffer_readFd b (ReadErr e) = Inr (-1, Some e, b))"
proof (intro conjI allI impI)
  fix dat :: string assume "buffer_room b (length dat)"
  from readFd_spec [OF assms this]
  show "\<exists>b'. Buffer_readFd b (ReadOk dat) = Inr (int (length dat), None, b')
             \<and> buffer_inv b' \<and> content b' = content b @ dat" by blast
next
  fix e show "Buffer_readFd b (ReadErr e) = Inr (-1, Some e, b)"
    by (simp add: Buffer_readFd_def)
qed

theorem Buffer_readFd_delivers_witness:
  "\<exists>b'. Buffer_readFd Buffer_new (ReadOk ''GET'') = Inr (3, None, b') \<and> content b' = ''GET''"
  using Buffer_readFd_delivers [of Buffer_new] Buffer_new_inv
    spec [where x = "''GET''", OF conjunct1 [OF Buffer_readFd_delivers [of Buffer_new]]]
  by (auto simp: buffer_room_def Buffer_new_def kCheapPrepend_def max_size_def)

text \<open>
  \<open>ensureWritableBytes\<close> never fails while the vector may grow, keeps the content, and
  reallocates only when it must: the storage keeps its size when the request fits behind
  the writer or, after moving the content to the front, in the writable and
  prependable space together; otherwise it grows to exactly \<open>writerIndex + len\<close>.
\<close>

theorem ensureWritableBytes_storage:
  assumes "buffer_inv b" and "buffer_room b n"
  shows "\<exists>b'. ensureWritableBytes b n = Inr b' \<and> buffer_inv b' \<and> content b' = content b
    \<and> n \<le> writableBytes b'
    \<and> length (bufferData b') =
        (if n \<le> writableBytes b \<or> n + kCheapPrepend \<le> writableBytes b + prependableBytes b
         then length (bufferData b) else writerIndex b + n)"
proof -
  obtain b' where "ensureWritableBytes b n = Inr b'" "buffer_inv b'" "content b' = content b"
    "n \<le> writableBytes b'"
    using ensureWritableBytes_spec [OF assms] by blast
  with ensureWritableBytes_length [OF assms] show ?thesis by blast
qed

theorem ensureWritableBytes_storage_witness:
  "\<exists>b'. ensureWritableBytes Buffer_new 2000 = Inr b' \<and> 2000 \<le> writableBytes b'
        \<and> length (bufferData b') = 2008"
  using ensureWritableBytes_storage [of Buffer_new 2000] Buffer_new_inv
  by (auto simp: buffer_room_def Buffer_new_def kCheapPrepend_def kInitialSize_def max_size_def
      writableBytes_def prependableBytes_def size_sub_def)

text \<open>
  \<open>prepend\<close> puts a header of at most \<open>prependableBytes()\<close> bytes in front of the content, so
  that \<open>retrieveAsString\<close> returns header and content and leaves an empty buffer; a longer
  header fails the assertion.
\<close>

theorem prepend_then_retrieve:
  assumes "buffer_inv b"
  shows "if length hdr \<le> prependableBytes b
         then \<exists>b'. bindR (prepend b hdr) retrieveAsString = Inr (hdr @ content b, b')
                   \<and> buffer_inv b' \<and> content b' = []
         else prepend b hdr = Inl AssertionFailed"
proof (cases "length hdr \<le> prependableBytes b")
  case True
  from prepend_spec [OF assms this] obtain b1
    where "prepend b hdr = Inr b1" "buffer_inv b1" "content b1 = hdr @ content b" by blast
  with True show ?thesis by (simp add: retrieveAsString_spec retrieveAll_spec)
next
  case False
  then show ?thesis by (simp add: prepend_def)
qed

theorem prepend_then_retrieve_witness:
  "\<exists>b'. bindR (prepend Buffer_new ''12345678'') retrieveAsString = Inr (''12345678'', b')
        \<and> buffer_inv b' \<and> content b' = []"
  using prepend_then_retrieve [of Buffer_new "''12345678''"] Buffer_new_inv
  by (auto simp: prependableBytes_def Buffer_new_def kCheapPrepend_def)

text \<open>
  \<open>shrink\<close> moves the content to the front of a new vector but does not move the indices.
  When the reader index is past \<open>kCheapPrepend + reserve\<close>, the writer index ends up outside the
  new storage, \<open>writableBytes()\<close> wraps around, and the next append of a non-empty string
  writes outside the vector.
\<close>

theorem shrink_breaks_append:
  assumes "buffer_inv b" and "kCheapPrepend + reserve < readerIndex b" and "dat \<noteq> []"
    and "length dat \<le> max_size"
  shows "\<exists>b'. shrink b reserve = Inr b' \<and> \<not> buffer_inv b' \<and> Buffer_append b' dat = Inl OutOfBounds"
proof -
  let ?n = "readableBytes b"
  define b' where "b' = b\<lparr>bufferData := replicate kCheapPrepend (CHR 0x00) @ content b
                                       @ replicate reserve (CHR 0x00)\<rparr>"
  note bnds = buffer_inv_bounds [OF assms(1)]
  have n: "?n = writerIndex b - readerIndex b" "length (content b) = ?n"
    using assms(1) length_content by auto
  have len: "length (bufferData b') = kCheapPrepend + ?n + reserve" using n by (simp add: b'_def)
  have beyond: "length (bufferData b') < writerIndex b'"
    using assms(2) bnds n len by (simp add: b'_def)
  have sh: "shrink b reserve = Inr b'"
    using shrink_new_storage [OF assms(1), of reserve] assms(2) bnds n by (simp add: b'_def)
  have "writerIndex b' \<le> max_size" using bnds by (simp add: b'_def)
  then have "length dat \<le> writableBytes b'"
    using beyond assms(4) by (simp add: writableBytes_def size_sub_def max_size_def)
  then have "ensureWritableBytes b' (length dat) = Inr b'"
    by (simp add: ensureWritableBytes_def)
  then have "Buffer_append b' dat = Inl OutOfBounds"
    using beyond assms(3) by (simp add: Buffer_append_def write_range_def beginWrite_def)
  with sh beyond show ?thesis by (auto simp: buffer_inv_def)
qed

theorem shrink_breaks_append_witness:
  "\<exists>b'. shrink \<lparr>bufferData = replicate 12 (CHR 0x00), readerIndex = 10, writerIndex = 12\<rparr> 0 = Inr b'
        \<and> \<not> buffer_inv b' \<and> Buffer_append b' ''x'' = Inl OutOfBounds"
  using shrink_breaks_append [of "\<lparr>bufferData = replicate 12 (CHR 0x00), readerIndex = 10, writerIndex = 12\<rparr>"
      0 "''x''"]
  by (simp add: buffer_inv_def kCheapPrepend_def max_size_def)

end
