(* ===== verification/Poller.thy ===== *)
theory Poller
  imports Multiplexer
begin

text \<open>
  \<^verbatim>\<open>muduo/Poller.h\<close> and \<^verbatim>\<open>Poller.cpp\<close>: the poller over \<open>poll(2)\<close>. Its state extends the store of
  channels by the array of \<open>pollfd\<close>s and the map from descriptors to channels; a channel's
  \<open>index\<close> is its position in the array, and a negative \<open>fd\<close> there makes the kernel ignore
  the entry.
\<close>

unbundle bit_operations_syntax

section \<open>The class\<close>

record pollfd =
  pfd_fd :: int
  pfd_events :: "16 word"
  pfd_revents :: "16 word"

record 'cb poller = "'cb chan_world" +
  pollFdList :: "pollfd list"
  channelMap :: "int \<Rightarrow> nat option"

text \<open>What \<open>poll(2)\<close> reports: an error, or the number of active entries and the \<open>revents\<close> of each.\<close>

datatype poll_result = PollErr int | PollOk int "16 word list"

fun fillActiveChannels :: "pollfd list \<Rightarrow> int \<Rightarrow> nat list \<Rightarrow> ('cb, 'm) poller_scheme
    \<Rightarrow> (nat list \<times> ('cb, 'm) poller_scheme) result" where
  "fillActiveChannels [] numEvents active s = Inr (active, s)"
| "fillActiveChannels (p # ps) numEvents active s =
     (if 0 < numEvents then
        if 0 < sint (pfd_revents p) then
          (case channelMap s (pfd_fd p) of
             None \<Rightarrow> Inl AssertionFailed
           | Some c \<Rightarrow>
               bindR (derefR (chans s) c) (\<lambda>ch.
                 assertR (ch_fd ch = pfd_fd p)
                   (bindR (setRevents c (scast (pfd_revents p)) s)
                     (\<lambda>s'. fillActiveChannels ps (numEvents - 1) (active @ [c]) s'))))
        else fillActiveChannels ps numEvents active s
      else Inr (active, s))"

definition Poller_poll :: "poll_result \<Rightarrow> timestamp \<Rightarrow> nat list \<Rightarrow> ('cb, 'm) poller_scheme
    \<Rightarrow> (timestamp \<times> nat list \<times> ('cb, 'm) poller_scheme) result" where
  "Poller_poll r now active s =
     (case r of
        PollErr e \<Rightarrow> Inr (now, active, s)
      | PollOk numEvents rs \<Rightarrow>
          (let s1 = s\<lparr>pollFdList := map2 (\<lambda>p x. p\<lparr>pfd_revents := x\<rparr>) (pollFdList s) rs\<rparr> in
           if 0 < numEvents
           then bindR (fillActiveChannels (pollFdList s1) numEvents active s1)
                  (\<lambda>(a, s2). Inr (now, a, s2))
           else Inr (now, active, s1)))"

definition Poller_updateChannel :: "nat \<Rightarrow> ('cb, 'm) poller_scheme \<Rightarrow> ('cb, 'm) poller_scheme result" where
  "Poller_updateChannel c s =
     assertInLoopThread s
       (bindR (derefR (chans s) c) (\<lambda>ch.
          if ch_index ch < 0 then
            assertR (channelMap s (ch_fd ch) = None)
              (let pfd = \<lparr>pfd_fd = ch_fd ch, pfd_events = ucast (ch_events ch), pfd_revents = 0\<rparr>;
                   s1 = s\<lparr>pollFdList := pollFdList s @ [pfd]\<rparr>;
                   idx = int (length (pollFdList s1)) - 1
               in bindR (setIndex c idx s1)
                    (\<lambda>s2. Inr (s2\<lparr>channelMap := (channelMap s2)(pfd_fd pfd \<mapsto> c)\<rparr>)))
          else
            assertR (channelMap s (ch_fd ch) \<noteq> None)
              (assertR (channelMap s (ch_fd ch) = Some c)
                (let idx = ch_index ch in
                 assertR (0 \<le> idx \<and> idx < int (length (pollFdList s)))
                   (let pfd = pollFdList s ! nat idx in
                    assertR (pfd_fd pfd = ch_fd ch \<or> pfd_fd pfd = - ch_fd ch - 1)
                      (let pfd1 = pfd\<lparr>pfd_events := ucast (ch_events ch), pfd_revents := 0\<rparr>;
                           pfd2 = (if isNoneEvent ch then pfd1\<lparr>pfd_fd := - ch_fd ch - 1\<rparr> else pfd1)
                       in Inr (s\<lparr>pollFdList := (pollFdList s)[nat idx := pfd2]\<rparr>)))))))"

definition Poller_removeChannel :: "nat \<Rightarrow> ('cb, 'm) poller_scheme \<Rightarrow> ('cb, 'm) poller_scheme result" where
  "Poller_removeChannel c s =
     assertInLoopThread s
       (bindR (derefR (chans s) c) (\<lambda>ch.
          assertR (channelMap s (ch_fd ch) \<noteq> None)
            (assertR (channelMap s (ch_fd ch) = Some c)
              (assertR (isNoneEvent ch)
                (let idx = ch_index ch; n = length (pollFdList s) in
                 assertR (0 \<le> idx \<and> idx < int n)
                   (let pfd = pollFdList s ! nat idx in
                    assertR (pfd_fd pfd = - ch_fd ch - 1 \<and> scast (pfd_events pfd) = ch_events ch)
                      (let s1 = s\<lparr>channelMap := (channelMap s)(ch_fd ch := None)\<rparr> in
                       if nat idx = n - 1
                       then Inr (s1\<lparr>pollFdList := butlast (pollFdList s1)\<rparr>)
                       else
                         (let endFd = pfd_fd (last (pollFdList s1));
                              l = (pollFdList s1)[nat idx := last (pollFdList s1), n - 1 := pfd];
                              channelAtEnd = (if endFd < 0 then - endFd - 1 else endFd)
                          in case channelMap s1 channelAtEnd of
                               None \<Rightarrow> Inl DanglingPointer
                             | Some d \<Rightarrow> bindR (setIndex d idx (s1\<lparr>pollFdList := l\<rparr>))
                                 (\<lambda>s2. Inr (s2\<lparr>pollFdList := butlast (pollFdList s2)\<rparr>))))))))))"

section \<open>Invariant and the kernel's view\<close>

text \<open>
  Every registered channel sits at its index, under its descriptor or the ignored form of it, and
  every entry of the array belongs to a registered channel.
\<close>

definition slot_of :: "('cb, 'm) poller_scheme \<Rightarrow> int \<Rightarrow> nat \<Rightarrow> nat \<Rightarrow> bool" where
  "slot_of s fd c i \<longleftrightarrow> channelMap s fd = Some c \<and> 0 \<le> fd \<and> i < length (pollFdList s)
     \<and> (\<exists>ch. chans s c = Some ch \<and> ch_fd ch = fd \<and> ch_index ch = int i)
     \<and> (pfd_fd (pollFdList s ! i) = fd \<or> pfd_fd (pollFdList s ! i) = - fd - 1)"

definition poller_inv :: "('cb, 'm) poller_scheme \<Rightarrow> bool" where
  "poller_inv s \<longleftrightarrow> isInLoopThread s
     \<and> (\<forall>fd c. channelMap s fd = Some c \<longrightarrow> (\<exists>i. slot_of s fd c i))
     \<and> (\<forall>i < length (pollFdList s). \<exists>fd c. slot_of s fd c i)"

definition poll_interest :: "('cb, 'm) poller_scheme \<Rightarrow> int \<Rightarrow> 32 word option" where
  "poll_interest s fd =
     (if fd < 0 then None
      else map_option (\<lambda>p. ucast (pfd_events p)) (find (\<lambda>p. pfd_fd p = fd) (pollFdList s)))"

lemma slot_of_unique:
  assumes "slot_of s fd c i" and "slot_of s fd' c' i"
  shows "fd = fd' \<and> c = c'"
  using assms by (auto simp: slot_of_def)

lemma slot_of_index_unique: "slot_of s fd c i \<Longrightarrow> slot_of s fd c' j \<Longrightarrow> i = j \<and> c = c'"
  by (auto simp: slot_of_def)

lemma poll_interest_registered:
  assumes inv: "poller_inv s" and sl: "slot_of s fd c i"
  shows "poll_interest s fd =
           (if pfd_fd (pollFdList s ! i) = fd then Some (ucast (pfd_events (pollFdList s ! i))) else None)"
proof -
  have fd: "0 \<le> fd" "i < length (pollFdList s)" using sl by (auto simp: slot_of_def)
  have only: "j = i" if "j < length (pollFdList s)" "pfd_fd (pollFdList s ! j) = fd" for j
  proof -
    from inv that(1) obtain fd' c' where sl': "slot_of s fd' c' j" by (auto simp: poller_inv_def)
    with that(2) fd have "fd' = fd" by (auto simp: slot_of_def)
    with sl sl' show ?thesis using slot_of_index_unique by blast
  qed
  show ?thesis
  proof (cases "pfd_fd (pollFdList s ! i) = fd")
    case True
    have "\<forall>j < i. pfd_fd (pollFdList s ! j) \<noteq> fd"
      using only fd(2) by (metis less_irrefl less_trans)
    with True fd(2) have "find (\<lambda>p. pfd_fd p = fd) (pollFdList s) = Some (pollFdList s ! i)"
      unfolding find_Some_iff by blast
    with True fd show ?thesis by (simp add: poll_interest_def)
  next
    case False
    then have "find (\<lambda>p. pfd_fd p = fd) (pollFdList s) = None"
      using only unfolding find_None_iff in_set_conv_nth by metis
    with False show ?thesis by (simp add: poll_interest_def)
  qed
qed

lemma poll_interest_unregistered:
  assumes inv: "poller_inv s" and "channelMap s fd = None"
  shows "poll_interest s fd = None"
proof (cases "fd < 0")
  case False
  have "pfd_fd (pollFdList s ! j) \<noteq> fd" if "j < length (pollFdList s)" for j
  proof
    assume eq: "pfd_fd (pollFdList s ! j) = fd"
    from inv that obtain fd' c' where "slot_of s fd' c' j" by (auto simp: poller_inv_def)
    with eq False assms(2) show False by (auto simp: slot_of_def)
  qed
  then have "find (\<lambda>p. pfd_fd p = fd) (pollFdList s) = None"
    by (auto simp: find_None_iff in_set_conv_nth)
  then show ?thesis by (simp add: poll_interest_def)
qed (simp add: poll_interest_def)

section \<open>The loop's and the channel's side\<close>

text \<open>
  \<open>EventLoop::updateChannel\<close> and \<open>removeChannel\<close>, and the operations of \<^verbatim>\<open>Channel.h\<close> that change the event
  mask and call \<open>update()\<close>.
\<close>

definition EventLoop_updateChannel :: "nat \<Rightarrow> ('cb, 'm) poller_scheme \<Rightarrow> ('cb, 'm) poller_scheme result" where
  "EventLoop_updateChannel c s =
     bindR (derefR (chans s) c) (\<lambda>ch.
       assertR (ownerLoop ch = loopId s) (assertInLoopThread s (Poller_updateChannel c s)))"

definition EventLoop_removeChannel :: "nat \<Rightarrow> ('cb, 'm) poller_scheme \<Rightarrow> ('cb, 'm) poller_scheme result" where
  "EventLoop_removeChannel c s =
     bindR (derefR (chans s) c) (\<lambda>ch.
       assertR (ownerLoop ch = loopId s) (assertInLoopThread s (Poller_removeChannel c s)))"

definition Channel_update :: "nat \<Rightarrow> ('cb, 'm) poller_scheme \<Rightarrow> ('cb, 'm) poller_scheme result" where
  "Channel_update c s = EventLoop_updateChannel c s"

definition setEvents :: "nat \<Rightarrow> 32 word \<Rightarrow> ('cb, 'm) poller_scheme \<Rightarrow> ('cb, 'm) poller_scheme result" where
  "setEvents c e s =
     bindR (derefR (chans s) c) (\<lambda>_. Channel_update c (upd_chan c (\<lambda>ch. ch\<lparr>ch_events := e\<rparr>) s))"

definition enableReading :: "nat \<Rightarrow> ('cb, 'm) poller_scheme \<Rightarrow> ('cb, 'm) poller_scheme result" where
  "enableReading c s = bindR (derefR (chans s) c) (\<lambda>ch. setEvents c (ch_events ch OR kReadEvent) s)"

definition enableWriting :: "nat \<Rightarrow> ('cb, 'm) poller_scheme \<Rightarrow> ('cb, 'm) poller_scheme result" where
  "enableWriting c s = bindR (derefR (chans s) c) (\<lambda>ch. setEvents c (ch_events ch OR kWriteEvent) s)"

definition disableWriting :: "nat \<Rightarrow> ('cb, 'm) poller_scheme \<Rightarrow> ('cb, 'm) poller_scheme result" where
  "disableWriting c s = bindR (derefR (chans s) c) (\<lambda>ch. setEvents c (ch_events ch AND NOT kWriteEvent) s)"

definition disableAll :: "nat \<Rightarrow> ('cb, 'm) poller_scheme \<Rightarrow> ('cb, 'm) poller_scheme result" where
  "disableAll c s = setEvents c kNoneEvent s"

section \<open>States of a channel in the poller\<close>

definition chan_fresh :: "('cb, 'm) poller_scheme \<Rightarrow> nat \<Rightarrow> bool" where
  "chan_fresh s c \<longleftrightarrow> (\<exists>ch. chans s c = Some ch \<and> ch_index ch < 0 \<and> 0 \<le> ch_fd ch
     \<and> channelMap s (ch_fd ch) = None \<and> ownerLoop ch = loopId s)"

definition chan_in :: "('cb, 'm) poller_scheme \<Rightarrow> nat \<Rightarrow> 'cb channel \<Rightarrow> nat \<Rightarrow> bool" where
  "chan_in s c ch i \<longleftrightarrow> chans s c = Some ch \<and> ownerLoop ch = loopId s \<and> slot_of s (ch_fd ch) c i"

definition chan_watched :: "('cb, 'm) poller_scheme \<Rightarrow> nat \<Rightarrow> bool" where
  "chan_watched s c \<longleftrightarrow> (\<exists>ch i. chan_in s c ch i \<and> pfd_fd (pollFdList s ! i) = ch_fd ch)"

definition chan_idle :: "('cb, 'm) poller_scheme \<Rightarrow> nat \<Rightarrow> bool" where
  "chan_idle s c \<longleftrightarrow> (\<exists>ch i. chan_in s c ch i \<and> pfd_fd (pollFdList s ! i) = - ch_fd ch - 1
     \<and> pfd_events (pollFdList s ! i) = 0 \<and> ch_events ch = 0)"

definition chan_fd :: "('cb, 'm) poller_scheme \<Rightarrow> nat \<Rightarrow> int" where
  "chan_fd s c = (case chans s c of None \<Rightarrow> -1 | Some ch \<Rightarrow> ch_fd ch)"

definition poll_mask :: "32 word \<Rightarrow> bool" where
  "poll_mask e \<longleftrightarrow> e \<noteq> 0 \<and> e < 2 ^ 15"

lemma word_less_bit:
  assumes "(w :: 32 word) < 32768" and "bit w n"
  shows "n < 16"
proof -
  have "unat w < 2 ^ 15" using assms(1) by (simp add: word_less_nat_alt)
  then have "unat (take_bit 15 w) = unat w" by (simp add: unsigned_take_bit_eq take_bit_nat_eq_self)
  then have "take_bit 15 w = w" by (simp add: unsigned_word_eqI)
  then have "bit (take_bit 15 w) n" using assms(2) by simp
  then show ?thesis by (simp add: bit_take_bit_iff)
qed

lemma poll_mask_short: "poll_mask e \<Longrightarrow> ucast (ucast e :: 16 word) = e"
  by (rule bit_word_eqI) (auto simp: poll_mask_def bit_ucast_iff dest: word_less_bit)

lemma chan_in_not_fresh: "chan_in s c ch i \<Longrightarrow> \<not> chan_fresh s c"
  by (auto simp: chan_in_def chan_fresh_def slot_of_def)

subsection \<open>Registering a channel\<close>

definition added :: "nat \<Rightarrow> 32 word \<Rightarrow> 'cb channel \<Rightarrow> ('cb, 'm) poller_scheme \<Rightarrow> ('cb, 'm) poller_scheme" where
  "added c e ch s = s\<lparr>chans := (chans s)(c \<mapsto> ch\<lparr>ch_events := e, ch_index := int (length (pollFdList s))\<rparr>),
     pollFdList := pollFdList s @ [\<lparr>pfd_fd = ch_fd ch, pfd_events = ucast e, pfd_revents = 0\<rparr>],
     channelMap := (channelMap s)(ch_fd ch \<mapsto> c)\<rparr>"

lemma added_sel:
  "chans (added c e ch s) = (chans s)(c \<mapsto> ch\<lparr>ch_events := e, ch_index := int (length (pollFdList s))\<rparr>)"
  "pollFdList (added c e ch s) = pollFdList s @ [\<lparr>pfd_fd = ch_fd ch, pfd_events = ucast e, pfd_revents = 0\<rparr>]"
  "channelMap (added c e ch s) = (channelMap s)(ch_fd ch \<mapsto> c)"
  "loopId (added c e ch s) = loopId s" "isInLoopThread (added c e ch s) = isInLoopThread s"
  by (simp_all add: added_def isInLoopThread_def)

lemma setEvents_fresh:
  assumes "poller_inv s" and "chans s c = Some ch" "ch_index ch < 0"
    "channelMap s (ch_fd ch) = None" "ownerLoop ch = loopId s"
  shows "setEvents c e s = Inr (added c e ch s)"
  using assms
  by (simp add: setEvents_def Channel_update_def EventLoop_updateChannel_def Poller_updateChannel_def
      assertInLoopThread_def isInLoopThread_def poller_inv_def upd_chan_def setIndex_def added_def Let_def)

lemma slot_of_added:
  assumes "chans s c = Some ch" "ch_index ch < 0" "channelMap s (ch_fd ch) = None" "0 \<le> ch_fd ch"
  shows "slot_of (added c e ch s) fd d i \<longleftrightarrow>
           (if fd = ch_fd ch then d = c \<and> i = length (pollFdList s) else slot_of s fd d i)"
  using assms by (auto simp: slot_of_def added_def nth_append)

lemma added_inv:
  assumes "poller_inv s" "chans s c = Some ch" "ch_index ch < 0" "channelMap s (ch_fd ch) = None" "0 \<le> ch_fd ch"
  shows "poller_inv (added c e ch s)"
proof -
  note sl = slot_of_added [OF assms(2-5)]
  have "isInLoopThread (added c e ch s)"
    using assms(1) by (simp add: poller_inv_def added_sel)
  moreover have "\<exists>i. slot_of (added c e ch s) fd d i" if "channelMap (added c e ch s) fd = Some d" for fd d
  proof (cases "fd = ch_fd ch")
    case True
    with that show ?thesis unfolding sl by (simp add: added_sel)
  next
    case False
    with that assms(1) show ?thesis by (simp add: sl poller_inv_def added_sel)
  qed
  moreover have "\<exists>fd d. slot_of (added c e ch s) fd d i" if "i < length (pollFdList (added c e ch s))" for i
  proof (cases "i = length (pollFdList s)")
    case True then show ?thesis by (auto simp: sl)
  next
    case False
    with that have "i < length (pollFdList s)" by (simp add: added_sel)
    with assms(1) obtain fd d where "slot_of s fd d i" by (auto simp: poller_inv_def)
    moreover from this assms(4) have "fd \<noteq> ch_fd ch" by (auto simp: slot_of_def)
    ultimately show ?thesis by (auto simp: sl)
  qed
  ultimately show ?thesis unfolding poller_inv_def by blast
qed

lemma interest_unchanged:
  assumes "poller_inv s" "poller_inv s'"
    and map: "channelMap s' fd = channelMap s fd"
    and slot: "\<And>c i. slot_of s fd c i \<Longrightarrow>
       \<exists>j. slot_of s' fd c j \<and> pfd_fd (pollFdList s' ! j) = pfd_fd (pollFdList s ! i)
           \<and> pfd_events (pollFdList s' ! j) = pfd_events (pollFdList s ! i)"
  shows "poll_interest s' fd = poll_interest s fd"
proof (cases "channelMap s fd")
  case None
  with assms show ?thesis by (simp add: poll_interest_unregistered)
next
  case (Some c)
  with assms(1) obtain i where i: "slot_of s fd c i" unfolding poller_inv_def by blast
  from slot [OF this] obtain j where "slot_of s' fd c j" "pfd_fd (pollFdList s' ! j) = pfd_fd (pollFdList s ! i)"
    "pfd_events (pollFdList s' ! j) = pfd_events (pollFdList s ! i)" by blast
  with i assms(1,2) show ?thesis by (simp add: poll_interest_registered)
qed

lemma added_interest:
  assumes "poller_inv s" "chans s c = Some ch" "ch_index ch < 0" "channelMap s (ch_fd ch) = None" "0 \<le> ch_fd ch"
    "poll_mask e"
  shows "poll_interest (added c e ch s) = (poll_interest s)(ch_fd ch \<mapsto> e)"
proof
  fix fd
  note sl = slot_of_added [OF assms(2-5)] and inv = added_inv [OF assms(1-5), of e]
  show "poll_interest (added c e ch s) fd = ((poll_interest s)(ch_fd ch \<mapsto> e)) fd"
  proof (cases "fd = ch_fd ch")
    case True
    have "slot_of (added c e ch s) fd c (length (pollFdList s))" using True by (simp add: sl)
    from poll_interest_registered [OF inv this] True show ?thesis
      by (simp add: added_sel poll_mask_short [OF assms(6)])
  next
    case False
    have "poll_interest (added c e ch s) fd = poll_interest s fd"
    proof (rule interest_unchanged [OF assms(1) inv])
      show "channelMap (added c e ch s) fd = channelMap s fd" using False by (simp add: added_sel)
    next
      fix d i assume *: "slot_of s fd d i"
      with False have "slot_of (added c e ch s) fd d i" by (simp add: sl)
      moreover have "pollFdList (added c e ch s) ! i = pollFdList s ! i"
        using * by (simp add: added_sel slot_of_def nth_append)
      ultimately show "\<exists>j. slot_of (added c e ch s) fd d j
         \<and> pfd_fd (pollFdList (added c e ch s) ! j) = pfd_fd (pollFdList s ! i)
         \<and> pfd_events (pollFdList (added c e ch s) ! j) = pfd_events (pollFdList s ! i)"
        by auto
    qed
    with False show ?thesis by simp
  qed
qed

subsection \<open>Changing the mask of a registered channel\<close>

definition modified :: "nat \<Rightarrow> 32 word \<Rightarrow> 'cb channel \<Rightarrow> nat \<Rightarrow> ('cb, 'm) poller_scheme \<Rightarrow> ('cb, 'm) poller_scheme" where
  "modified c e ch i s = s\<lparr>chans := (chans s)(c \<mapsto> ch\<lparr>ch_events := e\<rparr>),
     pollFdList := (pollFdList s)[i := \<lparr>pfd_fd = (if e = 0 then - ch_fd ch - 1 else pfd_fd (pollFdList s ! i)),
        pfd_events = ucast e, pfd_revents = 0\<rparr>]\<rparr>"

lemma modified_sel:
  "chans (modified c e ch i s) = (chans s)(c \<mapsto> ch\<lparr>ch_events := e\<rparr>)"
  "pollFdList (modified c e ch i s) = (pollFdList s)[i :=
     \<lparr>pfd_fd = (if e = 0 then - ch_fd ch - 1 else pfd_fd (pollFdList s ! i)), pfd_events = ucast e, pfd_revents = 0\<rparr>]"
  "channelMap (modified c e ch i s) = channelMap s"
  "loopId (modified c e ch i s) = loopId s" "isInLoopThread (modified c e ch i s) = isInLoopThread s"
  by (simp_all add: modified_def isInLoopThread_def)

lemma setEvents_registered:
  assumes "poller_inv s" and "chan_in s c ch i"
  shows "setEvents c e s = Inr (modified c e ch i s)"
proof -
  have c: "chans s c = Some ch" "ownerLoop ch = loopId s" "ch_index ch = int i" "channelMap s (ch_fd ch) = Some c"
      "i < length (pollFdList s)" "threadId s = currentTid s"
      "pfd_fd (pollFdList s ! i) = ch_fd ch \<or> pfd_fd (pollFdList s ! i) = - ch_fd ch - 1"
    using assms by (auto simp: chan_in_def slot_of_def poller_inv_def isInLoopThread_def)
  let ?s = "upd_chan c (\<lambda>ch. ch\<lparr>ch_events := e\<rparr>) s"
  have "setEvents c e s = Poller_updateChannel c ?s"
    using c(1,2,6) by (simp add: setEvents_def Channel_update_def EventLoop_updateChannel_def
        assertInLoopThread_def isInLoopThread_def upd_chan_def)
  also have "\<dots> = Inr (modified c e ch i s)"
    using c by (cases "pollFdList s ! i") (simp add: Poller_updateChannel_def
        assertInLoopThread_def isInLoopThread_def upd_chan_def modified_def Let_def isNoneEvent_def kNoneEvent_def)
  finally show ?thesis .
qed

lemma slot_of_modified:
  assumes "chan_in s c ch i"
  shows "slot_of (modified c e ch i s) fd d j \<longleftrightarrow> slot_of s fd d j"
proof -
  have c: "chans s c = Some ch" "ch_index ch = int i" "channelMap s (ch_fd ch) = Some c"
      "pfd_fd (pollFdList s ! i) = ch_fd ch \<or> pfd_fd (pollFdList s ! i) = - ch_fd ch - 1" "i < length (pollFdList s)"
      "0 \<le> ch_fd ch"
    using assms by (auto simp: chan_in_def slot_of_def)
  show ?thesis
  proof (cases "d = c")
    case True
    with c show ?thesis unfolding slot_of_def modified_sel by (cases "j = i") auto
  next
    case False
    have "\<not> slot_of s fd d i" using assms False slot_of_unique unfolding chan_in_def by blast
    moreover have "\<not> slot_of (modified c e ch i s) fd d i"
      using c False by (auto simp: slot_of_def modified_sel split: if_splits)
    moreover have "slot_of (modified c e ch i s) fd d j \<longleftrightarrow> slot_of s fd d j" if "j \<noteq> i"
      using that False by (simp add: slot_of_def modified_sel)
    ultimately show ?thesis by (cases "j = i") auto
  qed
qed

lemma modified_inv:
  assumes "poller_inv s" and "chan_in s c ch i"
  shows "poller_inv (modified c e ch i s)"
  using assms(1) unfolding poller_inv_def slot_of_modified [OF assms(2)]
  by (simp add: modified_sel)

lemma modified_interest:
  assumes "poller_inv s" and "chan_in s c ch i"
  shows "poll_interest (modified c e ch i s) =
    (poll_interest s)(ch_fd ch := (if e \<noteq> 0 \<and> pfd_fd (pollFdList s ! i) = ch_fd ch
                                   then Some (ucast (ucast e :: 16 word)) else None))"
proof
  fix fd
  note sl = slot_of_modified [OF assms(2)] and inv = modified_inv [OF assms, of e]
  have i: "slot_of s (ch_fd ch) c i" "i < length (pollFdList s)" "0 \<le> ch_fd ch"
    using assms(2) by (auto simp: chan_in_def slot_of_def)
  show "poll_interest (modified c e ch i s) fd =
    ((poll_interest s)(ch_fd ch := (if e \<noteq> 0 \<and> pfd_fd (pollFdList s ! i) = ch_fd ch
                                    then Some (ucast (ucast e :: 16 word)) else None))) fd"
  proof (cases "fd = ch_fd ch")
    case True
    have "slot_of (modified c e ch i s) fd c i" using i(1) by (simp add: sl True)
    from poll_interest_registered [OF inv this] True i show ?thesis by (auto simp: modified_sel)
  next
    case False
    have "poll_interest (modified c e ch i s) fd = poll_interest s fd"
    proof (rule interest_unchanged [OF assms(1) inv])
      show "channelMap (modified c e ch i s) fd = channelMap s fd" by (simp add: modified_sel)
    next
      fix d j assume *: "slot_of s fd d j"
      with False i(1) have "j \<noteq> i" using slot_of_unique by blast
      with * show "\<exists>k. slot_of (modified c e ch i s) fd d k
         \<and> pfd_fd (pollFdList (modified c e ch i s) ! k) = pfd_fd (pollFdList s ! j)
         \<and> pfd_events (pollFdList (modified c e ch i s) ! k) = pfd_events (pollFdList s ! j)"
        by (auto simp: sl modified_sel intro!: exI [of _ j])
    qed
    with False show ?thesis by simp
  qed
qed

subsection \<open>Removing a channel\<close>

text \<open>
  The entry of the removed channel is overwritten by the last one, whose channel gets the freed
  index; when the removed entry is the last one itself, it is only popped.
\<close>

definition moved :: "int \<Rightarrow> nat \<Rightarrow> nat \<Rightarrow> ('cb, 'm) poller_scheme \<Rightarrow> ('cb, 'm) poller_scheme" where
  "moved fd i d s = s\<lparr>channelMap := (channelMap s)(fd := None),
     chans := (if i = length (pollFdList s) - 1 then chans s
               else (chans s)(d := map_option (\<lambda>ch. ch\<lparr>ch_index := int i\<rparr>) (chans s d))),
     pollFdList := butlast ((pollFdList s)[i := last (pollFdList s)])\<rparr>"

lemma moved_sel:
  "chans (moved fd i d s) = (if i = length (pollFdList s) - 1 then chans s
     else (chans s)(d := map_option (\<lambda>ch. ch\<lparr>ch_index := int i\<rparr>) (chans s d)))"
  "pollFdList (moved fd i d s) = butlast ((pollFdList s)[i := last (pollFdList s)])"
  "channelMap (moved fd i d s) = (channelMap s)(fd := None)"
  "loopId (moved fd i d s) = loopId s" "isInLoopThread (moved fd i d s) = isInLoopThread s"
  by (simp_all add: moved_def isInLoopThread_def)

lemma removeChannel_moved:
  assumes inv: "poller_inv s" and ci: "chan_in s c ch i" and idle: "ch_events ch = 0"
    "pfd_fd (pollFdList s ! i) = - ch_fd ch - 1" "pfd_events (pollFdList s ! i) = 0"
    and last: "slot_of s fd d (length (pollFdList s) - 1)"
  shows "EventLoop_removeChannel c s = Inr (moved (ch_fd ch) i d s)"
proof -
  let ?n = "length (pollFdList s)"
  have c: "chans s c = Some ch" "ownerLoop ch = loopId s" "ch_index ch = int i" "channelMap s (ch_fd ch) = Some c"
      "i < ?n" "threadId s = currentTid s"
    using inv ci by (auto simp: chan_in_def slot_of_def poller_inv_def isInLoopThread_def)
  have ne: "pollFdList s \<noteq> []" using c(5) by auto
  have l: "chans s d \<noteq> None" "channelMap s fd = Some d" "0 \<le> fd"
    "pfd_fd (List.last (pollFdList s)) = fd \<or> pfd_fd (List.last (pollFdList s)) = - fd - 1"
    using last ne by (auto simp: slot_of_def last_conv_nth)
  have "EventLoop_removeChannel c s = Poller_removeChannel c s"
    using c(1,2,6) by (simp add: EventLoop_removeChannel_def assertInLoopThread_def isInLoopThread_def)
  also have "\<dots> = Inr (moved (ch_fd ch) i d s)"
  proof (cases "i = ?n - 1")
    case True
    then have "butlast ((pollFdList s)[i := List.last (pollFdList s)]) = butlast (pollFdList s)"
      by (simp add: butlast_list_update)
    moreover have "nat (int ?n - 1) = ?n - Suc 0" by simp
    ultimately show ?thesis using True c idle ne
      by (simp add: Poller_removeChannel_def assertInLoopThread_def isInLoopThread_def isNoneEvent_def
          kNoneEvent_def Let_def moved_def)
  next
    case False
    have ncd: "fd \<noteq> ch_fd ch"
    proof
      assume "fd = ch_fd ch"
      with ci last have "i = ?n - 1" using slot_of_index_unique unfolding chan_in_def by blast
      with False show False by simp
    qed
    have bl: "butlast ((pollFdList s)[i := List.last (pollFdList s), ?n - 1 := pollFdList s ! i])
      = butlast ((pollFdList s)[i := List.last (pollFdList s)])"
      by (simp add: butlast_list_update)
    obtain chd where chd: "chans s d = Some chd" using l(1) by auto
    from l(4) show ?thesis
      by (elim disjE) (use False c idle ne ncd l(2,3) chd bl in
          \<open>simp_all add: Poller_removeChannel_def assertInLoopThread_def isInLoopThread_def isNoneEvent_def
            kNoneEvent_def Let_def moved_def setIndex_def upd_chan_def\<close>)
  qed
  finally show ?thesis .
qed

lemma slot_of_moved:
  assumes "slot_of s fd0 c i" and last: "slot_of s fdl d (length (pollFdList s) - 1)"
  shows "slot_of (moved fd0 i d s) fd e j \<longleftrightarrow> fd \<noteq> fd0 \<and>
     (if j = i then slot_of s fd e (length (pollFdList s) - 1)
      else j \<noteq> length (pollFdList s) - 1 \<and> slot_of s fd e j)"
proof -
  let ?n = "length (pollFdList s)" and ?s = "moved fd0 i d s"
  have i: "i < ?n" "channelMap s fd0 = Some c" using assms(1) by (auto simp: slot_of_def)
  obtain chd where d: "chans s d = Some chd" "ch_index chd = int (?n - 1)" "ch_fd chd = fdl"
    "channelMap s fdl = Some d" "0 \<le> fdl"
    "pfd_fd (pollFdList s ! (?n - 1)) = fdl \<or> pfd_fd (pollFdList s ! (?n - 1)) = - fdl - 1"
    using last by (auto simp: slot_of_def)
  have l: "List.last (pollFdList s) = pollFdList s ! (?n - 1)" using i(1) by (intro last_conv_nth) auto
  have nth: "pollFdList ?s ! j = (if j = i then pollFdList s ! (?n - 1) else pollFdList s ! j)" if "j < ?n - 1" for j
    using that i(1) by (simp add: moved_sel nth_butlast l)
  have len: "length (pollFdList ?s) = ?n - 1" by (simp add: moved_sel)
  have cm: "channelMap ?s = (channelMap s)(fd0 := None)" by (simp add: moved_sel)
  consider "fd = fd0" | "fd \<noteq> fd0" "j = i" "i = ?n - 1" | "fd \<noteq> fd0" "j = i" "i < ?n - 1"
    | "fd \<noteq> fd0" "j \<noteq> i" using i(1) by linarith
  then show ?thesis
  proof cases
    case 1 then show ?thesis by (simp add: slot_of_def cm)
  next
    case 2
    then have "\<not> slot_of s fd e (?n - 1)" using assms(1) slot_of_unique by blast
    moreover have "\<not> slot_of ?s fd e j" using 2 len by (simp add: slot_of_def moved_sel)
    ultimately show ?thesis using 2 by simp
  next
    case 3
    have "chans ?s = (chans s)(d \<mapsto> chd\<lparr>ch_index := int i\<rparr>)" using 3 d(1) by (simp add: moved_sel)
    moreover have "slot_of s fd e (?n - 1) \<longleftrightarrow> fd = fdl \<and> e = d" using last slot_of_unique by blast
    moreover have "slot_of ?s fd e i \<longleftrightarrow> fd = fdl \<and> e = d"
      using 3 d nth [of i] calculation(1) by (auto simp: slot_of_def len cm)
    ultimately show ?thesis using 3 by simp
  next
    case 4
    show ?thesis
    proof (cases "e = d")
      case True
      with 4 d show ?thesis by (auto simp: slot_of_def len cm moved_sel)
    next
      case False
      then have "chans ?s e = chans s e" by (simp add: moved_sel)
      with 4 d False nth [of j] show ?thesis by (cases "j < ?n - 1") (auto simp: slot_of_def len cm)
    qed
  qed
qed

lemma moved_inv:
  assumes inv: "poller_inv s" and sl: "slot_of s fd0 c i"
    and last: "slot_of s fdl d (length (pollFdList s) - 1)"
  shows "poller_inv (moved fd0 i d s)"
proof -
  let ?n = "length (pollFdList s)" and ?s = "moved fd0 i d s"
  note mv = slot_of_moved [OF sl last]
  have "isInLoopThread ?s" using inv by (simp add: poller_inv_def moved_sel)
  moreover have "\<exists>j. slot_of ?s fd e j" if *: "channelMap ?s fd = Some e" for fd e
  proof -
    from * have ne: "fd \<noteq> fd0" and "channelMap s fd = Some e" by (auto simp: moved_sel split: if_splits)
    with inv obtain j where j: "slot_of s fd e j" unfolding poller_inv_def by blast
    have "j \<noteq> i" using j sl ne slot_of_unique by blast
    show ?thesis
    proof (cases "j = ?n - 1")
      case True with j ne show ?thesis by (auto simp: mv intro!: exI [of _ i])
    next
      case False with j ne \<open>j \<noteq> i\<close> show ?thesis by (auto simp: mv intro!: exI [of _ j])
    qed
  qed
  moreover have "\<exists>fd e. slot_of ?s fd e j" if *: "j < length (pollFdList ?s)" for j
  proof -
    from * have j: "j < ?n - 1" by (simp add: moved_sel)
    define k where "k = (if j = i then ?n - 1 else j)"
    have "k < ?n" "k \<noteq> i" using j by (auto simp: k_def)
    with inv obtain fd e where k: "slot_of s fd e k" by (auto simp: poller_inv_def)
    with \<open>k \<noteq> i\<close> sl have "fd \<noteq> fd0" using slot_of_index_unique by blast
    with k j show ?thesis by (auto simp: mv k_def split: if_splits)
  qed
  ultimately show ?thesis unfolding poller_inv_def by blast
qed

lemma moved_interest:
  assumes inv: "poller_inv s" and sl: "slot_of s fd0 c i"
    and last: "slot_of s fdl d (length (pollFdList s) - 1)"
  shows "poll_interest (moved fd0 i d s) = (poll_interest s)(fd0 := None)"
proof
  fix fd
  let ?n = "length (pollFdList s)" and ?s = "moved fd0 i d s"
  note mv = slot_of_moved [OF sl last] and inv' = moved_inv [OF inv sl last]
  show "poll_interest ?s fd = ((poll_interest s)(fd0 := None)) fd"
  proof (cases "fd = fd0")
    case True
    then show ?thesis using poll_interest_unregistered [OF inv', of fd] by (simp add: moved_sel)
  next
    case False
    have "poll_interest ?s fd = poll_interest s fd"
    proof (rule interest_unchanged [OF inv inv'])
      show "channelMap ?s fd = channelMap s fd" using False by (simp add: moved_sel)
    next
      fix e j assume j: "slot_of s fd e j"
      then have jn: "j < ?n" "j \<noteq> i" using False sl slot_of_unique by (auto simp: slot_of_def)
      define k where "k = (if j = ?n - 1 then i else j)"
      have "slot_of ?s fd e k" using j jn False by (auto simp: mv k_def)
      moreover have "List.last (pollFdList s) = pollFdList s ! (?n - 1)" using jn by (intro last_conv_nth) auto
      with \<open>slot_of ?s fd e k\<close> have "pollFdList ?s ! k = pollFdList s ! j"
        using jn by (auto simp: slot_of_def moved_sel nth_butlast nth_list_update k_def)
      ultimately show "\<exists>k. slot_of ?s fd e k \<and> pfd_fd (pollFdList ?s ! k) = pfd_fd (pollFdList s ! j)
          \<and> pfd_events (pollFdList ?s ! k) = pfd_events (pollFdList s ! j)" by metis
    qed
    with False show ?thesis by simp
  qed
qed

section \<open>The contract of the event loop\<close>

lemma setEvents_watch:
  assumes inv: "poller_inv s" and c: "chan_fresh s c \<or> chan_watched s c" and e: "poll_mask e"
  shows "\<exists>s'. setEvents c e s = Inr s' \<and> poller_inv s' \<and> chan_watched s' c \<and> chan_fd s' c = chan_fd s c
           \<and> poll_interest s' = (poll_interest s)(chan_fd s c \<mapsto> e)"
  using c
proof
  assume "chan_fresh s c"
  then obtain ch where ch: "chans s c = Some ch" "ch_index ch < 0" "0 \<le> ch_fd ch"
    "channelMap s (ch_fd ch) = None" "ownerLoop ch = loopId s" by (auto simp: chan_fresh_def)
  have "chan_watched (added c e ch s) c"
    using ch by (auto simp: chan_watched_def chan_in_def slot_of_def added_sel)
  with ch show ?thesis
    using setEvents_fresh [OF inv ch(1,2,4,5)] added_inv [OF inv ch(1,2,4,3)] added_interest [OF inv ch(1,2,4,3) e]
    by (simp add: chan_fd_def added_sel)
next
  assume "chan_watched s c"
  then obtain ch i where ch: "chan_in s c ch i" "pfd_fd (pollFdList s ! i) = ch_fd ch"
    by (auto simp: chan_watched_def)
  then have i: "chans s c = Some ch" "i < length (pollFdList s)" "ownerLoop ch = loopId s" "slot_of s (ch_fd ch) c i"
    by (auto simp: chan_in_def slot_of_def)
  have "chan_in (modified c e ch i s) c (ch\<lparr>ch_events := e\<rparr>) i"
    unfolding chan_in_def slot_of_modified [OF ch(1)] using i by (simp add: modified_sel)
  then have "chan_watched (modified c e ch i s) c"
    unfolding chan_watched_def using ch(2) i(2) e
    by (intro exI [of _ "ch\<lparr>ch_events := e\<rparr>"] exI [of _ i]) (simp add: modified_sel poll_mask_def)
  with i(1) show ?thesis
    using setEvents_registered [OF inv ch(1)] modified_inv [OF inv ch(1)] modified_interest [OF inv ch(1), of e] ch(2) e
    by (simp add: chan_fd_def modified_sel poll_mask_short) (simp add: poll_mask_def)
qed

lemma setEvents_idle:
  assumes inv: "poller_inv s" and c: "chan_watched s c \<or> chan_idle s c"
  shows "\<exists>s'. setEvents c 0 s = Inr s' \<and> poller_inv s' \<and> chan_idle s' c \<and> chan_fd s' c = chan_fd s c
           \<and> poll_interest s' = (poll_interest s)(chan_fd s c := None)"
proof -
  obtain ch i where ch: "chan_in s c ch i" using c by (auto simp: chan_watched_def chan_idle_def)
  then have i: "chans s c = Some ch" "i < length (pollFdList s)" "ownerLoop ch = loopId s" "slot_of s (ch_fd ch) c i"
    by (auto simp: chan_in_def slot_of_def)
  have "chan_in (modified c 0 ch i s) c (ch\<lparr>ch_events := 0\<rparr>) i"
    unfolding chan_in_def slot_of_modified [OF ch(1)] using i by (simp add: modified_sel)
  then have "chan_idle (modified c 0 ch i s) c"
    unfolding chan_idle_def using i(2)
    by (intro exI [of _ "ch\<lparr>ch_events := 0\<rparr>"] exI [of _ i]) (simp add: modified_sel)
  with i(1) show ?thesis
    using setEvents_registered [OF inv ch] modified_inv [OF inv ch] modified_interest [OF inv ch, of 0]
    by (simp add: chan_fd_def modified_sel)
qed

lemma idle_interest:
  assumes inv: "poller_inv s" and c: "chan_idle s c"
  shows "poll_interest s (chan_fd s c) = None"
proof -
  obtain ch i where "chan_in s c ch i" "pfd_fd (pollFdList s ! i) = - ch_fd ch - 1" "chans s c = Some ch"
    using c by (auto simp: chan_idle_def chan_in_def)
  moreover from this have "0 \<le> ch_fd ch" by (simp add: chan_in_def slot_of_def)
  ultimately show ?thesis
    using poll_interest_registered [OF inv, of "ch_fd ch" c i] by (simp add: chan_fd_def chan_in_def)
qed

lemma removeChannel_idle:
  assumes inv: "poller_inv s" and c: "chan_idle s c"
  shows "\<exists>s'. EventLoop_removeChannel c s = Inr s' \<and> poller_inv s' \<and> poll_interest s' = poll_interest s"
proof -
  obtain ch i where ch: "chan_in s c ch i" "ch_events ch = 0" "pfd_fd (pollFdList s ! i) = - ch_fd ch - 1"
    "pfd_events (pollFdList s ! i) = 0" using c by (auto simp: chan_idle_def)
  then have sl: "slot_of s (ch_fd ch) c i" "chan_fd s c = ch_fd ch" by (simp_all add: chan_in_def chan_fd_def)
  then have "length (pollFdList s) - 1 < length (pollFdList s)" by (auto simp: slot_of_def)
  with inv obtain fd d where l: "slot_of s fd d (length (pollFdList s) - 1)"
    unfolding poller_inv_def by blast
  have "poll_interest (moved (ch_fd ch) i d s) = poll_interest s"
    using moved_interest [OF inv sl(1) l] idle_interest [OF inv c] sl(2) by (simp add: fun_upd_idem)
  with removeChannel_moved [OF inv ch l] moved_inv [OF inv sl(1) l] show ?thesis by blast
qed

interpretation poll_mux: idempotent_multiplexer poller_inv poll_interest chan_fd chan_fresh chan_watched
  chan_idle setEvents EventLoop_removeChannel poll_mask
proof
  show "\<exists>s'. setEvents c 0 s = Inr s' \<and> poller_inv s' \<and> chan_idle s' c \<and> chan_fd s' c = chan_fd s c
           \<and> poll_interest s' = poll_interest s"
    if "poller_inv s" "chan_idle s c" for s :: "('a, 'b) poller_scheme" and c
    using setEvents_idle [OF that(1) disjI2 [OF that(2)]] idle_interest [OF that] by (simp add: fun_upd_idem)
qed (use setEvents_watch setEvents_idle removeChannel_idle in blast)+

section \<open>Reporting active channels\<close>

definition active_entry :: "pollfd \<Rightarrow> bool" where
  "active_entry p \<longleftrightarrow> pfd_revents p \<noteq> 0"

definition reported :: "('cb, 'm) poller_scheme \<Rightarrow> pollfd list \<Rightarrow> (nat \<times> 32 word) list" where
  "reported s ps = map (\<lambda>p. (the (channelMap s (pfd_fd p)), scast (pfd_revents p))) (filter active_entry ps)"

definition mark_all :: "(nat \<times> 32 word) list \<Rightarrow> ('cb, 'm) poller_scheme \<Rightarrow> ('cb, 'm) poller_scheme" where
  "mark_all = fold (\<lambda>(c, r). upd_chan c (\<lambda>ch. ch\<lparr>ch_revents := r\<rparr>))"

definition entry_ok :: "('cb, 'm) poller_scheme \<Rightarrow> pollfd \<Rightarrow> bool" where
  "entry_ok s p \<longleftrightarrow> 0 \<le> sint (pfd_revents p) \<and> (active_entry p \<longrightarrow>
     (\<exists>c ch. channelMap s (pfd_fd p) = Some c \<and> chans s c = Some ch \<and> ch_fd ch = pfd_fd p))"

lemma upd_chan_channelMap [simp]: "channelMap (upd_chan c f s) = channelMap s"
  by (simp add: upd_chan_def)

lemma entry_ok_mark: "entry_ok s p \<Longrightarrow> entry_ok (upd_chan c (\<lambda>ch. ch\<lparr>ch_revents := r\<rparr>) s) p"
  by (auto simp: entry_ok_def chans_upd_chan)

lemma sint_pos_active: "0 \<le> sint (pfd_revents p) \<Longrightarrow> 0 < sint (pfd_revents p) \<longleftrightarrow> active_entry p"
  by (auto simp: active_entry_def less_le signed_eq_0_iff)

lemma fillActiveChannels_reports:
  assumes "\<forall>p \<in> set ps. entry_ok s p" and "n = int (length (filter active_entry ps))"
  shows "fillActiveChannels ps n active s =
           Inr (active @ map fst (reported s ps), mark_all (reported s ps) s)"
  using assms
proof (induction ps arbitrary: n active s)
  case Nil
  then show ?case by (simp add: reported_def mark_all_def)
next
  case (Cons p ps)
  have ok: "entry_ok s p" "\<forall>q \<in> set ps. entry_ok s q" using Cons.prems(1) by auto
  show ?case
  proof (cases "active_entry p")
    case True
    then obtain c ch where c: "channelMap s (pfd_fd p) = Some c" "chans s c = Some ch" "ch_fd ch = pfd_fd p"
      using ok(1) by (auto simp: entry_ok_def)
    let ?s = "upd_chan c (\<lambda>ch. ch\<lparr>ch_revents := scast (pfd_revents p)\<rparr>) s"
    have "fillActiveChannels ps (n - 1) (active @ [c]) ?s
        = Inr ((active @ [c]) @ map fst (reported ?s ps), mark_all (reported ?s ps) ?s)"
      using Cons.prems(2) True ok(2) by (intro Cons.IH) (auto intro: entry_ok_mark)
    moreover have "reported ?s ps = reported s ps" by (simp add: reported_def)
    ultimately show ?thesis
      using True c ok(1) Cons.prems(2) sint_pos_active [of p]
      by (simp add: entry_ok_def setRevents_def reported_def mark_all_def)
  next
    case False
    then have "reported s (p # ps) = reported s ps" by (simp add: reported_def)
    with Cons.IH [OF ok(2)] Cons.prems(2) False ok(1) sint_pos_active [of p] show ?thesis
      by (cases "0 < n") (auto simp: entry_ok_def reported_def mark_all_def)
  qed
qed

lemma entry_ok_inv:
  assumes inv: "poller_inv s" and i: "i < length (pollFdList s)" and r: "0 \<le> sint r"
    and ign: "pfd_fd (pollFdList s ! i) < 0 \<Longrightarrow> r = 0"
  shows "entry_ok (s\<lparr>pollFdList := l\<rparr>) ((pollFdList s ! i)\<lparr>pfd_revents := r\<rparr>)"
proof -
  from inv i obtain fd c where "slot_of s fd c i" by (auto simp: poller_inv_def)
  then show ?thesis using r ign by (auto simp: entry_ok_def slot_of_def active_entry_def)
qed

lemma Poller_poll_marks:
  assumes inv: "poller_inv s" and len: "length rs = length (pollFdList s)"
    and pos: "\<forall>r \<in> set rs. 0 \<le> sint r"
    and ign: "\<forall>i < length rs. pfd_fd (pollFdList s ! i) < 0 \<longrightarrow> rs ! i = 0"
    and n: "n = int (length (filter (\<lambda>r. r \<noteq> 0) rs))"
  defines "ps \<equiv> map2 (\<lambda>p x. p\<lparr>pfd_revents := x\<rparr>) (pollFdList s) rs"
  shows "Poller_poll (PollOk n rs) now active s =
           Inr (now, active @ map fst (reported s ps), mark_all (reported s ps) (s\<lparr>pollFdList := ps\<rparr>))"
proof -
  have "entry_ok (s\<lparr>pollFdList := ps\<rparr>) p" if "p \<in> set ps" for p
  proof -
    from that obtain i where i: "i < length rs" "p = (pollFdList s ! i)\<lparr>pfd_revents := rs ! i\<rparr>"
      using len by (auto simp: ps_def in_set_zip)
    with entry_ok_inv [OF inv, of i "rs ! i" ps] pos ign len show ?thesis by simp
  qed
  moreover have "n = int (length (filter active_entry ps))"
  proof -
    have "map pfd_revents ps = rs" using len by (auto simp: ps_def intro: nth_equalityI)
    then have "length (filter (\<lambda>r. r \<noteq> 0) rs) = length (filter active_entry ps)"
      by (auto simp: filter_map comp_def active_entry_def [abs_def])
    with n show ?thesis by simp
  qed
  ultimately have "fillActiveChannels ps n active (s\<lparr>pollFdList := ps\<rparr>)
     = Inr (active @ map fst (reported (s\<lparr>pollFdList := ps\<rparr>) ps), mark_all (reported (s\<lparr>pollFdList := ps\<rparr>) ps) (s\<lparr>pollFdList := ps\<rparr>))"
    by (intro fillActiveChannels_reports) auto
  moreover have "reported (s\<lparr>pollFdList := ps\<rparr>) ps = reported s ps" by (simp add: reported_def)
  moreover have "reported s ps = []" if "n \<le> 0"
    using that \<open>n = int (length (filter active_entry ps))\<close> by (simp add: reported_def)
  ultimately show ?thesis by (cases "0 < n") (simp_all add: Poller_poll_def Let_def ps_def [symmetric] mark_all_def)
qed

section \<open>Properties\<close>

definition poller_sample :: "unit poller" where
  "poller_sample = \<lparr>loopId = 0, threadId = 7, currentTid = 7,
     chans = [0 \<mapsto> Channel_new 0 5, 1 \<mapsto> Channel_new 0 6], pollFdList = [], channelMap = Map.empty\<rparr>"

lemma poller_sample_ok: "poller_inv poller_sample" "chan_fresh poller_sample 0" "chan_fd poller_sample 0 = 5"
  by (simp_all add: poller_sample_def poller_inv_def isInLoopThread_def slot_of_def chan_fresh_def
      chan_fd_def Channel_new_def)

text \<open>
  C6. The life of a channel in the poller: a channel the poller has not seen can be enabled
  with any sequence of non-empty masks, disabled and removed; no assertion fails, the
  invariant of the tables holds in the end, and the kernel watches every other descriptor as before
  and the channel's own no more.
\<close>

theorem Poller_channel_life:
  assumes "poller_inv s" and "chan_fresh s c" and "es \<noteq> []" and "\<forall>e \<in> set es. poll_mask e"
  shows "\<exists>s'. bindR (foldR (setEvents c) es s) (\<lambda>s1. bindR (disableAll c s1) (EventLoop_removeChannel c)) = Inr s'
           \<and> poller_inv s' \<and> poll_interest s' = (poll_interest s)(chan_fd s c := None)"
  unfolding disableAll_def kNoneEvent_def using assms by (rule poll_mux.channel_life)

theorem Poller_channel_life_witness:
  "\<exists>s'. bindR (foldR (setEvents 0) [kReadEvent, kReadEvent OR kWriteEvent] poller_sample)
          (\<lambda>s1. bindR (disableAll 0 s1) (EventLoop_removeChannel 0)) = Inr s'
        \<and> poller_inv s' \<and> poll_interest s' = (poll_interest poller_sample)(5 := None)"
  using Poller_channel_life [OF poller_sample_ok(1,2), of "[kReadEvent, kReadEvent OR kWriteEvent]"]
  by (simp add: poller_sample_ok poll_mask_def poll_bits)

text \<open>
  C16. \<open>poll\<close> reports exactly the ready descriptors: when the kernel fills in the \<open>revents\<close> as
  \<open>poll(2)\<close> documents (a mask for each entry, zero for ignored entries, and the number of non-zero
  masks as the return value), \<open>activeChannels\<close> is extended by the channels of the ready entries in the
  order of the array, each gets its result mask, and no assertion of \<open>fillActiveChannels\<close> fails.
\<close>

theorem Poller_poll_reports:
  assumes inv: "poller_inv s" and len: "length rs = length (pollFdList s)"
    and pos: "\<forall>r \<in> set rs. 0 \<le> sint r"
    and ign: "\<forall>i < length rs. pfd_fd (pollFdList s ! i) < 0 \<longrightarrow> rs ! i = 0"
    and n: "n = int (length (filter (\<lambda>r. r \<noteq> 0) rs))"
  defines "ps \<equiv> map2 (\<lambda>p x. p\<lparr>pfd_revents := x\<rparr>) (pollFdList s) rs"
  shows "Poller_poll (PollOk n rs) now active s =
           Inr (now, active @ map fst (reported s ps), mark_all (reported s ps) (s\<lparr>pollFdList := ps\<rparr>))"
  unfolding ps_def by (rule Poller_poll_marks [OF inv len pos ign n])

theorem Poller_poll_reports_witness:
  "\<exists>s s'. foldR (\<lambda>c. setEvents c kReadEvent) [0, 1] poller_sample = Inr s
     \<and> Poller_poll (PollOk 1 [0, 1]) (Timestamp 3) [] s = Inr (Timestamp 3, [1], s')
     \<and> map_option ch_revents (chans s' 1) = Some POLLIN"
proof -
  obtain s1 where s1: "setEvents 0 kReadEvent poller_sample = Inr s1" "poller_inv s1"
    "pollFdList s1 = [\<lparr>pfd_fd = 5, pfd_events = 3, pfd_revents = 0\<rparr>]"
    "channelMap s1 = [5 \<mapsto> 0]" "chans s1 1 = Some (Channel_new 0 6)" "loopId s1 = 0"
    using setEvents_fresh [OF poller_sample_ok(1), of 0 "Channel_new 0 5" kReadEvent]
      added_inv [OF poller_sample_ok(1), of 0 "Channel_new 0 5" kReadEvent]
    by (auto simp: poller_sample_def Channel_new_def added_sel poll_bits)
  obtain s2 where s2: "setEvents 1 kReadEvent s1 = Inr s2" "poller_inv s2"
    "map pfd_fd (pollFdList s2) = [5, 6]" "channelMap s2 = [5 \<mapsto> 0, 6 \<mapsto> 1]" "chans s2 1 \<noteq> None"
    using setEvents_fresh [OF s1(2,5), of kReadEvent] added_inv [OF s1(2,5), of kReadEvent] s1
    by (auto simp: Channel_new_def added_sel)
  obtain p q where pq: "pollFdList s2 = [p, q]" "pfd_fd p = 5" "pfd_fd q = 6" using s2(3) by auto
  have "Poller_poll (PollOk 1 [0, 1]) (Timestamp 3) [] s2 = Inr (Timestamp 3,
     [] @ map fst (reported s2 (map2 (\<lambda>p x. p\<lparr>pfd_revents := x\<rparr>) (pollFdList s2) [0, 1])),
     mark_all (reported s2 (map2 (\<lambda>p x. p\<lparr>pfd_revents := x\<rparr>) (pollFdList s2) [0, 1]))
       (s2\<lparr>pollFdList := map2 (\<lambda>p x. p\<lparr>pfd_revents := x\<rparr>) (pollFdList s2) [0, 1]\<rparr>))"
    by (rule Poller_poll_reports [OF s2(2)]) (auto simp: pq less_Suc_eq)
  then show ?thesis using s1(1) s2(1,5)
    by (auto simp: pq reported_def active_entry_def s2(4) mark_all_def chans_upd_chan POLLIN_def)
qed

text \<open>
  A channel that was disabled and is enabled again is not watched: \<open>updateChannel\<close> makes
  the \<open>fd\<close> of the entry negative for an empty mask and never restores it, so the update succeeds and the
  channel holds its new mask while the kernel keeps ignoring the descriptor.
\<close>

theorem Poller_reenabled_is_ignored:
  assumes "poller_inv s" and "chan_idle s c"
  shows "\<exists>s'. enableReading c s = Inr s' \<and> map_option ch_events (chans s' c) = Some kReadEvent
           \<and> poll_interest s' (chan_fd s c) = None"
proof -
  obtain ch i where ch: "chan_in s c ch i" "pfd_fd (pollFdList s ! i) = - ch_fd ch - 1" "chans s c = Some ch"
    "ch_events ch = 0" using assms(2) by (auto simp: chan_idle_def chan_in_def)
  moreover from this have "0 \<le> ch_fd ch" by (simp add: chan_in_def slot_of_def)
  ultimately show ?thesis
    using setEvents_registered [OF assms(1) ch(1)] modified_interest [OF assms(1) ch(1), of kReadEvent]
    by (simp add: enableReading_def chan_fd_def modified_sel)
qed

theorem Poller_reenabled_is_ignored_witness:
  "\<exists>s s'. bindR (enableReading 0 poller_sample) (disableAll 0) = Inr s \<and> enableReading 0 s = Inr s'
     \<and> map_option ch_events (chans s' 0) = Some kReadEvent \<and> poll_interest s' 5 = None"
proof -
  have "enableReading 0 poller_sample = setEvents 0 kReadEvent poller_sample"
    by (simp add: enableReading_def poller_sample_def Channel_new_def)
  moreover obtain s1 where s1: "setEvents 0 kReadEvent poller_sample = Inr s1" "poller_inv s1"
    "chan_watched s1 0" "chan_fd s1 0 = 5"
    using poll_mux.upd_watch [OF poller_sample_ok(1) disjI1 [OF poller_sample_ok(2)], of kReadEvent]
    by (auto simp: poller_sample_ok poll_mask_def poll_bits)
  moreover obtain s2 where "disableAll 0 s1 = Inr s2" "poller_inv s2" "chan_idle s2 0" "chan_fd s2 0 = 5"
    using poll_mux.upd_none [OF s1(2,3)] s1(4) by (auto simp: disableAll_def kNoneEvent_def)
  ultimately show ?thesis using Poller_reenabled_is_ignored [of s2 0] by auto
qed

end
