(* ===== verification/EventLoop.thy ===== *)
theory EventLoop
  imports Poller
begin

text \<open>
  \<^verbatim>\<open>muduo/EventLoop.h\<close> and \<^verbatim>\<open>EventLoop.cpp\<close>: the loop that polls, dispatches events to channels and
  runs the functors other threads queued. Its state extends the poller's. A functor is a value
  of the type variable \<open>'f\<close> that the argument \<open>run\<close> executes, a channel callback one that \<open>exec\<close>
  executes. The \<open>eventfd\<close> that wakes the loop is its counter, as \<open>eventfd(2)\<close> describes it.
\<close>

section \<open>The class\<close>

record ('cb, 'f) event_loop = "'cb poller" +
  isLooping :: bool
  isQuited :: bool
  pollReturnTime :: timestamp
  activeChannels :: "nat list"
  callingPendingFunctors :: bool
  wakeupFd :: int
  wakeupChannel :: nat
  pendingFunctors :: "'f list"
  eventfdCount :: nat

definition createEventfd :: "int \<Rightarrow> int result" where
  "createEventfd evtfd = (if evtfd < 0 then Inl Aborted else Inr evtfd)"

text \<open>
  A write of 1 to the \<open>eventfd\<close> adds to the counter, or fails with \<open>EAGAIN\<close> at its maximum; a read
  resets it, or fails when it is zero. Both failures are only logged.
\<close>

definition wakeUp :: "('cb, 'f, 'm) event_loop_scheme \<Rightarrow> ('cb, 'f, 'm) event_loop_scheme" where
  "wakeUp s = (if eventfdCount s + 1 \<le> 2 ^ 64 - 2 then s\<lparr>eventfdCount := eventfdCount s + 1\<rparr> else s)"

definition EventLoop_handleRead :: "('cb, 'f, 'm) event_loop_scheme \<Rightarrow> ('cb, 'f, 'm) event_loop_scheme" where
  "EventLoop_handleRead s = (if 0 < eventfdCount s then s\<lparr>eventfdCount := 0\<rparr> else s)"

definition EventLoop_quit :: "('cb, 'f, 'm) event_loop_scheme \<Rightarrow> ('cb, 'f, 'm) event_loop_scheme" where
  "EventLoop_quit s =
     (let s1 = s\<lparr>isQuited := True\<rparr> in if \<not> isInLoopThread s1 then wakeUp s1 else s1)"

text \<open>The critical section of \<open>queueInLoop\<close>, and the whole of it.\<close>

definition pushFunctor :: "'f \<Rightarrow> ('cb, 'f, 'm) event_loop_scheme \<Rightarrow> ('cb, 'f, 'm) event_loop_scheme" where
  "pushFunctor cb s = s\<lparr>pendingFunctors := pendingFunctors s @ [cb]\<rparr>"

definition queueInLoop :: "'f \<Rightarrow> ('cb, 'f, 'm) event_loop_scheme \<Rightarrow> ('cb, 'f, 'm) event_loop_scheme" where
  "queueInLoop cb s =
     (let s1 = pushFunctor cb s in
      if \<not> isInLoopThread s1 \<or> callingPendingFunctors s1 then wakeUp s1 else s1)"

definition runInLoop :: "('f \<Rightarrow> ('cb, 'f, 'm) event_loop_scheme \<Rightarrow> ('cb, 'f, 'm) event_loop_scheme result)
    \<Rightarrow> 'f \<Rightarrow> ('cb, 'f, 'm) event_loop_scheme \<Rightarrow> ('cb, 'f, 'm) event_loop_scheme result" where
  "runInLoop run cb s = (if isInLoopThread s then run cb s else Inr (queueInLoop cb s))"

definition swapFunctors :: "('cb, 'f, 'm) event_loop_scheme \<Rightarrow> 'f list \<times> ('cb, 'f, 'm) event_loop_scheme" where
  "swapFunctors s = (pendingFunctors s, s\<lparr>callingPendingFunctors := True, pendingFunctors := []\<rparr>)"

definition doPendingFunctors :: "('f \<Rightarrow> ('cb, 'f, 'm) event_loop_scheme \<Rightarrow> ('cb, 'f, 'm) event_loop_scheme result)
    \<Rightarrow> ('cb, 'f, 'm) event_loop_scheme \<Rightarrow> ('cb, 'f, 'm) event_loop_scheme result" where
  "doPendingFunctors run s =
     (let (functors, s1) = swapFunctors s in
      bindR (foldR run functors s1) (\<lambda>s2. Inr (s2\<lparr>callingPendingFunctors := False\<rparr>)))"

section \<open>loop()\<close>

text \<open>
  Code of another thread, run with that thread's identity. A round of the loop has as
  input what the other threads did while the loop waited in \<open>poll\<close>, what \<open>poll\<close> reported, and the
  time it returned at.
\<close>

definition as_thread :: "int \<Rightarrow> (('cb, 'f, 'm) event_loop_scheme \<Rightarrow> ('cb, 'f, 'm) event_loop_scheme)
    \<Rightarrow> ('cb, 'f, 'm) event_loop_scheme \<Rightarrow> ('cb, 'f, 'm) event_loop_scheme" where
  "as_thread tid f s = (f (s\<lparr>currentTid := tid\<rparr>))\<lparr>currentTid := currentTid s\<rparr>"

datatype 'f ext_action = ExtQueue int 'f | ExtQuit int

fun ext_act :: "'f ext_action \<Rightarrow> ('cb, 'f, 'm) event_loop_scheme \<Rightarrow> ('cb, 'f, 'm) event_loop_scheme" where
  "ext_act (ExtQueue tid cb) = as_thread tid (queueInLoop cb)"
| "ext_act (ExtQuit tid) = as_thread tid EventLoop_quit"

type_synonym 'f round_input = "'f ext_action list \<times> poll_result \<times> timestamp"

definition EventLoop_round :: "('cb \<Rightarrow> timestamp \<Rightarrow> ('cb, 'f, 'm) event_loop_scheme \<Rightarrow> ('cb, 'f, 'm) event_loop_scheme result)
    \<Rightarrow> ('f \<Rightarrow> ('cb, 'f, 'm) event_loop_scheme \<Rightarrow> ('cb, 'f, 'm) event_loop_scheme result)
    \<Rightarrow> 'f round_input \<Rightarrow> ('cb, 'f, 'm) event_loop_scheme \<Rightarrow> ('cb, 'f, 'm) event_loop_scheme result" where
  "EventLoop_round exec run inp s =
     (case inp of (others, r, now) \<Rightarrow>
        let s1 = fold ext_act others (s\<lparr>activeChannels := []\<rparr>) in
        bindR (Poller_poll r now (activeChannels s1) s1) (\<lambda>(t, active, s2).
          let s3 = s2\<lparr>activeChannels := active, pollReturnTime := t\<rparr> in
          bindR (foldR (\<lambda>c. handleEvent exec c (pollReturnTime s3)) (activeChannels s3) s3)
            (doPendingFunctors run)))"

text \<open>
  The \<open>while\<close> loop over the rounds that the inputs provide: \<open>None\<close> when the loop still runs after all of
  them.
\<close>

fun EventLoop_rounds :: "('cb \<Rightarrow> timestamp \<Rightarrow> ('cb, 'f, 'm) event_loop_scheme \<Rightarrow> ('cb, 'f, 'm) event_loop_scheme result)
    \<Rightarrow> ('f \<Rightarrow> ('cb, 'f, 'm) event_loop_scheme \<Rightarrow> ('cb, 'f, 'm) event_loop_scheme result)
    \<Rightarrow> 'f round_input list \<Rightarrow> ('cb, 'f, 'm) event_loop_scheme
    \<Rightarrow> ('cb, 'f, 'm) event_loop_scheme option result" where
  "EventLoop_rounds exec run [] s =
     Inr (if isQuited s then Some (s\<lparr>isLooping := False\<rparr>) else None)"
| "EventLoop_rounds exec run (inp # inps) s =
     (if isQuited s then Inr (Some (s\<lparr>isLooping := False\<rparr>))
      else bindR (EventLoop_round exec run inp s) (EventLoop_rounds exec run inps))"

definition EventLoop_loop :: "('cb \<Rightarrow> timestamp \<Rightarrow> ('cb, 'f, 'm) event_loop_scheme \<Rightarrow> ('cb, 'f, 'm) event_loop_scheme result)
    \<Rightarrow> ('f \<Rightarrow> ('cb, 'f, 'm) event_loop_scheme \<Rightarrow> ('cb, 'f, 'm) event_loop_scheme result)
    \<Rightarrow> 'f round_input list \<Rightarrow> ('cb, 'f, 'm) event_loop_scheme
    \<Rightarrow> ('cb, 'f, 'm) event_loop_scheme option result" where
  "EventLoop_loop exec run inps s =
     assertR (\<not> isLooping s)
       (assertInLoopThread s
         (EventLoop_rounds exec run inps (s\<lparr>isLooping := True, isQuited := False\<rparr>)))"

text \<open>\<open>EventLoop::~EventLoop\<close>: the loop must have stopped; the thread's loop pointer is cleared.\<close>

definition EventLoop_delete :: "('cb, 'f, 'm) event_loop_scheme \<Rightarrow> nat option result" where
  "EventLoop_delete s = assertR (\<not> isLooping s) (Inr None)"

section \<open>Functors across threads\<close>

text \<open>
  The loop thread and the threads that queue functors, interleaved. A caller of \<open>queueInLoop\<close> on
  another thread takes two steps, the critical section and the wake-up; \<open>inflight\<close> counts the callers between
  them. \<open>queued\<close> and \<open>executed\<close> record the history.
\<close>

datatype 'f loop_phase = Polling | Handling | Running "'f list"

record ('cb, 'f) loop_conf =
  phase :: "'f loop_phase"
  inflight :: nat
  loopState :: "('cb, 'f) event_loop"
  queued :: "'f list"
  executed :: "'f list"

inductive loop_step :: "('cb, 'f) loop_conf \<Rightarrow> ('cb, 'f) loop_conf \<Rightarrow> bool" where
  ext_push: "loop_step c (c\<lparr>inflight := inflight c + 1, loopState := pushFunctor f (loopState c), queued := queued c @ [f]\<rparr>)"
| ext_wake: "0 < inflight c \<Longrightarrow>
     loop_step c (c\<lparr>inflight := inflight c - 1, loopState := wakeUp (loopState c)\<rparr>)"
| poll_returns: "phase c = Polling \<Longrightarrow> loop_step c (c\<lparr>phase := Handling\<rparr>)"
| wakeup_event: "phase c = Handling \<Longrightarrow> loop_step c (c\<lparr>loopState := EventLoop_handleRead (loopState c)\<rparr>)"
| loop_queues: "phase c \<noteq> Polling \<Longrightarrow>
     loop_step c (c\<lparr>loopState := queueInLoop f (loopState c), queued := queued c @ [f]\<rparr>)"
| swap: "phase c = Handling \<Longrightarrow> swapFunctors (loopState c) = (fs, s) \<Longrightarrow>
     loop_step c (c\<lparr>phase := Running fs, loopState := s\<rparr>)"
| run_functor: "phase c = Running (f # fs) \<Longrightarrow>
     loop_step c (c\<lparr>phase := Running fs, executed := executed c @ [f]\<rparr>)"
| functors_done: "phase c = Running [] \<Longrightarrow>
     loop_step c (c\<lparr>phase := Polling, loopState := (loopState c)\<lparr>callingPendingFunctors := False\<rparr>\<rparr>)"

fun running :: "'f loop_phase \<Rightarrow> 'f list" where
  "running (Running fs) = fs"
| "running _ = []"

definition loop_start :: "('cb, 'f) loop_conf \<Rightarrow> bool" where
  "loop_start c \<longleftrightarrow> phase c = Polling \<and> pendingFunctors (loopState c) = [] \<and> queued c = [] \<and> executed c = []
     \<and> \<not> callingPendingFunctors (loopState c) \<and> isInLoopThread (loopState c)"

definition loop_inv :: "('cb, 'f) loop_conf \<Rightarrow> bool" where
  "loop_inv c \<longleftrightarrow> executed c @ running (phase c) @ pendingFunctors (loopState c) = queued c
     \<and> (phase c \<noteq> Handling \<longrightarrow> pendingFunctors (loopState c) \<noteq> [] \<longrightarrow> 0 < eventfdCount (loopState c) \<or> 0 < inflight c)
     \<and> (callingPendingFunctors (loopState c) \<longleftrightarrow> (\<exists>fs. phase c = Running fs))
     \<and> isInLoopThread (loopState c)"

lemma wakeUp_sel [simp]:
  "pendingFunctors (wakeUp s) = pendingFunctors s" "callingPendingFunctors (wakeUp s) = callingPendingFunctors s"
  "isInLoopThread (wakeUp s) = isInLoopThread s" "0 < eventfdCount (wakeUp s)"
  "isQuited (wakeUp s) = isQuited s" "currentTid (wakeUp s) = currentTid s"
  by (auto simp: wakeUp_def isInLoopThread_def)

lemma handleRead_sel [simp]:
  "pendingFunctors (EventLoop_handleRead s) = pendingFunctors s"
  "callingPendingFunctors (EventLoop_handleRead s) = callingPendingFunctors s"
  "isInLoopThread (EventLoop_handleRead s) = isInLoopThread s"
  by (auto simp: EventLoop_handleRead_def isInLoopThread_def)

lemma pushFunctor_sel [simp]:
  "pendingFunctors (pushFunctor f s) = pendingFunctors s @ [f]"
  "callingPendingFunctors (pushFunctor f s) = callingPendingFunctors s"
  "isInLoopThread (pushFunctor f s) = isInLoopThread s" "eventfdCount (pushFunctor f s) = eventfdCount s"
  by (auto simp: pushFunctor_def isInLoopThread_def)

lemma queueInLoop_sel [simp]:
  "pendingFunctors (queueInLoop f s) = pendingFunctors s @ [f]"
  "callingPendingFunctors (queueInLoop f s) = callingPendingFunctors s"
  "isInLoopThread (queueInLoop f s) = isInLoopThread s"
  by (auto simp: queueInLoop_def Let_def)

lemma queueInLoop_wakes:
  "\<not> isInLoopThread s \<or> callingPendingFunctors s \<Longrightarrow> 0 < eventfdCount (queueInLoop f s)"
  by (auto simp: queueInLoop_def Let_def)

lemma loop_step_inv: "loop_step c c' \<Longrightarrow> loop_inv c \<Longrightarrow> loop_inv c'"
proof (induction rule: loop_step.induct)
  case (loop_queues c f)
  then show ?case
    using queueInLoop_wakes [of "loopState c" f] by (cases "phase c") (auto simp: loop_inv_def)
next
  case (swap c fs s)
  then show ?case by (auto simp: loop_inv_def swapFunctors_def isInLoopThread_def)
next
  case (functors_done c)
  then show ?case by (auto simp: loop_inv_def isInLoopThread_def)
qed (auto simp: loop_inv_def)

lemma loop_steps_inv: "loop_step\<^sup>*\<^sup>* c c' \<Longrightarrow> loop_inv c \<Longrightarrow> loop_inv c'"
  by (induction rule: rtranclp_induct) (auto intro: loop_step_inv)

lemma loop_start_inv: "loop_start c \<Longrightarrow> loop_inv c"
  by (simp add: loop_start_def loop_inv_def)

section \<open>What a round keeps\<close>

lemma handleEvent_keeps:
  assumes ex: "\<And>cb s s'. exec cb t s = Inr s' \<Longrightarrow> P s \<Longrightarrow> P s'"
    and up: "\<And>f s. P s \<Longrightarrow> P (upd_chan c f s)"
    and "handleEvent exec c t s = Inr s'" and "P s"
  shows "P s'"
proof -
  have inv: "P y" if "invoke exec c t test slot x = Inr y" "P x" for test slot x y
    using that ex by (auto simp: invoke_def bindR_eq_Inr derefR_eq_Inr split: if_splits option.splits)
  have set: "P y" if "setEventHandling c b x = Inr y" "P x" for b x y
    using that up by (auto simp: setEventHandling_def bindR_eq_Inr)
  from assms(3,4) show ?thesis unfolding handleEvent_def bindR_eq_Inr using inv set by blast
qed

lemma fillActiveChannels_keeps:
  assumes up: "\<And>c f s. P s \<Longrightarrow> P (upd_chan c f s)"
  shows "fillActiveChannels ps n a s = Inr (a', s') \<Longrightarrow> P s \<Longrightarrow> P s'"
proof (induction ps n a s rule: fillActiveChannels.induct)
  case (2 p ps n a s)
  then show ?case
    by (fastforce simp: setRevents_def bindR_eq_Inr derefR_eq_Inr split: if_splits option.splits intro: up)
qed simp

lemma upd_chan_isQuited [simp]: "isQuited (upd_chan c f s) = isQuited s"
  by (simp add: upd_chan_def)

lemma upd_chan_pendingFunctors [simp]: "pendingFunctors (upd_chan c f s) = pendingFunctors s"
  by (simp add: upd_chan_def)

lemma Poller_poll_isQuited:
  assumes "Poller_poll r now a s = Inr (t, a', s')" and "isQuited s"
  shows "isQuited s'"
proof (cases r)
  case (PollErr e)
  then show ?thesis using assms by (simp add: Poller_poll_def)
next
  case (PollOk n rs)
  show ?thesis
  proof (cases "0 < n")
    case True
    let ?l = "map2 (\<lambda>p x. p\<lparr>pfd_revents := x\<rparr>) (pollFdList s) rs"
    from True assms(1) PollOk have "fillActiveChannels ?l n a (s\<lparr>pollFdList := ?l\<rparr>) = Inr (a', s')"
      by (auto simp: Poller_poll_def Let_def bindR_eq_Inr)
    from fillActiveChannels_keeps [where P = isQuited, OF _ this] assms(2) show ?thesis by simp
  next
    case False
    with assms PollOk show ?thesis by (auto simp: Poller_poll_def Let_def)
  qed
qed

lemma ext_act_isQuited: "isQuited s \<Longrightarrow> isQuited (ext_act a s)"
  by (cases a) (auto simp: as_thread_def queueInLoop_def pushFunctor_def EventLoop_quit_def Let_def wakeUp_def)

lemma ext_acts_isQuited: "isQuited s \<or> (\<exists>tid. ExtQuit tid \<in> set others) \<Longrightarrow> isQuited (fold ext_act others s)"
proof (induction others arbitrary: s)
  case (Cons a others)
  have "isQuited (ext_act (ExtQuit tid) s)" for tid
    by (auto simp: as_thread_def EventLoop_quit_def Let_def)
  with Cons.prems have "isQuited (ext_act a s) \<or> (\<exists>tid. ExtQuit tid \<in> set others)"
    by (auto intro: ext_act_isQuited)
  with Cons.IH show ?case by simp
qed simp

lemma round_isQuited:
  assumes ex: "\<And>cb t s s'. exec cb t s = Inr s' \<Longrightarrow> isQuited s \<Longrightarrow> isQuited s'"
    and rn: "\<And>f s s'. run f s = Inr s' \<Longrightarrow> isQuited s \<Longrightarrow> isQuited s'"
    and quit: "ExtQuit tid \<in> set others"
    and ok: "EventLoop_round exec run (others, r, now) s = Inr s'"
  shows "isQuited s'"
proof -
  define s1 where "s1 = fold ext_act others (s\<lparr>activeChannels := []\<rparr>)"
  have q1: "isQuited s1" unfolding s1_def by (rule ext_acts_isQuited) (use quit in blast)
  from ok obtain t a s2 s4 where p: "Poller_poll r now (activeChannels s1) s1 = Inr (t, a, s2)"
    and h: "foldR (\<lambda>c. handleEvent exec c t) a (s2\<lparr>activeChannels := a, pollReturnTime := t\<rparr>) = Inr s4"
    and d: "doPendingFunctors run s4 = Inr s'"
    by (auto simp: EventLoop_round_def Let_def s1_def bindR_eq_Inr)
  have "isQuited s2" using Poller_poll_isQuited [OF p q1] .
  then have "isQuited (s2\<lparr>activeChannels := a, pollReturnTime := t\<rparr>)" by simp
  from foldR_invariant [where P = isQuited, OF _ this h] have "isQuited s4"
    using handleEvent_keeps [where P = isQuited and exec = exec] ex by (metis upd_chan_isQuited)
  then have "isQuited (snd (swapFunctors s4))" by (simp add: swapFunctors_def)
  moreover obtain s5 where "foldR run (pendingFunctors s4) (snd (swapFunctors s4)) = Inr s5"
    "s' = s5\<lparr>callingPendingFunctors := False\<rparr>"
    using d by (auto simp: doPendingFunctors_def swapFunctors_def bindR_eq_Inr)
  ultimately show ?thesis using foldR_invariant [where P = isQuited] rn by (metis (no_types, lifting) event_loop.select_convs(2) event_loop.surjective event_loop.update_convs(5))
qed

section \<open>Properties\<close>

text \<open>
  C4. Functors are run exactly once and in the order they were queued, whatever the
  interleaving: at every reachable state the functors already executed, those the loop has swapped
  out and still has to run, and those pending are, in this order, all that were queued.
\<close>

theorem EventLoop_functors_fifo:
  assumes "loop_start c" and "loop_step\<^sup>*\<^sup>* c c'"
  shows "executed c' @ running (phase c') @ pendingFunctors (loopState c') = queued c'"
  using loop_steps_inv [OF assms(2) loop_start_inv [OF assms(1)]] by (simp add: loop_inv_def)


definition loop_sample :: "(unit, nat) event_loop" where
  "loop_sample = \<lparr>loopId = 0, threadId = 7, currentTid = 7, chans = Map.empty, pollFdList = [],
     channelMap = Map.empty, isLooping = False, isQuited = False, pollReturnTime = Timestamp 0,
     activeChannels = [], callingPendingFunctors = False, wakeupFd = 3, wakeupChannel = 0,
     pendingFunctors = [], eventfdCount = 0\<rparr>"

definition conf_sample :: "(unit, nat) loop_conf" where
  "conf_sample = \<lparr>phase = Polling, inflight = 0, loopState = loop_sample, queued = [], executed = []\<rparr>"

definition conf_queued :: "(unit, nat) loop_conf" where
  "conf_queued = conf_sample\<lparr>inflight := 1, loopState := pushFunctor 4 loop_sample, queued := [4]\<rparr>"

definition conf_woken :: "(unit, nat) loop_conf" where
  "conf_woken = conf_sample\<lparr>loopState := wakeUp (pushFunctor 4 loop_sample), queued := [4]\<rparr>"

lemma conf_sample_steps:
  "loop_start conf_sample" "loop_step\<^sup>*\<^sup>* conf_sample conf_woken"
  "phase conf_woken = Polling" "pendingFunctors (loopState conf_woken) = [4]" "inflight conf_woken = 0"
  "queued conf_woken = [4]"
proof -
  show "loop_start conf_sample"
    by (simp add: loop_start_def conf_sample_def loop_sample_def isInLoopThread_def)
  have "loop_step conf_sample conf_queued"
    using ext_push [of conf_sample 4] by (simp add: conf_sample_def conf_queued_def)
  moreover have "loop_step conf_queued conf_woken"
    using ext_wake [of conf_queued] by (simp add: conf_sample_def conf_queued_def conf_woken_def)
  ultimately show "loop_step\<^sup>*\<^sup>* conf_sample conf_woken" by auto
qed (simp_all add: conf_woken_def conf_sample_def loop_sample_def)

theorem EventLoop_functors_fifo_witness:
  "executed conf_woken @ running (phase conf_woken) @ pendingFunctors (loopState conf_woken) = [4]"
  using EventLoop_functors_fifo [OF conf_sample_steps(1,2)] conf_sample_steps(6) by simp


text \<open>
  \<open>quit()\<close> from another thread while the loop waits ends it: if callbacks and functors do not
  clear the flag, the round in which \<open>quit\<close> happened is the last one, its functors are still run, and \<open>loop()\<close>
  returns with \<open>isLooping\<close> cleared.
\<close>

theorem EventLoop_quit_ends_loop:
  assumes "\<And>cb t s s'. exec cb t s = Inr s' \<Longrightarrow> isQuited s \<Longrightarrow> isQuited s'"
    and "\<And>f s s'. run f s = Inr s' \<Longrightarrow> isQuited s \<Longrightarrow> isQuited s'"
    and "ExtQuit tid \<in> set others" and "\<not> isLooping s" and "isInLoopThread s"
    and "EventLoop_round exec run (others, r, now) (s\<lparr>isLooping := True, isQuited := False\<rparr>) = Inr s'"
  shows "EventLoop_loop exec run ((others, r, now) # inps) s = Inr (Some (s'\<lparr>isLooping := False\<rparr>))"
proof -
  have "isQuited s'" by (rule round_isQuited [OF assms(1,2,3,6)])
  then have "EventLoop_rounds exec run inps s' = Inr (Some (s'\<lparr>isLooping := False\<rparr>))"
    by (cases inps) simp_all
  with assms(4-6) show ?thesis by (simp add: EventLoop_loop_def assertInLoopThread_def)
qed

theorem EventLoop_quit_ends_loop_witness:
  "\<exists>s'. EventLoop_loop (\<lambda>cb t s. Inr s) (\<lambda>f s. Inr (s\<lparr>activeChannels := f # activeChannels s\<rparr>))
      [([ExtQueue 8 4, ExtQuit 9], PollOk 0 [], Timestamp 5)] loop_sample = Inr (Some s')
    \<and> activeChannels s' = [4] \<and> \<not> isLooping s' \<and> eventfdCount s' = 2"
proof -
  let ?run = "\<lambda>f (s :: (unit, nat) event_loop). Inr (s\<lparr>activeChannels := f # activeChannels s\<rparr>) :: (unit, nat) event_loop result"
  let ?exec = "\<lambda>cb t (s :: (unit, nat) event_loop). Inr s :: (unit, nat) event_loop result"
  obtain s' where s': "EventLoop_round ?exec ?run ([ExtQueue 8 4, ExtQuit 9], PollOk 0 [], Timestamp 5)
      (loop_sample\<lparr>isLooping := True, isQuited := False\<rparr>) = Inr s'" "activeChannels s' = [4]" "eventfdCount s' = 2"
    by (simp add: EventLoop_round_def loop_sample_def as_thread_def queueInLoop_def pushFunctor_def Let_def
        isInLoopThread_def wakeUp_def EventLoop_quit_def Poller_poll_def doPendingFunctors_def swapFunctors_def)
  have "EventLoop_loop ?exec ?run [([ExtQueue 8 4, ExtQuit 9], PollOk 0 [], Timestamp 5)] loop_sample
      = Inr (Some (s'\<lparr>isLooping := False\<rparr>))"
    by (rule EventLoop_quit_ends_loop [OF _ _ _ _ _ s'(1), where tid = 9])
      (auto simp: loop_sample_def isInLoopThread_def)
  with s'(2,3) show ?thesis by auto
qed

text \<open>
  A \<open>quit()\<close> before \<open>loop()\<close> is lost: \<open>loop\<close> clears the flag when it starts, so as long as \<open>poll\<close>
  only times out and nothing is queued, the loop does not end, however many rounds it makes.
\<close>

theorem EventLoop_quit_before_loop_lost:
  assumes "\<not> isLooping s" and "isInLoopThread s" and "pendingFunctors s = []"
    and "\<forall>inp \<in> set inps. \<exists>rs now. inp = ([], PollOk 0 rs, now)"
  shows "EventLoop_loop exec run inps (EventLoop_quit s) = Inr None"
proof -
  have "EventLoop_rounds exec run inps s' = Inr None" if "\<not> isQuited s'" "pendingFunctors s' = []" for s'
    using that assms(4)
  proof (induction inps arbitrary: s')
    case (Cons inp inps)
    from Cons.prems(3) obtain rs now where inp: "inp = ([], PollOk 0 rs, now)" by auto
    obtain s1 where "EventLoop_round exec run inp s' = Inr s1" "\<not> isQuited s1" "pendingFunctors s1 = []"
      using Cons.prems(1,2)
      by (simp add: inp EventLoop_round_def Poller_poll_def Let_def doPendingFunctors_def swapFunctors_def)
    with Cons show ?case by simp
  qed simp
  moreover have "isInLoopThread (EventLoop_quit s)" "\<not> isLooping (EventLoop_quit s)"
    "pendingFunctors (EventLoop_quit s) = []"
    using assms(1-3) by (simp_all add: EventLoop_quit_def Let_def isInLoopThread_def)
  ultimately show ?thesis by (simp add: EventLoop_loop_def assertInLoopThread_def)
qed

theorem EventLoop_quit_before_loop_lost_witness:
  "EventLoop_loop (\<lambda>cb t s. Inr s) (\<lambda>f s. Inr s)
     (replicate 100 ([], PollOk 0 [], Timestamp 5)) (EventLoop_quit loop_sample) = Inr None"
  by (rule EventLoop_quit_before_loop_lost) (auto simp: loop_sample_def isInLoopThread_def)

end
