(* ===== verification/TimerQueue.thy ===== *)
theory TimerQueue
  imports EventLoop
begin

text \<open>
  \<^verbatim>\<open>muduo/Timer.h\<close>, \<^verbatim>\<open>Timer.cpp\<close>, \<^verbatim>\<open>TimerId.h\<close>, \<^verbatim>\<open>TimerQueue.h\<close> and \<^verbatim>\<open>TimerQueue.cpp\<close>: the timers of a loop.
  Timers are heap objects, named by their addresses; the ordered \<open>std::set\<close> of entries is a strictly
  sorted list, the two sets of active and cancelled timers are sets. The state extends the loop's; the
  clock readings (\<open>Timestamp::now()\<close>) and the addresses \<open>new\<close> returns are arguments.
\<close>

section \<open>Timer and TimerId\<close>

record 'u timer =
  tm_callback :: 'u
  expirationTimestamp :: timestamp
  tm_interval :: double
  tm_repeat :: bool
  tm_sequence :: int

datatype timer_id = TimerId (id_timer: nat) (id_sequence: int)

definition TimerId_of :: "nat \<Rightarrow> timer_id" where
  "TimerId_of addr = TimerId addr 0"

text \<open>\<open>AtomicInt64\<close> counts modulo \<open>2 ^ 64\<close>.\<close>

definition int64_wrap :: "int \<Rightarrow> int" where
  "int64_wrap x = (x + 2 ^ 63) mod 2 ^ 64 - 2 ^ 63"

text \<open>The functors that the queue hands to the loop, beside those of its users.\<close>

datatype 'u loop_fn = AddTimerInLoop nat | CancelInLoop timer_id | UserFn 'u

type_synonym entry = "timestamp \<times> nat"

record ('cb, 'u) timer_queue = "('cb, 'u loop_fn) event_loop" +
  timers :: "nat \<Rightarrow> 'u timer option"
  s_numCreated :: int
  timerfd :: int
  timerfdChannel :: nat
  timerList :: "entry list"
  activeTimerSet :: "(nat \<times> int) set"
  cancelingTimerSet :: "(nat \<times> int) set"
  callingExpiredTimers :: bool
  timerfdValue :: "(int \<times> int) option"

type_synonym ('cb, 'u, 'm) tq = "('cb, 'u, 'm) timer_queue_scheme"

text \<open>\<open>Timer::Timer\<close>: the counter gives the new timer its sequence number.\<close>

definition Timer_new :: "nat \<Rightarrow> 'u \<Rightarrow> timestamp \<Rightarrow> double \<Rightarrow> ('cb, 'u, 'm) tq \<Rightarrow> ('cb, 'u, 'm) tq" where
  "Timer_new addr cb t ivl s =
     (let n = int64_wrap (s_numCreated s + 1) in
      s\<lparr>s_numCreated := n,
        timers := (timers s)(addr \<mapsto> \<lparr>tm_callback = cb, expirationTimestamp = t, tm_interval = ivl,
                                      tm_repeat = (0 < ivl), tm_sequence = n\<rparr>)\<rparr>)"

definition Timer_restart :: "(double \<Rightarrow> int) \<Rightarrow> timestamp \<Rightarrow> 'u timer \<Rightarrow> 'u timer" where
  "Timer_restart toMicros now tm =
     (if tm_repeat tm then tm\<lparr>expirationTimestamp := addTime toMicros now (tm_interval tm)\<rparr>
      else tm\<lparr>expirationTimestamp := Timestamp_invalid\<rparr>)"

section \<open>TimerQueue\<close>

definition howMuchTimeFromNow :: "timestamp \<Rightarrow> timestamp \<Rightarrow> int \<times> int" where
  "howMuchTimeFromNow t now =
     (let ms = microSecondsSinceEpoch t - microSecondsSinceEpoch now;
          ms1 = (if ms < 100 then 100 else ms)
      in (ms1 sdiv kMicroSecondsPerSecond, ms1 smod kMicroSecondsPerSecond * 1000))"

text \<open>\<open>timerfd_settime\<close> arms the descriptor with a relative time.\<close>

definition resetTimerfd :: "timestamp \<Rightarrow> timestamp \<Rightarrow> ('cb, 'u, 'm) tq \<Rightarrow> ('cb, 'u, 'm) tq" where
  "resetTimerfd now expiration s = s\<lparr>timerfdValue := Some (howMuchTimeFromNow expiration now)\<rparr>"

definition entry_less :: "entry \<Rightarrow> entry \<Rightarrow> bool" where
  "entry_less x y \<longleftrightarrow> fst x < fst y \<or> fst x = fst y \<and> snd x < snd y"

fun entry_insert :: "entry \<Rightarrow> entry list \<Rightarrow> entry list" where
  "entry_insert e [] = [e]"
| "entry_insert e (x # xs) = (if entry_less e x then e # x # xs else x # entry_insert e xs)"

definition sizes_agree :: "('cb, 'u, 'm) tq \<Rightarrow> bool" where
  "sizes_agree s \<longleftrightarrow> length (timerList s) = card (activeTimerSet s)"

definition TimerQueue_insert :: "nat \<Rightarrow> ('cb, 'u, 'm) tq \<Rightarrow> (bool \<times> ('cb, 'u, 'm) tq) result" where
  "TimerQueue_insert addr s =
     assertInLoopThread s (assertR (sizes_agree s)
       (bindR (derefR (timers s) addr) (\<lambda>tm.
          let t = expirationTimestamp tm;
              earliestChanged = (case timerList s of [] \<Rightarrow> True | e # _ \<Rightarrow> t < fst e)
          in assertR ((t, addr) \<notin> set (timerList s))
            (let s1 = s\<lparr>timerList := entry_insert (t, addr) (timerList s)\<rparr> in
             assertR ((addr, tm_sequence tm) \<notin> activeTimerSet s1)
               (let s2 = s1\<lparr>activeTimerSet := insert (addr, tm_sequence tm) (activeTimerSet s1)\<rparr> in
                assertR (sizes_agree s2) (Inr (earliestChanged, s2)))))))"

definition addTimerInLoop :: "timestamp \<Rightarrow> nat \<Rightarrow> ('cb, 'u, 'm) tq \<Rightarrow> ('cb, 'u, 'm) tq result" where
  "addTimerInLoop now addr s =
     assertInLoopThread s
       (bindR (TimerQueue_insert addr s) (\<lambda>(earliestChanged, s1).
          if earliestChanged
          then bindR (derefR (timers s1) addr) (\<lambda>tm. Inr (resetTimerfd now (expirationTimestamp tm) s1))
          else Inr s1))"

definition cancelInLoop :: "timer_id \<Rightarrow> ('cb, 'u, 'm) tq \<Rightarrow> ('cb, 'u, 'm) tq result" where
  "cancelInLoop i s =
     assertInLoopThread s (assertR (sizes_agree s)
       (let timer = (id_timer i, id_sequence i) in
        bindR
          (if timer \<in> activeTimerSet s then
             bindR (derefR (timers s) (fst timer)) (\<lambda>tm.
               let e = (expirationTimestamp tm, fst timer) in
               assertR (e \<in> set (timerList s))
                 (Inr (s\<lparr>timerList := remove1 e (timerList s), timers := (timers s)(fst timer := None),
                        activeTimerSet := activeTimerSet s - {timer}\<rparr>)))
           else if callingExpiredTimers s
           then Inr (s\<lparr>cancelingTimerSet := insert timer (cancelingTimerSet s)\<rparr>)
           else Inr s)
          (\<lambda>s1. assertR (sizes_agree s1) (Inr s1))))"

text \<open>What the loop does with a functor, given what it does with those of the users.\<close>

fun run_fn :: "timestamp \<Rightarrow> ('u \<Rightarrow> ('cb, 'u, 'm) tq \<Rightarrow> ('cb, 'u, 'm) tq result) \<Rightarrow> 'u loop_fn
    \<Rightarrow> ('cb, 'u, 'm) tq \<Rightarrow> ('cb, 'u, 'm) tq result" where
  "run_fn now user (AddTimerInLoop addr) = addTimerInLoop now addr"
| "run_fn now user (CancelInLoop i) = cancelInLoop i"
| "run_fn now user (UserFn u) = user u"

definition addTimer :: "timestamp \<Rightarrow> ('u \<Rightarrow> ('cb, 'u, 'm) tq \<Rightarrow> ('cb, 'u, 'm) tq result) \<Rightarrow> nat \<Rightarrow> 'u
    \<Rightarrow> timestamp \<Rightarrow> double \<Rightarrow> ('cb, 'u, 'm) tq \<Rightarrow> (timer_id \<times> ('cb, 'u, 'm) tq) result" where
  "addTimer now user addr cb t ivl s =
     bindR (runInLoop (run_fn now user) (AddTimerInLoop addr) (Timer_new addr cb t ivl s))
       (\<lambda>s1. Inr (TimerId_of addr, s1))"

definition TimerQueue_cancel :: "timestamp \<Rightarrow> ('u \<Rightarrow> ('cb, 'u, 'm) tq \<Rightarrow> ('cb, 'u, 'm) tq result) \<Rightarrow> timer_id
    \<Rightarrow> ('cb, 'u, 'm) tq \<Rightarrow> ('cb, 'u, 'm) tq result" where
  "TimerQueue_cancel now user i s = runInLoop (run_fn now user) (CancelInLoop i) s"

definition UINTPTR_MAX :: nat where "UINTPTR_MAX = 2 ^ 64 - 1"

definition erase_active :: "entry \<Rightarrow> ('cb, 'u, 'm) tq \<Rightarrow> ('cb, 'u, 'm) tq result" where
  "erase_active e s =
     bindR (derefR (timers s) (snd e)) (\<lambda>tm.
       let timer = (snd e, tm_sequence tm) in
       assertR (timer \<in> activeTimerSet s) (Inr (s\<lparr>activeTimerSet := activeTimerSet s - {timer}\<rparr>)))"

definition getExpired :: "timestamp \<Rightarrow> ('cb, 'u, 'm) tq \<Rightarrow> (entry list \<times> ('cb, 'u, 'm) tq) result" where
  "getExpired now s =
     assertR (sizes_agree s)
       (let before = (\<lambda>e. entry_less e (now, UINTPTR_MAX));
            expired = takeWhile before (timerList s);
            it = dropWhile before (timerList s)
        in assertR (case it of [] \<Rightarrow> True | e # _ \<Rightarrow> now < fst e)
          (bindR (foldR erase_active expired (s\<lparr>timerList := it\<rparr>))
            (\<lambda>s1. assertR (sizes_agree s1) (Inr (expired, s1)))))"

definition reset_one :: "(double \<Rightarrow> int) \<Rightarrow> timestamp \<Rightarrow> entry \<Rightarrow> ('cb, 'u, 'm) tq \<Rightarrow> ('cb, 'u, 'm) tq result" where
  "reset_one toMicros now e s =
     bindR (derefR (timers s) (snd e)) (\<lambda>tm.
       if tm_repeat tm \<and> (snd e, tm_sequence tm) \<notin> cancelingTimerSet s
       then bindR (TimerQueue_insert (snd e)
                    (s\<lparr>timers := (timers s)(snd e \<mapsto> Timer_restart toMicros now tm)\<rparr>))
              (\<lambda>(_, s1). Inr s1)
       else Inr (s\<lparr>timers := (timers s)(snd e := None)\<rparr>))"

text \<open>\<open>now2\<close> is the clock reading of \<open>resetTimerfd\<close>.\<close>

definition TimerQueue_reset :: "(double \<Rightarrow> int) \<Rightarrow> entry list \<Rightarrow> timestamp \<Rightarrow> timestamp
    \<Rightarrow> ('cb, 'u, 'm) tq \<Rightarrow> ('cb, 'u, 'm) tq result" where
  "TimerQueue_reset toMicros expired now now2 s =
     bindR (foldR (reset_one toMicros now) expired s) (\<lambda>s1.
       bindR (case timerList s1 of
                [] \<Rightarrow> Inr Timestamp_default
              | e # _ \<Rightarrow> bindR (derefR (timers s1) (snd e)) (\<lambda>tm. Inr (expirationTimestamp tm)))
         (\<lambda>nextExpire. Inr (if Timestamp_valid nextExpire then resetTimerfd now2 nextExpire s1 else s1)))"

definition run_timer :: "('u \<Rightarrow> ('cb, 'u, 'm) tq \<Rightarrow> ('cb, 'u, 'm) tq result) \<Rightarrow> entry
    \<Rightarrow> ('cb, 'u, 'm) tq \<Rightarrow> ('cb, 'u, 'm) tq result" where
  "run_timer user e s = bindR (derefR (timers s) (snd e)) (\<lambda>tm. user (tm_callback tm) s)"

definition TimerQueue_handleRead :: "(double \<Rightarrow> int) \<Rightarrow> ('u \<Rightarrow> ('cb, 'u, 'm) tq \<Rightarrow> ('cb, 'u, 'm) tq result)
    \<Rightarrow> timestamp \<Rightarrow> timestamp \<Rightarrow> ('cb, 'u, 'm) tq \<Rightarrow> ('cb, 'u, 'm) tq result" where
  "TimerQueue_handleRead toMicros user now now2 s =
     assertInLoopThread s
       (bindR (getExpired now s) (\<lambda>(expired, s1).
          bindR (foldR (run_timer user) expired (s1\<lparr>callingExpiredTimers := True, cancelingTimerSet := {}\<rparr>))
            (\<lambda>s2. TimerQueue_reset toMicros expired now now2 (s2\<lparr>callingExpiredTimers := False\<rparr>))))"

text \<open>The destructor closes the descriptor and deletes the timers that are still scheduled.\<close>

definition TimerQueue_delete :: "('cb, 'u, 'm) tq \<Rightarrow> ('cb, 'u, 'm) tq" where
  "TimerQueue_delete s = fold (\<lambda>e s. s\<lparr>timers := (timers s)(snd e := None)\<rparr>) (timerList s) (s\<lparr>timerfd := -1\<rparr>)"

text \<open>
  The constructors. \<open>tfd\<close> and \<open>efd\<close> are the descriptors \<open>timerfd_create\<close> and \<open>eventfd\<close> return, \<open>c\<close> the
  address of the channel, \<open>cb\<close> the bound \<open>handleRead\<close>. \<open>callingPendingFunctors\<close> is not initialised by
  \<open>EventLoop::EventLoop\<close>: its first value is the argument \<open>garbage\<close>. \<open>existing\<close> is the thread's loop, if it has one.
\<close>

definition createTimerfd :: "int \<Rightarrow> int result" where
  "createTimerfd tfd = (if tfd < 0 then Inl FatalLogged else Inr tfd)"

definition TimerQueue_new :: "int \<Rightarrow> nat \<Rightarrow> 'cb \<Rightarrow> ('cb, 'u, 'm) tq \<Rightarrow> ('cb, 'u, 'm) tq result" where
  "TimerQueue_new tfd c cb s =
     bindR (createTimerfd tfd) (\<lambda>fd.
       enableReading c
         (s\<lparr>timerfd := fd, timerfdChannel := c, timerList := [], activeTimerSet := {}, cancelingTimerSet := {},
            callingExpiredTimers := False, timerfdValue := None,
            chans := (chans s)(c \<mapsto> setReadCallback cb (Channel_new (loopId s) fd))\<rparr>))"

definition EventLoop_new :: "nat option \<Rightarrow> nat \<Rightarrow> int \<Rightarrow> bool \<Rightarrow> int \<Rightarrow> nat \<Rightarrow> 'cb \<Rightarrow> int \<Rightarrow> nat \<Rightarrow> 'cb
    \<Rightarrow> ('cb, 'u) timer_queue result" where
  "EventLoop_new existing this tid garbage tfd tc tcb efd wc wcb =
     (let s0 = \<lparr>loopId = this, threadId = tid, currentTid = tid, chans = Map.empty, pollFdList = [],
                channelMap = Map.empty, isLooping = False, isQuited = False, pollReturnTime = Timestamp_default,
                activeChannels = [], callingPendingFunctors = garbage, wakeupFd = -1, wakeupChannel = 0,
                pendingFunctors = [], eventfdCount = 0, timers = Map.empty, s_numCreated = 0, timerfd = -1,
                timerfdChannel = 0, timerList = [], activeTimerSet = {}, cancelingTimerSet = {},
                callingExpiredTimers = False, timerfdValue = None\<rparr>
      in bindR (TimerQueue_new tfd tc tcb s0) (\<lambda>s1.
         bindR (createEventfd efd) (\<lambda>fd.
           if existing \<noteq> None then Inl FatalLogged
           else enableReading wc
             (s1\<lparr>wakeupFd := fd, wakeupChannel := wc,
                chans := (chans s1)(wc \<mapsto> setReadCallback wcb (Channel_new this fd))\<rparr>))))"

text \<open>The timer operations of \<^verbatim>\<open>EventLoop.cpp\<close>.\<close>

definition runAt :: "timestamp \<Rightarrow> ('u \<Rightarrow> ('cb, 'u, 'm) tq \<Rightarrow> ('cb, 'u, 'm) tq result) \<Rightarrow> nat \<Rightarrow> timestamp \<Rightarrow> 'u
    \<Rightarrow> ('cb, 'u, 'm) tq \<Rightarrow> (timer_id \<times> ('cb, 'u, 'm) tq) result" where
  "runAt now user addr time cb s = addTimer now user addr cb time 0 s"

definition runAfter :: "(double \<Rightarrow> int) \<Rightarrow> timestamp \<Rightarrow> ('u \<Rightarrow> ('cb, 'u, 'm) tq \<Rightarrow> ('cb, 'u, 'm) tq result) \<Rightarrow> nat
    \<Rightarrow> double \<Rightarrow> 'u \<Rightarrow> ('cb, 'u, 'm) tq \<Rightarrow> (timer_id \<times> ('cb, 'u, 'm) tq) result" where
  "runAfter toMicros now user addr delay cb s = runAt now user addr (addTime toMicros now delay) cb s"

definition runEvery :: "(double \<Rightarrow> int) \<Rightarrow> timestamp \<Rightarrow> ('u \<Rightarrow> ('cb, 'u, 'm) tq \<Rightarrow> ('cb, 'u, 'm) tq result) \<Rightarrow> nat
    \<Rightarrow> double \<Rightarrow> 'u \<Rightarrow> ('cb, 'u, 'm) tq \<Rightarrow> (timer_id \<times> ('cb, 'u, 'm) tq) result" where
  "runEvery toMicros now user addr ivl cb s =
     addTimer now user addr cb (addTime toMicros now ivl) ivl s"

definition EventLoop_cancel :: "timestamp \<Rightarrow> ('u \<Rightarrow> ('cb, 'u, 'm) tq \<Rightarrow> ('cb, 'u, 'm) tq result) \<Rightarrow> timer_id
    \<Rightarrow> ('cb, 'u, 'm) tq \<Rightarrow> ('cb, 'u, 'm) tq result" where
  "EventLoop_cancel now user i s = TimerQueue_cancel now user i s"

section \<open>Invariant\<close>

definition seq_of :: "('cb, 'u, 'm) tq \<Rightarrow> nat \<Rightarrow> int" where
  "seq_of s a = (case timers s a of None \<Rightarrow> 0 | Some tm \<Rightarrow> tm_sequence tm)"

definition timer_inv :: "('cb, 'u, 'm) tq \<Rightarrow> bool" where
  "timer_inv s \<longleftrightarrow> isInLoopThread s \<and> sorted_wrt entry_less (timerList s)
     \<and> (\<forall>(t, a) \<in> set (timerList s). a < UINTPTR_MAX \<and> (\<exists>tm. timers s a = Some tm \<and> expirationTimestamp tm = t))
     \<and> activeTimerSet s = (\<lambda>e. (snd e, seq_of s (snd e))) ` set (timerList s)"

text \<open>\<open>idle_timer s a\<close>: a live timer that is not scheduled.\<close>

definition idle_timer :: "('cb, 'u, 'm) tq \<Rightarrow> nat \<Rightarrow> bool" where
  "idle_timer s a \<longleftrightarrow> a < UINTPTR_MAX \<and> timers s a \<noteq> None \<and> a \<notin> snd ` set (timerList s)"

lemma entry_less_trans: "entry_less x y \<Longrightarrow> entry_less y z \<Longrightarrow> entry_less x z"
  by (auto simp: entry_less_def)

lemma entry_less_irrefl: "\<not> entry_less x x"
  by (simp add: entry_less_def)

lemma entry_less_total: "\<not> entry_less x y \<Longrightarrow> x \<noteq> y \<Longrightarrow> entry_less y x"
  by (cases x; cases y) (auto simp: entry_less_def)

lemma set_entry_insert [simp]: "set (entry_insert e xs) = insert e (set xs)"
  by (induction xs) auto

lemma length_entry_insert [simp]: "length (entry_insert e xs) = Suc (length xs)"
  by (induction xs) auto

lemma sorted_entry_insert:
  "sorted_wrt entry_less xs \<Longrightarrow> e \<notin> set xs \<Longrightarrow> sorted_wrt entry_less (entry_insert e xs)"
proof (induction xs)
  case (Cons x xs)
  show ?case
  proof (cases "entry_less e x")
    case True
    with Cons.prems show ?thesis using entry_less_trans [OF True] by auto
  next
    case False
    with Cons entry_less_total [of e x] show ?thesis by auto
  qed
qed simp

lemma sorted_entries_distinct: "sorted_wrt entry_less xs \<Longrightarrow> distinct xs"
  by (induction xs) (auto simp: entry_less_irrefl)

lemma timer_inv_entry:
  assumes "timer_inv s" and "(t, a) \<in> set (timerList s)"
  obtains tm where "timers s a = Some tm" "expirationTimestamp tm = t" "a < UINTPTR_MAX"
  using assms unfolding timer_inv_def by fast

lemma sorted_wrt_remove1: "sorted_wrt P xs \<Longrightarrow> sorted_wrt P (remove1 x xs)"
  by (induction xs) (auto dest: in_set_remove1 [THEN iffD1, rotated] notin_set_remove1 set_remove1_subset [THEN subsetD])

lemma timer_inv_inj:
  assumes "timer_inv s"
  shows "inj_on snd (set (timerList s))"
proof (rule inj_onI)
  fix x y assume xy: "x \<in> set (timerList s)" "y \<in> set (timerList s)" "snd x = snd y"
  obtain t a u where "x = (t, a)" "y = (u, a)" using xy(3) by (cases x; cases y) auto
  with xy timer_inv_entry [OF assms, of t a] timer_inv_entry [OF assms, of u a] show "x = y"
    by (metis option.inject)
qed

lemma timer_inv_sizes:
  assumes "timer_inv s"
  shows "sizes_agree s"
proof -
  have "inj_on (\<lambda>e. (snd e, seq_of s (snd e))) (set (timerList s))"
    using timer_inv_inj [OF assms] by (auto simp: inj_on_def)
  then show ?thesis
    using assms sorted_entries_distinct [of "timerList s"]
    by (simp add: sizes_agree_def timer_inv_def card_image distinct_card)
qed

lemma idle_timer_not_active: "timer_inv s \<Longrightarrow> idle_timer s a \<Longrightarrow> (a, q) \<notin> activeTimerSet s"
  by (auto simp: timer_inv_def idle_timer_def)

section \<open>The operations keep the invariant\<close>

text \<open>The effect of a successful \<open>insert\<close>.\<close>

definition scheduled :: "nat \<Rightarrow> 'u timer \<Rightarrow> ('cb, 'u, 'm) tq \<Rightarrow> ('cb, 'u, 'm) tq" where
  "scheduled a tm s = s\<lparr>timerList := entry_insert (expirationTimestamp tm, a) (timerList s),
     activeTimerSet := insert (a, tm_sequence tm) (activeTimerSet s)\<rparr>"

lemma scheduled_inv:
  assumes "timer_inv s" and "idle_timer s a" and "timers s a = Some tm"
  shows "timer_inv (scheduled a tm s)"
proof -
  have "(expirationTimestamp tm, a) \<notin> set (timerList s)" using assms(2) by (force simp: idle_timer_def)
  moreover have "seq_of (scheduled a tm s) = seq_of s" by (simp add: seq_of_def fun_eq_iff scheduled_def)
  ultimately show ?thesis
    using assms by (auto simp: timer_inv_def scheduled_def isInLoopThread_def sorted_entry_insert idle_timer_def seq_of_def)
qed

lemma insert_scheduled:
  assumes "timer_inv s" and "idle_timer s a" and "timers s a = Some tm"
  shows "TimerQueue_insert a s =
     Inr (case timerList s of [] \<Rightarrow> True | e # _ \<Rightarrow> expirationTimestamp tm < fst e, scheduled a tm s)"
proof -
  have "(expirationTimestamp tm, a) \<notin> set (timerList s)" using assms(2) by (force simp: idle_timer_def)
  moreover have "(a, tm_sequence tm) \<notin> activeTimerSet s" by (rule idle_timer_not_active [OF assms(1,2)])
  moreover have "isInLoopThread s" using assms(1) by (simp add: timer_inv_def)
  ultimately show ?thesis
    using timer_inv_sizes [OF assms(1)] timer_inv_sizes [OF scheduled_inv [OF assms]] assms(3)
    by (simp add: TimerQueue_insert_def assertInLoopThread_def Let_def scheduled_def)
qed

lemma idle_after_scheduled:
  "idle_timer s b \<Longrightarrow> b \<noteq> a \<Longrightarrow> idle_timer (scheduled a tm s) b"
  by (auto simp: idle_timer_def scheduled_def)

lemma timer_inv_cong:
  assumes "timer_inv s" and "timerList s' = timerList s" "activeTimerSet s' = activeTimerSet s" "isInLoopThread s'"
    and "\<And>a. a \<in> snd ` set (timerList s) \<Longrightarrow> timers s' a = timers s a"
  shows "timer_inv s'"
proof -
  have "seq_of s' (snd e) = seq_of s (snd e)" if "e \<in> set (timerList s)" for e
    using assms(5) that by (simp add: seq_of_def)
  moreover have "timers s' a = timers s a" if "(t, a) \<in> set (timerList s)" for t a
    using assms(5) that by force
  ultimately show ?thesis using assms(1-4) by (fastforce simp: timer_inv_def image_def)
qed

lemma Timer_new_inv:
  assumes "timer_inv s" and "timers s a = None" and "a < UINTPTR_MAX"
  shows "timer_inv (Timer_new a cb t ivl s)" "idle_timer (Timer_new a cb t ivl s) a"
    "idle_timer s b \<Longrightarrow> idle_timer (Timer_new a cb t ivl s) b"
proof -
  have na: "a \<notin> snd ` set (timerList s)" using assms(1,2) by (auto simp: timer_inv_def)
  show "timer_inv (Timer_new a cb t ivl s)"
    by (rule timer_inv_cong [OF assms(1)])
      (use assms(1) na in \<open>auto simp: Timer_new_def Let_def isInLoopThread_def timer_inv_def\<close>)
  show "idle_timer (Timer_new a cb t ivl s) a"
    using na assms(3) by (simp add: idle_timer_def Timer_new_def Let_def)
  show "idle_timer s b \<Longrightarrow> idle_timer (Timer_new a cb t ivl s) b"
    by (auto simp: idle_timer_def Timer_new_def Let_def)
qed

lemma resetTimerfd_sel [simp]:
  "timers (resetTimerfd now e s) = timers s" "timerList (resetTimerfd now e s) = timerList s"
  "activeTimerSet (resetTimerfd now e s) = activeTimerSet s" "isInLoopThread (resetTimerfd now e s) = isInLoopThread s"
  "cancelingTimerSet (resetTimerfd now e s) = cancelingTimerSet s"
  "timer_inv (resetTimerfd now e s) = timer_inv s" "idle_timer (resetTimerfd now e s) = idle_timer s"
  by (simp_all add: resetTimerfd_def isInLoopThread_def timer_inv_def seq_of_def [abs_def] idle_timer_def [abs_def])

lemma addTimerInLoop_ok:
  assumes "timer_inv s" and "idle_timer s a"
  shows "\<exists>s' tm. addTimerInLoop now a s = Inr s' \<and> timer_inv s' \<and> timers s a = Some tm
     \<and> timerList s' = entry_insert (expirationTimestamp tm, a) (timerList s) \<and> timers s' = timers s
     \<and> cancelingTimerSet s' = cancelingTimerSet s \<and> (\<forall>b. b \<noteq> a \<longrightarrow> idle_timer s b \<longrightarrow> idle_timer s' b)"
proof -
  obtain tm where tm: "timers s a = Some tm" using assms(2) by (auto simp: idle_timer_def)
  have "isInLoopThread s" using assms(1) by (simp add: timer_inv_def)
  moreover have "timers (scheduled a tm s) = timers s" "cancelingTimerSet (scheduled a tm s) = cancelingTimerSet s"
    "timerList (scheduled a tm s) = entry_insert (expirationTimestamp tm, a) (timerList s)"
    by (simp_all add: scheduled_def)
  ultimately show ?thesis
    using insert_scheduled [OF assms tm] scheduled_inv [OF assms tm] tm idle_after_scheduled [of s _ a tm]
    by (cases "case timerList s of [] \<Rightarrow> True | e # _ \<Rightarrow> expirationTimestamp tm < fst e")
      (simp_all add: addTimerInLoop_def assertInLoopThread_def)
qed

lemma unscheduled_inv:
  assumes inv: "timer_inv s" and e: "(t, a) \<in> set (timerList s)"
  shows "timer_inv (s\<lparr>timerList := remove1 (t, a) (timerList s), timers := (timers s)(a := None),
                     activeTimerSet := activeTimerSet s - {(a, seq_of s a)}\<rparr>)" (is "timer_inv ?s")
proof -
  have d: "distinct (timerList s)" using inv by (simp add: timer_inv_def sorted_entries_distinct)
  then have rm: "set (remove1 (t, a) (timerList s)) = set (timerList s) - {(t, a)}" by simp
  have other: "snd x \<noteq> a" if "x \<in> set (timerList s)" "x \<noteq> (t, a)" for x
    using timer_inv_inj [OF inv] that e by (auto simp: inj_on_def)
  have "sorted_wrt entry_less (remove1 (t, a) (timerList s))"
    using inv by (simp add: timer_inv_def sorted_wrt_remove1)
  moreover have "activeTimerSet ?s = (\<lambda>x. (snd x, seq_of ?s (snd x))) ` (set (timerList s) - {(t, a)})"
  proof -
    have "seq_of ?s (snd x) = seq_of s (snd x)" if "x \<in> set (timerList s)" "x \<noteq> (t, a)" for x
      using other [OF that] by (simp add: seq_of_def)
    moreover have "activeTimerSet s = (\<lambda>x. (snd x, seq_of s (snd x))) ` set (timerList s)"
      using inv by (simp add: timer_inv_def)
    moreover have "inj_on (\<lambda>x. (snd x, seq_of s (snd x))) (set (timerList s))"
      using timer_inv_inj [OF inv] by (auto simp: inj_on_def)
    then have "(\<lambda>x. (snd x, seq_of s (snd x))) ` (set (timerList s) - {(t, a)})
        = (\<lambda>x. (snd x, seq_of s (snd x))) ` set (timerList s) - {(a, seq_of s a)}"
      using e by (subst inj_on_image_set_diff) auto
    ultimately show ?thesis by (simp add: image_def)
  qed
  moreover have "\<forall>(u, b) \<in> set (timerList s) - {(t, a)}. b < UINTPTR_MAX
      \<and> (\<exists>tm. timers ?s b = Some tm \<and> expirationTimestamp tm = u)"
  proof
    fix x assume x: "x \<in> set (timerList s) - {(t, a)}"
    then obtain u b where ub: "x = (u, b)" "(u, b) \<in> set (timerList s)" by (cases x) auto
    obtain tm where "timers s b = Some tm" "expirationTimestamp tm = u" "b < UINTPTR_MAX"
      by (rule timer_inv_entry [OF inv ub(2)])
    with other [of x] x ub(1)
    show "case x of (u, b) \<Rightarrow> b < UINTPTR_MAX \<and> (\<exists>tm. timers ?s b = Some tm \<and> expirationTimestamp tm = u)" by simp
  qed
  ultimately show ?thesis using inv by (simp add: timer_inv_def rm isInLoopThread_def)
qed

lemma cancelInLoop_inv:
  assumes "timer_inv s"
  shows "\<exists>s'. cancelInLoop i s = Inr s' \<and> timer_inv s' \<and> (\<forall>b. idle_timer s b \<longrightarrow> idle_timer s' b \<and> timers s' b = timers s b)
     \<and> (if (id_timer i, id_sequence i) \<in> activeTimerSet s
        then set (timerList s') = {e \<in> set (timerList s). snd e \<noteq> id_timer i} \<and> timers s' = (timers s)(id_timer i := None)
        else timerList s' = timerList s \<and> timers s' = timers s)"
proof (cases "(id_timer i, id_sequence i) \<in> activeTimerSet s")
  case True
  let ?a = "id_timer i"
  from True assms obtain t where e: "(t, ?a) \<in> set (timerList s)" "id_sequence i = seq_of s ?a"
    by (auto simp: timer_inv_def)
  from timer_inv_entry [OF assms e(1)] obtain tm where tm: "timers s ?a = Some tm" "expirationTimestamp tm = t" by blast
  let ?s = "s\<lparr>timerList := remove1 (t, ?a) (timerList s), timers := (timers s)(?a := None),
              activeTimerSet := activeTimerSet s - {(?a, seq_of s ?a)}\<rparr>"
  have inv: "timer_inv ?s" by (rule unscheduled_inv [OF assms e(1)])
  have "cancelInLoop i s = Inr ?s"
    using True e tm timer_inv_sizes [OF assms] timer_inv_sizes [OF inv] assms
    by (simp add: cancelInLoop_def assertInLoopThread_def timer_inv_def Let_def)
  moreover have "distinct (timerList s)" using assms by (simp add: timer_inv_def sorted_entries_distinct)
  moreover have "snd x \<noteq> ?a" if "x \<in> set (timerList s)" "x \<noteq> (t, ?a)" for x
    using timer_inv_inj [OF assms] that e(1) by (auto simp: inj_on_def)
  moreover have "?a \<in> snd ` set (timerList s)" using e(1) by force
  ultimately show ?thesis using True inv e(1) by (auto simp: idle_timer_def)
next
  case False
  have "timer_inv (s\<lparr>cancelingTimerSet := X\<rparr>) = timer_inv s" "sizes_agree (s\<lparr>cancelingTimerSet := X\<rparr>) = sizes_agree s"
    "idle_timer (s\<lparr>cancelingTimerSet := X\<rparr>) = idle_timer s" for X
    by (simp_all add: timer_inv_def isInLoopThread_def seq_of_def [abs_def] sizes_agree_def idle_timer_def [abs_def])
  with False assms timer_inv_sizes [OF assms] show ?thesis
    by (auto simp: cancelInLoop_def assertInLoopThread_def Let_def) (simp_all add: timer_inv_def)
qed

subsection \<open>Taking the expired entries\<close>

lemma sorted_span:
  assumes "sorted_wrt entry_less xs" and "\<And>x y. entry_less x y \<Longrightarrow> p y \<Longrightarrow> p x"
  shows "takeWhile p xs = filter p xs \<and> dropWhile p xs = filter (\<lambda>x. \<not> p x) xs"
  using assms(1)
proof (induction xs)
  case (Cons x xs)
  show ?case
  proof (cases "p x")
    case False
    have "\<not> p y" if "y \<in> set xs" for y using that Cons.prems False assms(2) [of x y] by auto
    with False show ?thesis by simp
  qed (use Cons in simp)
qed simp

lemma before_sentry: "a < UINTPTR_MAX \<Longrightarrow> entry_less (t, a) (now, UINTPTR_MAX) \<longleftrightarrow> t \<le> now"
  by (auto simp: entry_less_def)

lemma erase_active_all:
  assumes "\<forall>e \<in> set es. timers s (snd e) \<noteq> None \<and> (snd e, seq_of s (snd e)) \<in> activeTimerSet s"
    and "distinct (map snd es)"
  shows "foldR erase_active es s =
     Inr (s\<lparr>activeTimerSet := activeTimerSet s - (\<lambda>e. (snd e, seq_of s (snd e))) ` set es\<rparr>)"
  using assms
proof (induction es arbitrary: s)
  case (Cons e es)
  let ?s = "s\<lparr>activeTimerSet := activeTimerSet s - {(snd e, seq_of s (snd e))}\<rparr>"
  have sq: "seq_of ?s = seq_of s" by (simp add: seq_of_def fun_eq_iff)
  have ne: "snd e' \<noteq> snd e" if "e' \<in> set es" for e'
    using Cons.prems(2) that by (auto simp: image_iff dest: bspec)
  from Cons.prems have "erase_active e s = Inr ?s"
    by (auto simp: erase_active_def seq_of_def)
  moreover have "foldR erase_active es ?s =
     Inr (?s\<lparr>activeTimerSet := activeTimerSet ?s - (\<lambda>e. (snd e, seq_of ?s (snd e))) ` set es\<rparr>)"
    using Cons.prems ne by (intro Cons.IH) (simp_all add: sq)
  moreover have "activeTimerSet s - {(snd e, seq_of s (snd e))} - (\<lambda>e. (snd e, seq_of s (snd e))) ` set es
      = activeTimerSet s - (\<lambda>e. (snd e, seq_of s (snd e))) ` set (e # es)" by auto
  ultimately show ?case by (simp add: sq)
qed simp

lemma getExpired_ok:
  fixes now :: timestamp and s :: "('cb, 'u, 'm) tq"
  assumes inv: "timer_inv s"
  defines "ex \<equiv> filter (\<lambda>e. fst e \<le> now) (timerList s)" and "rest \<equiv> filter (\<lambda>e. now < fst e) (timerList s)"
  shows "\<exists>s'. getExpired now s = Inr (ex, s') \<and> timer_inv s' \<and> timerList s' = rest \<and> timers s' = timers s
           \<and> (\<forall>e \<in> set ex. idle_timer s' (snd e)) \<and> distinct (map snd ex)
           \<and> (\<forall>b. idle_timer s b \<longrightarrow> idle_timer s' b)"
proof -
  let ?before = "\<lambda>e. entry_less e (now, UINTPTR_MAX)"
  have cut: "?before e \<longleftrightarrow> fst e \<le> now" if "e \<in> set (timerList s)" for e
    using timer_inv_entry [OF inv, of "fst e" "snd e"] before_sentry [of "snd e" "fst e" now] that by auto
  have so: "sorted_wrt entry_less (timerList s)" using inv by (simp add: timer_inv_def)
  have tw: "takeWhile ?before (timerList s) = ex" "dropWhile ?before (timerList s) = rest"
  proof -
    have "filter ?before (timerList s) = ex" "filter (\<lambda>e. \<not> ?before e) (timerList s) = rest"
      unfolding ex_def rest_def by (rule filter_cong [OF refl], simp add: cut not_le)+
    with sorted_span [OF so, of ?before] entry_less_trans
    show "takeWhile ?before (timerList s) = ex" "dropWhile ?before (timerList s) = rest" by blast+
  qed
  have inj: "inj_on snd (set (timerList s))" by (rule timer_inv_inj [OF inv])
  have injf: "inj_on (\<lambda>e. (snd e, seq_of s (snd e))) (set (timerList s))" using inj by (auto simp: inj_on_def)
  have sub: "set ex \<subseteq> set (timerList s)" "set rest = set (timerList s) - set ex" by (auto simp: ex_def rest_def)
  have d: "distinct ex" using sorted_entries_distinct [OF so] by (simp add: ex_def)
  have dm: "distinct (map snd ex)" using d inj_on_subset [OF inj sub(1)] by (simp add: distinct_map)
  have act: "activeTimerSet s = (\<lambda>e. (snd e, seq_of s (snd e))) ` set (timerList s)" using inv by (simp add: timer_inv_def)
  let ?s1 = "s\<lparr>timerList := rest\<rparr>"
  have sq: "seq_of ?s1 = seq_of s" by (simp add: seq_of_def fun_eq_iff)
  let ?s' = "?s1\<lparr>activeTimerSet := activeTimerSet s - (\<lambda>e. (snd e, seq_of s (snd e))) ` set ex\<rparr>"
  have fold: "foldR erase_active ex ?s1 = Inr ?s'"
  proof -
    have "timers s (snd e) \<noteq> None \<and> (snd e, seq_of s (snd e)) \<in> activeTimerSet s" if "e \<in> set ex" for e
      using that sub(1) timer_inv_entry [OF inv, of "fst e" "snd e"] by (auto simp: act)
    with erase_active_all [of ex ?s1] dm show ?thesis by (simp add: sq)
  qed
  have apart: "snd e \<noteq> snd e'" if "e \<in> set ex" "e' \<in> set rest" for e e'
    using that inj sub by (metis DiffD1 DiffD2 inj_onD subsetD)
  have inv': "timer_inv ?s'"
  proof -
    have "activeTimerSet s - (\<lambda>e. (snd e, seq_of s (snd e))) ` set ex = (\<lambda>e. (snd e, seq_of s (snd e))) ` set rest"
      unfolding act sub(2) using inj_on_image_set_diff [OF injf, of "set (timerList s)" "set ex"] sub(1) by auto
    moreover have "seq_of ?s' = seq_of s" by (simp add: seq_of_def fun_eq_iff)
    moreover have "sorted_wrt entry_less rest" using so by (simp add: rest_def sorted_wrt_filter)
    ultimately show ?thesis using inv sub(2) by (auto simp: timer_inv_def isInLoopThread_def)
  qed
  have "\<forall>e \<in> set rest. now < fst e" by (simp add: rest_def)
  then have "case rest of [] \<Rightarrow> True | e # _ \<Rightarrow> now < fst e" by (cases rest) simp_all
  then have "getExpired now s = Inr (ex, ?s')"
    using timer_inv_sizes [OF inv] timer_inv_sizes [OF inv'] fold by (simp add: getExpired_def Let_def tw)
  moreover have "idle_timer ?s' (snd e)" if ee: "e \<in> set ex" for e
  proof -
    have "(fst e, snd e) \<in> set (timerList s)" using ee sub(1) by auto
    then obtain tm where "timers s (snd e) = Some tm" "snd e < UINTPTR_MAX" by (rule timer_inv_entry [OF inv])
    moreover have "snd e \<notin> snd ` set rest" using apart [OF ee] by blast
    ultimately show ?thesis by (simp add: idle_timer_def)
  qed
  moreover have "idle_timer ?s' b" if "idle_timer s b" for b
    using that sub(2) by (auto simp: idle_timer_def)
  ultimately show ?thesis using inv' dm by (intro exI [of _ ?s']) simp
qed

subsection \<open>Rescheduling\<close>

text \<open>
  What \<open>reset\<close> makes of one expired timer: a repeating one that was not cancelled meanwhile gets a new
  expiration and is scheduled again, any other is deleted.
\<close>

definition reset_spec :: "(double \<Rightarrow> int) \<Rightarrow> timestamp \<Rightarrow> (nat \<times> int) set \<Rightarrow> entry \<Rightarrow> 'u timer \<Rightarrow> 'u timer option" where
  "reset_spec toMicros now cs e tm =
     (if tm_repeat tm \<and> (snd e, tm_sequence tm) \<notin> cs
      then Some (tm\<lparr>expirationTimestamp := addTime toMicros now (tm_interval tm)\<rparr>) else None)"

lemma reset_one_ok:
  assumes inv: "timer_inv s" and idle: "idle_timer s (snd e)" and tm: "timers s (snd e) = Some tm"
  shows "\<exists>s'. reset_one toMicros now e s = Inr s' \<and> timer_inv s' \<and> cancelingTimerSet s' = cancelingTimerSet s
     \<and> timers s' = (timers s)(snd e := reset_spec toMicros now (cancelingTimerSet s) e tm)
     \<and> set (timerList s') = set (timerList s) \<union>
         (case reset_spec toMicros now (cancelingTimerSet s) e tm of
            None \<Rightarrow> {} | Some tm' \<Rightarrow> {(expirationTimestamp tm', snd e)})
     \<and> (\<forall>b. b \<noteq> snd e \<longrightarrow> idle_timer s b \<longrightarrow> idle_timer s' b)"
proof -
  have na: "snd e \<notin> snd ` set (timerList s)" using idle by (simp add: idle_timer_def)
  have thr: "isInLoopThread s" using inv by (simp add: timer_inv_def)
  have heap: "timer_inv (s\<lparr>timers := (timers s)(snd e := x)\<rparr>)" for x
  proof (rule timer_inv_cong [OF inv])
    fix a assume "a \<in> snd ` set (timerList s)"
    with na have "a \<noteq> snd e" by metis
    then show "timers (s\<lparr>timers := (timers s)(snd e := x)\<rparr>) a = timers s a" by simp
  qed (use thr in \<open>simp_all add: isInLoopThread_def\<close>)
  show ?thesis
  proof (cases "reset_spec toMicros now (cancelingTimerSet s) e tm")
    case None
    then have "reset_one toMicros now e s = Inr (s\<lparr>timers := (timers s)(snd e := None)\<rparr>)"
      using tm by (auto simp: reset_one_def reset_spec_def split: if_splits)
    with None heap [of None] show ?thesis by (auto simp: idle_timer_def)
  next
    case (Some tm')
    let ?s = "s\<lparr>timers := (timers s)(snd e \<mapsto> tm')\<rparr>"
    have idle': "idle_timer ?s b" if "idle_timer s b" for b using that by (auto simp: idle_timer_def)
    have tm': "timers ?s (snd e) = Some tm'" by simp
    have "reset_one toMicros now e s = Inr (scheduled (snd e) tm' ?s)"
      using Some tm insert_scheduled [OF heap [of "Some tm'"] idle' [OF idle] tm']
      by (auto simp: reset_one_def reset_spec_def Timer_restart_def split: if_splits)
    moreover have "timer_inv (scheduled (snd e) tm' ?s)"
      by (rule scheduled_inv [OF heap [of "Some tm'"] idle' [OF idle] tm'])
    ultimately show ?thesis using Some idle_after_scheduled [OF idle'] by (simp add: scheduled_def insert_commute)
  qed
qed

lemma reset_all_ok:
  assumes "timer_inv s" and "\<forall>e \<in> set es. idle_timer s (snd e)" and "distinct (map snd es)"
  shows "\<exists>s'. foldR (reset_one toMicros now) es s = Inr s' \<and> timer_inv s'
     \<and> (\<forall>a. a \<notin> snd ` set es \<longrightarrow> timers s' a = timers s a)
     \<and> (\<forall>e \<in> set es. timers s' (snd e) = reset_spec toMicros now (cancelingTimerSet s) e (the (timers s (snd e))))
     \<and> set (timerList s') = set (timerList s) \<union>
         {(t, a). a \<in> snd ` set es \<and> (\<exists>tm. timers s' a = Some tm \<and> expirationTimestamp tm = t)}"
  using assms
proof (induction es arbitrary: s)
  case (Cons e es)
  have ne: "snd e \<notin> snd ` set es" "distinct (map snd es)" using Cons.prems(3) by simp_all
  have idle: "idle_timer s (snd e)" using Cons.prems(2) by simp
  then obtain tm where tm: "timers s (snd e) = Some tm" by (auto simp: idle_timer_def)
  let ?r = "reset_spec toMicros now (cancelingTimerSet s) e tm"
  from reset_one_ok [OF Cons.prems(1) idle tm, of toMicros now] obtain s1 where
    s1: "reset_one toMicros now e s = Inr s1" "timer_inv s1" "cancelingTimerSet s1 = cancelingTimerSet s"
      "timers s1 = (timers s)(snd e := ?r)"
      "set (timerList s1) = set (timerList s) \<union> (case ?r of None \<Rightarrow> {} | Some tm' \<Rightarrow> {(expirationTimestamp tm', snd e)})"
      "\<forall>b. b \<noteq> snd e \<longrightarrow> idle_timer s b \<longrightarrow> idle_timer s1 b" by blast
  have other: "snd e' \<noteq> snd e" if "e' \<in> set es" for e' using that ne(1) by (metis imageI)
  have "\<forall>e' \<in> set es. idle_timer s1 (snd e')" using s1(6) Cons.prems(2) other by simp
  from Cons.IH [OF s1(2) this ne(2)] obtain s2 where
    s2: "foldR (reset_one toMicros now) es s1 = Inr s2" "timer_inv s2"
      "\<forall>a. a \<notin> snd ` set es \<longrightarrow> timers s2 a = timers s1 a"
      "\<forall>e' \<in> set es. timers s2 (snd e') = reset_spec toMicros now (cancelingTimerSet s) e' (the (timers s1 (snd e')))"
      "set (timerList s2) = set (timerList s1) \<union>
         {(t, a). a \<in> snd ` set es \<and> (\<exists>tm. timers s2 a = Some tm \<and> expirationTimestamp tm = t)}"
    using s1(3) by auto
  have e2: "timers s2 (snd e) = ?r" using s2(3) ne(1) s1(4) by simp
  have "\<forall>a. a \<notin> snd ` set (e # es) \<longrightarrow> timers s2 a = timers s a" using s2(3) s1(4) by simp
  moreover have "\<forall>e' \<in> set (e # es). timers s2 (snd e') = reset_spec toMicros now (cancelingTimerSet s) e' (the (timers s (snd e')))"
    using s2(4) s1(4) e2 tm other by simp
  moreover have "set (timerList s2) = set (timerList s) \<union>
         {(t, a). a \<in> snd ` set (e # es) \<and> (\<exists>tm. timers s2 a = Some tm \<and> expirationTimestamp tm = t)}"
    unfolding s2(5) s1(5) using e2 by (cases ?r) auto
  ultimately show ?case using s1(1) s2(1,2) by (intro exI [of _ s2]) simp
qed simp

subsection \<open>The alarm\<close>

lemma timer_inv_flags [simp]:
  "timer_inv (s\<lparr>callingExpiredTimers := b\<rparr>) = timer_inv s" "idle_timer (s\<lparr>callingExpiredTimers := b\<rparr>) = idle_timer s"
  "timer_inv (s\<lparr>cancelingTimerSet := c\<rparr>) = timer_inv s" "idle_timer (s\<lparr>cancelingTimerSet := c\<rparr>) = idle_timer s"
  by (simp_all add: timer_inv_def isInLoopThread_def seq_of_def [abs_def] idle_timer_def [abs_def])

text \<open>
  User code that returns, keeps the queue's invariant and leaves the timers of \<open>E\<close>, which are not
  scheduled, alone.
\<close>

definition keeps_timers :: "nat set \<Rightarrow> ('u \<Rightarrow> ('cb, 'u, 'm) tq \<Rightarrow> ('cb, 'u, 'm) tq result) \<Rightarrow> bool" where
  "keeps_timers E user \<longleftrightarrow> (\<forall>u s. timer_inv s \<longrightarrow> (\<forall>a \<in> E. idle_timer s a) \<longrightarrow>
     (\<exists>s'. user u s = Inr s' \<and> timer_inv s' \<and> (\<forall>a \<in> E. idle_timer s' a \<and> timers s' a = timers s a)))"

lemma run_timers_ok:
  assumes "keeps_timers E user" and "timer_inv s" and "\<forall>a \<in> E. idle_timer s a" and "snd ` set es \<subseteq> E"
  shows "\<exists>s'. foldR (run_timer user) es s = Inr s' \<and> foldR user (map (\<lambda>e. tm_callback (the (timers s (snd e)))) es) s = Inr s'
     \<and> timer_inv s' \<and> (\<forall>a \<in> E. idle_timer s' a \<and> timers s' a = timers s a)"
  using assms(2-4)
proof (induction es arbitrary: s)
  case (Cons e es)
  have E: "snd e \<in> E" "snd ` set es \<subseteq> E" using Cons.prems(3) by auto
  then obtain tm where tm: "timers s (snd e) = Some tm" using Cons.prems(2) by (auto simp: idle_timer_def)
  obtain s1 where s1: "user (tm_callback tm) s = Inr s1" "timer_inv s1" "\<forall>a \<in> E. idle_timer s1 a \<and> timers s1 a = timers s a"
    using assms(1) Cons.prems(1,2) unfolding keeps_timers_def by blast
  from Cons.IH [OF s1(2) _ E(2)] s1(3) obtain s2 where
    s2: "foldR (run_timer user) es s1 = Inr s2"
      "foldR user (map (\<lambda>e. tm_callback (the (timers s1 (snd e)))) es) s1 = Inr s2"
      "timer_inv s2" "\<forall>a \<in> E. idle_timer s2 a \<and> timers s2 a = timers s1 a" by blast
  have meq: "map (\<lambda>e. tm_callback (the (timers s1 (snd e)))) es = map (\<lambda>e. tm_callback (the (timers s (snd e)))) es"
    using s1(3) E(2) by auto
  have "run_timer user e s = Inr s1" using tm s1(1) by (simp add: run_timer_def)
  then show ?case using s1(1,3) s2(1,3,4) s2(2) [unfolded meq] tm by (intro exI [of _ s2]) simp
qed simp

lemma reset_arms:
  assumes "foldR (reset_one toMicros now) es s = Inr s1" and "timer_inv s1"
  shows "\<exists>s'. TimerQueue_reset toMicros es now now2 s = Inr s' \<and> timer_inv s' \<and> timers s' = timers s1
     \<and> timerList s' = timerList s1
     \<and> (timerList s' \<noteq> [] \<longrightarrow> Timestamp_valid (fst (hd (timerList s'))) \<longrightarrow>
        timerfdValue s' = Some (howMuchTimeFromNow (fst (hd (timerList s'))) now2))"
proof (cases "timerList s1")
  case Nil
  with assms show ?thesis by (simp add: TimerQueue_reset_def Timestamp_default_def Timestamp_valid_def)
next
  case (Cons e l)
  then have "(fst e, snd e) \<in> set (timerList s1)" by simp
  then obtain tm where "timers s1 (snd e) = Some tm" "expirationTimestamp tm = fst e"
    by (rule timer_inv_entry [OF assms(2)])
  with Cons assms show ?thesis by (auto simp: TimerQueue_reset_def) (simp_all add: resetTimerfd_def)
qed

section \<open>Properties\<close>

definition tq_sample :: "(unit, nat) timer_queue" where
  "tq_sample = \<lparr>loopId = 0, threadId = 7, currentTid = 7, chans = Map.empty, pollFdList = [],
     channelMap = Map.empty, isLooping = False, isQuited = False, pollReturnTime = Timestamp 0,
     activeChannels = [], callingPendingFunctors = False, wakeupFd = 3, wakeupChannel = 0,
     pendingFunctors = [], eventfdCount = 0,
     timers = [10 \<mapsto> \<lparr>tm_callback = 1, expirationTimestamp = Timestamp 50, tm_interval = 2, tm_repeat = True, tm_sequence = 1\<rparr>,
               11 \<mapsto> \<lparr>tm_callback = 2, expirationTimestamp = Timestamp 90, tm_interval = 0, tm_repeat = False, tm_sequence = 2\<rparr>],
     s_numCreated = 2, timerfd = 4, timerfdChannel = 1, timerList = [(Timestamp 50, 10), (Timestamp 90, 11)],
     activeTimerSet = {(10, 1), (11, 2)}, cancelingTimerSet = {}, callingExpiredTimers = False, timerfdValue = None\<rparr>"

lemma tq_sample_inv: "timer_inv tq_sample"
  by (auto simp: timer_inv_def tq_sample_def isInLoopThread_def entry_less_def UINTPTR_MAX_def seq_of_def less_timestamp_iff)

text \<open>
  \<open>addTimer\<close> in the loop thread schedules the new timer: no assertion fails, the entry
  is added to the ordered list, the invariant of the queue holds, and when the new timer is the
  earliest the descriptor is armed for it.
\<close>

theorem TimerQueue_addTimer_schedules:
  assumes "timer_inv s" and "timers s addr = None" and "addr < UINTPTR_MAX"
  shows "\<exists>s'. addTimer now user addr cb t ivl s = Inr (TimerId_of addr, s') \<and> timer_inv s'
           \<and> timerList s' = entry_insert (t, addr) (timerList s)
           \<and> map_option tm_callback (timers s' addr) = Some cb
           \<and> ((\<forall>e \<in> set (timerList s). t < fst e) \<longrightarrow> timerfdValue s' = Some (howMuchTimeFromNow t now))"
proof -
  let ?s = "Timer_new addr cb t ivl s"
  note n = Timer_new_inv [OF assms, where cb = cb and t = t and ivl = ivl]
  obtain tm where tm: "timers ?s addr = Some tm" "expirationTimestamp tm = t" "tm_callback tm = cb" "timerList ?s = timerList s"
    by (simp add: Timer_new_def Let_def)
  have thr: "isInLoopThread ?s" using n(1) by (simp add: timer_inv_def)
  let ?early = "case timerList s of [] \<Rightarrow> True | e # _ \<Rightarrow> t < fst e"
  have "addTimerInLoop now addr ?s = Inr (if ?early then resetTimerfd now t (scheduled addr tm ?s) else scheduled addr tm ?s)"
    using insert_scheduled [OF n(1,2) tm(1), unfolded tm(2,4)] thr tm by (simp add: addTimerInLoop_def assertInLoopThread_def scheduled_def)
  moreover have "?early" if "\<forall>e \<in> set (timerList s). t < fst e" using that by (cases "timerList s") auto
  ultimately show ?thesis
    using scheduled_inv [OF n(1,2) tm(1)] tm thr
    by (cases ?early) (auto simp: addTimer_def runInLoop_def, simp_all add: scheduled_def resetTimerfd_def)
qed

theorem TimerQueue_addTimer_schedules_witness:
  "\<exists>s'. addTimer (Timestamp 5) (\<lambda>u s. Inr s) 12 3 (Timestamp 20) 0 tq_sample = Inr (TimerId_of 12, s')
     \<and> timerList s' = [(Timestamp 20, 12), (Timestamp 50, 10), (Timestamp 90, 11)]
     \<and> timerfdValue s' = Some (0, 100000)"
proof -
  have "timers tq_sample 12 = None" "12 < UINTPTR_MAX" by (simp_all add: tq_sample_def UINTPTR_MAX_def)
  from TimerQueue_addTimer_schedules [OF tq_sample_inv this, of "Timestamp 5" "\<lambda>u s. Inr s" 3 "Timestamp 20" 0]
  show ?thesis
    by (auto simp: tq_sample_def entry_less_def less_timestamp_iff howMuchTimeFromNow_def kMicroSecondsPerSecond_def
        sdiv_nonneg smod_nonneg)
qed



text \<open>
  C40. \<open>cancel\<close> of the identifier \<open>addTimer\<close> returned does nothing: the identifier carries the
  sequence number 0 instead of the timer's, which is never 0 before the counter wraps around, so the
  timer is not found and stays scheduled.
\<close>

theorem TimerQueue_cancel_ineffective:
  assumes "timer_inv s" and "timers s addr = None" and "addr < UINTPTR_MAX"
    and "0 \<le> s_numCreated s" and "s_numCreated s < 2 ^ 63 - 1"
  shows "\<exists>s1 s2. addTimer now user addr cb t ivl s = Inr (TimerId_of addr, s1)
           \<and> EventLoop_cancel now user (TimerId_of addr) s1 = Inr s2
           \<and> timerList s2 = timerList s1 \<and> timers s2 = timers s1 \<and> (t, addr) \<in> set (timerList s2)"
proof -
  let ?s = "Timer_new addr cb t ivl s"
  note n = Timer_new_inv [OF assms(1-3), where cb = cb and t = t and ivl = ivl]
  from addTimerInLoop_ok [OF n(1,2), of now] obtain s1 tm where s1: "addTimerInLoop now addr ?s = Inr s1" "timer_inv s1"
    "timers ?s addr = Some tm" "timerList s1 = entry_insert (expirationTimestamp tm, addr) (timerList ?s)" "timers s1 = timers ?s" by blast
  have "int64_wrap (s_numCreated s + 1) = s_numCreated s + 1" using assms(4,5) by (simp add: int64_wrap_def)
  then have "expirationTimestamp tm = t" "tm_sequence tm \<noteq> 0"
    using s1(3) assms(4) by (auto simp: Timer_new_def Let_def)
  moreover from this s1(3,5) have "seq_of s1 addr \<noteq> 0" by (simp add: seq_of_def)
  then have "(addr, 0) \<notin> activeTimerSet s1" using s1(2) by (auto simp: timer_inv_def)
  ultimately obtain s2 where "cancelInLoop (TimerId_of addr) s1 = Inr s2" "timerList s2 = timerList s1" "timers s2 = timers s1"
    using cancelInLoop_inv [OF s1(2), of "TimerId_of addr"] by (auto simp: TimerId_of_def)
  moreover have "isInLoopThread ?s" "isInLoopThread s1" using n(1) s1(2) by (simp_all add: timer_inv_def)
  ultimately show ?thesis
    using s1(1,4) \<open>expirationTimestamp tm = t\<close>
    by (simp add: addTimer_def runInLoop_def EventLoop_cancel_def TimerQueue_cancel_def)
qed

theorem TimerQueue_cancel_ineffective_witness:
  "\<exists>s1 s2. addTimer (Timestamp 5) (\<lambda>u s. Inr s) 12 3 (Timestamp 20) 0 tq_sample = Inr (TimerId 12 0, s1)
     \<and> EventLoop_cancel (Timestamp 5) (\<lambda>u s. Inr s) (TimerId 12 0) s1 = Inr s2 \<and> (Timestamp 20, 12) \<in> set (timerList s2)"
proof -
  have "timers tq_sample 12 = None" "12 < UINTPTR_MAX" "0 \<le> s_numCreated tq_sample" "s_numCreated tq_sample < 2 ^ 63 - 1"
    by (simp_all add: tq_sample_def UINTPTR_MAX_def)
  from TimerQueue_cancel_ineffective [OF tq_sample_inv this, of "Timestamp 5" "\<lambda>u s. Inr s" 3 "Timestamp 20" 0]
  show ?thesis by (auto simp: TimerId_of_def)
qed

text \<open>
  The relative time given to \<open>timerfd_settime\<close> is well formed and right: at least 100
  microseconds, nanoseconds below a second, and together exactly the distance to the expiration when
  that is at least 100 microseconds away.
\<close>

theorem howMuchTimeFromNow_exact:
  assumes "howMuchTimeFromNow t now = (sec, nsec)"
  shows "0 \<le> sec \<and> 0 \<le> nsec \<and> nsec < 1000000000
     \<and> 1000000000 * sec + nsec = 1000 * max 100 (microSecondsSinceEpoch t - microSecondsSinceEpoch now)"
proof -
  define m where "m = max 100 (microSecondsSinceEpoch t - microSecondsSinceEpoch now)"
  have m: "0 \<le> m" by (simp add: m_def)
  then have "sec = m div 1000000" "nsec = m mod 1000000 * 1000"
    using assms by (auto simp: howMuchTimeFromNow_def Let_def m_def kMicroSecondsPerSecond_def sdiv_nonneg smod_nonneg max_def split: if_splits)
  moreover have "1000000000 * q + r * 1000 = 1000 * (1000000 * q + r)" for q r :: int by simp
  then have "1000000000 * (m div 1000000) + m mod 1000000 * 1000 = 1000 * m" by (metis mult_div_mod_eq)
  moreover have "0 \<le> m mod 1000000" "m mod 1000000 < 1000000" by simp_all
  ultimately show ?thesis using m unfolding m_def [symmetric] by (simp add: pos_imp_zdiv_nonneg_iff)
qed

theorem howMuchTimeFromNow_exact_witness: "1000000000 * 2 + 500000 = 1000 * max 100 (2000600 - 100 :: int)"
  using howMuchTimeFromNow_exact [of "Timestamp 2000600" "Timestamp 100" 2 500000]
  by (simp add: howMuchTimeFromNow_def kMicroSecondsPerSecond_def sdiv_nonneg smod_nonneg)

lemma enableReading_new:
  assumes "poller_inv s" and "c \<notin> ran (channelMap s)" and "0 \<le> fd" and "channelMap s fd = None" and "lp = loopId s"
  shows "\<exists>s'. enableReading c (s\<lparr>chans := (chans s)(c \<mapsto> setReadCallback cb (Channel_new lp fd))\<rparr>) = Inr s'
    \<and> s' = added c kReadEvent (setReadCallback cb (Channel_new lp fd)) (s\<lparr>chans := (chans s)(c \<mapsto> setReadCallback cb (Channel_new lp fd))\<rparr>)
    \<and> poller_inv s' \<and> poll_interest s' = (poll_interest s)(fd \<mapsto> kReadEvent)"
proof -
  let ?ch = "setReadCallback cb (Channel_new lp fd)"
  let ?s = "s\<lparr>chans := (chans s)(c \<mapsto> ?ch)\<rparr>"
  have ch: "chans ?s c = Some ?ch" "ch_index ?ch < 0" "channelMap ?s (ch_fd ?ch) = None" "0 \<le> ch_fd ?ch"
    "ownerLoop ?ch = loopId ?s" "ch_fd ?ch = fd"
    using assms by (simp_all add: setReadCallback_def Channel_new_def)
  have sl: "slot_of ?s f d i \<longleftrightarrow> slot_of s f d i" for f d i
    using assms(2) by (auto simp: slot_of_def ran_def)
  then have inv: "poller_inv ?s" using assms(1) by (simp add: poller_inv_def isInLoopThread_def)
  have "poll_interest ?s = poll_interest s" by (simp add: poll_interest_def fun_eq_iff)
  moreover have "poll_mask kReadEvent" by (simp add: poll_mask_def poll_bits)
  moreover have "enableReading c ?s = setEvents c kReadEvent ?s"
    by (simp add: enableReading_def setReadCallback_def Channel_new_def)
  ultimately show ?thesis
    using setEvents_fresh [OF inv ch(1,2,3,5)] added_inv [OF inv ch(1-4)] added_interest [OF inv ch(1-4)] ch(6) by simp
qed

text \<open>
  A new loop is ready to run: on a thread without a loop, with two different descriptors, the
  constructor succeeds in a state that satisfies the invariants of the poller and of the timer
  queue, watching exactly the timer and the wake-up descriptor for reading.
\<close>

theorem EventLoop_new_ready:
  fixes tcb wcb :: 'cb
  assumes "0 \<le> tfd" and "0 \<le> efd" and "tfd \<noteq> efd" and "tc \<noteq> wc"
  shows "\<exists>s :: ('cb, 'u) timer_queue. EventLoop_new None this tid garbage tfd tc tcb efd wc wcb = Inr s \<and> poller_inv s \<and> timer_inv s
           \<and> poll_interest s = [tfd \<mapsto> kReadEvent, efd \<mapsto> kReadEvent] \<and> pendingFunctors s = [] \<and> \<not> isLooping s"
proof -
  let ?s0 = "\<lparr>loopId = this, threadId = tid, currentTid = tid, chans = Map.empty, pollFdList = [],
                channelMap = Map.empty, isLooping = False, isQuited = False, pollReturnTime = Timestamp_default,
                activeChannels = [], callingPendingFunctors = garbage, wakeupFd = -1, wakeupChannel = 0,
                pendingFunctors = [], eventfdCount = 0, timers = Map.empty, s_numCreated = 0, timerfd = tfd,
                timerfdChannel = tc, timerList = [], activeTimerSet = {}, cancelingTimerSet = {},
                callingExpiredTimers = False, timerfdValue = None\<rparr> :: ('cb, 'u) timer_queue"
  have p0: "poller_inv ?s0" "poll_interest ?s0 = Map.empty"
    by (auto simp: poller_inv_def isInLoopThread_def poll_interest_def)
  let ?tch = "setReadCallback tcb (Channel_new this tfd)"
  from enableReading_new [OF p0(1), of tc tfd this tcb] assms(1) obtain s1 where
    s1: "enableReading tc (?s0\<lparr>chans := [tc \<mapsto> ?tch]\<rparr>) = Inr s1" "poller_inv s1" "poll_interest s1 = [tfd \<mapsto> kReadEvent]"
      "s1 = added tc kReadEvent ?tch (?s0\<lparr>chans := [tc \<mapsto> ?tch]\<rparr>)" by (auto simp: p0(2))
  let ?s1 = "s1\<lparr>wakeupFd := efd, wakeupChannel := wc\<rparr>"
  have f: "channelMap ?s1 = [tfd \<mapsto> tc]" "loopId ?s1 = this" "timerList ?s1 = []" "activeTimerSet ?s1 = {}"
    "pendingFunctors ?s1 = []" "\<not> isLooping ?s1" "isInLoopThread ?s1"
    by (simp_all add: s1(4) added_def isInLoopThread_def setReadCallback_def Channel_new_def)
  have p1: "poller_inv ?s1" "poll_interest ?s1 = poll_interest s1"
    using s1(2) by (simp_all add: poller_inv_def slot_of_def isInLoopThread_def poll_interest_def fun_eq_iff)
  from enableReading_new [OF p1(1), of wc efd this wcb] f(1,2) assms obtain s2 where
    s2: "enableReading wc (?s1\<lparr>chans := (chans ?s1)(wc \<mapsto> setReadCallback wcb (Channel_new this efd))\<rparr>) = Inr s2"
      "poller_inv s2" "poll_interest s2 = [tfd \<mapsto> kReadEvent, efd \<mapsto> kReadEvent]"
      "s2 = added wc kReadEvent (setReadCallback wcb (Channel_new this efd))
              (?s1\<lparr>chans := (chans ?s1)(wc \<mapsto> setReadCallback wcb (Channel_new this efd))\<rparr>)"
    by (auto simp: p1(2) s1(3))
  have "timer_inv s2" "pendingFunctors s2 = []" "\<not> isLooping s2"
    using f by (simp_all add: s2(4) added_def timer_inv_def isInLoopThread_def)
  moreover have "EventLoop_new None this tid garbage tfd tc tcb efd wc wcb = Inr s2"
    using s1(1) s2(1) assms(1,2) by (simp add: EventLoop_new_def TimerQueue_new_def createTimerfd_def createEventfd_def Let_def)
  ultimately show ?thesis using s2(2,3) by blast
qed

theorem EventLoop_new_ready_witness:
  "\<exists>s :: (unit, unit) timer_queue. EventLoop_new None 1 77 True 3 0 () 4 1 () = Inr s
     \<and> poll_interest s = [3 \<mapsto> kReadEvent, 4 \<mapsto> kReadEvent]"
  using EventLoop_new_ready [of 3 4 0 1 1 77 True "()" "()"] by auto

end
