(* ===== verification/Sockets.thy ===== *)
theory Sockets
  imports Format
begin

text \<open>
  \<^verbatim>\<open>muduo/SocketsOps.h\<close>, \<^verbatim>\<open>SocketsOps.cc\<close>, \<^verbatim>\<open>InetAddress.h\<close>, \<^verbatim>\<open>InetAddress.cc\<close>, \<^verbatim>\<open>Socket.h\<close> and \<^verbatim>\<open>Socket.cc\<close>:
  addresses and the wrappers of the socket calls, on a little-endian host. The results of the system
  calls are arguments; \<open>inet_ntop\<close> and \<open>inet_pton\<close> of the C library are written out for IPv4.
\<close>

unbundle bit_operations_syntax

section \<open>Byte order\<close>

definition byte_of :: "'a::len word \<Rightarrow> nat \<Rightarrow> 'a word" where
  "byte_of w i = take_bit 8 (drop_bit (8 * i) w)"

definition hostToNetwork16 :: "16 word \<Rightarrow> 16 word" where
  "hostToNetwork16 w = push_bit 8 (byte_of w 0) OR byte_of w 1"

definition hostToNetwork32 :: "32 word \<Rightarrow> 32 word" where
  "hostToNetwork32 w = push_bit 24 (byte_of w 0) OR push_bit 16 (byte_of w 1)
     OR push_bit 8 (byte_of w 2) OR byte_of w 3"

definition hostToNetwork64 :: "64 word \<Rightarrow> 64 word" where
  "hostToNetwork64 w = push_bit 56 (byte_of w 0) OR push_bit 48 (byte_of w 1) OR push_bit 40 (byte_of w 2)
     OR push_bit 32 (byte_of w 3) OR push_bit 24 (byte_of w 4) OR push_bit 16 (byte_of w 5)
     OR push_bit 8 (byte_of w 6) OR byte_of w 7"

definition networkToHost16 :: "16 word \<Rightarrow> 16 word" where
  "networkToHost16 = hostToNetwork16"

definition networkToHost32 :: "32 word \<Rightarrow> 32 word" where
  "networkToHost32 = hostToNetwork32"

definition networkToHost64 :: "64 word \<Rightarrow> 64 word" where
  "networkToHost64 = hostToNetwork64"

section \<open>Addresses\<close>

record sockaddr_in =
  sin_family :: "16 word"
  sin_port :: "16 word"
  sin_addr :: "32 word"

definition AF_INET :: "16 word" where "AF_INET = 2"

definition kInaddrAny :: "32 word" where "kInaddrAny = 0"

definition sockaddr_zero :: sockaddr_in where
  "sockaddr_zero = \<lparr>sin_family = 0, sin_port = 0, sin_addr = 0\<rparr>"

text \<open>
  \<open>inet_ntop\<close>: the four bytes of the address in the order of memory, which on this host starts
  with the low byte of \<open>s_addr\<close>.
\<close>

definition octets :: "32 word \<Rightarrow> nat list" where
  "octets a = map (\<lambda>i. unat (byte_of a i)) [0, 1, 2, 3]"

definition dotted :: "nat list \<Rightarrow> string" where
  "dotted os = (case os of [a, b, c, d] \<Rightarrow>
       dec_nat a @ ''.'' @ dec_nat b @ ''.'' @ dec_nat c @ ''.'' @ dec_nat d | _ \<Rightarrow> ''INVALID'')"

definition inet_ntop :: "32 word \<Rightarrow> string" where
  "inet_ntop a = dotted (octets a)"

text \<open>
  \<open>inet_pton\<close>: four numbers below 256 without leading zeros, separated by dots. \<open>cur\<close> is the number being
  read, if one has begun.
\<close>

fun pton4 :: "string \<Rightarrow> nat list \<Rightarrow> nat option \<Rightarrow> nat list option" where
  "pton4 [] done cur =
     (case cur of None \<Rightarrow> None | Some v \<Rightarrow> if length done = 3 then Some (done @ [v]) else None)"
| "pton4 (ch # s) done cur =
     (if is_digit ch then
        (case cur of
           None \<Rightarrow> if 4 \<le> length done then None else pton4 s done (Some (digit_val ch))
         | Some v \<Rightarrow> if v = 0 \<or> 255 < 10 * v + digit_val ch then None
                    else pton4 s done (Some (10 * v + digit_val ch)))
      else if ch = CHR ''.'' then
        (case cur of
           None \<Rightarrow> None
         | Some v \<Rightarrow> if length done = 3 then None else pton4 s (done @ [v]) None)
      else None)"

definition addr_of_octets :: "nat list \<Rightarrow> 32 word" where
  "addr_of_octets os = foldr (\<lambda>v a. push_bit 8 a OR of_nat v) os 0"

definition inet_pton :: "string \<Rightarrow> 32 word option" where
  "inet_pton s = map_option addr_of_octets (pton4 s [] None)"

definition sockets_toHostPort :: "nat \<Rightarrow> sockaddr_in \<Rightarrow> string" where
  "sockets_toHostPort sz addr =
     (let host = inet_ntop (sin_addr addr); port = networkToHost16 (sin_port addr)
      in fst (snprintf sz (host @ '':'' @ dec_nat (unat port))))"

text \<open>When the text is not an address the failure is logged and \<open>sin_addr\<close> is left as it was.\<close>

definition sockets_fromHostPort :: "string \<Rightarrow> 16 word \<Rightarrow> sockaddr_in \<Rightarrow> sockaddr_in" where
  "sockets_fromHostPort ip port addr =
     (let a = addr\<lparr>sin_family := AF_INET, sin_port := hostToNetwork16 port\<rparr> in
      case inet_pton ip of None \<Rightarrow> a | Some x \<Rightarrow> a\<lparr>sin_addr := x\<rparr>)"

datatype InetAddress = InetAddress (getSockAddrInet: sockaddr_in)

definition InetAddress_port :: "16 word \<Rightarrow> InetAddress" where
  "InetAddress_port port =
     InetAddress (sockaddr_zero\<lparr>sin_family := AF_INET, sin_addr := hostToNetwork32 kInaddrAny,
                                sin_port := hostToNetwork16 port\<rparr>)"

definition InetAddress_ip :: "string \<Rightarrow> 16 word \<Rightarrow> InetAddress" where
  "InetAddress_ip ip port = InetAddress (sockets_fromHostPort ip port sockaddr_zero)"

definition InetAddress_toHostPort :: "InetAddress \<Rightarrow> string" where
  "InetAddress_toHostPort a = sockets_toHostPort 32 (getSockAddrInet a)"

definition setSockAddrInet :: "InetAddress \<Rightarrow> sockaddr_in \<Rightarrow> InetAddress" where
  "setSockAddrInet a addr = InetAddress addr"

section \<open>Socket calls\<close>

text \<open>Linux error numbers.\<close>

definition EPERM :: int where "EPERM = 1"
definition EINTR :: int where "EINTR = 4"
definition EBADF :: int where "EBADF = 9"
definition EAGAIN :: int where "EAGAIN = 11"
definition ENOMEM :: int where "ENOMEM = 12"
definition EACCES :: int where "EACCES = 13"
definition EFAULT :: int where "EFAULT = 14"
definition EINVAL :: int where "EINVAL = 22"
definition ENFILE :: int where "ENFILE = 23"
definition EMFILE :: int where "EMFILE = 24"
definition EPROTO :: int where "EPROTO = 71"
definition ENOTSOCK :: int where "ENOTSOCK = 88"
definition EOPNOTSUPP :: int where "EOPNOTSUPP = 95"
definition EAFNOSUPPORT :: int where "EAFNOSUPPORT = 97"
definition EADDRINUSE :: int where "EADDRINUSE = 98"
definition EADDRNOTAVAIL :: int where "EADDRNOTAVAIL = 99"
definition ENETUNREACH :: int where "ENETUNREACH = 101"
definition ECONNABORTED :: int where "ECONNABORTED = 103"
definition ENOBUFS :: int where "ENOBUFS = 105"
definition EISCONN :: int where "EISCONN = 106"
definition ECONNREFUSED :: int where "ECONNREFUSED = 111"
definition EALREADY :: int where "EALREADY = 114"
definition EINPROGRESS :: int where "EINPROGRESS = 115"

lemmas errnos = EPERM_def EINTR_def EBADF_def EAGAIN_def ENOMEM_def EACCES_def EFAULT_def EINVAL_def
  ENFILE_def EMFILE_def EPROTO_def ENOTSOCK_def EOPNOTSUPP_def EAFNOSUPPORT_def EADDRINUSE_def
  EADDRNOTAVAIL_def ENETUNREACH_def ECONNABORTED_def ENOBUFS_def EISCONN_def ECONNREFUSED_def
  EALREADY_def EINPROGRESS_def

text \<open>The argument of each is what the system call returned.\<close>

definition createNonblockingOrDie :: "int \<Rightarrow> int result" where
  "createNonblockingOrDie sockfd = (if sockfd < 0 then Inl FatalLogged else Inr sockfd)"

definition bindOrDie :: "int \<Rightarrow> unit result" where
  "bindOrDie ret = (if ret < 0 then Inl FatalLogged else Inr ())"

definition listenOrDie :: "int \<Rightarrow> unit result" where
  "listenOrDie ret = (if ret < 0 then Inl FatalLogged else Inr ())"

text \<open>
  \<open>accept\<close>: errors that occur in normal operation are returned as -1, any other ends the
  program.
\<close>

datatype accept_result = AcceptErr int | AcceptOk int sockaddr_in

definition sockets_accept :: "accept_result \<Rightarrow> (int \<times> sockaddr_in option) result" where
  "sockets_accept r =
     (case r of
        AcceptOk connfd addr \<Rightarrow> Inr (connfd, Some addr)
      | AcceptErr savedErrno \<Rightarrow>
          if savedErrno \<in> {EAGAIN, ECONNABORTED, EINTR, EPROTO, EPERM, EMFILE}
          then Inr (-1, None) else Inl FatalLogged)"

definition getSockAddr :: "sockaddr_in option \<Rightarrow> sockaddr_in" where
  "getSockAddr r = (case r of None \<Rightarrow> sockaddr_zero | Some a \<Rightarrow> a)"

definition getLocalAddr :: "sockaddr_in option \<Rightarrow> sockaddr_in" where
  "getLocalAddr r = getSockAddr r"

definition getPeerAddr :: "sockaddr_in option \<Rightarrow> sockaddr_in" where
  "getPeerAddr r = getSockAddr r"

text \<open>\<open>getsockopt\<close> yields the pending error, or fails with an error of its own.\<close>

definition getSocketError :: "int + int \<Rightarrow> int" where
  "getSocketError r = (case r of Inl err \<Rightarrow> err | Inr optval \<Rightarrow> optval)"

definition isSelfConnect :: "sockaddr_in option \<Rightarrow> sockaddr_in option \<Rightarrow> bool" where
  "isSelfConnect lo pe \<longleftrightarrow>
     (let l = getLocalAddr lo; p = getPeerAddr pe
      in sin_port l = sin_port p \<and> sin_addr l = sin_addr p)"

section \<open>Socket\<close>

text \<open>A socket option call: level, option name, value.\<close>

type_synonym sockopt = "int \<times> int \<times> int"

definition SOL_SOCKET :: int where "SOL_SOCKET = 1"
definition IPPROTO_TCP :: int where "IPPROTO_TCP = 6"
definition SO_REUSEADDR :: int where "SO_REUSEADDR = 2"
definition SO_KEEPALIVE :: int where "SO_KEEPALIVE = 9"
definition TCP_NODELAY :: int where "TCP_NODELAY = 1"
definition TCP_DEFER_ACCEPT :: int where "TCP_DEFER_ACCEPT = 9"

record socket =
  sockfd :: int
  sockopts :: "sockopt list"
  sockClosed :: bool
  sockListening :: bool
  writeShut :: bool

definition Socket_new :: "int \<Rightarrow> socket" where
  "Socket_new fd = \<lparr>sockfd = fd, sockopts = [], sockClosed = False, sockListening = False, writeShut = False\<rparr>"

definition Socket_delete :: "socket \<Rightarrow> socket" where
  "Socket_delete s = s\<lparr>sockClosed := True\<rparr>"

definition bindAddress :: "int \<Rightarrow> socket \<Rightarrow> socket result" where
  "bindAddress ret s = bindR (bindOrDie ret) (\<lambda>_. Inr s)"

definition Socket_listen :: "int \<Rightarrow> socket \<Rightarrow> socket result" where
  "Socket_listen ret s = bindR (listenOrDie ret) (\<lambda>_. Inr (s\<lparr>sockListening := True\<rparr>))"

definition Socket_accept :: "accept_result \<Rightarrow> InetAddress \<Rightarrow> (int \<times> InetAddress) result" where
  "Socket_accept r peeraddr =
     bindR (sockets_accept r) (\<lambda>(connfd, addr).
       Inr (connfd, if 0 \<le> connfd then setSockAddrInet peeraddr (getSockAddr addr) else peeraddr))"

definition setsockopt :: "int \<Rightarrow> int \<Rightarrow> bool \<Rightarrow> socket \<Rightarrow> socket" where
  "setsockopt level name on s = s\<lparr>sockopts := sockopts s @ [(level, name, if on then 1 else 0)]\<rparr>"

definition setReuseAddr :: "bool \<Rightarrow> socket \<Rightarrow> socket" where
  "setReuseAddr on s = setsockopt SOL_SOCKET SO_REUSEADDR on s"

definition Socket_shutdownWrite :: "socket \<Rightarrow> socket" where
  "Socket_shutdownWrite s = s\<lparr>writeShut := True\<rparr>"

definition Socket_setTcpNoDelay :: "bool \<Rightarrow> socket \<Rightarrow> socket" where
  "Socket_setTcpNoDelay on s = setsockopt IPPROTO_TCP TCP_NODELAY on s"

definition setKeepAlive :: "bool \<Rightarrow> socket \<Rightarrow> socket" where
  "setKeepAlive on s = setsockopt IPPROTO_TCP SO_KEEPALIVE on s"

section \<open>Facts about addresses\<close>

lemma hostToNetwork16_involution: "networkToHost16 (hostToNetwork16 w) = w"
  by (rule bit_word_eqI)
    (auto simp: networkToHost16_def hostToNetwork16_def byte_of_def bit_simps not_less)

lemma dot_not_digit: "\<not> is_digit (CHR ''.'')"
  by (simp add: is_digit_def)

lemma pton4_number:
  assumes "v < 256" and "length done < 4"
  shows "pton4 (dec_nat v @ rest) done None = pton4 rest done (Some v)"
  using assms(1)
proof (induction v arbitrary: rest rule: dec_nat.induct)
  case (1 v)
  show ?case
  proof (cases "v < 10")
    case True
    then show ?thesis using assms(2) by (subst dec_nat.simps) simp
  next
    case False
    have "10 * (v div 10) + v mod 10 = v" "v div 10 \<noteq> 0" using False by simp_all
    moreover have "dec_nat v = dec_nat (v div 10) @ [digit_char (v mod 10)]"
      using False by (subst dec_nat.simps) simp
    ultimately show ?thesis
      using False "1.prems" "1.IH" [of "digit_char (v mod 10) # rest"] by simp
  qed
qed

lemma pton4_dotted:
  assumes "a < 256" "b < 256" "c < 256" "d < 256"
  shows "pton4 (dotted [a, b, c, d]) [] None = Some [a, b, c, d]"
proof -
  have last: "pton4 (dec_nat d) [a, b, c] None = Some [a, b, c, d]"
    using pton4_number [of d "[a, b, c]" "[]"] assms(4) by simp
  show ?thesis
    using assms by (simp add: dotted_def pton4_number dot_not_digit last)
qed

lemma small_word_bits:
  assumes "n < 256" and "bit (of_nat n :: 32 word) i"
  shows "i < 8"
proof -
  have "(of_nat n :: 32 word) = take_bit 8 (of_nat n)"
    using assms(1) by (simp add: take_bit_of_nat take_bit_nat_eq_self)
  with assms(2) show ?thesis by (metis bit_take_bit_iff)
qed

lemma byte_of_low:
  assumes "n < 256"
  shows "byte_of (push_bit 8 x OR of_nat n :: 32 word) 0 = of_nat n"
proof (rule bit_word_eqI)
  fix k :: nat assume "k < LENGTH(32)"
  then show "bit (byte_of (push_bit 8 x OR of_nat n :: 32 word) 0) k \<longleftrightarrow> bit (of_nat n :: 32 word) k"
    using small_word_bits [OF assms, of k] by (auto simp: byte_of_def bit_simps bit_of_nat_iff)
qed

lemma byte_of_high:
  assumes "n < 256" and "i < 3"
  shows "byte_of (push_bit 8 x OR of_nat n :: 32 word) (Suc i) = byte_of x i"
proof (rule bit_word_eqI)
  fix k :: nat assume "k < LENGTH(32)"
  have "\<not> bit (of_nat n :: 32 word) (8 + 8 * i + k)" using small_word_bits [OF assms(1)] by force
  moreover have "8 + 8 * i + k < 32" if "k < 8" using that assms(2) by simp
  ultimately show "bit (byte_of (push_bit 8 x OR of_nat n :: 32 word) (Suc i)) k \<longleftrightarrow> bit (byte_of x i) k"
    by (auto simp: byte_of_def bit_simps)
qed

lemma octets_of_octets:
  assumes "a < 256" "b < 256" "c < 256" "d < 256"
  shows "octets (addr_of_octets [a, b, c, d]) = [a, b, c, d]"
proof -
  have n: "(1::nat) = Suc 0" "(2::nat) = Suc (Suc 0)" "(3::nat) = Suc (Suc (Suc 0))" by simp_all
  have u: "unat (of_nat v :: 32 word) = v" if "v < 256" for v
    using that by (simp add: unsigned_of_nat take_bit_nat_eq_self)
  have e: "addr_of_octets [a, b, c, d] = push_bit 8 (push_bit 8 (push_bit 8 (push_bit 8 0 OR of_nat d) OR of_nat c) OR of_nat b) OR of_nat a"
    by (simp add: addr_of_octets_def)
  show ?thesis
    unfolding e octets_def list.map n
    by (simp only: byte_of_low [OF assms(1)] byte_of_high [OF assms(1)] byte_of_low [OF assms(2)] byte_of_high [OF assms(2)]
        byte_of_low [OF assms(3)] byte_of_high [OF assms(3)] byte_of_low [OF assms(4)] u [OF assms(1)] u [OF assms(2)]
        u [OF assms(3)] u [OF assms(4)])
qed

lemma dec_nat_octet: "v < 256 \<Longrightarrow> length (dec_nat v) \<le> 3"
  by (rule length_dec_nat_le) simp_all

section \<open>Properties\<close>

text \<open>
  An address made from a dotted IPv4 text and a port prints as that text and port: \<open>toHostPort\<close>
  inverts \<open>fromHostPort\<close>, through both byte-order conversions, and the 32-byte buffer never cuts the result.
\<close>

theorem InetAddress_round_trip:
  assumes "a < 256" "b < 256" "c < 256" "d < 256"
  shows "InetAddress_toHostPort (InetAddress_ip (dotted [a, b, c, d]) port)
           = dotted [a, b, c, d] @ '':'' @ dec_nat (unat port)"
proof -
  have pt: "inet_pton (dotted [a, b, c, d]) = Some (addr_of_octets [a, b, c, d])"
    by (simp add: inet_pton_def pton4_dotted [OF assms])
  have "unat port < 10 ^ 5" using unsigned_less [of port, where 'a = nat] by simp
  then have "length (dec_nat (unat port)) \<le> 5" by (rule length_dec_nat_le) simp
  then have "length (dotted [a, b, c, d] @ '':'' @ dec_nat (unat port)) \<le> 31"
    using assms [THEN dec_nat_octet] by (simp add: dotted_def)
  then show ?thesis
    by (simp add: InetAddress_toHostPort_def InetAddress_ip_def sockets_toHostPort_def sockets_fromHostPort_def pt
        inet_ntop_def octets_of_octets [OF assms] hostToNetwork16_involution snprintf_def)
qed

theorem InetAddress_round_trip_witness:
  "InetAddress_toHostPort (InetAddress_ip (dotted [127, 0, 0, 1]) 9981) = dotted [127, 0, 0, 1] @ '':'' @ dec_nat 9981"
  using InetAddress_round_trip [of 127 0 0 1 9981] by simp

text \<open>
  \<open>setKeepAlive\<close> does not touch \<open>SO_KEEPALIVE\<close>: it passes the option number at the level
  \<open>IPPROTO_TCP\<close>, where that number is \<open>TCP_DEFER_ACCEPT\<close>.
\<close>

theorem setKeepAlive_wrong_level:
  "sockopts (setKeepAlive on s) = sockopts s @ [(IPPROTO_TCP, TCP_DEFER_ACCEPT, if on then 1 else 0)]
   \<and> (\<forall>v. (SOL_SOCKET, SO_KEEPALIVE, v) \<in> set (sockopts (setKeepAlive on s)) \<longleftrightarrow> (SOL_SOCKET, SO_KEEPALIVE, v) \<in> set (sockopts s))"
  by (auto simp: setKeepAlive_def setsockopt_def SO_KEEPALIVE_def TCP_DEFER_ACCEPT_def IPPROTO_TCP_def SOL_SOCKET_def)

end
