(* ===== verification/TcpConnection.thy ===== *)
theory TcpConnection
  imports Buffer TimerQueue Sockets
begin

text \<open>
  \<^verbatim>\<open>muduo/TcpConnection.h\<close> and \<^verbatim>\<open>TcpConnection.cpp\<close>: an established TCP connection on an event loop.
  Connections are objects of a store that extends the loop's state. The callbacks a user sets
  are values of \<open>'u\<close>, executed by the argument \<open>user\<close>; the results of \<open>readv(2)\<close> and \<open>write(2)\<close> are
  arguments, and \<open>wire\<close> collects the bytes \<open>write\<close> has accepted.
\<close>

unbundle bit_operations_syntax

section \<open>The class\<close>

datatype StateE = kConnecting | kConnected | kDisconnecting | kDisconnected

text \<open>The bound member functions that channels and loops hold; \<open>'h\<close> and \<open>'g\<close> are those of other classes.\<close>

datatype 'h net_cb = ConnRead nat | ConnWrite nat | ConnClose nat | ConnError nat | OtherCb 'h

datatype ('u, 'g) net_fn =
    WriteComplete 'u nat
  | SendInLoop nat string
  | ShutdownInLoop nat
  | ConnectEstablished nat
  | ConnectDestroyed nat
  | OtherFn 'g

record 'u tcp_connection =
  connLoop :: nat
  connName :: string
  connState :: StateE
  connSocket :: socket
  connChannel :: nat
  localAddr :: InetAddress
  peerAddr :: InetAddress
  connectionCallback :: "'u option"
  messageCallback :: "'u option"
  connCloseCallback :: "'u option"
  writeCompleteCallback :: "'u option"
  highWaterLevelCallback :: "'u option"
  highWaterLevel :: nat
  inputBuffer :: buffer
  outputBuffer :: buffer
  wire :: string

record ('u, 'g, 'h) conn_world = "('h net_cb, ('u, 'g) net_fn) timer_queue" +
  conns :: "nat \<Rightarrow> 'u tcp_connection option"

type_synonym ('u, 'g, 'h, 'm) cw = "('u, 'g, 'h, 'm) conn_world_scheme"

type_synonym ('u, 'g, 'h, 'm) user_code =
  "'u \<Rightarrow> nat \<Rightarrow> timestamp \<Rightarrow> ('u, 'g, 'h, 'm) cw \<Rightarrow> ('u, 'g, 'h, 'm) cw result"

definition upd_conn :: "nat \<Rightarrow> ('u tcp_connection \<Rightarrow> 'u tcp_connection) \<Rightarrow> ('u, 'g, 'h, 'm) cw \<Rightarrow> ('u, 'g, 'h, 'm) cw" where
  "upd_conn c f s = s\<lparr>conns := (conns s)(c := map_option f (conns s c))\<rparr>"

text \<open>Calling a \<open>boost::function\<close>: an empty one throws \<open>bad_function_call\<close>.\<close>

definition call :: "('u, 'g, 'h, 'm) user_code \<Rightarrow> 'u option \<Rightarrow> nat \<Rightarrow> timestamp
    \<Rightarrow> ('u, 'g, 'h, 'm) cw \<Rightarrow> ('u, 'g, 'h, 'm) cw result" where
  "call user cb c t s = (case cb of None \<Rightarrow> Inl (LogicError ''bad_function_call'') | Some u \<Rightarrow> user u c t s)"

definition TcpConnection_new :: "nat \<Rightarrow> nat \<Rightarrow> string \<Rightarrow> int \<Rightarrow> InetAddress \<Rightarrow> InetAddress
    \<Rightarrow> ('u, 'g, 'h, 'm) cw \<Rightarrow> ('u, 'g, 'h, 'm) cw" where
  "TcpConnection_new c chan name fd la pa s =
     s\<lparr>chans := (chans s)(chan \<mapsto>
         setErrorCallback (ConnError c) (setCloseCallback (ConnClose c)
           (setWriteCallback (ConnWrite c) (setReadCallback (ConnRead c) (Channel_new (loopId s) fd))))),
       conns := (conns s)(c \<mapsto>
         \<lparr>connLoop = loopId s, connName = name, connState = kConnecting, connSocket = Socket_new fd,
          connChannel = chan, localAddr = la, peerAddr = pa, connectionCallback = None, messageCallback = None,
          connCloseCallback = None, writeCompleteCallback = None, highWaterLevelCallback = None,
          highWaterLevel = 0, inputBuffer = Buffer_new, outputBuffer = Buffer_new, wire = []\<rparr>)\<rparr>"

definition isConnected :: "'u tcp_connection \<Rightarrow> bool" where
  "isConnected c \<longleftrightarrow> connState c = kConnected"

definition setConnectionCallback :: "'u option \<Rightarrow> 'u tcp_connection \<Rightarrow> 'u tcp_connection" where
  "setConnectionCallback cb c = c\<lparr>connectionCallback := cb\<rparr>"

definition setMessageCallback :: "'u option \<Rightarrow> 'u tcp_connection \<Rightarrow> 'u tcp_connection" where
  "setMessageCallback cb c = c\<lparr>messageCallback := cb\<rparr>"

definition conn_setCloseCallback :: "'u option \<Rightarrow> 'u tcp_connection \<Rightarrow> 'u tcp_connection" where
  "conn_setCloseCallback cb c = c\<lparr>connCloseCallback := cb\<rparr>"

definition setWriteCompleteCallback :: "'u option \<Rightarrow> 'u tcp_connection \<Rightarrow> 'u tcp_connection" where
  "setWriteCompleteCallback cb c = c\<lparr>writeCompleteCallback := cb\<rparr>"

definition setHighWaterLevelCallback :: "'u option \<Rightarrow> nat \<Rightarrow> 'u tcp_connection \<Rightarrow> 'u tcp_connection" where
  "setHighWaterLevelCallback cb h c = c\<lparr>highWaterLevelCallback := cb, highWaterLevel := h\<rparr>"

definition setState :: "nat \<Rightarrow> StateE \<Rightarrow> ('u, 'g, 'h, 'm) cw \<Rightarrow> ('u, 'g, 'h, 'm) cw" where
  "setState c st s = upd_conn c (\<lambda>x. x\<lparr>connState := st\<rparr>) s"

definition connectEstablished :: "('u, 'g, 'h, 'm) user_code \<Rightarrow> nat \<Rightarrow> timestamp
    \<Rightarrow> ('u, 'g, 'h, 'm) cw \<Rightarrow> ('u, 'g, 'h, 'm) cw result" where
  "connectEstablished user c t s =
     assertInLoopThread s
       (bindR (derefR (conns s) c) (\<lambda>conn.
          assertR (connState conn = kConnecting)
            (bindR (enableReading (connChannel conn) (setState c kConnected s)) (\<lambda>s1.
               call user (connectionCallback conn) c t s1))))"

definition shutdownInLoop :: "nat \<Rightarrow> ('u, 'g, 'h, 'm) cw \<Rightarrow> ('u, 'g, 'h, 'm) cw result" where
  "shutdownInLoop c s =
     assertInLoopThread s
       (bindR (derefR (conns s) c) (\<lambda>conn.
          bindR (derefR (chans s) (connChannel conn)) (\<lambda>ch.
            Inr (if \<not> isWriting ch
                 then upd_conn c (\<lambda>x. x\<lparr>connSocket := Socket_shutdownWrite (connSocket x)\<rparr>) s
                 else s))))"

text \<open>
  What \<open>write(2)\<close> returns: an error number or the number of bytes taken, at most as many as
  offered.
\<close>

datatype write_result = WriteErr int | WriteOk nat

definition accepted :: "write_result \<Rightarrow> string \<Rightarrow> string" where
  "accepted r bytes = (case r of WriteErr _ \<Rightarrow> [] | WriteOk n \<Rightarrow> take n bytes)"

definition queueWriteComplete :: "nat \<Rightarrow> ('u, 'g, 'h, 'm) cw \<Rightarrow> ('u, 'g, 'h, 'm) cw" where
  "queueWriteComplete c s =
     (case conns s c of None \<Rightarrow> s
      | Some conn \<Rightarrow> (case writeCompleteCallback conn of
            None \<Rightarrow> s | Some u \<Rightarrow> queueInLoop (UserFn (WriteComplete u c)) s))"

definition TcpConnection_handleWrite :: "write_result \<Rightarrow> nat \<Rightarrow> ('u, 'g, 'h, 'm) cw \<Rightarrow> ('u, 'g, 'h, 'm) cw result" where
  "TcpConnection_handleWrite r c s =
     assertInLoopThread s
       (bindR (derefR (conns s) c) (\<lambda>conn.
          bindR (derefR (chans s) (connChannel conn)) (\<lambda>ch.
            if isWriting ch then
              bindR (read_range (bufferData (outputBuffer conn)) (peek (outputBuffer conn)) (readableBytes (outputBuffer conn)))
                (\<lambda>bytes.
                  case r of
                    WriteErr _ \<Rightarrow> Inr s
                  | WriteOk n \<Rightarrow>
                      if 0 < n then
                        bindR (retrieve (outputBuffer conn) n) (\<lambda>ob.
                          let s1 = upd_conn c (\<lambda>x. x\<lparr>outputBuffer := ob, wire := wire x @ accepted r bytes\<rparr>) s in
                          if readableBytes ob = 0 then
                            bindR (disableWriting (connChannel conn) s1) (\<lambda>s2.
                              let s3 = queueWriteComplete c s2 in
                              if connState conn = kDisconnecting then shutdownInLoop c s3 else Inr s3)
                          else Inr s1)
                      else Inr s)
            else Inr s)))"

definition TcpConnection_handleClose :: "('u, 'g, 'h, 'm) user_code \<Rightarrow> nat \<Rightarrow> timestamp
    \<Rightarrow> ('u, 'g, 'h, 'm) cw \<Rightarrow> ('u, 'g, 'h, 'm) cw result" where
  "TcpConnection_handleClose user c t s =
     assertInLoopThread s
       (bindR (derefR (conns s) c) (\<lambda>conn.
          assertR (connState conn = kConnected \<or> connState conn = kDisconnecting)
            (bindR (disableAll (connChannel conn) s) (\<lambda>s1.
               call user (connCloseCallback conn) c t s1))))"

text \<open>\<open>handleError\<close> only reads and logs the pending error of the socket.\<close>

definition TcpConnection_handleError :: "nat \<Rightarrow> ('u, 'g, 'h, 'm) cw \<Rightarrow> ('u, 'g, 'h, 'm) cw result" where
  "TcpConnection_handleError c s = bindR (derefR (conns s) c) (\<lambda>_. Inr s)"

definition TcpConnection_handleRead :: "('u, 'g, 'h, 'm) user_code \<Rightarrow> readv_result \<Rightarrow> nat \<Rightarrow> timestamp
    \<Rightarrow> ('u, 'g, 'h, 'm) cw \<Rightarrow> ('u, 'g, 'h, 'm) cw result" where
  "TcpConnection_handleRead user r c receiveTime s =
     bindR (derefR (conns s) c) (\<lambda>conn.
       bindR (Buffer_readFd (inputBuffer conn) r) (\<lambda>(n, saveErrno, ib).
         let s1 = upd_conn c (\<lambda>x. x\<lparr>inputBuffer := ib\<rparr>) s in
         if 0 < n then call user (messageCallback conn) c receiveTime s1
         else if n = 0 then TcpConnection_handleClose user c receiveTime s1
         else TcpConnection_handleError c s1))"

definition connectDestroyed :: "('u, 'g, 'h, 'm) user_code \<Rightarrow> nat \<Rightarrow> timestamp
    \<Rightarrow> ('u, 'g, 'h, 'm) cw \<Rightarrow> ('u, 'g, 'h, 'm) cw result" where
  "connectDestroyed user c t s =
     assertInLoopThread s
       (bindR (derefR (conns s) c) (\<lambda>conn.
          assertR (connState conn = kConnected \<or> connState conn = kDisconnecting)
            (bindR (disableAll (connChannel conn) (setState c kDisconnected s)) (\<lambda>s1.
               bindR (call user (connectionCallback conn) c t s1) (\<lambda>s2.
                 EventLoop_removeChannel (connChannel conn) s2)))))"

definition sendInLoop :: "write_result \<Rightarrow> nat \<Rightarrow> string \<Rightarrow> ('u, 'g, 'h, 'm) cw \<Rightarrow> ('u, 'g, 'h, 'm) cw result" where
  "sendInLoop r c message s =
     assertInLoopThread s
       (bindR (derefR (conns s) c) (\<lambda>conn.
          bindR (derefR (chans s) (connChannel conn)) (\<lambda>ch.
            let direct = (\<not> isWriting ch \<and> readableBytes (outputBuffer conn) = 0);
                taken = (if direct then accepted r message else []);
                nwrote = length taken;
                s1 = upd_conn c (\<lambda>x. x\<lparr>wire := wire x @ taken\<rparr>) s;
                s2 = (if direct \<and> (\<exists>n. r = WriteOk n) \<and> \<not> nwrote < length message
                      then queueWriteComplete c s1 else s1)
            in if nwrote < length message then
                 bindR (Buffer_append (outputBuffer conn) (drop nwrote message)) (\<lambda>ob.
                   let s3 = upd_conn c (\<lambda>x. x\<lparr>outputBuffer := ob\<rparr>) s2 in
                   if \<not> isWriting ch then enableWriting (connChannel conn) s3 else Inr s3)
               else Inr s2)))"

definition send :: "write_result \<Rightarrow> nat \<Rightarrow> string \<Rightarrow> ('u, 'g, 'h, 'm) cw \<Rightarrow> ('u, 'g, 'h, 'm) cw result" where
  "send r c message s =
     bindR (derefR (conns s) c) (\<lambda>conn.
       if connState conn = kConnected then
         if isInLoopThread s then sendInLoop r c message s
         else runInLoop (\<lambda>_ s. sendInLoop r c message s) (UserFn (SendInLoop c message)) s
       else Inr s)"

definition shutdown :: "nat \<Rightarrow> ('u, 'g, 'h, 'm) cw \<Rightarrow> ('u, 'g, 'h, 'm) cw result" where
  "shutdown c s =
     bindR (derefR (conns s) c) (\<lambda>conn.
       if connState conn = kConnected
       then runInLoop (\<lambda>_. shutdownInLoop c) (UserFn (ShutdownInLoop c)) (setState c kDisconnecting s)
       else Inr s)"

definition setTcpNoDelay :: "bool \<Rightarrow> nat \<Rightarrow> ('u, 'g, 'h, 'm) cw \<Rightarrow> ('u, 'g, 'h, 'm) cw result" where
  "setTcpNoDelay on c s =
     bindR (derefR (conns s) c)
       (\<lambda>_. Inr (upd_conn c (\<lambda>x. x\<lparr>connSocket := Socket_setTcpNoDelay on (connSocket x)\<rparr>) s))"

definition setTcpKeepAlive :: "bool \<Rightarrow> nat \<Rightarrow> ('u, 'g, 'h, 'm) cw \<Rightarrow> ('u, 'g, 'h, 'm) cw result" where
  "setTcpKeepAlive on c s =
     bindR (derefR (conns s) c)
       (\<lambda>_. Inr (upd_conn c (\<lambda>x. x\<lparr>connSocket := setKeepAlive on (connSocket x)\<rparr>) s))"

text \<open>The dispatch of the bound functions above; the functions of other classes are an argument.\<close>

fun run_net_fn :: "('u, 'g, 'h, 'm) user_code \<Rightarrow> ('g \<Rightarrow> ('u, 'g, 'h, 'm) cw \<Rightarrow> ('u, 'g, 'h, 'm) cw result)
    \<Rightarrow> write_result \<Rightarrow> timestamp \<Rightarrow> ('u, 'g) net_fn \<Rightarrow> ('u, 'g, 'h, 'm) cw \<Rightarrow> ('u, 'g, 'h, 'm) cw result" where
  "run_net_fn user other r t (WriteComplete u c) = user u c t"
| "run_net_fn user other r t (SendInLoop c m) = sendInLoop r c m"
| "run_net_fn user other r t (ShutdownInLoop c) = shutdownInLoop c"
| "run_net_fn user other r t (ConnectEstablished c) = connectEstablished user c t"
| "run_net_fn user other r t (ConnectDestroyed c) = connectDestroyed user c t"
| "run_net_fn user other r t (OtherFn g) = other g"

fun run_net_cb :: "('u, 'g, 'h, 'm) user_code \<Rightarrow> ('h \<Rightarrow> timestamp \<Rightarrow> ('u, 'g, 'h, 'm) cw \<Rightarrow> ('u, 'g, 'h, 'm) cw result)
    \<Rightarrow> readv_result \<Rightarrow> write_result \<Rightarrow> 'h net_cb \<Rightarrow> timestamp \<Rightarrow> ('u, 'g, 'h, 'm) cw \<Rightarrow> ('u, 'g, 'h, 'm) cw result" where
  "run_net_cb user other rr wr (ConnRead c) t = TcpConnection_handleRead user rr c t"
| "run_net_cb user other rr wr (ConnWrite c) t = TcpConnection_handleWrite wr c"
| "run_net_cb user other rr wr (ConnClose c) t = TcpConnection_handleClose user c t"
| "run_net_cb user other rr wr (ConnError c) t = TcpConnection_handleError c"
| "run_net_cb user other rr wr (OtherCb h) t = other h t"

section \<open>What changes nothing in the poller\<close>

text \<open>Two states with the same poller and the same connections.\<close>

definition same_poller :: "('u, 'g, 'h, 'm) cw \<Rightarrow> ('u, 'g, 'h, 'm) cw \<Rightarrow> bool" where
  "same_poller s s' \<longleftrightarrow> pollFdList s' = pollFdList s \<and> channelMap s' = channelMap s \<and> chans s' = chans s
     \<and> loopId s' = loopId s \<and> isInLoopThread s' = isInLoopThread s"

lemma same_poller_slot: "same_poller s s' \<Longrightarrow> slot_of s' = slot_of s"
  by (simp add: same_poller_def slot_of_def fun_eq_iff)

lemma same_poller_keeps:
  assumes "same_poller s s'"
  shows "poller_inv s' = poller_inv s" "chan_watched s' = chan_watched s" "chan_idle s' = chan_idle s"
    "poll_interest s' = poll_interest s" "chan_fd s' = chan_fd s" "chans s' = chans s"
    "isInLoopThread s' = isInLoopThread s" "chan_fresh s' = chan_fresh s"
  using assms same_poller_slot [OF assms]
  by (simp_all add: same_poller_def poller_inv_def chan_watched_def chan_idle_def chan_in_def poll_interest_def
      chan_fd_def chan_fresh_def fun_eq_iff)

lemma same_poller_upd_conn: "same_poller s (upd_conn c f s)"
  by (simp add: same_poller_def upd_conn_def isInLoopThread_def)

lemma same_poller_queueInLoop: "same_poller s (queueInLoop f s)"
  by (simp add: same_poller_def queueInLoop_def pushFunctor_def wakeUp_def Let_def isInLoopThread_def)

lemma conns_queueInLoop [simp]: "conns (queueInLoop f s) = conns s"
  by (simp add: queueInLoop_def pushFunctor_def wakeUp_def Let_def)

lemma same_poller_queueWriteComplete: "same_poller s (queueWriteComplete c s)"
  using same_poller_queueInLoop by (auto simp: queueWriteComplete_def same_poller_def split: option.splits)

lemma conns_queueWriteComplete [simp]: "conns (queueWriteComplete c s) = conns s"
  by (auto simp: queueWriteComplete_def split: option.splits)

lemma same_poller_trans: "same_poller s s' \<Longrightarrow> same_poller s' s'' \<Longrightarrow> same_poller s s''"
  by (simp add: same_poller_def)

lemma conns_upd_conn [simp]: "conns (upd_conn c f s) = (conns s)(c := map_option f (conns s c))"
  by (simp add: upd_conn_def)

lemma watched_setEvents:
  fixes s :: "('u, 'g, 'h, 'm) cw"
  assumes inv: "poller_inv s" and w: "chan_watched s k" and ch: "chans s k = Some ch" and e: "poll_mask e"
  shows "\<exists>s'. setEvents k e s = Inr s' \<and> poller_inv s' \<and> chan_watched s' k \<and> conns s' = conns s
           \<and> chans s' = (chans s)(k \<mapsto> ch\<lparr>ch_events := e\<rparr>) \<and> isInLoopThread s'"
proof -
  from w obtain i where i: "chan_in s k ch i" using ch by (auto simp: chan_watched_def chan_in_def)
  obtain s' where s': "setEvents k e s = Inr s'" "poller_inv s'" "chan_watched s' k"
    using poll_mux.upd_watch [OF inv disjI2 [OF w] e] by blast
  then have "s' = modified k e ch i s" using setEvents_registered [OF inv i, of e] by simp
  with s' show ?thesis by (auto simp: modified_def poller_inv_def)
qed

section \<open>The invariant of an open connection\<close>

text \<open>
  The channel is watched for reading, and for writing exactly while the output buffer holds
  bytes.
\<close>

definition conn_ok :: "('u, 'g, 'h, 'm) cw \<Rightarrow> nat \<Rightarrow> bool" where
  "conn_ok s c \<longleftrightarrow> poller_inv s \<and> (\<exists>conn ch. conns s c = Some conn \<and> chans s (connChannel conn) = Some ch
     \<and> chan_watched s (connChannel conn) \<and> buffer_inv (outputBuffer conn)
     \<and> ch_events ch = (if content (outputBuffer conn) = [] then kReadEvent else kReadEvent OR kWriteEvent))"

definition pending_out :: "('u, 'g, 'h, 'm) cw \<Rightarrow> nat \<Rightarrow> string" where
  "pending_out s c = (case conns s c of None \<Rightarrow> [] | Some conn \<Rightarrow> content (outputBuffer conn))"

definition stream :: "('u, 'g, 'h, 'm) cw \<Rightarrow> nat \<Rightarrow> string" where
  "stream s c = (case conns s c of None \<Rightarrow> [] | Some conn \<Rightarrow> wire conn @ content (outputBuffer conn))"

definition used :: "('u, 'g, 'h, 'm) cw \<Rightarrow> nat \<Rightarrow> nat" where
  "used s c = (case conns s c of None \<Rightarrow> 0 | Some conn \<Rightarrow> writerIndex (outputBuffer conn))"

lemma read_write_masks:
  "poll_mask kReadEvent" "poll_mask (kReadEvent OR kWriteEvent)" "kReadEvent AND kWriteEvent = 0"
  "(kReadEvent OR kWriteEvent) AND kWriteEvent \<noteq> 0" "(kReadEvent OR kWriteEvent) AND NOT kWriteEvent = kReadEvent"
  by (simp_all add: poll_mask_def poll_bits)

lemma conn_ok_isWriting:
  "ch_events ch = (if q = [] then kReadEvent else kReadEvent OR kWriteEvent) \<Longrightarrow> isWriting ch \<longleftrightarrow> q \<noteq> []"
  by (simp add: isWriting_def poll_bits split: if_splits)

lemma conn_ok_same:
  assumes "conn_ok s c" and "same_poller s s'" and "conns s' c = Some conn'" and "conns s c = Some conn"
    and "connChannel conn' = connChannel conn" and "buffer_inv (outputBuffer conn')"
    and "content (outputBuffer conn') = [] \<longleftrightarrow> content (outputBuffer conn) = []"
  shows "conn_ok s' c"
  using assms same_poller_keeps [OF assms(2)] by (auto simp: conn_ok_def)

text \<open>Changing the mask together with the buffer, in the two directions.\<close>

lemma conn_ok_setEvents:
  fixes s :: "('u, 'g, 'h, 'm) cw"
  assumes ok: "conn_ok s c" and same: "same_poller s s1" and c: "conns s1 c = Some conn'" "conns s c = Some conn"
    "connChannel conn' = connChannel conn" "buffer_inv (outputBuffer conn')"
    and e: "e = (if content (outputBuffer conn') = [] then kReadEvent else kReadEvent OR kWriteEvent)"
  shows "\<exists>s'. setEvents (connChannel conn) e s1 = Inr s' \<and> conn_ok s' c \<and> conns s' = conns s1 \<and> isInLoopThread s'"
proof -
  note k = same_poller_keeps [OF same]
  from ok c(2) obtain ch where ch: "poller_inv s" "chans s (connChannel conn) = Some ch" "chan_watched s (connChannel conn)"
    by (auto simp: conn_ok_def)
  have "poll_mask e" using e read_write_masks(1,2) by simp
  from watched_setEvents [of s1 "connChannel conn" ch e] this ch k obtain s' where
    s': "setEvents (connChannel conn) e s1 = Inr s'" "poller_inv s'" "chan_watched s' (connChannel conn)" "conns s' = conns s1"
      "chans s' = (chans s1)(connChannel conn \<mapsto> ch\<lparr>ch_events := e\<rparr>)" "isInLoopThread s'" by auto
  then have "conn_ok s' c" using c e by (auto simp: conn_ok_def)
  with s' show ?thesis by blast
qed

lemma sendInLoop_ok:
  assumes ok: "conn_ok s c" and room: "used s c + length m \<le> max_size"
  shows "\<exists>s'. sendInLoop r c m s = Inr s' \<and> conn_ok s' c \<and> stream s' c = stream s c @ m
           \<and> used s' c \<le> used s c + length m \<and> (\<exists>conn conn'. conns s c = Some conn \<and> conns s' c = Some conn'
             \<and> connState conn' = connState conn \<and> wire conn' = wire conn @ (if pending_out s c = [] then accepted r m else []))"
proof -
  from ok obtain conn ch where c: "poller_inv s" "conns s c = Some conn" "chans s (connChannel conn) = Some ch"
    "buffer_inv (outputBuffer conn)"
    "ch_events ch = (if content (outputBuffer conn) = [] then kReadEvent else kReadEvent OR kWriteEvent)"
    by (auto simp: conn_ok_def)
  have thr: "isInLoopThread s" using c(1) by (simp add: poller_inv_def)
  let ?q = "content (outputBuffer conn)"
  have wr: "isWriting ch \<longleftrightarrow> ?q \<noteq> []" by (rule conn_ok_isWriting [OF c(5)])
  have rb: "readableBytes (outputBuffer conn) = length ?q" using length_content [OF c(4)] by simp
  define direct where "direct = (\<not> isWriting ch \<and> readableBytes (outputBuffer conn) = 0)"
  define taken where "taken = (if direct then accepted r m else [])"
  have dq: "direct \<longleftrightarrow> ?q = []" by (simp add: direct_def wr rb)
  have tq: "taken = (if pending_out s c = [] then accepted r m else [])"
    by (simp add: taken_def dq pending_out_def c(2))
  have tk: "m = taken @ drop (length taken) m" by (cases r) (auto simp: taken_def accepted_def min_def)
  define s2 where "s2 = (let s1 = upd_conn c (\<lambda>x. x\<lparr>wire := wire x @ taken\<rparr>) s in
     if direct \<and> (\<exists>n. r = WriteOk n) \<and> \<not> length taken < length m then queueWriteComplete c s1 else s1)"
  have s2: "same_poller s s2" "conns s2 = (conns s)(c \<mapsto> conn\<lparr>wire := wire conn @ taken\<rparr>)"
    using c(2) same_poller_upd_conn same_poller_trans [OF same_poller_upd_conn same_poller_queueWriteComplete]
    by (auto simp: s2_def Let_def)
  show ?thesis
  proof (cases "length taken < length m")
    case False
    then have "m = taken" using tk by (metis append_Nil2 drop_all not_less)
    moreover have "sendInLoop r c m s = Inr s2"
      using False c(2,3) thr by (auto simp: sendInLoop_def assertInLoopThread_def Let_def direct_def taken_def s2_def)
    moreover have "conn_ok s2 c"
      by (rule conn_ok_same [OF ok s2(1) _ c(2), where conn' = "conn\<lparr>wire := wire conn @ taken\<rparr>"]) (simp_all add: s2(2) c(4))
    moreover have "?q = []" if "m \<noteq> []" using \<open>m = taken\<close> that dq by (auto simp: taken_def split: if_splits)
    ultimately show ?thesis using c(2) by (cases "m = []") (auto simp: stream_def used_def s2(2) tq [symmetric])
  next
    case True
    let ?rest = "drop (length taken) m"
    have "writerIndex (outputBuffer conn) + length ?rest \<le> max_size" using room c(2) by (simp add: used_def)
    from bq.app_law [OF c(4) this] obtain ob where ob: "Buffer_append (outputBuffer conn) ?rest = Inr ob" "buffer_inv ob"
      "content ob = ?q @ ?rest" "writerIndex ob \<le> writerIndex (outputBuffer conn) + length ?rest" by blast
    let ?conn = "conn\<lparr>wire := wire conn @ taken, outputBuffer := ob\<rparr>"
    let ?s3 = "upd_conn c (\<lambda>x. x\<lparr>outputBuffer := ob\<rparr>) s2"
    have s3: "same_poller s ?s3" "conns ?s3 c = Some ?conn"
      using same_poller_trans [OF s2(1) same_poller_upd_conn] by (simp_all add: s2(2))
    have ne: "content ob \<noteq> []" using ob(3) True by simp
    have st: "wire conn @ taken @ content ob = (wire conn @ ?q) @ m"
      using tk dq by (cases "?q = []") (simp_all add: ob(3) taken_def)
    have run: "sendInLoop r c m s = (if \<not> isWriting ch then enableWriting (connChannel conn) ?s3 else Inr ?s3)"
      using True c(2,3) thr ob(1)
      by (cases "\<not> isWriting ch \<and> readableBytes (outputBuffer conn) = 0")
        (auto simp: sendInLoop_def assertInLoopThread_def Let_def direct_def taken_def s2_def)
    show ?thesis
    proof (cases "isWriting ch")
      case True
      then have "conn_ok ?s3 c" using wr ne ob(2) by (intro conn_ok_same [OF ok s3(1,2) c(2)]) auto
      with run True st s3(2) c(2) ob(4) show ?thesis by (auto simp: stream_def used_def tq [symmetric])
    next
      case False
      have "enableWriting (connChannel conn) ?s3 = setEvents (connChannel conn) (kReadEvent OR kWriteEvent) ?s3"
        using same_poller_keeps(6) [OF s3(1)] c(3,5) wr False by (simp add: enableWriting_def)
      moreover obtain s' where "setEvents (connChannel conn) (kReadEvent OR kWriteEvent) ?s3 = Inr s'" "conn_ok s' c" "conns s' = conns ?s3"
        using conn_ok_setEvents [OF ok s3(1,2) c(2), of "kReadEvent OR kWriteEvent"] ne ob(2) by auto
      ultimately show ?thesis using run False st s3(2) c(2) ob(4) by (auto simp: stream_def used_def tq [symmetric])
    qed
  qed
qed

text \<open>A message the kernel refuses altogether waits in the buffer.\<close>

lemma sendInLoop_refused:
  assumes ok: "conn_ok s c" and room: "used s c + length m \<le> max_size"
  shows "\<exists>s'. sendInLoop (WriteErr e) c m s = Inr s' \<and> conn_ok s' c \<and> pending_out s' c = pending_out s c @ m
           \<and> map_option connState (conns s' c) = map_option connState (conns s c)"
  using sendInLoop_ok [OF assms, of "WriteErr e"]
  by (auto simp: accepted_def stream_def pending_out_def split: if_splits)

text \<open>The kernel takes at most what is offered.\<close>

definition offered :: "write_result \<Rightarrow> nat \<Rightarrow> write_result" where
  "offered r k = (case r of WriteErr e \<Rightarrow> WriteErr e | WriteOk n \<Rightarrow> WriteOk (min n k))"

definition progress :: "write_result \<Rightarrow> nat" where
  "progress r = (case r of WriteErr _ \<Rightarrow> 0 | WriteOk n \<Rightarrow> n)"

definition shutdown_done :: "('u, 'g, 'h, 'm) cw \<Rightarrow> nat \<Rightarrow> bool" where
  "shutdown_done s c \<longleftrightarrow> (\<exists>conn. conns s c = Some conn \<and> writeShut (connSocket conn))"

lemma shutdownInLoop_ok:
  assumes ok: "conn_ok s c"
  shows "\<exists>s'. shutdownInLoop c s = Inr s' \<and> conn_ok s' c \<and> stream s' c = stream s c \<and> used s' c = used s c
     \<and> pending_out s' c = pending_out s c \<and> (if pending_out s c = [] then shutdown_done s' c else s' = s)"
proof -
  from ok obtain conn ch where c: "poller_inv s" "conns s c = Some conn" "chans s (connChannel conn) = Some ch"
    "buffer_inv (outputBuffer conn)"
    "ch_events ch = (if content (outputBuffer conn) = [] then kReadEvent else kReadEvent OR kWriteEvent)"
    by (auto simp: conn_ok_def)
  let ?s = "upd_conn c (\<lambda>x. x\<lparr>connSocket := Socket_shutdownWrite (connSocket x)\<rparr>) s"
  have thr: "isInLoopThread s" using c(1) by (simp add: poller_inv_def)
  have "shutdownInLoop c s = Inr (if content (outputBuffer conn) = [] then ?s else s)"
    using c(2,3) thr conn_ok_isWriting [OF c(5)] by (simp add: shutdownInLoop_def assertInLoopThread_def)
  moreover have "conn_ok ?s c"
    by (rule conn_ok_same [OF ok same_poller_upd_conn _ c(2),
          where conn' = "conn\<lparr>connSocket := Socket_shutdownWrite (connSocket conn)\<rparr>"]) (simp_all add: c(2,4))
  ultimately show ?thesis
    using ok c(2) by (auto simp: stream_def used_def pending_out_def shutdown_done_def Socket_shutdownWrite_def)
qed

lemma handleWrite_ok:
  assumes ok: "conn_ok s c" and n: "progress r \<le> length (pending_out s c)"
  shows "\<exists>s'. TcpConnection_handleWrite r c s = Inr s' \<and> conn_ok s' c \<and> stream s' c = stream s c \<and> used s' c \<le> used s c
     \<and> pending_out s' c = drop (progress r) (pending_out s c)
     \<and> (0 < progress r \<longrightarrow> progress r = length (pending_out s c) \<longrightarrow>
        map_option connState (conns s c) = Some kDisconnecting \<longrightarrow> shutdown_done s' c)"
proof -
  from ok obtain conn ch where c: "poller_inv s" "conns s c = Some conn" "chans s (connChannel conn) = Some ch"
    "buffer_inv (outputBuffer conn)"
    "ch_events ch = (if content (outputBuffer conn) = [] then kReadEvent else kReadEvent OR kWriteEvent)"
    by (auto simp: conn_ok_def)
  have thr: "isInLoopThread s" using c(1) by (simp add: poller_inv_def)
  let ?q = "content (outputBuffer conn)" and ?k = "connChannel conn"
  have wr: "isWriting ch \<longleftrightarrow> ?q \<noteq> []" by (rule conn_ok_isWriting [OF c(5)])
  have po: "pending_out s c = ?q" by (simp add: pending_out_def c(2))
  have rd: "read_range (bufferData (outputBuffer conn)) (peek (outputBuffer conn)) (readableBytes (outputBuffer conn)) = Inr ?q"
    using buffer_inv_bounds [OF c(4)] c(4) by (simp add: content_def peek_def)
  show ?thesis
  proof (cases "0 < progress r \<and> ?q \<noteq> []")
    case False
    then have p0: "progress r = 0" using n po by auto
    have "TcpConnection_handleWrite r c s = Inr s"
      using False c(2,3) thr rd wr
      by (auto simp: TcpConnection_handleWrite_def assertInLoopThread_def progress_def split: write_result.splits)
    with ok p0 show ?thesis by auto
  next
    case True
    then obtain k where r: "r = WriteOk k" "0 < k" by (cases r) (auto simp: progress_def)
    then have k: "k \<le> length ?q" "progress r = k" using n po by (simp_all add: progress_def)
    from bq.ret_law [OF c(4) k(1)] obtain ob where ob: "retrieve (outputBuffer conn) k = Inr ob" "buffer_inv ob"
      "content ob = drop k ?q" "writerIndex ob \<le> writerIndex (outputBuffer conn)" by blast
    let ?conn = "conn\<lparr>outputBuffer := ob, wire := wire conn @ take k ?q\<rparr>"
    let ?s1 = "upd_conn c (\<lambda>x. x\<lparr>outputBuffer := ob, wire := wire x @ take k ?q\<rparr>) s"
    have s1: "same_poller s ?s1" "conns ?s1 c = Some ?conn" using same_poller_upd_conn c(2) by auto
    have rb: "readableBytes ob = 0 \<longleftrightarrow> content ob = []" using length_content [OF ob(2)] by auto
    have run: "TcpConnection_handleWrite r c s =
      (if content ob = [] then bindR (disableWriting ?k ?s1) (\<lambda>s2. let s3 = queueWriteComplete c s2 in
           if connState conn = kDisconnecting then shutdownInLoop c s3 else Inr s3) else Inr ?s1)"
      using c(2,3) thr wr True rd r ob(1) rb
      by (simp add: TcpConnection_handleWrite_def assertInLoopThread_def accepted_def)
    have drp: "content ob = [] \<longleftrightarrow> k = length ?q" using ob(3) k(1) by auto
    show ?thesis
    proof (cases "content ob = []")
      case False
      have "conn_ok ?s1 c" using False True ob(2) by (intro conn_ok_same [OF ok s1 c(2)]) auto
      with run False drp k(2) po s1(2) c(2) ob show ?thesis by (auto simp: stream_def used_def pending_out_def)
    next
      case fin: True
      have "disableWriting ?k ?s1 = setEvents ?k kReadEvent ?s1"
        using same_poller_keeps(6) [OF s1(1)] c(3,5) True by (simp add: disableWriting_def read_write_masks)
      moreover obtain s2 where s2: "setEvents ?k kReadEvent ?s1 = Inr s2" "conn_ok s2 c" "conns s2 = conns ?s1"
        using conn_ok_setEvents [OF ok s1 c(2), of kReadEvent] fin ob(2) by auto
      ultimately have run2: "TcpConnection_handleWrite r c s = (if connState conn = kDisconnecting
           then shutdownInLoop c (queueWriteComplete c s2) else Inr (queueWriteComplete c s2))"
        using run fin by simp
      let ?s3 = "queueWriteComplete c s2"
      have ok3: "conn_ok ?s3 c"
        using s2 s1(2) ob(2) by (intro conn_ok_same [OF s2(2) same_poller_queueWriteComplete]) auto
      have f3: "stream ?s3 c = stream s c" "used ?s3 c \<le> used s c" "pending_out ?s3 c = []"
        using s2(3) c(2) ob(3,4) fin drp by (auto simp: stream_def used_def pending_out_def)
      obtain s4 where "shutdownInLoop c ?s3 = Inr s4" "conn_ok s4 c" "stream s4 c = stream ?s3 c" "used s4 c = used ?s3 c"
        "pending_out s4 c = []" "shutdown_done s4 c"
        using shutdownInLoop_ok [OF ok3] f3(3) by auto
      with run2 ok3 f3 c(2) po k(2) fin drp show ?thesis by (cases "connState conn = kDisconnecting") auto
    qed
  qed
qed

section \<open>Runs of an open connection\<close>

text \<open>
  What happens to an open connection in its loop thread: a message is sent, the socket becomes
  writable. The argument is what the kernel's \<open>write\<close> answers.
\<close>

datatype io_op = IoSend string write_result | IoWritable write_result

fun io_step :: "nat \<Rightarrow> io_op \<Rightarrow> ('u, 'g, 'h, 'm) cw \<Rightarrow> ('u, 'g, 'h, 'm) cw result" where
  "io_step c (IoSend m r) s = sendInLoop r c m s"
| "io_step c (IoWritable r) s = TcpConnection_handleWrite (offered r (length (pending_out s c))) c s"

fun sent :: "io_op list \<Rightarrow> string" where
  "sent [] = []"
| "sent (IoSend m r # ops) = m @ sent ops"
| "sent (IoWritable r # ops) = sent ops"

lemma progress_offered: "progress (offered r k) \<le> k"
  by (cases r) (simp_all add: progress_def offered_def)

lemma io_run_ok:
  "conn_ok s c \<Longrightarrow> used s c + length (sent ops) \<le> max_size \<Longrightarrow>
   \<exists>s'. foldR (io_step c) ops s = Inr s' \<and> conn_ok s' c \<and> stream s' c = stream s c @ sent ops"
proof (induction ops arbitrary: s)
  case (Cons x ops)
  show ?case
  proof (cases x)
    case (IoSend m r)
    with sendInLoop_ok [of s c m r] Cons.prems obtain s1 where "sendInLoop r c m s = Inr s1" "conn_ok s1 c"
      "stream s1 c = stream s c @ m" "used s1 c \<le> used s c + length m" by auto
    with Cons.IH [of s1] Cons.prems IoSend show ?thesis by auto
  next
    case (IoWritable r)
    with handleWrite_ok [OF Cons.prems(1) progress_offered] obtain s1
      where "io_step c x s = Inr s1" "conn_ok s1 c" "stream s1 c = stream s c" "used s1 c \<le> used s c" by fastforce
    with Cons.IH [of s1] Cons.prems IoWritable show ?thesis by auto
  qed
qed simp

lemma drain_ok:
  "conn_ok s c \<Longrightarrow> \<forall>r \<in> set rs. 0 < progress r \<Longrightarrow> length (pending_out s c) \<le> length rs \<Longrightarrow>
   \<exists>s'. foldR (io_step c) (map IoWritable rs) s = Inr s' \<and> conn_ok s' c \<and> stream s' c = stream s c \<and> pending_out s' c = []"
proof (induction rs arbitrary: s)
  case (Cons r rs)
  let ?r = "offered r (length (pending_out s c))"
  obtain s1 where s1: "TcpConnection_handleWrite ?r c s = Inr s1" "conn_ok s1 c" "stream s1 c = stream s c"
    "pending_out s1 c = drop (progress ?r) (pending_out s c)"
    using handleWrite_ok [OF Cons.prems(1) progress_offered, of r] by auto
  have "progress ?r = min (progress r) (length (pending_out s c))" by (cases r) (simp_all add: offered_def progress_def)
  then have "length (pending_out s1 c) \<le> length rs" using s1(4) Cons.prems(2,3) by simp linarith
  with Cons.IH [OF s1(2)] Cons.prems(2) s1(1,3) show ?case by auto
qed simp

section \<open>Closing\<close>

text \<open>A callback that is set, and may queue functors or set timers but leaves poller and connections alone.\<close>

definition quiet_cb :: "('u, 'g, 'h, 'm) user_code \<Rightarrow> 'u option \<Rightarrow> bool" where
  "quiet_cb user cb \<longleftrightarrow> (\<forall>c t s. \<exists>s'. call user cb c t s = Inr s' \<and> same_poller s s' \<and> conns s' = conns s)"

lemma disableAll_conns:
  fixes s :: "('u, 'g, 'h, 'm) cw"
  assumes inv: "poller_inv s" and w: "chan_watched s k \<or> chan_idle s k"
  shows "\<exists>s'. disableAll k s = Inr s' \<and> poller_inv s' \<and> chan_idle s' k \<and> chan_fd s' k = chan_fd s k \<and> conns s' = conns s
           \<and> poll_interest s' = (poll_interest s)(chan_fd s k := None)"
proof -
  obtain ch i where "chan_in s k ch i" using w by (auto simp: chan_watched_def chan_idle_def)
  from setEvents_registered [OF inv this, of 0] setEvents_idle [OF inv w] show ?thesis
    by (auto simp: disableAll_def kNoneEvent_def modified_def)
qed

lemma poller_inv_thread: "poller_inv s \<Longrightarrow> isInLoopThread s"
  by (simp add: poller_inv_def)

lemma removeChannel_conns:
  fixes s :: "('u, 'g, 'h, 'm) cw"
  assumes "EventLoop_removeChannel k s = Inr s'"
  shows "conns s' = conns s"
proof -
  have "Poller_removeChannel k s = Inr s'"
    using assms by (auto simp: EventLoop_removeChannel_def assertInLoopThread_def bindR_eq_Inr split: if_splits)
  then show ?thesis
    by (auto simp: Poller_removeChannel_def assertInLoopThread_def setIndex_def upd_chan_def Let_def bindR_eq_Inr
        split: if_splits option.splits)
qed

text \<open>Closing, up to the call of the close callback, and destroying.\<close>

lemma handleClose_disables:
  fixes s :: "('u, 'g, 'h, 'm) cw"
  assumes inv: "poller_inv s" and w: "chan_watched s (connChannel conn) \<or> chan_idle s (connChannel conn)"
    and conn: "conns s c = Some conn" and st: "connState conn = kConnected \<or> connState conn = kDisconnecting"
  shows "\<exists>sa. TcpConnection_handleClose user c t s = call user (connCloseCallback conn) c t sa
           \<and> poller_inv sa \<and> chan_idle sa (connChannel conn) \<and> chan_fd sa (connChannel conn) = chan_fd s (connChannel conn)
           \<and> conns sa = conns s \<and> poll_interest sa = (poll_interest s)(chan_fd s (connChannel conn) := None)
           \<and> (\<exists>ch i. sa = modified (connChannel conn) 0 ch i s)"
proof -
  obtain sa where sa: "disableAll (connChannel conn) s = Inr sa" "poller_inv sa" "chan_idle sa (connChannel conn)"
    "chan_fd sa (connChannel conn) = chan_fd s (connChannel conn)" "conns sa = conns s"
    "poll_interest sa = (poll_interest s)(chan_fd s (connChannel conn) := None)"
    using disableAll_conns [OF inv w] by blast
  obtain ch i where "chan_in s (connChannel conn) ch i" using w by (auto simp: chan_watched_def chan_idle_def)
  from setEvents_registered [OF inv this, of 0] sa(1) have "sa = modified (connChannel conn) 0 ch i s"
    by (simp add: disableAll_def kNoneEvent_def)
  moreover have "TcpConnection_handleClose user c t s = call user (connCloseCallback conn) c t sa"
    using poller_inv_thread [OF inv] conn st sa(1) by (simp add: TcpConnection_handleClose_def assertInLoopThread_def)
  ultimately show ?thesis using sa by blast
qed

lemma connectDestroyed_ok:
  fixes s :: "('u, 'g, 'h, 'm) cw"
  assumes inv: "poller_inv s" and w: "chan_idle s (connChannel conn)" and conn: "conns s c = Some conn"
    and st: "connState conn = kConnected \<or> connState conn = kDisconnecting" and cb: "quiet_cb user (connectionCallback conn)"
  shows "\<exists>s'. connectDestroyed user c t s = Inr s' \<and> map_option connState (conns s' c) = Some kDisconnected
           \<and> poller_inv s' \<and> poll_interest s' = (poll_interest s)(chan_fd s (connChannel conn) := None)"
proof -
  let ?k = "connChannel conn" and ?s = "setState c kDisconnected s"
  have sp: "same_poller s ?s" unfolding setState_def by (rule same_poller_upd_conn)
  note k = same_poller_keeps [OF sp]
  obtain sb where sb: "disableAll ?k ?s = Inr sb" "poller_inv sb" "chan_idle sb ?k" "conns sb = conns ?s"
    "poll_interest sb = (poll_interest s)(chan_fd s ?k := None)"
    using disableAll_conns [of ?s ?k] inv w by (auto simp: k)
  obtain sc where sc: "call user (connectionCallback conn) c t sb = Inr sc" "same_poller sb sc" "conns sc = conns sb"
    using cb unfolding quiet_cb_def by blast
  obtain s2 where s2: "EventLoop_removeChannel ?k sc = Inr s2" "poller_inv s2" "poll_interest s2 = poll_interest sc"
    using poll_mux.rem_idle [of sc ?k] sb(2,3) same_poller_keeps [OF sc(2)] by auto
  have "connectDestroyed user c t s = Inr s2"
    using poller_inv_thread [OF inv] conn st sb(1) sc(1) s2(1) by (simp add: connectDestroyed_def assertInLoopThread_def)
  moreover have "map_option connState (conns s2 c) = Some kDisconnected"
    using removeChannel_conns [OF s2(1)] sc(3) sb(4) conn by (simp add: setState_def)
  ultimately show ?thesis using s2(2,3) sb(5) same_poller_keeps(4) [OF sc(2)] by auto
qed

text \<open>Establishing a connection, up to the call of the user's callback.\<close>

definition opened :: "nat \<Rightarrow> 'u tcp_connection \<Rightarrow> 'h net_cb channel \<Rightarrow> ('u, 'g, 'h, 'm) cw \<Rightarrow> ('u, 'g, 'h, 'm) cw" where
  "opened c conn ch s = added (connChannel conn) kReadEvent ch (setState c kConnected s)"

lemma connectEstablished_opens:
  assumes "poller_inv s" and "conns s c = Some conn" and "connState conn = kConnecting"
    and "chan_fresh s (connChannel conn)" and "chans s (connChannel conn) = Some ch" "ch_events ch = 0"
    and "outputBuffer conn = Buffer_new"
  shows "connectEstablished user c t s = call user (connectionCallback conn) c t (opened c conn ch s)"
    and "conn_ok (opened c conn ch s) c" and "conns (opened c conn ch s) c = Some (conn\<lparr>connState := kConnected\<rparr>)"
    and "poll_interest (opened c conn ch s) = (poll_interest s)(chan_fd s (connChannel conn) \<mapsto> kReadEvent)"
proof -
  let ?s = "setState c kConnected s" and ?k = "connChannel conn"
  have sp: "same_poller s ?s" unfolding setState_def by (rule same_poller_upd_conn)
  note k = same_poller_keeps [OF sp]
  have "channelMap ?s = channelMap s" "loopId ?s = loopId s" "poller_inv ?s"
    using assms(1) k(1) by (simp_all add: setState_def upd_conn_def)
  then have set: "setEvents ?k kReadEvent ?s = Inr (opened c conn ch s)"
    unfolding opened_def using assms(4,5) by (intro setEvents_fresh) (auto simp: k chan_fresh_def)
  have en: "enableReading ?k ?s = setEvents ?k kReadEvent ?s" using assms(5,6) by (simp add: enableReading_def k)
  from poll_mux.upd_watch [of ?s ?k kReadEvent] assms(1,4) read_write_masks(1) set
  have w: "poller_inv (opened c conn ch s)" "chan_watched (opened c conn ch s) ?k"
    and int: "poll_interest (opened c conn ch s) = (poll_interest s)(chan_fd s ?k \<mapsto> kReadEvent)" by (auto simp: k)
  show c1: "conns (opened c conn ch s) c = Some (conn\<lparr>connState := kConnected\<rparr>)"
    using assms(2) by (simp add: opened_def added_def setState_def)
  show "connectEstablished user c t s = call user (connectionCallback conn) c t (opened c conn ch s)"
    using poller_inv_thread [OF assms(1)] set en assms(2,3) by (simp add: connectEstablished_def assertInLoopThread_def)
  show "conn_ok (opened c conn ch s) c"
    using w c1 Buffer_new_inv assms(7) by (simp add: conn_ok_def) (simp add: opened_def added_def)
  show "poll_interest (opened c conn ch s) = (poll_interest s)(chan_fd s (connChannel conn) \<mapsto> kReadEvent)" by (rule int)
qed

lemma conn_ok_quiet:
  assumes "conn_ok s c" and "same_poller s s'" and "conns s' = conns s"
  shows "conn_ok s' c"
  using assms same_poller_keeps [OF assms(2)] by (simp add: conn_ok_def)

section \<open>Properties\<close>

definition conn_base :: "(unit, unit, unit) conn_world" where
  "conn_base = \<lparr>loopId = 0, threadId = 7, currentTid = 7, chans = Map.empty, pollFdList = [],
     channelMap = Map.empty, isLooping = False, isQuited = False, pollReturnTime = Timestamp 0,
     activeChannels = [], callingPendingFunctors = False, wakeupFd = 3, wakeupChannel = 0,
     pendingFunctors = [], eventfdCount = 0, timers = Map.empty, s_numCreated = 0, timerfd = 4, timerfdChannel = 1,
     timerList = [], activeTimerSet = {}, cancelingTimerSet = {}, callingExpiredTimers = False, timerfdValue = None,
     conns = Map.empty\<rparr>"

definition conn_fresh :: "(unit, unit, unit) conn_world" where
  "conn_fresh = upd_conn 20 (setConnectionCallback (Some ()) \<circ> conn_setCloseCallback (Some ()))
     (TcpConnection_new 20 2 ''conn'' 5 (InetAddress_port 80) (InetAddress_port 81) conn_base)"

definition idle_user :: "(unit, unit, unit, unit) user_code" where
  "idle_user u c t s = Inr s"

lemma conn_fresh_ok:
  "poller_inv conn_fresh" "chan_fresh conn_fresh 2" "chan_fd conn_fresh 2 = 5"
  by (simp_all add: conn_fresh_def conn_base_def TcpConnection_new_def upd_conn_def poller_inv_def slot_of_def
      isInLoopThread_def chan_fresh_def chan_fd_def Channel_new_def setErrorCallback_def setReadCallback_def
      setWriteCallback_def setCloseCallback_def)

lemma conn_fresh_conn:
  "\<exists>conn. conns conn_fresh 20 = Some conn \<and> connState conn = kConnecting \<and> connChannel conn = 2
     \<and> connectionCallback conn = Some () \<and> connCloseCallback conn = Some () \<and> outputBuffer conn = Buffer_new \<and> wire conn = []"
  by (simp add: conn_fresh_def TcpConnection_new_def setConnectionCallback_def conn_setCloseCallback_def)

lemma conn_fresh_chan: "\<exists>ch. chans conn_fresh 2 = Some ch \<and> ch_events ch = 0"
  by (simp add: conn_fresh_def TcpConnection_new_def upd_conn_def Channel_new_def setErrorCallback_def
      setReadCallback_def setWriteCallback_def setCloseCallback_def)

lemma quiet_idle_user: "quiet_cb idle_user (Some u)"
  by (simp add: quiet_cb_def call_def idle_user_def same_poller_def)

text \<open>
  A new connection is established: no assertion fails, the state becomes \<open>kConnected\<close>, the
  descriptor is watched for reading, and the connection satisfies the invariant of open connections.
\<close>

theorem TcpConnection_established:
  assumes "poller_inv s" and "conns s c = Some conn" and "connState conn = kConnecting"
    and "chan_fresh s (connChannel conn)" and "chans s (connChannel conn) = Some ch" and "ch_events ch = 0"
    and "outputBuffer conn = Buffer_new" and "quiet_cb user (connectionCallback conn)"
  shows "\<exists>s'. connectEstablished user c t s = Inr s' \<and> conn_ok s' c
           \<and> map_option connState (conns s' c) = Some kConnected
           \<and> poll_interest s' = (poll_interest s)(chan_fd s (connChannel conn) \<mapsto> kReadEvent)"
proof -
  note o = connectEstablished_opens [OF assms(1-7)]
  obtain s' where s': "call user (connectionCallback conn) c t (opened c conn ch s) = Inr s'"
    "same_poller (opened c conn ch s) s'" "conns s' = conns (opened c conn ch s)"
    using assms(8) unfolding quiet_cb_def by blast
  with o conn_ok_quiet [OF o(2) s'(2,3)] same_poller_keeps(4) [OF s'(2)] show ?thesis by simp
qed

lemma established_sample:
  obtains s conn where "conns s 20 = Some conn" "connState conn = kConnected" "connCloseCallback conn = Some ()"
    "connectionCallback conn = Some ()" "connectEstablished idle_user 20 (Timestamp 1) conn_fresh = Inr s" "conn_ok s 20"
    "map_option connState (conns s 20) = Some kConnected" "pending_out s 20 = []" "used s 20 = 8" "stream s 20 = []"
proof -
  obtain conn where conn: "conns conn_fresh 20 = Some conn" "connState conn = kConnecting" "connChannel conn = 2"
     "connectionCallback conn = Some ()" "outputBuffer conn = Buffer_new" "wire conn = []" "connCloseCallback conn = Some ()"
    using conn_fresh_conn by blast
  obtain ch where ch: "chans conn_fresh 2 = Some ch" "ch_events ch = 0" using conn_fresh_chan by blast
  note o = connectEstablished_opens [OF conn_fresh_ok(1) conn(1,2) _ _ ch(2) conn(5), unfolded conn(3), OF conn_fresh_ok(2) ch(1)]
  have "connectEstablished idle_user 20 (Timestamp 1) conn_fresh = Inr (opened 20 conn ch conn_fresh)"
    using o(1) [of idle_user "Timestamp 1"] by (simp add: conn(4) call_def idle_user_def)
  moreover have "content Buffer_new = []" "writerIndex Buffer_new = 8"
    using Buffer_new_inv by (simp_all add: Buffer_new_def kCheapPrepend_def)
  ultimately show ?thesis
    using o(2) conn(4-7) by (intro that [of "opened 20 conn ch conn_fresh" "conn\<lparr>connState := kConnected\<rparr>"])
      (simp_all add: pending_out_def used_def stream_def o(3))
qed

theorem TcpConnection_established_witness:
  "\<exists>s'. connectEstablished idle_user 20 (Timestamp 1) conn_fresh = Inr s' \<and> conn_ok s' 20
     \<and> poll_interest s' = (poll_interest conn_fresh)(5 \<mapsto> kReadEvent)"
proof -
  obtain conn where conn: "conns conn_fresh 20 = Some conn" "connState conn = kConnecting" "connChannel conn = 2"
     "connectionCallback conn = Some ()" "outputBuffer conn = Buffer_new" using conn_fresh_conn by blast
  obtain ch where ch: "chans conn_fresh 2 = Some ch" "ch_events ch = 0" using conn_fresh_chan by blast
  from TcpConnection_established [OF conn_fresh_ok(1) conn(1,2) _ _ ch(2) conn(5), unfolded conn(3,4),
      OF conn_fresh_ok(2) ch(1) quiet_idle_user, of "Timestamp 1"]
  show ?thesis using conn_fresh_ok(3) by auto
qed

text \<open>
  C1. No byte is lost, duplicated or reordered on the way out: over any run of sends and writable events,
  with whatever the kernel's \<open>write\<close> answers (errors, partial writes), no operation fails and the bytes
  accepted by the kernel followed by those in the output buffer are the messages in the order
  they were sent. In every state of the run the channel is watched for writing exactly while bytes wait.
\<close>

theorem TcpConnection_stream_exact:
  assumes "conn_ok s c" and "used s c + length (sent ops) \<le> max_size"
  shows "\<exists>s'. foldR (io_step c) ops s = Inr s' \<and> conn_ok s' c \<and> stream s' c = stream s c @ sent ops"
  using io_run_ok [OF assms] .

theorem TcpConnection_stream_exact_witness:
  "\<exists>s s'. connectEstablished idle_user 20 (Timestamp 1) conn_fresh = Inr s
     \<and> foldR (io_step 20) [IoSend ''hello'' (WriteOk 2), IoSend ''!'' (WriteOk 0), IoWritable (WriteErr 11), IoWritable (WriteOk 9)] s = Inr s'
     \<and> stream s' 20 = ''hello!''"
proof -
  obtain s where s: "connectEstablished idle_user 20 (Timestamp 1) conn_fresh = Inr s" "conn_ok s 20" "used s 20 = 8" "stream s 20 = []"
    by (rule established_sample)
  from TcpConnection_stream_exact [OF s(2), of "[IoSend ''hello'' (WriteOk 2), IoSend ''!'' (WriteOk 0), IoWritable (WriteErr 11), IoWritable (WriteOk 9)]"]
  show ?thesis using s by (auto simp: max_size_def)
qed

text \<open>
  C23. The output drains: after as many writable events as bytes wait, each taking at least one
  byte, the output buffer is empty and everything sent is on the wire.
\<close>

theorem TcpConnection_drains:
  assumes "conn_ok s c" and "\<forall>r \<in> set rs. 0 < progress r" and "length (pending_out s c) \<le> length rs"
  shows "\<exists>s' conn. foldR (io_step c) (map IoWritable rs) s = Inr s' \<and> conns s' c = Some conn
           \<and> content (outputBuffer conn) = [] \<and> wire conn = stream s c"
proof -
  obtain s' where s': "foldR (io_step c) (map IoWritable rs) s = Inr s'" "conn_ok s' c" "stream s' c = stream s c" "pending_out s' c = []"
    using drain_ok [OF assms] by blast
  from s'(2) obtain conn where "conns s' c = Some conn" by (auto simp: conn_ok_def)
  with s' show ?thesis by (auto simp: stream_def pending_out_def)
qed

theorem TcpConnection_drains_witness:
  "\<exists>s s' conn. bindR (connectEstablished idle_user 20 (Timestamp 1) conn_fresh) (sendInLoop (WriteErr 11) 20 ''ab'') = Inr s
     \<and> foldR (io_step 20) (map IoWritable [WriteOk 1, WriteOk 5]) s = Inr s' \<and> conns s' 20 = Some conn \<and> wire conn = ''ab''"
proof -
  obtain s where s: "connectEstablished idle_user 20 (Timestamp 1) conn_fresh = Inr s" "conn_ok s 20" "used s 20 = 8" "stream s 20 = []"
    by (rule established_sample)
  obtain s1 where s1: "sendInLoop (WriteErr 11) 20 ''ab'' s = Inr s1" "conn_ok s1 20" "stream s1 20 = ''ab''"
    using sendInLoop_ok [OF s(2), of "''ab''" "WriteErr 11"] s(3,4) by (auto simp: max_size_def)
  have "length (pending_out s1 20) \<le> length (stream s1 20)"
    by (auto simp: pending_out_def stream_def split: option.splits)
  then show ?thesis
    using TcpConnection_drains [OF s1(2), of "[WriteOk 1, WriteOk 5]"] s(1) s1 by (auto simp: progress_def)
qed

text \<open>
  \<open>shutdown\<close> does not cut off output: while bytes wait, the write side is left open; the writable event
  that sends the last of them closes it.
\<close>

theorem TcpConnection_shutdown_after_flush:
  assumes "conn_ok s c" and "map_option connState (conns s c) = Some kConnected" and "pending_out s c \<noteq> []"
  shows "\<exists>s1 s2. shutdown c s = Inr s1 \<and> (shutdown_done s1 c \<longleftrightarrow> shutdown_done s c) \<and> pending_out s1 c = pending_out s c
           \<and> TcpConnection_handleWrite (WriteOk (length (pending_out s c))) c s1 = Inr s2
           \<and> shutdown_done s2 c \<and> pending_out s2 c = [] \<and> stream s2 c = stream s c"
proof -
  obtain conn where conn: "conns s c = Some conn" "connState conn = kConnected" "buffer_inv (outputBuffer conn)" "poller_inv s"
    using assms(1,2) by (auto simp: conn_ok_def)
  let ?s = "setState c kDisconnecting s"
  have sp: "same_poller s ?s" unfolding setState_def by (rule same_poller_upd_conn)
  have ok: "conn_ok ?s c"
    by (rule conn_ok_same [OF assms(1) sp _ conn(1), where conn' = "conn\<lparr>connState := kDisconnecting\<rparr>"])
      (simp_all add: setState_def conn)
  have po: "pending_out ?s c = pending_out s c" "stream ?s c = stream s c" "shutdown_done ?s c = shutdown_done s c"
    by (simp_all add: pending_out_def stream_def shutdown_done_def setState_def conn(1))
  have "shutdownInLoop c ?s = Inr ?s" using shutdownInLoop_ok [OF ok] po(1) assms(3) by auto
  moreover have "isInLoopThread ?s" using conn(4) same_poller_keeps(7) [OF sp] by (simp add: poller_inv_def)
  ultimately have "shutdown c s = Inr ?s" using conn by (simp add: shutdown_def runInLoop_def)
  moreover have "progress (WriteOk (length (pending_out s c))) \<le> length (pending_out ?s c)" by (simp add: progress_def po(1))
  from handleWrite_ok [OF ok this] po assms(3) have "\<exists>s2. TcpConnection_handleWrite (WriteOk (length (pending_out s c))) c ?s = Inr s2
     \<and> shutdown_done s2 c \<and> pending_out s2 c = [] \<and> stream s2 c = stream s c"
    by (auto simp: progress_def setState_def conn(1))
  ultimately show ?thesis using po by blast
qed

theorem TcpConnection_shutdown_after_flush_witness:
  "\<exists>s s1 s2. bindR (connectEstablished idle_user 20 (Timestamp 1) conn_fresh) (sendInLoop (WriteErr 11) 20 ''ab'') = Inr s
     \<and> shutdown 20 s = Inr s1 \<and> TcpConnection_handleWrite (WriteOk 2) 20 s1 = Inr s2 \<and> shutdown_done s2 20"
proof -
  obtain s where s: "connectEstablished idle_user 20 (Timestamp 1) conn_fresh = Inr s" "conn_ok s 20" "used s 20 = 8" "stream s 20 = []"
    "map_option connState (conns s 20) = Some kConnected" "pending_out s 20 = []"
    by (rule established_sample)
  obtain s1 where s1: "sendInLoop (WriteErr 11) 20 ''ab'' s = Inr s1" "conn_ok s1 20" "pending_out s1 20 = ''ab''"
    "map_option connState (conns s1 20) = Some kConnected"
    using sendInLoop_refused [OF s(2), of "''ab''" 11] s(3-6) by (auto simp: max_size_def)
  show ?thesis
    using TcpConnection_shutdown_after_flush [OF s1(2,4)] s(1) s1(1,3) by (auto simp: numeral_2_eq_2)
qed

text \<open>
  The end of a connection: \<open>handleClose\<close> and then \<open>connectDestroyed\<close> succeed on an open connection
  (both call \<open>disableAll\<close>), leave it in state \<open>kDisconnected\<close> and take exactly its descriptor out of the
  poller.
\<close>

theorem TcpConnection_closes:
  assumes ok: "conn_ok s c" and conn: "conns s c = Some conn"
    and st: "connState conn = kConnected \<or> connState conn = kDisconnecting"
    and cb: "quiet_cb user (connCloseCallback conn)" "quiet_cb user (connectionCallback conn)"
  shows "\<exists>s1 s2. TcpConnection_handleClose user c t s = Inr s1 \<and> connectDestroyed user c t' s1 = Inr s2
           \<and> map_option connState (conns s2 c) = Some kDisconnected \<and> poller_inv s2
           \<and> poll_interest s2 = (poll_interest s)(chan_fd s (connChannel conn) := None)"
proof -
  from ok conn have w: "poller_inv s" "chan_watched s (connChannel conn)" by (auto simp: conn_ok_def)
  from handleClose_disables [OF w(1) disjI1 [OF w(2)] conn st] obtain sa where
    sa: "TcpConnection_handleClose user c t s = call user (connCloseCallback conn) c t sa" "poller_inv sa"
      "chan_idle sa (connChannel conn)" "chan_fd sa (connChannel conn) = chan_fd s (connChannel conn)" "conns sa = conns s"
      "poll_interest sa = (poll_interest s)(chan_fd s (connChannel conn) := None)" by blast
  obtain s1 where s1: "call user (connCloseCallback conn) c t sa = Inr s1" "same_poller sa s1" "conns s1 = conns sa"
    using cb(1) unfolding quiet_cb_def by blast
  note k = same_poller_keeps [OF s1(2)]
  from connectDestroyed_ok [of s1 conn c user t'] sa s1(3) conn st cb(2)
  show ?thesis using s1(1) by (auto simp: k)
qed

theorem TcpConnection_closes_witness:
  "\<exists>s s1 s2. connectEstablished idle_user 20 (Timestamp 1) conn_fresh = Inr s
     \<and> TcpConnection_handleClose idle_user 20 (Timestamp 2) s = Inr s1 \<and> connectDestroyed idle_user 20 (Timestamp 3) s1 = Inr s2
     \<and> map_option connState (conns s2 20) = Some kDisconnected"
proof -
  obtain s conn where s: "connectEstablished idle_user 20 (Timestamp 1) conn_fresh = Inr s" "conn_ok s 20"
    "conns s 20 = Some conn" "connState conn = kConnected" "connCloseCallback conn = Some ()" "connectionCallback conn = Some ()"
    by (rule established_sample) auto
  from TcpConnection_closes [OF s(2,3) disjI1 [OF s(4)], of idle_user "Timestamp 2" "Timestamp 3"] quiet_idle_user s(1,5,6)
  show ?thesis by auto
qed

end
