(* ===== verification/LoopPool.thy ===== *)
theory LoopPool
  imports EventLoop
begin

text \<open>
  \<^verbatim>\<open>muduo/EventLoopThread.h\<close>, \<^verbatim>\<open>EventLoopThread.cpp\<close>, \<^verbatim>\<open>EventLoopThreadPool.h\<close> and
  \<^verbatim>\<open>EventLoopThreadPool.cpp\<close>: threads that run an event loop each, and a pool that hands out their loops in
  turn.
\<close>

section \<open>EventLoopThread\<close>

text \<open>
  The thread that starts a loop and the thread that runs it. \<open>Starting\<close> is the wait for \<open>loop\<close> in
  \<open>startLoop\<close>, between the check of the condition and the notification; the steps are those of the two
  functions under the mutex.
\<close>

datatype starter_pc = NotStarted | CheckLoop | Waiting | Returned "nat option"

datatype runner_pc = NotRunning | ThreadBegins | LoopPublished | LoopRuns | LoopReturned

record loop_thread =
  lt_loop :: "nat option"
  lt_exiting :: bool
  starter :: starter_pc
  runner :: runner_pc
  signalled :: bool

definition EventLoopThread_new :: loop_thread where
  "EventLoopThread_new = \<lparr>lt_loop = None, lt_exiting = False, starter = NotStarted, runner = NotRunning, signalled = False\<rparr>"

text \<open>
  \<open>startLoop\<close> asserts that the thread was not started, starts it and waits while \<open>loop\<close> is null; a
  waiter wakes after a notification, or spuriously, and checks again. \<open>threadFunc\<close> publishes the address of its
  local loop, notifies, and runs the loop until it is told to quit.
\<close>

inductive lt_step :: "nat \<Rightarrow> loop_thread \<Rightarrow> loop_thread \<Rightarrow> bool" for localLoop :: nat where
  start: "starter t = NotStarted \<Longrightarrow> runner t = NotRunning \<Longrightarrow>
    lt_step localLoop t (t\<lparr>starter := CheckLoop, runner := ThreadBegins\<rparr>)"
| check_null: "starter t = CheckLoop \<Longrightarrow> lt_loop t = None \<Longrightarrow>
    lt_step localLoop t (t\<lparr>starter := Waiting, signalled := False\<rparr>)"
| check_set: "starter t = CheckLoop \<Longrightarrow> lt_loop t = Some l \<Longrightarrow>
    lt_step localLoop t (t\<lparr>starter := Returned (Some l)\<rparr>)"
| wake: "starter t = Waiting \<Longrightarrow> lt_step localLoop t (t\<lparr>starter := CheckLoop\<rparr>)"
| publish: "runner t = ThreadBegins \<Longrightarrow>
    lt_step localLoop t (t\<lparr>lt_loop := Some localLoop, runner := LoopPublished, signalled := True\<rparr>)"
| enter: "runner t = LoopPublished \<Longrightarrow> lt_step localLoop t (t\<lparr>runner := LoopRuns\<rparr>)"
| leave: "runner t = LoopRuns \<Longrightarrow> lt_step localLoop t (t\<lparr>runner := LoopReturned\<rparr>)"

text \<open>
  The destructor calls \<open>quit\<close> on the loop, whose address is that of a local variable of \<open>threadFunc\<close>, and then
  waits for the thread.
\<close>

definition EventLoopThread_delete :: "loop_thread \<Rightarrow> (loop_thread \<times> nat) result" where
  "EventLoopThread_delete t =
     (case lt_loop t of
        None \<Rightarrow> Inl DanglingPointer
      | Some l \<Rightarrow> if runner t = LoopReturned then Inl DanglingPointer else Inr (t\<lparr>lt_exiting := True\<rparr>, l))"

inductive_cases lt_stepE: "lt_step l t t'"

definition lt_inv :: "nat \<Rightarrow> loop_thread \<Rightarrow> bool" where
  "lt_inv l t \<longleftrightarrow>
     (lt_loop t = (if runner t \<in> {NotRunning, ThreadBegins} then None else Some l))
     \<and> (starter t = NotStarted \<longleftrightarrow> runner t = NotRunning)
     \<and> (starter t = Waiting \<longrightarrow> lt_loop t \<noteq> None \<longrightarrow> signalled t)
     \<and> (\<forall>r. starter t = Returned r \<longrightarrow> r = Some l)"

lemma lt_step_inv: "lt_step l t t' \<Longrightarrow> lt_inv l t \<Longrightarrow> lt_inv l t'"
  by (induction rule: lt_step.induct) (auto simp: lt_inv_def split: if_splits)

lemma lt_steps_inv: "(lt_step l)\<^sup>*\<^sup>* t t' \<Longrightarrow> lt_inv l t \<Longrightarrow> lt_inv l t'"
  by (induction rule: rtranclp_induct) (auto intro: lt_step_inv)

lemma lt_new_inv: "lt_inv l EventLoopThread_new"
  by (simp add: lt_inv_def EventLoopThread_new_def)

section \<open>EventLoopThreadPool\<close>

record loop_pool =
  baseLoop :: nat
  isStarted :: bool
  numThreads :: int
  next_loop :: nat
  pool_loops :: "nat list"

definition EventLoopThreadPool_new :: "nat \<Rightarrow> loop_pool" where
  "EventLoopThreadPool_new base =
     \<lparr>baseLoop = base, isStarted = False, numThreads = 0, next_loop = 0, pool_loops = []\<rparr>"

definition pool_setThreadNum :: "int \<Rightarrow> loop_pool \<Rightarrow> loop_pool" where
  "pool_setThreadNum n p = p\<lparr>numThreads := n\<rparr>"

text \<open>\<open>mk i\<close> is the loop the \<open>i\<close>-th \<open>startLoop\<close> returns.\<close>

definition EventLoopThreadPool_start :: "(nat \<Rightarrow> nat) \<Rightarrow> 'm loop_ctx_scheme \<Rightarrow> loop_pool \<Rightarrow> loop_pool result" where
  "EventLoopThreadPool_start mk ctx p =
     assertR (\<not> isStarted p)
       (assertInLoopThread ctx
         (Inr (fold (\<lambda>i p. p\<lparr>pool_loops := pool_loops p @ [mk i]\<rparr>) [0..<nat (numThreads p)] (p\<lparr>isStarted := True\<rparr>))))"

definition getNextLoop :: "'m loop_ctx_scheme \<Rightarrow> loop_pool \<Rightarrow> (nat \<times> loop_pool) result" where
  "getNextLoop ctx p =
     assertInLoopThread ctx
       (if pool_loops p \<noteq> [] then
          (if next_loop p < length (pool_loops p) then
             (let loop = pool_loops p ! next_loop p; n = next_loop p + 1
              in Inr (loop, p\<lparr>next_loop := (if length (pool_loops p) \<le> n then 0 else n)\<rparr>))
           else Inl OutOfBounds)
        else Inr (baseLoop p, p))"

fun take_loops :: "'m loop_ctx_scheme \<Rightarrow> nat \<Rightarrow> loop_pool \<Rightarrow> (nat list \<times> loop_pool) result" where
  "take_loops ctx 0 p = Inr ([], p)"
| "take_loops ctx (Suc k) p =
     bindR (getNextLoop ctx p) (\<lambda>(l, p1). bindR (take_loops ctx k p1) (\<lambda>(ls, p2). Inr (l # ls, p2)))"

definition pool_inv :: "loop_pool \<Rightarrow> bool" where
  "pool_inv p \<longleftrightarrow> (pool_loops p = [] \<longrightarrow> next_loop p = 0) \<and> (pool_loops p \<noteq> [] \<longrightarrow> next_loop p < length (pool_loops p))"

lemma pool_start_loops:
  "fold (\<lambda>i p. p\<lparr>pool_loops := pool_loops p @ [mk i]\<rparr>) xs p = p\<lparr>pool_loops := pool_loops p @ map mk xs\<rparr>"
  by (induction xs arbitrary: p) simp_all

lemma getNextLoop_cycle:
  assumes "isInLoopThread ctx" and "pool_loops p \<noteq> []" and "next_loop p < length (pool_loops p)"
  shows "getNextLoop ctx p = Inr (pool_loops p ! next_loop p, p\<lparr>next_loop := Suc (next_loop p) mod length (pool_loops p)\<rparr>)"
proof -
  have "(if length (pool_loops p) \<le> next_loop p + 1 then 0 else next_loop p + 1) = Suc (next_loop p) mod length (pool_loops p)"
    using assms(3) by (auto simp: le_Suc_eq)
  with assms show ?thesis
    by (cases "length (pool_loops p) \<le> next_loop p + 1") (simp_all add: getNextLoop_def assertInLoopThread_def Let_def)
qed

lemma take_loops_cycle:
  assumes "isInLoopThread ctx" and "pool_loops p \<noteq> []" and "next_loop p < length (pool_loops p)"
  shows "\<exists>p'. take_loops ctx k p = Inr (map (\<lambda>i. pool_loops p ! ((next_loop p + i) mod length (pool_loops p))) [0..<k], p')"
  using assms
proof (induction k arbitrary: p)
  case (Suc k)
  let ?n = "length (pool_loops p)"
  let ?p = "p\<lparr>next_loop := Suc (next_loop p) mod ?n\<rparr>"
  have "next_loop ?p < length (pool_loops ?p)" using Suc.prems(2) by simp
  with Suc.IH [of ?p] Suc.prems obtain p' where
    p': "take_loops ctx k ?p = Inr (map (\<lambda>i. pool_loops p ! ((Suc (next_loop p) mod ?n + i) mod ?n)) [0..<k], p')" by auto
  have "map (\<lambda>i. pool_loops p ! ((next_loop p + i) mod ?n)) [0..<Suc k]
      = pool_loops p ! next_loop p # map (\<lambda>i. pool_loops p ! ((Suc (next_loop p) mod ?n + i) mod ?n)) [0..<k]"
    using Suc.prems(3) by (simp add: upt_conv_Cons map_Suc_upt [symmetric] mod_add_left_eq comp_def del: upt_Suc)
  with p' getNextLoop_cycle [OF Suc.prems] show ?case by simp
qed simp

section \<open>Properties\<close>

text \<open>
  C38. \<open>startLoop\<close> returns the loop of the new thread, never a null pointer, whatever the interleaving and
  however often it wakes spuriously; and while it waits after the loop was published, it has been notified.
\<close>

theorem EventLoopThread_startLoop_safe:
  assumes "(lt_step l)\<^sup>*\<^sup>* EventLoopThread_new t"
  shows "(\<forall>r. starter t = Returned r \<longrightarrow> r = Some l) \<and> (starter t = Waiting \<and> lt_loop t \<noteq> None \<longrightarrow> signalled t)"
  using lt_steps_inv [OF assms lt_new_inv] by (simp add: lt_inv_def)

theorem EventLoopThread_startLoop_safe_witness:
  "\<exists>t. (lt_step 5)\<^sup>*\<^sup>* EventLoopThread_new t \<and> starter t = Returned (Some 5)"
proof -
  let ?t0 = "EventLoopThread_new"
  let ?t1 = "?t0\<lparr>starter := CheckLoop, runner := ThreadBegins\<rparr>"
  let ?t2 = "?t1\<lparr>lt_loop := Some 5, runner := LoopPublished, signalled := True\<rparr>"
  let ?t3 = "?t2\<lparr>starter := Returned (Some 5)\<rparr>"
  have "lt_step 5 ?t0 ?t1" by (rule lt_step.start) (simp_all add: EventLoopThread_new_def)
  moreover have "lt_step 5 ?t1 ?t2" by (rule lt_step.publish) simp
  moreover have "lt_step 5 ?t2 ?t3" by (rule lt_step.check_set) simp_all
  ultimately have r: "(lt_step 5)\<^sup>*\<^sup>* ?t0 ?t3" by (meson converse_rtranclp_into_rtranclp rtranclp.rtrancl_refl)
  with EventLoopThread_startLoop_safe [OF r] show ?thesis by (intro exI [of _ ?t3]) simp
qed

text \<open>
  The pool hands out its loops in turn: after \<open>start\<close> with \<open>n > 0\<close> threads the \<open>i\<close>-th request is
  answered with loop \<open>i mod n\<close>, and never reads outside the vector.
\<close>

theorem EventLoopThreadPool_round_robin:
  assumes "isInLoopThread ctx" and "0 < n" and "n = numThreads p" and "\<not> isStarted p"
    and "pool_loops p = []" and "next_loop p = 0"
  shows "\<exists>p1 p2. EventLoopThreadPool_start mk ctx p = Inr p1
           \<and> take_loops ctx k p1 = Inr (map (\<lambda>i. mk (i mod nat n)) [0..<k], p2)"
proof -
  let ?p = "p\<lparr>isStarted := True, pool_loops := map mk [0..<nat n]\<rparr>"
  have "EventLoopThreadPool_start mk ctx p = Inr ?p"
    using assms by (simp add: EventLoopThreadPool_start_def assertInLoopThread_def pool_start_loops)
  moreover obtain p2 where "take_loops ctx k ?p = Inr (map (\<lambda>i. pool_loops ?p ! ((next_loop ?p + i) mod length (pool_loops ?p))) [0..<k], p2)"
    using take_loops_cycle [of ctx ?p k] assms by auto
  moreover have "map (\<lambda>i. pool_loops ?p ! ((next_loop ?p + i) mod length (pool_loops ?p))) [0..<k] = map (\<lambda>i. mk (i mod nat n)) [0..<k]"
    using assms(2,6) by simp
  ultimately show ?thesis by auto
qed

theorem EventLoopThreadPool_round_robin_witness:
  "\<exists>p1 p2. EventLoopThreadPool_start (\<lambda>i. 10 + i) \<lparr>loopId = 0, threadId = 7, currentTid = 7\<rparr> (pool_setThreadNum 3 (EventLoopThreadPool_new 0)) = Inr p1
     \<and> take_loops \<lparr>loopId = 0, threadId = 7, currentTid = 7\<rparr> 5 p1 = Inr ([10, 11, 12, 10, 11], p2)"
  using EventLoopThreadPool_round_robin [of "\<lparr>loopId = 0, threadId = 7, currentTid = 7\<rparr>" 3
      "pool_setThreadNum 3 (EventLoopThreadPool_new 0)" "\<lambda>i. 10 + i" 5]
  by (simp add: isInLoopThread_def pool_setThreadNum_def EventLoopThreadPool_new_def upt_rec)

end
