(* ===== verification/TcpServer.thy ===== *)
theory TcpServer
  imports TcpConnection LoopPool
begin

text \<open>
  \<^verbatim>\<open>muduo/Acceptor.h\<close>, \<^verbatim>\<open>Acceptor.cpp\<close>, \<^verbatim>\<open>TcpServer.h\<close> and \<^verbatim>\<open>TcpServer.cpp\<close>: the listening socket and
  the server that owns the connections. The state extends that of the base loop; addresses of new objects and
  results of system calls are arguments.
\<close>

section \<open>The classes\<close>

text \<open>The functions the server binds: into connections, into its loop, into the acceptor's channel.\<close>

datatype 'v server_cb = RemoveConnection | UserCb 'v

datatype server_fn = AcceptorListen | RemoveConnectionInLoop nat

datatype server_ch = AcceptorRead

record 'v server_world = "('v server_cb, server_fn, server_ch) conn_world" +
  acceptSocket :: socket
  acceptChannel :: nat
  hasNewConnectionCallback :: bool
  listening :: bool
  serverName :: string
  serverPool :: loop_pool
  srvConnectionCallback :: "'v option"
  srvMessageCallback :: "'v option"
  srvWriteCompleteCallback :: "'v option"
  srvHighWaterLevelCallback :: "'v option"
  serverStarted :: bool
  nextConnId :: int
  connectionMap :: "string \<Rightarrow> nat option"
  handedOver :: "(nat \<times> nat) list"
  acceptClosed :: "int list"

type_synonym ('v, 'm) sw = "('v, 'm) server_world_scheme"

text \<open>\<open>fd\<close>, \<open>br\<close> and \<open>lr\<close> are what \<open>socket\<close>, \<open>bind\<close> and \<open>listen\<close> return.\<close>

definition Acceptor_new :: "int \<Rightarrow> int \<Rightarrow> nat \<Rightarrow> ('v, 'm) sw \<Rightarrow> ('v, 'm) sw result" where
  "Acceptor_new fd br k s =
     bindR (createNonblockingOrDie fd) (\<lambda>sfd.
       bindR (bindAddress br (setReuseAddr True (Socket_new sfd))) (\<lambda>sock.
         Inr (s\<lparr>acceptSocket := sock, acceptChannel := k, listening := False, hasNewConnectionCallback := False,
               chans := (chans s)(k \<mapsto> setReadCallback (OtherCb AcceptorRead) (Channel_new (loopId s) sfd))\<rparr>)))"

definition Acceptor_listen :: "int \<Rightarrow> ('v, 'm) sw \<Rightarrow> ('v, 'm) sw result" where
  "Acceptor_listen lr s =
     assertInLoopThread s
       (let s1 = s\<lparr>listening := True\<rparr> in
        bindR (Socket_listen lr (acceptSocket s1)) (\<lambda>sock.
          enableReading (acceptChannel s1) (s1\<lparr>acceptSocket := sock\<rparr>)))"

definition connIdText :: "int \<Rightarrow> string" where
  "connIdText n = fst (snprintf 32 (''#'' @ dec_int n))"

definition removeConnectionInLoop :: "nat \<Rightarrow> ('v, 'm) sw \<Rightarrow> ('v, 'm) sw result" where
  "removeConnectionInLoop c s =
     assertInLoopThread s
       (bindR (derefR (conns s) c) (\<lambda>conn.
          assertR (connectionMap s (connName conn) \<noteq> None)
            (Inr (queueInLoop (UserFn (ConnectDestroyed c))
                   (s\<lparr>connectionMap := (connectionMap s)(connName conn := None)\<rparr>)))))"

definition removeConnection :: "nat \<Rightarrow> ('v, 'm) sw \<Rightarrow> ('v, 'm) sw result" where
  "removeConnection c s =
     runInLoop (\<lambda>_. removeConnectionInLoop c) (UserFn (OtherFn (RemoveConnectionInLoop c))) s"

text \<open>What a connection of this server calls: the server's own function or the user's.\<close>

definition server_user :: "('v \<Rightarrow> nat \<Rightarrow> timestamp \<Rightarrow> ('v, 'm) sw \<Rightarrow> ('v, 'm) sw result)
    \<Rightarrow> 'v server_cb \<Rightarrow> nat \<Rightarrow> timestamp \<Rightarrow> ('v, 'm) sw \<Rightarrow> ('v, 'm) sw result" where
  "server_user user cb c t s = (case cb of RemoveConnection \<Rightarrow> removeConnection c s | UserCb v \<Rightarrow> user v c t s)"

text \<open>
  \<open>newConnection\<close>: the connection is set up in the next loop of the pool. When that is another loop than
  the base loop, whose state this is, the connection is handed over to it.
\<close>

definition newConnection :: "('v \<Rightarrow> nat \<Rightarrow> timestamp \<Rightarrow> ('v, 'm) sw \<Rightarrow> ('v, 'm) sw result) \<Rightarrow> nat \<Rightarrow> nat
    \<Rightarrow> sockaddr_in option \<Rightarrow> timestamp \<Rightarrow> int \<Rightarrow> InetAddress \<Rightarrow> ('v, 'm) sw \<Rightarrow> ('v, 'm) sw result" where
  "newConnection user c k la t fd peer s =
     assertInLoopThread s
       (let name = serverName s @ connIdText (nextConnId s);
            s1 = s\<lparr>nextConnId := nextConnId s + 1\<rparr>
        in bindR (getNextLoop s1 (serverPool s1)) (\<lambda>(ioLoop, pool).
          let s2 = s1\<lparr>serverPool := pool, connectionMap := (connectionMap s1)(name \<mapsto> c)\<rparr> in
          if ioLoop = loopId s2 then
            (let s3 = TcpConnection_new c k name fd (InetAddress (getLocalAddr la)) peer s2;
                 s4 = upd_conn c (setWriteCompleteCallback (map_option UserCb (srvWriteCompleteCallback s3))
                        \<circ> conn_setCloseCallback (Some RemoveConnection)
                        \<circ> setMessageCallback (map_option UserCb (srvMessageCallback s3))
                        \<circ> setConnectionCallback (map_option UserCb (srvConnectionCallback s3))) s3
             in runInLoop (\<lambda>_. connectEstablished (server_user user) c t) (UserFn (ConnectEstablished c)) s4)
          else Inr (s2\<lparr>handedOver := handedOver s2 @ [(ioLoop, c)]\<rparr>)))"

text \<open>A connection that nobody wants is closed at once; the descriptors closed so are recorded in \<open>acceptClosed\<close>.\<close>

definition Acceptor_handleRead :: "('v \<Rightarrow> nat \<Rightarrow> timestamp \<Rightarrow> ('v, 'm) sw \<Rightarrow> ('v, 'm) sw result) \<Rightarrow> accept_result \<Rightarrow> nat \<Rightarrow> nat
    \<Rightarrow> sockaddr_in option \<Rightarrow> timestamp \<Rightarrow> ('v, 'm) sw \<Rightarrow> ('v, 'm) sw result" where
  "Acceptor_handleRead user ar c k la t s =
     assertInLoopThread s
       (bindR (Socket_accept ar (InetAddress_port 0)) (\<lambda>(connfd, peer).
          if 0 \<le> connfd then
            if hasNewConnectionCallback s then newConnection user c k la t connfd peer s
            else Inr (s\<lparr>acceptClosed := acceptClosed s @ [connfd]\<rparr>)
          else Inr s))"

definition TcpServer_new :: "InetAddress \<Rightarrow> int \<Rightarrow> int \<Rightarrow> nat \<Rightarrow> ('v, 'm) sw \<Rightarrow> ('v, 'm) sw result" where
  "TcpServer_new addr fd br k s =
     bindR (Acceptor_new fd br k (s\<lparr>serverName := InetAddress_toHostPort addr\<rparr>)) (\<lambda>s1.
       Inr (s1\<lparr>serverPool := EventLoopThreadPool_new (loopId s1), serverStarted := False, nextConnId := 1,
              connectionMap := Map.empty, hasNewConnectionCallback := True\<rparr>))"

definition TcpServer_start :: "int \<Rightarrow> ('v, 'm) sw \<Rightarrow> ('v, 'm) sw result" where
  "TcpServer_start lr s =
     (let s1 = (if \<not> serverStarted s then s\<lparr>serverStarted := True\<rparr> else s) in
      if \<not> listening s1 then runInLoop (\<lambda>_. Acceptor_listen lr) (UserFn (OtherFn AcceptorListen)) s1 else Inr s1)"

definition TcpServer_setThreadNum :: "int \<Rightarrow> ('v, 'm) sw \<Rightarrow> ('v, 'm) sw result" where
  "TcpServer_setThreadNum n s = assertR (0 \<le> n) (Inr (s\<lparr>serverPool := pool_setThreadNum n (serverPool s)\<rparr>))"

definition TcpServer_setConnectionCallback :: "'v \<Rightarrow> ('v, 'm) sw \<Rightarrow> ('v, 'm) sw" where
  "TcpServer_setConnectionCallback cb s = s\<lparr>srvConnectionCallback := Some cb\<rparr>"

definition TcpServer_setMessageCallback :: "'v \<Rightarrow> ('v, 'm) sw \<Rightarrow> ('v, 'm) sw" where
  "TcpServer_setMessageCallback cb s = s\<lparr>srvMessageCallback := Some cb\<rparr>"

definition TcpServer_setWriteCompleteCallback :: "'v \<Rightarrow> ('v, 'm) sw \<Rightarrow> ('v, 'm) sw" where
  "TcpServer_setWriteCompleteCallback cb s = s\<lparr>srvWriteCompleteCallback := Some cb\<rparr>"

definition TcpServer_setHighWaterLevelCallback :: "'v \<Rightarrow> ('v, 'm) sw \<Rightarrow> ('v, 'm) sw" where
  "TcpServer_setHighWaterLevelCallback cb s = s\<lparr>srvHighWaterLevelCallback := Some cb\<rparr>"

section \<open>Invariant\<close>

text \<open>
  Every entry of the map is a live connection under its own name, made from a number already used, and
  the pool has no loops of its own.
\<close>

definition server_inv :: "('v, 'm) sw \<Rightarrow> bool" where
  "server_inv s \<longleftrightarrow> poller_inv s \<and> 1 \<le> nextConnId s \<and> pool_loops (serverPool s) = [] \<and> baseLoop (serverPool s) = loopId s
     \<and> (\<forall>name c. connectionMap s name = Some c \<longrightarrow>
          (\<exists>i. 1 \<le> i \<and> i < nextConnId s \<and> name = serverName s @ connIdText i)
          \<and> (\<exists>conn. conns s c = Some conn \<and> connName conn = name))"

lemma connIdText_inj: "1 \<le> i \<Longrightarrow> i < 2 ^ 31 \<Longrightarrow> 1 \<le> j \<Longrightarrow> j < 2 ^ 31 \<Longrightarrow> connIdText i = connIdText j \<Longrightarrow> i = j"
proof -
  assume b: "1 \<le> i" "i < 2 ^ 31" "1 \<le> j" "j < 2 ^ 31" and e: "connIdText i = connIdText j"
  have "connIdText n = ''#'' @ dec_int n" if n: "1 \<le> n" "n < 2 ^ 31" for n
  proof -
    have "length (dec_int n) \<le> 10" using n length_dec_nat_le [of "nat n" 10] by (simp add: dec_int_def)
    then show ?thesis by (simp add: connIdText_def snprintf_def)
  qed
  with b e show "i = j" by (simp add: dec_int_inj)
qed

lemma server_name_fresh:
  assumes "server_inv s" and "nextConnId s < 2 ^ 31"
  shows "connectionMap s (serverName s @ connIdText (nextConnId s)) = None"
proof (rule ccontr)
  assume "connectionMap s (serverName s @ connIdText (nextConnId s)) \<noteq> None"
  then obtain i where "1 \<le> i" "i < nextConnId s" "connIdText (nextConnId s) = connIdText i"
    using assms(1) by (fastforce simp: server_inv_def)
  with connIdText_inj [of "nextConnId s" i] assms show False by (simp add: server_inv_def)
qed

text \<open>A callback of the user that leaves the poller, the connections and the server's tables alone.\<close>

definition quiet_server :: "('v \<Rightarrow> nat \<Rightarrow> timestamp \<Rightarrow> ('v, 'm) sw \<Rightarrow> ('v, 'm) sw result) \<Rightarrow> 'v \<Rightarrow> bool" where
  "quiet_server user v \<longleftrightarrow> (\<forall>c t s. \<exists>s'. user v c t s = Inr s' \<and> same_poller s s' \<and> conns s' = conns s
     \<and> connectionMap s' = connectionMap s \<and> nextConnId s' = nextConnId s \<and> serverName s' = serverName s
     \<and> serverPool s' = serverPool s)"

lemma quiet_server_cb: "quiet_server user v \<Longrightarrow> quiet_cb (server_user user) (Some (UserCb v))"
  unfolding quiet_server_def quiet_cb_def call_def server_user_def by simp blast

section \<open>A connection comes\<close>

definition server_conn :: "nat \<Rightarrow> string \<Rightarrow> int \<Rightarrow> InetAddress \<Rightarrow> InetAddress \<Rightarrow> ('v, 'm) sw \<Rightarrow> 'v server_cb tcp_connection" where
  "server_conn k name fd la peer s =
     \<lparr>connLoop = loopId s, connName = name, connState = kConnecting, connSocket = Socket_new fd,
      connChannel = k, localAddr = la, peerAddr = peer,
      connectionCallback = map_option UserCb (srvConnectionCallback s), messageCallback = map_option UserCb (srvMessageCallback s),
      connCloseCallback = Some RemoveConnection, writeCompleteCallback = map_option UserCb (srvWriteCompleteCallback s),
      highWaterLevelCallback = None, highWaterLevel = 0, inputBuffer = Buffer_new, outputBuffer = Buffer_new, wire = []\<rparr>"

definition server_chan :: "nat \<Rightarrow> int \<Rightarrow> ('v, 'm) sw \<Rightarrow> server_ch net_cb channel" where
  "server_chan c fd s = setErrorCallback (ConnError c) (setCloseCallback (ConnClose c)
     (setWriteCallback (ConnWrite c) (setReadCallback (ConnRead c) (Channel_new (loopId s) fd))))"

definition with_conn :: "nat \<Rightarrow> nat \<Rightarrow> int \<Rightarrow> InetAddress \<Rightarrow> InetAddress \<Rightarrow> ('v, 'm) sw \<Rightarrow> ('v, 'm) sw" where
  "with_conn c k fd la peer s =
     (let name = serverName s @ connIdText (nextConnId s) in
      s\<lparr>nextConnId := nextConnId s + 1, connectionMap := (connectionMap s)(name \<mapsto> c),
        chans := (chans s)(k \<mapsto> server_chan c fd s),
        conns := (conns s)(c \<mapsto> server_conn k name fd la peer s)\<rparr>)"

lemma newConnection_sets_up:
  assumes "isInLoopThread s" and "pool_loops (serverPool s) = []" and "baseLoop (serverPool s) = loopId s"
  shows "newConnection user c k la t fd peer s =
     connectEstablished (server_user user) c t (with_conn c k fd (InetAddress (getLocalAddr la)) peer s)"
  using assms
  by (simp add: newConnection_def assertInLoopThread_def getNextLoop_def Let_def runInLoop_def isInLoopThread_def
      TcpConnection_new_def upd_conn_def setWriteCompleteCallback_def conn_setCloseCallback_def setMessageCallback_def
      setConnectionCallback_def with_conn_def server_conn_def server_chan_def)

lemma with_conn_poller:
  fixes c :: nat and la peer :: InetAddress and s :: "('v, 'm) sw"
  assumes "poller_inv s" and "k \<notin> ran (channelMap s)" and "0 \<le> fd" and "channelMap s fd = None"
  defines "s' \<equiv> with_conn c k fd la peer s"
  shows "poller_inv s'" "chan_fresh s' k" "chan_fd s' k = fd" "poll_interest s' = poll_interest s"
    "\<exists>ch. chans s' k = Some ch \<and> ch_events ch = 0"
proof -
  have f: "pollFdList s' = pollFdList s" "channelMap s' = channelMap s" "loopId s' = loopId s" "isInLoopThread s' = isInLoopThread s"
    "chans s' = (chans s)(k \<mapsto> server_chan c fd s)"
    by (simp_all add: s'_def with_conn_def Let_def isInLoopThread_def)
  have ch: "ch_fd (server_chan c fd s) = fd" "ch_index (server_chan c fd s) = -1" "ch_events (server_chan c fd s) = 0"
    "ownerLoop (server_chan c fd s) = loopId s"
    by (simp_all add: server_chan_def setErrorCallback_def setCloseCallback_def setWriteCallback_def setReadCallback_def Channel_new_def)
  have "slot_of s' f d i \<longleftrightarrow> slot_of s f d i" for f d i
    using assms(2) by (auto simp: slot_of_def f ran_def)
  then show "poller_inv s'" using assms(1) by (simp add: poller_inv_def f)
  show "chan_fresh s' k" using assms(3,4) by (simp add: chan_fresh_def f ch)
  show "chan_fd s' k = fd" by (simp add: chan_fd_def f ch)
  show "poll_interest s' = poll_interest s" by (simp add: poll_interest_def f fun_eq_iff)
  show "\<exists>ch. chans s' k = Some ch \<and> ch_events ch = 0" by (simp add: f ch)
qed

lemma server_inv_with_conn:
  assumes inv: "server_inv s" and c: "conns s c = None" and p: "poller_inv s'"
    and f: "conns s' = (conns s)(c \<mapsto> conn)" "connName conn = serverName s @ connIdText (nextConnId s)"
      "connectionMap s' = (connectionMap s)(serverName s @ connIdText (nextConnId s) \<mapsto> c)" "nextConnId s' = nextConnId s + 1"
      "serverName s' = serverName s" "serverPool s' = serverPool s" "loopId s' = loopId s"
  shows "server_inv s'"
proof -
  have "(\<exists>i. 1 \<le> i \<and> i < nextConnId s' \<and> name = serverName s' @ connIdText i)
      \<and> (\<exists>conn. conns s' d = Some conn \<and> connName conn = name)" if "connectionMap s' name = Some d" for name d
  proof (cases "name = serverName s @ connIdText (nextConnId s)")
    case True
    with that inv show ?thesis by (auto simp: f server_inv_def intro!: exI [of _ "nextConnId s"])
  next
    case False
    with that have "connectionMap s name = Some d" by (simp add: f)
    with inv obtain i cn where "1 \<le> i" "i < nextConnId s" "name = serverName s @ connIdText i"
      "conns s d = Some cn" "connName cn = name" unfolding server_inv_def by blast
    moreover from this c have "d \<noteq> c" by auto
    ultimately show ?thesis by (auto simp: f intro!: exI [of _ i])
  qed
  with inv p show ?thesis by (simp add: server_inv_def f)
qed

section \<open>Properties\<close>

text \<open>
  C8. A connection comes: \<open>newConnection\<close> with a new descriptor and new objects registers it
  under a name no other connection has, watches its descriptor for reading, brings it to the state
  \<open>kConnected\<close> and keeps the server's invariant.
\<close>

theorem TcpServer_newConnection_registers:
  assumes inv: "server_inv s" and id: "nextConnId s < 2 ^ 31"
    and new: "conns s c = None" "k \<notin> ran (channelMap s)" "0 \<le> fd" "channelMap s fd = None"
    and user: "srvConnectionCallback s = Some v" "quiet_server user v"
  defines "name \<equiv> serverName s @ connIdText (nextConnId s)"
  shows "\<exists>s'. newConnection user c k la t fd peer s = Inr s' \<and> server_inv s' \<and> conn_ok s' c
           \<and> connectionMap s name = None \<and> connectionMap s' = (connectionMap s)(name \<mapsto> c)
           \<and> map_option connState (conns s' c) = Some kConnected
           \<and> poll_interest s' = (poll_interest s)(fd \<mapsto> kReadEvent)"
proof -
  let ?w = "with_conn c k fd (InetAddress (getLocalAddr la)) peer s"
  let ?conn = "server_conn k name fd (InetAddress (getLocalAddr la)) peer s"
  have pinv: "poller_inv s" using inv by (simp add: server_inv_def)
  note w = with_conn_poller [OF pinv new(2-4), of c "InetAddress (getLocalAddr la)" peer]
  obtain ch where ch: "chans ?w k = Some ch" "ch_events ch = 0" using w(5) by blast
  have cn: "conns ?w c = Some ?conn" "connState ?conn = kConnecting" "connChannel ?conn = k" "outputBuffer ?conn = Buffer_new"
    "connectionCallback ?conn = Some (UserCb v)" "connName ?conn = name"
    by (simp_all add: with_conn_def Let_def server_conn_def name_def user(1))
  note o = connectEstablished_opens [OF w(1) cn(1,2) _ _ ch(2) cn(4), unfolded cn(3), OF w(2) ch(1)]
  let ?o = "opened c ?conn ch ?w"
  obtain s' where s': "user v c t ?o = Inr s'" "same_poller ?o s'" "conns s' = conns ?o"
    "connectionMap s' = connectionMap ?o" "nextConnId s' = nextConnId ?o" "serverName s' = serverName ?o" "serverPool s' = serverPool ?o"
    using user(2) unfolding quiet_server_def by blast
  have run: "newConnection user c k la t fd peer s = Inr s'"
    using newConnection_sets_up [of s user c k la t fd peer] poller_inv_thread [OF pinv] inv o(1) [of "server_user user" t] s'(1)
    by (simp add: server_inv_def cn(5) call_def server_user_def)
  have f: "conns ?o = (conns s)(c \<mapsto> ?conn\<lparr>connState := kConnected\<rparr>)"
    "connectionMap ?o = (connectionMap s)(name \<mapsto> c)" "nextConnId ?o = nextConnId s + 1" "serverName ?o = serverName s"
    "serverPool ?o = serverPool s" "loopId ?o = loopId s"
    by (simp_all add: opened_def added_def setState_def upd_conn_def with_conn_def Let_def name_def server_conn_def)
  have ok: "conn_ok s' c" by (rule conn_ok_quiet [OF o(2) s'(2,3)])
  have "server_inv s'"
    using s'(2,3-7) f cn(6) ok
    by (intro server_inv_with_conn [OF inv new(1), where conn = "?conn\<lparr>connState := kConnected\<rparr>"])
      (simp_all add: conn_ok_def name_def same_poller_def)
  moreover have "connectionMap s name = None" unfolding name_def by (rule server_name_fresh [OF inv id])
  moreover have "poll_interest s' = (poll_interest s)(fd \<mapsto> kReadEvent)"
    using same_poller_keeps(4) [OF s'(2)] o(4) by (simp add: w(3,4))
  ultimately show ?thesis using run ok s'(3,4) f(1,2) by simp
qed

definition server_sample :: "unit server_world" where
  "server_sample = \<lparr>loopId = 0, threadId = 7, currentTid = 7, chans = Map.empty, pollFdList = [],
     channelMap = Map.empty, isLooping = False, isQuited = False, pollReturnTime = Timestamp 0,
     activeChannels = [], callingPendingFunctors = False, wakeupFd = 3, wakeupChannel = 0,
     pendingFunctors = [], eventfdCount = 0, timers = Map.empty, s_numCreated = 0, timerfd = 4, timerfdChannel = 1,
     timerList = [], activeTimerSet = {}, cancelingTimerSet = {}, callingExpiredTimers = False, timerfdValue = None,
     conns = Map.empty, acceptSocket = Socket_new 8, acceptChannel = 3, hasNewConnectionCallback = True, listening = True,
     serverName = ''srv'', serverPool = EventLoopThreadPool_new 0, srvConnectionCallback = Some (),
     srvMessageCallback = Some (), srvWriteCompleteCallback = None, srvHighWaterLevelCallback = None,
     serverStarted = True, nextConnId = 1, connectionMap = Map.empty, handedOver = [], acceptClosed = []\<rparr>"

definition idle_server_user :: "unit \<Rightarrow> nat \<Rightarrow> timestamp \<Rightarrow> unit server_world \<Rightarrow> unit server_world result" where
  "idle_server_user v c t s = Inr s"

lemma server_sample_ok: "server_inv server_sample" "quiet_server idle_server_user ()"
  by (auto simp: server_inv_def poller_inv_def server_sample_def isInLoopThread_def EventLoopThreadPool_new_def
      quiet_server_def idle_server_user_def same_poller_def)

lemma server_sample_fields:
  "conns server_sample = Map.empty" "channelMap server_sample = Map.empty" "nextConnId server_sample = 1"
  "srvConnectionCallback server_sample = Some ()" "serverName server_sample = ''srv''" "connectionMap server_sample = Map.empty"
  by (simp_all add: server_sample_def)

theorem TcpServer_newConnection_registers_witness:
  "\<exists>s'. newConnection idle_server_user 20 2 None (Timestamp 1) 5 (InetAddress_port 81) server_sample = Inr s'
     \<and> connectionMap s' = [''srv'' @ connIdText 1 \<mapsto> 20] \<and> conn_ok s' 20"
  using TcpServer_newConnection_registers [OF server_sample_ok(1) _ _ _ _ _ server_sample_fields(4) server_sample_ok(2),
      of 20 2 5 None "Timestamp 1" "InetAddress_port 81"]
  by (auto simp: server_sample_fields)

lemma server_close_once:
  assumes ok: "conn_ok s c" and conn: "conns s c = Some conn" "connCloseCallback conn = Some RemoveConnection"
    and st: "connState conn = kConnected \<or> connState conn = kDisconnecting"
    and reg: "connectionMap s (connName conn) \<noteq> None"
  shows "\<exists>s1. TcpConnection_handleClose (server_user user) c t s = Inr s1
           \<and> connectionMap s1 = (connectionMap s)(connName conn := None)
           \<and> pendingFunctors s1 = pendingFunctors s @ [UserFn (ConnectDestroyed c)] \<and> conns s1 = conns s
           \<and> poller_inv s1 \<and> chan_idle s1 (connChannel conn) \<and> chan_fd s1 (connChannel conn) = chan_fd s (connChannel conn)
           \<and> poll_interest s1 = (poll_interest s)(chan_fd s (connChannel conn) := None)"
proof -
  from ok conn have w: "poller_inv s" "chan_watched s (connChannel conn)" by (auto simp: conn_ok_def)
  from handleClose_disables [OF w(1) disjI1 [OF w(2)] conn(1) st, of "server_user user" t] obtain sa ch i where
    sa: "TcpConnection_handleClose (server_user user) c t s = call (server_user user) (connCloseCallback conn) c t sa" "poller_inv sa"
      "chan_idle sa (connChannel conn)" "chan_fd sa (connChannel conn) = chan_fd s (connChannel conn)" "conns sa = conns s"
      "poll_interest sa = (poll_interest s)(chan_fd s (connChannel conn) := None)" "sa = modified (connChannel conn) 0 ch i s" by blast
  let ?m = "sa\<lparr>connectionMap := (connectionMap sa)(connName conn := None)\<rparr>"
  let ?s1 = "queueInLoop (UserFn (ConnectDestroyed c)) ?m"
  have f: "connectionMap sa = connectionMap s" "pendingFunctors sa = pendingFunctors s"
    by (simp_all add: sa(7) modified_def)
  have "TcpConnection_handleClose (server_user user) c t s = Inr ?s1"
    using sa(1,5) conn poller_inv_thread [OF sa(2)] reg f(1)
    by (simp add: call_def server_user_def removeConnection_def runInLoop_def removeConnectionInLoop_def assertInLoopThread_def)
  moreover have sp: "same_poller sa ?s1"
    by (rule same_poller_trans [OF _ same_poller_queueInLoop]) (simp add: same_poller_def isInLoopThread_def)
  moreover have "connectionMap ?s1 = (connectionMap s)(connName conn := None)"
    by (simp add: queueInLoop_def pushFunctor_def wakeUp_def Let_def f(1))
  moreover have "conns ?s1 = conns s" using sa(5) by simp
  ultimately show ?thesis using sa(2,3,4,6) f(2) same_poller_keeps [OF sp] by simp
qed

text \<open>
  C9. A connection goes: the close event of a registered connection erases exactly its entry and queues
  exactly one \<open>connectDestroyed\<close>, which then succeeds and takes the descriptor out of the poller.
\<close>

theorem TcpServer_close_removes:
  assumes "conn_ok s c" and "conns s c = Some conn" "connCloseCallback conn = Some RemoveConnection"
    and "connState conn = kConnected \<or> connState conn = kDisconnecting"
    and "connectionMap s (connName conn) \<noteq> None"
    and "connectionCallback conn = Some (UserCb v)" and "quiet_server user v"
  shows "\<exists>s1 s2. TcpConnection_handleClose (server_user user) c t s = Inr s1
           \<and> connectionMap s1 = (connectionMap s)(connName conn := None)
           \<and> pendingFunctors s1 = pendingFunctors s @ [UserFn (ConnectDestroyed c)]
           \<and> connectDestroyed (server_user user) c t' s1 = Inr s2
           \<and> map_option connState (conns s2 c) = Some kDisconnected \<and> poller_inv s2
           \<and> poll_interest s2 = (poll_interest s)(chan_fd s (connChannel conn) := None)"
proof -
  obtain s1 where s1: "TcpConnection_handleClose (server_user user) c t s = Inr s1"
    "connectionMap s1 = (connectionMap s)(connName conn := None)"
    "pendingFunctors s1 = pendingFunctors s @ [UserFn (ConnectDestroyed c)]" "conns s1 = conns s"
    "poller_inv s1" "chan_idle s1 (connChannel conn)" "chan_fd s1 (connChannel conn) = chan_fd s (connChannel conn)"
    "poll_interest s1 = (poll_interest s)(chan_fd s (connChannel conn) := None)"
    using server_close_once [OF assms(1-5)] by blast
  have "quiet_cb (server_user user) (connectionCallback conn)" using quiet_server_cb [OF assms(7)] assms(6) by simp
  from connectDestroyed_ok [OF s1(5,6) _ assms(4) this, of c t'] s1 assms(2) show ?thesis by auto
qed

lemma server_sample_conn:
  obtains s conn where "newConnection idle_server_user 20 2 None (Timestamp 1) 5 (InetAddress_port 81) server_sample = Inr s"
    "conn_ok s 20" "conns s 20 = Some conn" "connCloseCallback conn = Some RemoveConnection" "connState conn = kConnected"
    "connectionMap s (connName conn) \<noteq> None" "connectionCallback conn = Some (UserCb ())"
proof -
  define name where "name = serverName server_sample @ connIdText (nextConnId server_sample)"
  let ?la = "InetAddress (getLocalAddr None)" and ?p = "InetAddress_port 81"
  let ?w = "with_conn 20 2 5 ?la ?p server_sample" and ?conn = "server_conn 2 name 5 ?la ?p server_sample"
  have pinv: "poller_inv server_sample" using server_sample_ok(1) by (simp add: server_inv_def)
  have "2 \<notin> ran (channelMap server_sample)" "0 \<le> (5::int)" "channelMap server_sample 5 = None" by (simp_all add: server_sample_fields)
  note w = with_conn_poller [OF pinv this, of 20 ?la ?p]
  obtain ch where ch: "chans ?w 2 = Some ch" "ch_events ch = 0" using w(5) by blast
  have cn: "conns ?w 20 = Some ?conn" "connState ?conn = kConnecting" "connChannel ?conn = 2" "outputBuffer ?conn = Buffer_new"
    "connectionCallback ?conn = Some (UserCb ())" "connName ?conn = name" "connCloseCallback ?conn = Some RemoveConnection"
    by (simp_all add: with_conn_def Let_def server_conn_def name_def server_sample_fields(4))
  note o = connectEstablished_opens [OF w(1) cn(1,2) _ _ ch(2) cn(4), unfolded cn(3), OF w(2) ch(1)]
  have "newConnection idle_server_user 20 2 None (Timestamp 1) 5 ?p server_sample = Inr (opened 20 ?conn ch ?w)"
    using newConnection_sets_up [of server_sample idle_server_user 20 2 None "Timestamp 1" 5 ?p] poller_inv_thread [OF pinv]
      server_sample_ok(1) o(1) [of "server_user idle_server_user" "Timestamp 1"]
    by (simp add: server_inv_def cn(5) call_def server_user_def idle_server_user_def)
  moreover have "connectionMap (opened 20 ?conn ch ?w) name = Some 20"
    by (simp add: opened_def added_def setState_def upd_conn_def with_conn_def Let_def name_def)
  ultimately show ?thesis
    using o(2,3) cn(5-7) by (intro that [of "opened 20 ?conn ch ?w" "?conn\<lparr>connState := kConnected\<rparr>"]) simp_all
qed

theorem TcpServer_close_removes_witness:
  "\<exists>s s1 s2. newConnection idle_server_user 20 2 None (Timestamp 1) 5 (InetAddress_port 81) server_sample = Inr s
     \<and> TcpConnection_handleClose (server_user idle_server_user) 20 (Timestamp 2) s = Inr s1
     \<and> connectDestroyed (server_user idle_server_user) 20 (Timestamp 3) s1 = Inr s2
     \<and> map_option connState (conns s2 20) = Some kDisconnected"
proof -
  obtain s conn where s: "newConnection idle_server_user 20 2 None (Timestamp 1) 5 (InetAddress_port 81) server_sample = Inr s"
    "conn_ok s 20" "conns s 20 = Some conn" "connCloseCallback conn = Some RemoveConnection" "connState conn = kConnected"
    "connectionMap s (connName conn) \<noteq> None" "connectionCallback conn = Some (UserCb ())" by (rule server_sample_conn)
  from TcpServer_close_removes [OF s(2-4) disjI1 [OF s(5)] s(6,7) server_sample_ok(2), of "Timestamp 2" "Timestamp 3"] s(1)
  show ?thesis by auto
qed

text \<open>
  A second close event of the same connection before \<open>connectDestroyed\<close> runs fails an assertion:
  \<open>handleClose\<close> does not change the state, so it passes its own check again, and the server no longer finds the
  connection. \<open>Channel::handleEvent\<close> makes two such calls when it sees a hang-up together with urgent data
  and the read returns 0.
\<close>

theorem TcpServer_double_close_fails:
  assumes ok: "conn_ok s c" and conn: "conns s c = Some conn" "connCloseCallback conn = Some RemoveConnection"
    and st: "connState conn = kConnected \<or> connState conn = kDisconnecting"
    and reg: "connectionMap s (connName conn) \<noteq> None"
  shows "bindR (TcpConnection_handleClose (server_user user) c t s)
           (TcpConnection_handleClose (server_user user) c t) = Inl AssertionFailed"
proof -
  obtain s1 where s1: "TcpConnection_handleClose (server_user user) c t s = Inr s1"
    "connectionMap s1 = (connectionMap s)(connName conn := None)" "conns s1 = conns s"
    "poller_inv s1" "chan_idle s1 (connChannel conn)"
    using server_close_once [OF assms] by blast
  have "conns s1 c = Some conn" using s1(3) conn(1) by simp
  from handleClose_disables [OF s1(4) disjI2 [OF s1(5)] this st, of "server_user user" t] obtain sa ch i where
    sa: "TcpConnection_handleClose (server_user user) c t s1 = call (server_user user) (connCloseCallback conn) c t sa" "poller_inv sa"
      "conns sa = conns s1" "sa = modified (connChannel conn) 0 ch i s1" by blast
  have "connectionMap sa (connName conn) = None" by (simp add: sa(4) modified_def s1(2))
  then have "TcpConnection_handleClose (server_user user) c t s1 = Inl AssertionFailed"
    using sa(1,3) s1(3) conn poller_inv_thread [OF sa(2)]
    by (simp add: call_def server_user_def removeConnection_def runInLoop_def removeConnectionInLoop_def assertInLoopThread_def)
  with s1(1) show ?thesis by simp
qed

theorem TcpServer_double_close_fails_witness:
  "\<exists>s. newConnection idle_server_user 20 2 None (Timestamp 1) 5 (InetAddress_port 81) server_sample = Inr s
     \<and> bindR (TcpConnection_handleClose (server_user idle_server_user) 20 (Timestamp 2) s)
         (TcpConnection_handleClose (server_user idle_server_user) 20 (Timestamp 2)) = Inl AssertionFailed"
proof -
  obtain s conn where s: "newConnection idle_server_user 20 2 None (Timestamp 1) 5 (InetAddress_port 81) server_sample = Inr s"
    "conn_ok s 20" "conns s 20 = Some conn" "connCloseCallback conn = Some RemoveConnection" "connState conn = kConnected"
    "connectionMap s (connName conn) \<noteq> None" by (rule server_sample_conn)
  from TcpServer_double_close_fails [OF s(2-4) disjI1 [OF s(5)] s(6), of idle_server_user "Timestamp 2"] s(1) show ?thesis by blast
qed

text \<open>
  \<open>setThreadNum\<close> has no effect on a started server: \<open>start\<close> does not start the pool, so
  whatever the number of threads, every connection is given the base loop.
\<close>

theorem TcpServer_threads_unused:
  assumes "pool_loops (serverPool s) = []" and "baseLoop (serverPool s) = loopId s"
    and "bindR (TcpServer_setThreadNum n s) (TcpServer_start lr) = Inr s'" and "isInLoopThread s'"
  shows "numThreads (serverPool s') = n \<and> getNextLoop s' (serverPool s') = Inr (loopId s, serverPool s')"
proof -
  let ?s = "s\<lparr>serverPool := pool_setThreadNum n (serverPool s)\<rparr>"
  have run: "TcpServer_start lr ?s = Inr s'"
    using assms(3) by (auto simp: TcpServer_setThreadNum_def bindR_eq_Inr split: if_splits)
  have ev: "serverPool y = serverPool x" if "setEvents k e x = Inr y" for k e and x y :: "('a, 'b) sw"
    using that by (auto simp: setEvents_def Channel_update_def EventLoop_updateChannel_def Poller_updateChannel_def
        assertInLoopThread_def upd_chan_def setIndex_def Let_def bindR_eq_Inr derefR_eq_Inr split: if_splits)
  have li: "serverPool y = serverPool x" if "Acceptor_listen lr x = Inr y" for x y :: "('a, 'b) sw"
    using that by (auto simp: Acceptor_listen_def assertInLoopThread_def enableReading_def Let_def bindR_eq_Inr dest!: ev split: if_splits)
  have "serverPool s' = serverPool ?s"
    using run li by (fastforce simp: TcpServer_start_def Let_def runInLoop_def queueInLoop_def pushFunctor_def wakeUp_def split: if_splits)
  with assms(1,2,4) show ?thesis by (simp add: pool_setThreadNum_def getNextLoop_def assertInLoopThread_def)
qed

theorem TcpServer_threads_unused_witness:
  "\<exists>s'. bindR (TcpServer_setThreadNum 4 server_sample) (TcpServer_start 0) = Inr s'
     \<and> numThreads (serverPool s') = 4 \<and> getNextLoop s' (serverPool s') = Inr (0, serverPool s')"
proof -
  obtain s' where s': "bindR (TcpServer_setThreadNum 4 server_sample) (TcpServer_start 0) = Inr s'" "isInLoopThread s'"
    by (simp add: TcpServer_setThreadNum_def TcpServer_start_def server_sample_def isInLoopThread_def)
  from TcpServer_threads_unused [OF _ _ s'] s'(1) show ?thesis
    by (auto simp: server_sample_def EventLoopThreadPool_new_def)
qed

end
