(* ===== verification/ConnFrame.thy ===== *)
theory ConnFrame
  imports TcpServer
begin

text \<open>
  What the operations of a connection leave alone: the other connections, the other channels, and the fields of the
  connection that are not its output. Servers with many connections are verified with it.
\<close>

section \<open>Events of a connection in its loop\<close>

text \<open>
  What the kernel answers to one connection during one round: to the \<open>readv\<close> of a read event, to the \<open>write\<close> of
  a \<open>send\<close>, and to the \<open>write\<close> of a writable event, which takes at most what is offered.
\<close>

record conn_io =
  ev_read :: readv_result
  ev_send :: write_result
  ev_write :: write_result

fun conn_of :: "'h net_cb \<Rightarrow> nat" where
  "conn_of (ConnRead c) = c"
| "conn_of (ConnWrite c) = c"
| "conn_of (ConnClose c) = c"
| "conn_of (ConnError c) = c"
| "conn_of (OtherCb h) = 0"

definition conn_exec :: "('u, 'g, 'h, 'm) user_code \<Rightarrow> ('h \<Rightarrow> timestamp \<Rightarrow> ('u, 'g, 'h, 'm) cw \<Rightarrow> ('u, 'g, 'h, 'm) cw result)
    \<Rightarrow> (nat \<Rightarrow> conn_io) \<Rightarrow> 'h net_cb \<Rightarrow> timestamp \<Rightarrow> ('u, 'g, 'h, 'm) cw \<Rightarrow> ('u, 'g, 'h, 'm) cw result" where
  "conn_exec user other io cb t s =
     run_net_cb user other (ev_read (io (conn_of cb)))
       (offered (ev_write (io (conn_of cb))) (length (pending_out s (conn_of cb)))) cb t s"

text \<open>
  What an operation on connection \<open>c\<close> with channel \<open>k\<close> leaves alone: the other connections, the other channels and
  whether they are watched, the callbacks and the result mask of \<open>k\<close>, and the fields of \<open>c\<close> other than its output.
\<close>

definition conn_rest :: "'u tcp_connection \<Rightarrow> 'u tcp_connection" where
  "conn_rest conn = conn\<lparr>wire := [], outputBuffer := Buffer_new\<rparr>"

definition conn_frame :: "nat \<Rightarrow> nat \<Rightarrow> ('u, 'g, 'h, 'm) cw \<Rightarrow> ('u, 'g, 'h, 'm) cw \<Rightarrow> bool" where
  "conn_frame c k s s' \<longleftrightarrow> (\<forall>d. d \<noteq> c \<longrightarrow> conns s' d = conns s d)
     \<and> (\<forall>x. x \<noteq> k \<longrightarrow> chans s' x = chans s x \<and> (chan_watched s x \<longrightarrow> chan_watched s' x))
     \<and> (\<forall>ch. chans s k = Some ch \<longrightarrow> (\<exists>ch'. chans s' k = Some ch' \<and> same_slots ch ch'))"

lemma conn_frame_refl: "conn_frame c k s s"
  by (simp add: conn_frame_def same_slots_def)

lemma conn_frame_trans: "conn_frame c k s s' \<Longrightarrow> conn_frame c k s' s'' \<Longrightarrow> conn_frame c k s s''"
  unfolding conn_frame_def same_slots_def by fastforce

lemma conn_frame_same: "same_poller s s' \<Longrightarrow> \<forall>d. d \<noteq> c \<longrightarrow> conns s' d = conns s d \<Longrightarrow> conn_frame c k s s'"
  using same_poller_keeps(2) [of s s'] by (simp add: conn_frame_def same_poller_def same_slots_def)

lemma setEvents_frame:
  fixes s :: "('u, 'g, 'h, 'm) cw"
  assumes inv: "poller_inv s" and w: "chan_watched s k" and run: "setEvents k e s = Inr s'"
  shows "conn_frame c k s s'" "conns s' = conns s" "pendingFunctors s' = pendingFunctors s"
proof -
  obtain ch i where i: "chan_in s k ch i" using w by (auto simp: chan_watched_def)
  have s': "s' = modified k e ch i s" using setEvents_registered [OF inv i, of e] run by simp
  show "conns s' = conns s" "pendingFunctors s' = pendingFunctors s" by (simp_all add: s' modified_def)
  have "chan_watched s' x" if x: "x \<noteq> k" "chan_watched s x" for x
  proof -
    obtain cx j where j: "chan_in s x cx j" "pfd_fd (pollFdList s ! j) = ch_fd cx" using x(2) by (auto simp: chan_watched_def)
    have "j \<noteq> i" using slot_of_unique [of s "ch_fd cx" x j "ch_fd ch" k] j(1) i x(1) by (auto simp: chan_in_def)
    with j x(1) have "chan_in s' x cx j" "pfd_fd (pollFdList s' ! j) = ch_fd cx"
      by (simp_all add: s' chan_in_def slot_of_modified [OF i] modified_sel)
    then show ?thesis by (auto simp: chan_watched_def)
  qed
  with i show "conn_frame c k s s'"
    by (auto simp: conn_frame_def s' modified_def same_slots_def chan_in_def)
qed

lemma pendingFunctors_upd_conn [simp]: "pendingFunctors (upd_conn c f s) = pendingFunctors s"
  by (simp add: upd_conn_def)

lemma queueWriteComplete_none: "conns s c = Some conn \<Longrightarrow> writeCompleteCallback conn = None \<Longrightarrow> queueWriteComplete c s = s"
  by (simp add: queueWriteComplete_def)

lemma sendInLoop_frame:
  fixes s :: "('u, 'g, 'h, 'm) cw"
  assumes ok: "conn_ok s c" and conn: "conns s c = Some conn" and run: "sendInLoop r c m s = Inr s'"
  shows "conn_frame c (connChannel conn) s s' \<and> (\<exists>conn'. conns s' c = Some conn' \<and> conn_rest conn' = conn_rest conn)
     \<and> (writeCompleteCallback conn = None \<longrightarrow> pendingFunctors s' = pendingFunctors s)"
proof -
  let ?k = "connChannel conn"
  obtain ch where ch: "poller_inv s" "chans s ?k = Some ch" "chan_watched s ?k" using ok conn by (auto simp: conn_ok_def)
  have thr: "isInLoopThread s" using ch(1) by (simp add: poller_inv_def)
  define direct where "direct = (\<not> isWriting ch \<and> readableBytes (outputBuffer conn) = 0)"
  define taken where "taken = (if direct then accepted r m else [])"
  define s2 where "s2 = (let s1 = upd_conn c (\<lambda>x. x\<lparr>wire := wire x @ taken\<rparr>) s in
     if direct \<and> (\<exists>n. r = WriteOk n) \<and> \<not> length taken < length m then queueWriteComplete c s1 else s1)"
  have s2: "same_poller s s2" "conns s2 = (conns s)(c \<mapsto> conn\<lparr>wire := wire conn @ taken\<rparr>)"
    using conn same_poller_upd_conn same_poller_trans [OF same_poller_upd_conn same_poller_queueWriteComplete]
    by (auto simp: s2_def Let_def)
  have p2: "pendingFunctors s2 = pendingFunctors s" if "writeCompleteCallback conn = None"
    using that conn by (auto simp: s2_def Let_def queueWriteComplete_def)
  show ?thesis
  proof (cases "length taken < length m")
    case False
    then have "s' = s2"
      using run conn ch(2) thr by (simp add: sendInLoop_def assertInLoopThread_def Let_def direct_def taken_def s2_def split: if_splits)
    then show ?thesis using conn_frame_same [OF s2(1)] s2(2) p2 by (simp add: conn_rest_def)
  next
    case True
    obtain ob where ob: "Buffer_append (outputBuffer conn) (drop (length taken) m) = Inr ob"
      "(if \<not> isWriting ch then enableWriting ?k (upd_conn c (\<lambda>x. x\<lparr>outputBuffer := ob\<rparr>) s2)
        else Inr (upd_conn c (\<lambda>x. x\<lparr>outputBuffer := ob\<rparr>) s2)) = Inr s'"
      using run conn ch(2) thr True
      by (auto simp: sendInLoop_def assertInLoopThread_def Let_def direct_def taken_def s2_def bindR_eq_Inr split: if_splits)
    let ?s3 = "upd_conn c (\<lambda>x. x\<lparr>outputBuffer := ob\<rparr>) s2"
    have sp: "same_poller s ?s3" using same_poller_trans [OF s2(1) same_poller_upd_conn] .
    have f3: "conn_frame c ?k s ?s3" by (rule conn_frame_same [OF sp]) (simp add: s2(2))
    have c3: "conns ?s3 c = Some (conn\<lparr>wire := wire conn @ taken, outputBuffer := ob\<rparr>)" by (simp add: s2(2))
    show ?thesis
    proof (cases "isWriting ch")
      case True
      then have "s' = ?s3" using ob(2) by simp
      then show ?thesis using f3 s2(2) p2 by (auto simp: conn_rest_def)
    next
      case False
      then have e: "setEvents ?k (ch_events ch OR kWriteEvent) ?s3 = Inr s'"
        using ob(2) same_poller_keeps(6) [OF sp] ch(2) by (simp add: enableWriting_def)
      have "poller_inv ?s3" "chan_watched ?s3 ?k" using same_poller_keeps [OF sp] ch by simp_all
      note f = setEvents_frame [OF this e]
      show ?thesis using conn_frame_trans [OF f3 f(1)] f(2,3) s2(2) p2 by (auto simp: conn_rest_def)
    qed
  qed
qed

lemma handleWrite_frame:
  fixes s :: "('u, 'g, 'h, 'm) cw"
  assumes ok: "conn_ok s c" and conn: "conns s c = Some conn" "connState conn = kConnected"
    and run: "TcpConnection_handleWrite r c s = Inr s'"
  shows "conn_frame c (connChannel conn) s s' \<and> (\<exists>conn'. conns s' c = Some conn' \<and> conn_rest conn' = conn_rest conn)
     \<and> (writeCompleteCallback conn = None \<longrightarrow> pendingFunctors s' = pendingFunctors s)"
proof -
  let ?k = "connChannel conn"
  obtain ch where ch: "poller_inv s" "chans s ?k = Some ch" "chan_watched s ?k" using ok conn by (auto simp: conn_ok_def)
  have thr: "isInLoopThread s" using ch(1) by (simp add: poller_inv_def)
  show ?thesis
  proof (cases "s' = s")
    case True
    then show ?thesis using conn by (simp add: conn_frame_refl)
  next
    case False
    then obtain n where r: "r = WriteOk n" "0 < n" "isWriting ch"
      using run conn ch(2) thr
      by (cases r) (auto simp: TcpConnection_handleWrite_def assertInLoopThread_def bindR_eq_Inr split: if_splits)
    define next_state where "next_state bytes ob = (let s1 = upd_conn c (\<lambda>x. x\<lparr>outputBuffer := ob, wire := wire x @ accepted r bytes\<rparr>) s in
        if readableBytes ob = 0 then bindR (disableWriting ?k s1) (\<lambda>s2. Inr (queueWriteComplete c s2)) else Inr s1)" for bytes ob
    have eq: "TcpConnection_handleWrite r c s =
      bindR (read_range (bufferData (outputBuffer conn)) (peek (outputBuffer conn)) (readableBytes (outputBuffer conn)))
        (\<lambda>bytes. bindR (retrieve (outputBuffer conn) n) (next_state bytes))"
      using conn ch(2) thr r by (simp add: TcpConnection_handleWrite_def assertInLoopThread_def next_state_def [abs_def] cong: if_cong)
    obtain bytes ob where "next_state bytes ob = Inr s'" using run unfolding eq by (auto simp: bindR_eq_Inr)
    note ob = this [unfolded next_state_def]
    let ?s1 = "upd_conn c (\<lambda>x. x\<lparr>outputBuffer := ob, wire := wire x @ accepted r bytes\<rparr>) s"
    have sp: "same_poller s ?s1" by (rule same_poller_upd_conn)
    have f1: "conn_frame c ?k s ?s1" by (rule conn_frame_same [OF sp]) simp
    have c1: "conns ?s1 c = Some (conn\<lparr>outputBuffer := ob, wire := wire conn @ accepted r bytes\<rparr>)" by (simp add: conn(1))
    show ?thesis
    proof (cases "readableBytes ob = 0")
      case False
      then have "s' = ?s1" using ob by simp
      then show ?thesis using f1 conn(1) by (auto simp: conn_rest_def)
    next
      case True
      then obtain s2 where s2: "setEvents ?k (ch_events ch AND NOT kWriteEvent) ?s1 = Inr s2" "s' = queueWriteComplete c s2"
        using ob same_poller_keeps(6) [OF sp] ch(2) by (auto simp: disableWriting_def bindR_eq_Inr)
      have "poller_inv ?s1" "chan_watched ?s1 ?k" using same_poller_keeps [OF sp] ch by simp_all
      note f = setEvents_frame [OF this s2(1)]
      have "conn_frame c ?k s2 s'" unfolding s2(2) by (rule conn_frame_same [OF same_poller_queueWriteComplete]) simp
      then have "conn_frame c ?k s s'" using conn_frame_trans [OF conn_frame_trans [OF f1 f(1)]] by blast
      moreover have "pendingFunctors s' = pendingFunctors s" if "writeCompleteCallback conn = None"
        using that f(2,3) conn(1) by (simp add: s2(2) queueWriteComplete_def)
      ultimately show ?thesis using f(2) conn(1) by (simp add: s2(2) conn_rest_def)
    qed
  qed
qed

text \<open>Sending on an open connection, in its loop thread.\<close>

lemma send_ok:
  assumes "conn_ok s c" and "map_option connState (conns s c) = Some kConnected" and "used s c + length m \<le> max_size"
  shows "\<exists>s'. send r c m s = Inr s' \<and> conn_ok s' c \<and> stream s' c = stream s c @ m \<and> used s' c \<le> used s c + length m
     \<and> map_option connState (conns s' c) = Some kConnected"
proof -
  have "isInLoopThread s" using assms(1) by (simp add: conn_ok_def poller_inv_def)
  then have "send r c m s = sendInLoop r c m s" using assms(2) by (auto simp: send_def)
  with sendInLoop_ok [OF assms(1,3), of r] assms(2) show ?thesis by fastforce
qed

text \<open>Shutting down in the loop thread: the write side closes now, or with the last writable event.\<close>

lemma shutdown_ok:
  assumes ok: "conn_ok s c" and st: "map_option connState (conns s c) = Some kConnected"
  shows "\<exists>s'. shutdown c s = Inr s' \<and> conn_ok s' c \<and> stream s' c = stream s c \<and> pending_out s' c = pending_out s c
     \<and> map_option connState (conns s' c) = Some kDisconnecting \<and> (pending_out s c = [] \<longrightarrow> shutdown_done s' c)"
proof -
  obtain conn where conn: "conns s c = Some conn" "connState conn = kConnected" "buffer_inv (outputBuffer conn)" "poller_inv s"
    using ok st by (auto simp: conn_ok_def)
  let ?s = "setState c kDisconnecting s"
  have sp: "same_poller s ?s" unfolding setState_def by (rule same_poller_upd_conn)
  have ok': "conn_ok ?s c"
    by (rule conn_ok_same [OF ok sp _ conn(1), where conn' = "conn\<lparr>connState := kDisconnecting\<rparr>"]) (simp_all add: setState_def conn)
  have po: "pending_out ?s c = pending_out s c" "stream ?s c = stream s c" by (simp_all add: pending_out_def stream_def setState_def conn(1))
  obtain s' where s': "shutdownInLoop c ?s = Inr s'" "conn_ok s' c" "stream s' c = stream ?s c" "pending_out s' c = pending_out ?s c"
    "if pending_out ?s c = [] then shutdown_done s' c else s' = ?s" using shutdownInLoop_ok [OF ok'] by blast
  have "map_option connState (conns s' c) = Some kDisconnecting"
    using s'(1) conn(1) by (auto simp: shutdownInLoop_def assertInLoopThread_def bindR_eq_Inr setState_def derefR_eq_Inr split: if_splits)
  moreover have "isInLoopThread ?s" using conn(4) same_poller_keeps(7) [OF sp] by (simp add: poller_inv_def)
  then have "shutdown c s = Inr s'" using conn s'(1) by (simp add: shutdown_def runInLoop_def)
  ultimately show ?thesis using s' po by (auto split: if_splits)
qed

end
