(* ===== verification/EchoServer.thy ===== *)
theory EchoServer
  imports ConnFrame
begin

text \<open>
  \<^verbatim>\<open>test9.cpp\<close>: the echo server, on the whole stack of poller, channels, connections and server. A round of its loop
  is a call of \<open>poll(2)\<close> with any set of ready connections and the events that follow.
\<close>

section \<open>The echo server, test9.cpp\<close>

datatype echo_cb = OnConnection | OnMessage

text \<open>Both callbacks also print a line.\<close>

definition echo_onConnection :: "nat \<Rightarrow> ('v, 'm) sw \<Rightarrow> ('v, 'm) sw result" where
  "echo_onConnection c s = bindR (derefR (conns s) c) (\<lambda>_. Inr s)"

definition echo_onMessage :: "write_result \<Rightarrow> nat \<Rightarrow> ('v, 'm) sw \<Rightarrow> ('v, 'm) sw result" where
  "echo_onMessage r c s =
     bindR (derefR (conns s) c) (\<lambda>conn.
       bindR (retrieveAsString (inputBuffer conn)) (\<lambda>(str, ib).
         send r c str (upd_conn c (\<lambda>x. x\<lparr>inputBuffer := ib\<rparr>) s)))"

definition echo_user :: "(nat \<Rightarrow> conn_io) \<Rightarrow> echo_cb \<Rightarrow> nat \<Rightarrow> timestamp \<Rightarrow> (echo_cb, 'm) sw \<Rightarrow> (echo_cb, 'm) sw result" where
  "echo_user io v c t s = (case v of OnConnection \<Rightarrow> echo_onConnection c s | OnMessage \<Rightarrow> echo_onMessage (ev_send (io c)) c s)"

text \<open>\<open>main\<close>, up to \<open>loop.loop()\<close>: \<open>fd\<close>, \<open>br\<close> and \<open>lr\<close> are what \<open>socket\<close>, \<open>bind\<close> and \<open>listen\<close> return.\<close>

definition echo_main :: "int \<Rightarrow> int \<Rightarrow> int \<Rightarrow> nat \<Rightarrow> (echo_cb, 'm) sw \<Rightarrow> (echo_cb, 'm) sw result" where
  "echo_main fd br lr k s =
     bindR (TcpServer_new (InetAddress_port 9981) fd br k s) (\<lambda>s1.
       TcpServer_start lr (TcpServer_setMessageCallback OnMessage (TcpServer_setConnectionCallback OnConnection s1)))"

text \<open>
  An open connection of the echo server with its channel: the callbacks are in place and no input is left over from
  an earlier event.
\<close>

definition echo_conn :: "(echo_cb, 'm) sw \<Rightarrow> nat \<Rightarrow> nat \<Rightarrow> bool" where
  "echo_conn s c k \<longleftrightarrow> conn_ok s c \<and> (\<exists>conn ch. conns s c = Some conn \<and> connChannel conn = k \<and> chans s k = Some ch
     \<and> connState conn = kConnected \<and> messageCallback conn = Some (UserCb OnMessage) \<and> writeCompleteCallback conn = None
     \<and> buffer_inv (inputBuffer conn) \<and> content (inputBuffer conn) = [] \<and> writerIndex (inputBuffer conn) = kCheapPrepend
     \<and> readCallback ch = Some (ConnRead c) \<and> writeCallback ch = Some (ConnWrite c) \<and> errorCallback ch = Some (ConnError c)
     \<and> closeCallback ch = Some (ConnClose c))"

abbreviation echo_exec :: "(nat \<Rightarrow> conn_io) \<Rightarrow> server_ch net_cb \<Rightarrow> timestamp \<Rightarrow> (echo_cb, 'm) sw \<Rightarrow> (echo_cb, 'm) sw result" where
  "echo_exec io \<equiv> conn_exec (server_user (echo_user io)) (\<lambda>_ _ s. Inr s) io"

text \<open>The bytes a connection receives in an event with this mask.\<close>

definition got :: "32 word \<Rightarrow> readv_result \<Rightarrow> string" where
  "got m r = (if readTest m then (case r of ReadErr _ \<Rightarrow> [] | ReadOk dat \<Rightarrow> dat) else [])"

lemma conn_ok_input:
  assumes "conn_ok s c"
  shows "conn_ok (upd_conn c (\<lambda>x. x\<lparr>inputBuffer := ib\<rparr>) s) c"
proof -
  from assms obtain conn where "conns s c = Some conn" "buffer_inv (outputBuffer conn)" by (auto simp: conn_ok_def)
  then show ?thesis
    by (intro conn_ok_same [OF assms same_poller_upd_conn, where conn' = "conn\<lparr>inputBuffer := ib\<rparr>" and conn = conn]) simp_all
qed

lemma upd_conn_twice: "upd_conn c f (upd_conn c g s) = upd_conn c (f \<circ> g) s"
  by (simp add: upd_conn_def option.map_comp)

lemma echo_read:
  fixes s :: "(echo_cb, 'm) sw"
  assumes e: "echo_conn s c k" and r: "r \<noteq> ReadOk []"
    and room: "used s c + kCheapPrepend + length (case r of ReadErr _ \<Rightarrow> [] | ReadOk dat \<Rightarrow> dat) \<le> max_size"
  shows "\<exists>s'. TcpConnection_handleRead (server_user (echo_user io)) r c t s = Inr s' \<and> echo_conn s' c k
     \<and> stream s' c = stream s c @ (case r of ReadErr _ \<Rightarrow> [] | ReadOk dat \<Rightarrow> dat)
     \<and> used s' c \<le> used s c + length (case r of ReadErr _ \<Rightarrow> [] | ReadOk dat \<Rightarrow> dat)
     \<and> conn_frame c k s s' \<and> pendingFunctors s' = pendingFunctors s"
proof -
  from e obtain conn ch where c: "conn_ok s c" "conns s c = Some conn" "connChannel conn = k" "chans s k = Some ch"
    "connState conn = kConnected" "messageCallback conn = Some (UserCb OnMessage)" "writeCompleteCallback conn = None"
    "buffer_inv (inputBuffer conn)" "content (inputBuffer conn) = []" "writerIndex (inputBuffer conn) = kCheapPrepend"
    "readCallback ch = Some (ConnRead c)" "writeCallback ch = Some (ConnWrite c)" "errorCallback ch = Some (ConnError c)"
    "closeCallback ch = Some (ConnClose c)"
    by (auto simp: echo_conn_def)
  show ?thesis
  proof (cases r)
    case (ReadErr x)
    let ?s = "upd_conn c (\<lambda>x. x\<lparr>inputBuffer := inputBuffer conn\<rparr>) s"
    have "?s = s" using c(2) by (simp add: upd_conn_def fun_upd_idem)
    then have "TcpConnection_handleRead (server_user (echo_user io)) r c t s = Inr s"
      using c(2) by (simp add: TcpConnection_handleRead_def ReadErr Buffer_readFd_def TcpConnection_handleError_def)
    with e ReadErr show ?thesis by (simp add: conn_frame_refl)
  next
    case (ReadOk dat)
    with r have ne: "dat \<noteq> []" by simp
    have "buffer_room (inputBuffer conn) (length dat)" using room ReadOk c(10) by (simp add: buffer_room_def)
    from readFd_spec [OF c(8) this] obtain ib where ib: "Buffer_readFd (inputBuffer conn) (ReadOk dat) = Inr (int (length dat), None, ib)"
      "buffer_inv ib" "content ib = dat" using c(9) by auto
    let ?s1 = "upd_conn c (\<lambda>x. x\<lparr>inputBuffer := retrieveAll ib\<rparr>) s" and ?conn = "conn\<lparr>inputBuffer := retrieveAll ib\<rparr>"
    have s1: "conn_ok ?s1 c" "conns ?s1 c = Some ?conn" "stream ?s1 c = stream s c" "used ?s1 c = used s c"
      using conn_ok_input [OF c(1)] c(2) by (simp_all add: stream_def used_def)
    obtain s' where s': "sendInLoop (ev_send (io c)) c dat ?s1 = Inr s'" "conn_ok s' c" "stream s' c = stream s c @ dat"
      "used s' c \<le> used s c + length dat"
      using sendInLoop_ok [OF s1(1), of dat "ev_send (io c)"] room ReadOk s1(3,4) by auto
    have thr: "isInLoopThread ?s1" using s1(1) by (simp add: conn_ok_def poller_inv_def)
    have "TcpConnection_handleRead (server_user (echo_user io)) r c t s = Inr s'"
      using c(2,5,6) ib ne s'(1) s1(2) thr retrieveAsString_spec [OF ib(2)]
      by (simp add: TcpConnection_handleRead_def ReadOk call_def server_user_def echo_user_def echo_onMessage_def send_def
          upd_conn_twice comp_def)
    moreover obtain conn' where fr: "conn_frame c k ?s1 s'" "conns s' c = Some conn'" "conn_rest conn' = conn_rest ?conn"
      "pendingFunctors s' = pendingFunctors s"
      using sendInLoop_frame [OF s1(1,2) s'(1)] c(3,7) by auto
    have f: "conn_frame c k s s'"
      by (rule conn_frame_trans [OF conn_frame_same [OF same_poller_upd_conn] fr(1)]) simp
    have cf: "connChannel conn' = k" "connState conn' = kConnected" "messageCallback conn' = Some (UserCb OnMessage)"
      "writeCompleteCallback conn' = None" "inputBuffer conn' = retrieveAll ib"
      using fr(3) c(3,5,6,7) by (cases conn', cases conn, simp add: conn_rest_def)+
    obtain ch' where ch': "chans s' k = Some ch'" "same_slots ch ch'" using f c(4) by (auto simp: conn_frame_def)
    have "echo_conn s' c k"
      unfolding echo_conn_def using s'(2) fr(2) cf ch' c(11-14) retrieveAll_spec [OF ib(2)]
      by (auto simp: same_slots_def retrieveAll_def)
    ultimately show ?thesis using s'(3,4) f fr(4) ReadOk by simp
  qed
qed

lemma echo_write:
  fixes s :: "(echo_cb, 'm) sw" and w :: write_result
  assumes e: "echo_conn s c k"
  defines "r \<equiv> offered w (length (pending_out s c))"
  shows "\<exists>s'. TcpConnection_handleWrite r c s = Inr s' \<and> echo_conn s' c k \<and> stream s' c = stream s c \<and> used s' c \<le> used s c
     \<and> conn_frame c k s s' \<and> pendingFunctors s' = pendingFunctors s"
proof -
  from e obtain conn ch where c: "conn_ok s c" "conns s c = Some conn" "connChannel conn = k" "chans s k = Some ch"
    "connState conn = kConnected" "messageCallback conn = Some (UserCb OnMessage)" "writeCompleteCallback conn = None"
    "buffer_inv (inputBuffer conn)" "content (inputBuffer conn) = []" "writerIndex (inputBuffer conn) = kCheapPrepend"
    "readCallback ch = Some (ConnRead c)" "writeCallback ch = Some (ConnWrite c)" "errorCallback ch = Some (ConnError c)"
    "closeCallback ch = Some (ConnClose c)"
    by (auto simp: echo_conn_def)
  obtain s' where s': "TcpConnection_handleWrite r c s = Inr s'" "conn_ok s' c" "stream s' c = stream s c" "used s' c \<le> used s c"
    using handleWrite_ok [OF c(1) progress_offered [of w], folded r_def] by blast
  obtain conn' where fr: "conn_frame c k s s'" "conns s' c = Some conn'" "conn_rest conn' = conn_rest conn"
    "pendingFunctors s' = pendingFunctors s"
    using handleWrite_frame [OF c(1,2,5) s'(1)] c(3,7) by auto
  have cf: "connChannel conn' = k" "connState conn' = kConnected" "messageCallback conn' = Some (UserCb OnMessage)"
    "writeCompleteCallback conn' = None" "inputBuffer conn' = inputBuffer conn"
    using fr(3) c(3,5,6,7) by (cases conn', cases conn, simp add: conn_rest_def)+
  obtain ch' where ch': "chans s' k = Some ch'" "same_slots ch ch'" using fr(1) c(4) by (auto simp: conn_frame_def)
  have "echo_conn s' c k"
    unfolding echo_conn_def using s'(2) fr(2) cf ch' c(8-14) by (auto simp: same_slots_def)
  with s' fr show ?thesis by blast
qed

text \<open>Bookkeeping on a channel: \<open>revents\<close> and \<open>eventHandling\<close>.\<close>

definition bookkeeping :: "('cb channel \<Rightarrow> 'cb channel) \<Rightarrow> bool" where
  "bookkeeping f \<longleftrightarrow> (\<forall>ch. ch_fd (f ch) = ch_fd ch \<and> ch_index (f ch) = ch_index ch \<and> ownerLoop (f ch) = ownerLoop ch
     \<and> ch_events (f ch) = ch_events ch \<and> readCallback (f ch) = readCallback ch \<and> writeCallback (f ch) = writeCallback ch
     \<and> errorCallback (f ch) = errorCallback ch \<and> closeCallback (f ch) = closeCallback ch)"

lemma bookkeeping_poller:
  assumes "bookkeeping f"
  shows "poller_inv (upd_chan x f s) = poller_inv s" "chan_watched (upd_chan x f s) = chan_watched s"
proof -
  have sl: "slot_of (upd_chan x f s) fd d i \<longleftrightarrow> slot_of s fd d i" for fd d i
    using assms unfolding slot_of_def bookkeeping_def by (auto simp: upd_chan_def)
  have pl: "pollFdList (upd_chan x f s) = pollFdList s" by (simp add: upd_chan_def)
  show "poller_inv (upd_chan x f s) = poller_inv s" by (simp add: poller_inv_def sl pl)
  show "chan_watched (upd_chan x f s) = chan_watched s"
    using assms by (auto simp: fun_eq_iff chan_watched_def chan_in_def sl pl bookkeeping_def chans_upd_chan)
qed

lemma bookkeeping_conn:
  fixes s :: "(echo_cb, 'm) sw"
  assumes f: "bookkeeping f"
  shows "echo_conn (upd_chan x f s) c k = echo_conn s c k" "conns (upd_chan x f s) = conns s"
    "stream (upd_chan x f s) c = stream s c" "used (upd_chan x f s) c = used s c" "pendingFunctors (upd_chan x f s) = pendingFunctors s"
proof -
  note b = bookkeeping_poller [OF f, of x s]
  have ff: "ch_events (f ch) = ch_events ch" "readCallback (f ch) = readCallback ch" "writeCallback (f ch) = writeCallback ch"
    "errorCallback (f ch) = errorCallback ch" "closeCallback (f ch) = closeCallback ch" for ch
    using f by (simp_all add: bookkeeping_def)
  show cs: "conns (upd_chan x f s) = conns s" and "stream (upd_chan x f s) c = stream s c" "used (upd_chan x f s) c = used s c"
    "pendingFunctors (upd_chan x f s) = pendingFunctors s"
    by (simp_all add: upd_chan_def stream_def used_def)
  define g where "g y = (if y = x then f else id)" for y
  have h: "chans (upd_chan x f s) y = map_option (g y) (chans s y)" for y by (simp add: chans_upd_chan g_def option.map_id)
  have gg: "ch_events (g y ch) = ch_events ch" "readCallback (g y ch) = readCallback ch" "writeCallback (g y ch) = writeCallback ch"
    "errorCallback (g y ch) = errorCallback ch" "closeCallback (g y ch) = closeCallback ch" for y ch
    by (simp_all add: g_def ff)
  have "conn_ok (upd_chan x f s) c = conn_ok s c"
  proof (cases "conns s c")
    case (Some conn)
    then show ?thesis by (cases "chans s (connChannel conn)") (simp_all add: conn_ok_def b cs h gg)
  qed (simp add: conn_ok_def cs)
  then show "echo_conn (upd_chan x f s) c k = echo_conn s c k"
    by (cases "chans s k") (simp_all add: echo_conn_def cs h gg)
qed

lemma bookkeeping_frame:
  fixes s :: "('u, 'g, 'h, 'm) cw"
  assumes f: "bookkeeping f" and r: "\<And>ch. ch_revents (f ch) = ch_revents ch"
  shows "conn_frame c k s (upd_chan k f s)"
proof -
  have "conns (upd_chan k f s) = conns s" by (simp add: upd_chan_def)
  moreover have "same_slots ch (f ch)" for ch using f r by (simp add: same_slots_def bookkeeping_def)
  ultimately show ?thesis by (simp add: conn_frame_def chans_upd_chan bookkeeping_poller [OF f])
qed

lemma bookkeeping_fields: "bookkeeping (\<lambda>ch. ch\<lparr>eventHandling := b\<rparr>)" "bookkeeping (\<lambda>ch. ch\<lparr>ch_revents := r\<rparr>)"
  by (simp_all add: bookkeeping_def)

lemma echo_exec_cases:
  "echo_exec io (ConnRead c) t s = TcpConnection_handleRead (server_user (echo_user io)) (ev_read (io c)) c t s"
  "echo_exec io (ConnWrite c) t s = TcpConnection_handleWrite (offered (ev_write (io c)) (length (pending_out s c))) c s"
  "echo_exec io (ConnError c) t s = TcpConnection_handleError c s"
  by (simp_all add: conn_exec_def)

lemma echo_conn_slots:
  "echo_conn s c k \<Longrightarrow> chans s k = Some ch \<Longrightarrow> readCallback ch = Some (ConnRead c) \<and> writeCallback ch = Some (ConnWrite c)
     \<and> errorCallback ch = Some (ConnError c) \<and> (\<exists>conn. conns s c = Some conn)"
  by (auto simp: echo_conn_def)

lemma echo_conn_chan: "echo_conn s c k \<Longrightarrow> \<exists>ch. chans s k = Some ch"
  by (auto simp: echo_conn_def)

lemma frame_revents: "conn_frame c k s s' \<Longrightarrow> map_option ch_revents (chans s k) = Some m \<Longrightarrow> map_option ch_revents (chans s' k) = Some m"
  by (auto simp: conn_frame_def same_slots_def)

lemma echo_event:
  fixes s :: "(echo_cb, 'm) sw"
  assumes e: "echo_conn s c k" and m: "map_option ch_revents (chans s k) = Some m" "\<not> closeTest m"
    and r: "ev_read (io c) \<noteq> ReadOk []" and room: "used s c + kCheapPrepend + length (got m (ev_read (io c))) \<le> max_size"
  shows "\<exists>s'. handleEvent (echo_exec io) k t s = Inr s' \<and> echo_conn s' c k \<and> stream s' c = stream s c @ got m (ev_read (io c))
     \<and> used s' c \<le> used s c + length (got m (ev_read (io c))) \<and> conn_frame c k s s' \<and> pendingFunctors s' = pendingFunctors s"
proof -
  let ?x = "echo_exec io"
  let ?s1 = "upd_chan k (\<lambda>ch. ch\<lparr>eventHandling := True\<rparr>) s"
  note b = bookkeeping_fields(1)
  have s1: "setEventHandling k True s = Inr ?s1" "echo_conn ?s1 c k" "stream ?s1 c = stream s c" "used ?s1 c = used s c"
    "conn_frame c k s ?s1" "pendingFunctors ?s1 = pendingFunctors s"
    using echo_conn_chan [OF e] e bookkeeping_conn [OF b, of k True s] bookkeeping_frame [OF b, of True c k s]
    by (auto simp: setEventHandling_def)
  have m1: "map_option ch_revents (chans ?s1 k) = Some m" by (rule frame_revents [OF s1(5) m(1)])
  have cl: "invoke ?x k t closeTest closeCallback ?s1 = Inr ?s1" using m1 m(2) by (auto simp: invoke_def)
  have er: "invoke ?x k t errorTest errorCallback ?s1 = Inr ?s1"
    using m1 echo_conn_slots [OF s1(2)] by (auto simp: invoke_def echo_exec_cases TcpConnection_handleError_def)
  have "\<exists>s2. invoke ?x k t readTest readCallback ?s1 = Inr s2 \<and> echo_conn s2 c k \<and> stream s2 c = stream s c @ got m (ev_read (io c))
     \<and> used s2 c \<le> used s c + length (got m (ev_read (io c))) \<and> conn_frame c k ?s1 s2 \<and> pendingFunctors s2 = pendingFunctors s"
  proof (cases "readTest m")
    case True
    then have "invoke ?x k t readTest readCallback ?s1 = TcpConnection_handleRead (server_user (echo_user io)) (ev_read (io c)) c t ?s1"
      using m1 echo_conn_slots [OF s1(2)] by (auto simp: invoke_def echo_exec_cases)
    with echo_read [OF s1(2) r, of io t] room s1(3,4,6) True show ?thesis by (auto simp: got_def)
  next
    case False
    then have "invoke ?x k t readTest readCallback ?s1 = Inr ?s1" using m1 by (auto simp: invoke_def)
    with s1 False show ?thesis by (simp add: got_def conn_frame_refl)
  qed
  then obtain s2 where s2: "invoke ?x k t readTest readCallback ?s1 = Inr s2" "echo_conn s2 c k"
    "stream s2 c = stream s c @ got m (ev_read (io c))" "used s2 c \<le> used s c + length (got m (ev_read (io c)))"
    "conn_frame c k ?s1 s2" "pendingFunctors s2 = pendingFunctors s" by blast
  have m2: "map_option ch_revents (chans s2 k) = Some m" by (rule frame_revents [OF s2(5) m1])
  have "\<exists>s3. invoke ?x k t writeTest writeCallback s2 = Inr s3 \<and> echo_conn s3 c k \<and> stream s3 c = stream s2 c
     \<and> used s3 c \<le> used s2 c \<and> conn_frame c k s2 s3 \<and> pendingFunctors s3 = pendingFunctors s2"
  proof (cases "writeTest m")
    case True
    then have "invoke ?x k t writeTest writeCallback s2
        = TcpConnection_handleWrite (offered (ev_write (io c)) (length (pending_out s2 c))) c s2"
      using m2 echo_conn_slots [OF s2(2)] by (auto simp: invoke_def echo_exec_cases)
    with echo_write [OF s2(2), of "ev_write (io c)"] show ?thesis by simp
  next
    case False
    then have "invoke ?x k t writeTest writeCallback s2 = Inr s2" using m2 by (auto simp: invoke_def)
    with s2(2) show ?thesis by (simp add: conn_frame_refl)
  qed
  then obtain s3 where s3: "invoke ?x k t writeTest writeCallback s2 = Inr s3" "echo_conn s3 c k" "stream s3 c = stream s2 c"
    "used s3 c \<le> used s2 c" "conn_frame c k s2 s3" "pendingFunctors s3 = pendingFunctors s2" by blast
  let ?s4 = "upd_chan k (\<lambda>ch. ch\<lparr>eventHandling := False\<rparr>) s3"
  have "setEventHandling k False s3 = Inr ?s4" using echo_conn_chan [OF s3(2)] by (auto simp: setEventHandling_def)
  then have "handleEvent ?x k t s = Inr ?s4" by (simp add: handleEvent_def s1(1) cl er s2(1) s3(1))
  moreover have "conn_frame c k s3 ?s4" by (rule bookkeeping_frame [OF b]) simp
  then have "conn_frame c k s ?s4" using conn_frame_trans s1(5) s2(5) s3(5) by metis
  ultimately show ?thesis using s2 s3 bookkeeping_conn [OF b, of k False s3] by simp
qed

text \<open>All connections of the server, each with its channel.\<close>

definition pairing :: "(nat \<times> nat) set \<Rightarrow> bool" where
  "pairing P \<longleftrightarrow> (\<forall>(c, k) \<in> P. \<forall>(d, x) \<in> P. c = d \<longleftrightarrow> k = x)"

lemma echo_conn_kept:
  fixes s s' :: "(echo_cb, 'm) sw"
  assumes "conns s' c = conns s c" "chans s' k = chans s k" "chan_watched s k \<Longrightarrow> chan_watched s' k" "poller_inv s'" "echo_conn s c k"
  shows "echo_conn s' c k" "stream s' c = stream s c" "used s' c = used s c"
  using assms(1) apply (simp_all add: stream_def used_def)
  using assms unfolding echo_conn_def conn_ok_def by auto

lemma frame_other:
  fixes s :: "(echo_cb, 'm) sw"
  assumes "conn_frame c0 k0 s s'" and "c \<noteq> c0" "k \<noteq> k0" and "echo_conn s c k" and "poller_inv s'"
  shows "echo_conn s' c k" "stream s' c = stream s c" "used s' c = used s c"
  using assms echo_conn_kept [of s' c s k] by (simp_all add: conn_frame_def)

definition served :: "nat list \<Rightarrow> (nat \<Rightarrow> 32 word) \<Rightarrow> (nat \<Rightarrow> conn_io) \<Rightarrow> nat \<Rightarrow> nat \<Rightarrow> string" where
  "served ks m io c k = (if k \<in> set ks then got (m k) (ev_read (io c)) else [])"

lemma echo_events:
  fixes s :: "(echo_cb, 'm) sw"
  assumes "pairing P" and "\<forall>(c, k) \<in> P. echo_conn s c k" and "poller_inv s" and "distinct ks" and "\<forall>k \<in> set ks. \<exists>c. (c, k) \<in> P"
    and "\<forall>k \<in> set ks. map_option ch_revents (chans s k) = Some (m k) \<and> \<not> closeTest (m k)"
    and "\<forall>c. ev_read (io c) \<noteq> ReadOk []"
    and "\<forall>(c, k) \<in> P. used s c + kCheapPrepend + length (served ks m io c k) \<le> max_size"
  shows "\<exists>s'. foldR (\<lambda>k. handleEvent (echo_exec io) k t) ks s = Inr s' \<and> poller_inv s' \<and> pendingFunctors s' = pendingFunctors s
     \<and> (\<forall>(c, k) \<in> P. echo_conn s' c k \<and> stream s' c = stream s c @ served ks m io c k
          \<and> used s' c \<le> used s c + length (served ks m io c k))"
  using assms
proof (induction ks arbitrary: s)
  case Nil
  then show ?case by (auto simp: served_def)
next
  case (Cons k0 ks)
  then obtain c0 where p0: "(c0, k0) \<in> P" by auto
  have nin: "k0 \<notin> set ks" using Cons.prems(4) by simp
  have sv0: "served (k0 # ks) m io c0 k0 = got (m k0) (ev_read (io c0))" by (simp add: served_def)
  obtain s1 where s1: "handleEvent (echo_exec io) k0 t s = Inr s1" "echo_conn s1 c0 k0"
    "stream s1 c0 = stream s c0 @ got (m k0) (ev_read (io c0))" "used s1 c0 \<le> used s c0 + length (got (m k0) (ev_read (io c0)))"
    "conn_frame c0 k0 s s1" "pendingFunctors s1 = pendingFunctors s"
    using echo_event [of s c0 k0 "m k0" io t] Cons.prems(2,6,7,8) p0 sv0 by fastforce
  have inv1: "poller_inv s1" using s1(2) by (simp add: echo_conn_def conn_ok_def)
  have other: "c \<noteq> c0 \<and> k \<noteq> k0" if "(c, k) \<in> P" "(c, k) \<noteq> (c0, k0)" for c k
    using Cons.prems(1) p0 that unfolding pairing_def by blast
  have step: "echo_conn s1 c k \<and> stream s1 c @ served ks m io c k = stream s c @ served (k0 # ks) m io c k
      \<and> used s1 c + length (served ks m io c k) \<le> used s c + length (served (k0 # ks) m io c k)" if p: "(c, k) \<in> P" for c k
  proof (cases "(c, k) = (c0, k0)")
    case True
    then show ?thesis using s1(2-4) nin by (simp add: served_def)
  next
    case False
    with other [OF p] have "c \<noteq> c0" "k \<noteq> k0" by auto
    with frame_other [OF s1(5) this _ inv1] Cons.prems(2) p show ?thesis by (auto simp: served_def)
  qed
  have rev: "map_option ch_revents (chans s1 k) = Some (m k) \<and> \<not> closeTest (m k)" if "k \<in> set ks" for k
    using Cons.prems(6) that nin s1(5) by (auto simp: conn_frame_def)
  have "\<exists>s'. foldR (\<lambda>k. handleEvent (echo_exec io) k t) ks s1 = Inr s' \<and> poller_inv s' \<and> pendingFunctors s' = pendingFunctors s1
     \<and> (\<forall>(c, k) \<in> P. echo_conn s' c k \<and> stream s' c = stream s1 c @ served ks m io c k
          \<and> used s' c \<le> used s1 c + length (served ks m io c k))"
  proof (rule Cons.IH [OF Cons.prems(1) _ inv1 _ _ _ Cons.prems(7)])
    show "\<forall>(c, k) \<in> P. used s1 c + kCheapPrepend + length (served ks m io c k) \<le> max_size"
      using step Cons.prems(8) by fastforce
  qed (use step rev Cons.prems(4,5) in auto)
  then show ?case using s1(1,6) step by fastforce
qed

section \<open>Rounds of the loop\<close>

text \<open>
  What the kernel does in one round: the mask it reports for each channel, its answers to each connection, and the
  time. The answer of \<open>poll(2)\<close> is the masks in the order of the array, and the number of non-zero ones.
\<close>

record net_round =
  rd_ready :: "nat \<Rightarrow> 16 word"
  rd_io :: "nat \<Rightarrow> conn_io"
  rd_time :: timestamp

definition poll_masks :: "(nat \<Rightarrow> 16 word) \<Rightarrow> ('cb, 'm) poller_scheme \<Rightarrow> 16 word list" where
  "poll_masks ready s = map (\<lambda>p. case channelMap s (pfd_fd p) of None \<Rightarrow> 0 | Some k \<Rightarrow> ready k) (pollFdList s)"

definition poll_answer :: "(nat \<Rightarrow> 16 word) \<Rightarrow> ('cb, 'm) poller_scheme \<Rightarrow> poll_result" where
  "poll_answer ready s = PollOk (int (length (filter (\<lambda>r. r \<noteq> 0) (poll_masks ready s)))) (poll_masks ready s)"

definition echo_round :: "net_round \<Rightarrow> (echo_cb, 'm) sw \<Rightarrow> (echo_cb, 'm) sw result" where
  "echo_round r s = EventLoop_round (echo_exec (rd_io r)) (\<lambda>_ s. Inr s) ([], poll_answer (rd_ready r) s, rd_time r) s"

text \<open>Only connections of \<open>P\<close> are reported, none hangs up, and a readable one has something to read or an error.\<close>

definition net_round_ok :: "(nat \<times> nat) set \<Rightarrow> net_round \<Rightarrow> bool" where
  "net_round_ok P r \<longleftrightarrow> (\<forall>k. rd_ready r k \<noteq> 0 \<longrightarrow> (\<exists>c. (c, k) \<in> P) \<and> 0 \<le> sint (rd_ready r k) \<and> \<not> closeTest (scast (rd_ready r k)))
     \<and> (\<forall>c. ev_read (rd_io r c) \<noteq> ReadOk [])"

definition received :: "net_round list \<Rightarrow> nat \<Rightarrow> nat \<Rightarrow> string" where
  "received rs c k = concat (map (\<lambda>r. got (scast (rd_ready r k)) (ev_read (rd_io r c))) rs)"

definition echo_ready :: "(echo_cb, 'm) sw \<Rightarrow> (nat \<times> nat) set \<Rightarrow> bool" where
  "echo_ready s P \<longleftrightarrow> poller_inv s \<and> pendingFunctors s = [] \<and> pairing P \<and> (\<forall>(c, k) \<in> P. echo_conn s c k)"

lemma slot_of_same:
  assumes "chans s' = chans s" "channelMap s' = channelMap s" "map pfd_fd (pollFdList s') = map pfd_fd (pollFdList s)"
  shows "slot_of s' = slot_of s"
proof -
  have "length (pollFdList s') = length (pollFdList s)" using assms(3) map_eq_imp_length_eq by blast
  moreover have "pfd_fd (pollFdList s' ! i) = pfd_fd (pollFdList s ! i)" if "i < length (pollFdList s)" for i
    using arg_cong [OF assms(3), of "\<lambda>l. l ! i"] that calculation by simp
  ultimately show ?thesis by (auto simp: slot_of_def fun_eq_iff assms(1,2))
qed

lemma echo_same:
  fixes s s' :: "(echo_cb, 'm) sw"
  assumes "chans s' = chans s" "channelMap s' = channelMap s" "map pfd_fd (pollFdList s') = map pfd_fd (pollFdList s)"
    and "conns s' = conns s" "loopId s' = loopId s" "isInLoopThread s' = isInLoopThread s"
  shows "poller_inv s' = poller_inv s" "echo_conn s' c k = echo_conn s c k" "stream s' c = stream s c" "used s' c = used s c"
proof -
  note sl = slot_of_same [OF assms(1-3)]
  have len: "length (pollFdList s') = length (pollFdList s)" using assms(3) map_eq_imp_length_eq by blast
  have nth: "pfd_fd (pollFdList s' ! i) = pfd_fd (pollFdList s ! i)" if "i < length (pollFdList s)" for i
    using arg_cong [OF assms(3), of "\<lambda>l. l ! i"] that len by simp
  show p: "poller_inv s' = poller_inv s" by (simp add: poller_inv_def sl len assms(2,6))
  have ci: "chan_in s' x ch i = chan_in s x ch i" for x ch i by (simp add: chan_in_def sl assms(1,5))
  have "i < length (pollFdList s)" if "chan_in s x ch i" for x ch i using that by (simp add: chan_in_def slot_of_def)
  then have "chan_in s x ch i \<and> pfd_fd (pollFdList s' ! i) = ch_fd ch \<longleftrightarrow> chan_in s x ch i \<and> pfd_fd (pollFdList s ! i) = ch_fd ch" for x ch i
    using nth by metis
  then have "chan_watched s' x = chan_watched s x" for x by (simp add: chan_watched_def ci)
  then show "echo_conn s' c k = echo_conn s c k" by (simp add: echo_conn_def conn_ok_def p assms(1,4))
  show "stream s' c = stream s c" "used s' c = used s c" by (simp_all add: stream_def used_def assms(4))
qed

lemma poll_fds_distinct:
  assumes "poller_inv s"
  shows "distinct (map pfd_fd (pollFdList s))"
proof (unfold distinct_conv_nth, intro allI impI)
  fix i j assume ij: "i < length (map pfd_fd (pollFdList s))" "j < length (map pfd_fd (pollFdList s))" "i \<noteq> j"
  then obtain fd c fd' c' where sl: "slot_of s fd c i" "slot_of s fd' c' j" using assms unfolding poller_inv_def by fastforce
  then have "fd \<noteq> fd'" using slot_of_index_unique ij(3) by blast
  with sl ij show "map pfd_fd (pollFdList s) ! i \<noteq> map pfd_fd (pollFdList s) ! j" by (auto simp: slot_of_def)
qed

lemma channelMap_fd:
  assumes "poller_inv s" and "channelMap s fd = Some k"
  shows "0 \<le> fd" "\<exists>ch. chans s k = Some ch \<and> ch_fd ch = fd"
  using assms by (auto simp: poller_inv_def slot_of_def)

text \<open>What \<open>poll\<close> reports, by channel.\<close>

lemma reported_masks:
  fixes s :: "('cb, 'm) poller_scheme"
  assumes inv: "poller_inv s" and w: "\<forall>k. ready k \<noteq> 0 \<longrightarrow> chan_watched s k"
  defines "ps \<equiv> map2 (\<lambda>p x. p\<lparr>pfd_revents := x\<rparr>) (pollFdList s) (poll_masks ready s)"
  shows "map pfd_fd ps = map pfd_fd (pollFdList s)" "distinct (map fst (reported s ps))"
    "set (reported s ps) = {(k, scast (ready k)) |k. ready k \<noteq> 0}"
proof -
  define g where "g p = p\<lparr>pfd_revents := (case channelMap s (pfd_fd p) of None \<Rightarrow> 0 | Some k \<Rightarrow> ready k)\<rparr>" for p :: pollfd
  have ps: "ps = map g (pollFdList s)"
    unfolding ps_def poll_masks_def g_def by (rule nth_equalityI) auto
  show fds: "map pfd_fd ps = map pfd_fd (pollFdList s)" by (simp add: ps g_def comp_def)
  have act: "active_entry (g p) \<longleftrightarrow> (\<exists>k. channelMap s (pfd_fd p) = Some k \<and> ready k \<noteq> 0)" for p
    by (auto simp: active_entry_def g_def split: option.splits)
  have "distinct (map pfd_fd (filter active_entry ps))" using poll_fds_distinct [OF inv] fds by (simp add: distinct_map_filter)
  moreover have "inj_on (\<lambda>fd. the (channelMap s fd)) (pfd_fd ` set (filter active_entry ps))"
  proof (rule inj_onI)
    fix fd fd' assume "fd \<in> pfd_fd ` set (filter active_entry ps)" "fd' \<in> pfd_fd ` set (filter active_entry ps)"
      and eq: "the (channelMap s fd) = the (channelMap s fd')"
    then obtain k k' where "channelMap s fd = Some k" "channelMap s fd' = Some k'" using act by (auto simp: ps g_def)
    then have "chans s k \<noteq> None" "fd = ch_fd (the (chans s k))" "fd' = ch_fd (the (chans s k'))"
      using channelMap_fd(2) [OF inv] by fastforce+
    moreover have "k = k'" using eq \<open>channelMap s fd = Some k\<close> \<open>channelMap s fd' = Some k'\<close> by simp
    ultimately show "fd = fd'" by simp
  qed
  ultimately have "distinct (map (\<lambda>fd. the (channelMap s fd)) (map pfd_fd (filter active_entry ps)))"
    by (subst distinct_map) simp
  then show "distinct (map fst (reported s ps))" by (simp add: reported_def comp_def)
  have "(k, scast (ready k)) \<in> set (reported s ps)" if "ready k \<noteq> 0" for k
  proof -
    from w that obtain ch i where i: "chan_in s k ch i" "pfd_fd (pollFdList s ! i) = ch_fd ch" by (auto simp: chan_watched_def)
    then have "i < length (pollFdList s)" "channelMap s (pfd_fd (pollFdList s ! i)) = Some k" by (auto simp: chan_in_def slot_of_def)
    then have "g (pollFdList s ! i) \<in> set (filter active_entry ps)" "channelMap s (pfd_fd (g (pollFdList s ! i))) = Some k"
      "pfd_revents (g (pollFdList s ! i)) = ready k"
      using that act [of "pollFdList s ! i"] by (simp_all add: ps) (simp_all add: g_def)
    then show ?thesis unfolding reported_def by force
  qed
  moreover have "\<exists>k. x = (k, scast (ready k)) \<and> ready k \<noteq> 0" if "x \<in> set (reported s ps)" for x
    using that by (auto simp: reported_def ps act) (auto simp: g_def)
  ultimately show "set (reported s ps) = {(k, scast (ready k)) |k. ready k \<noteq> 0}" by blast
qed

lemma mark_all_echo:
  fixes s :: "(echo_cb, 'm) sw"
  shows "echo_conn (mark_all L s) c k = echo_conn s c k \<and> stream (mark_all L s) c = stream s c \<and> used (mark_all L s) c = used s c
     \<and> pendingFunctors (mark_all L s) = pendingFunctors s \<and> poller_inv (mark_all L s) = poller_inv s"
proof (induction L arbitrary: s)
  case (Cons a L)
  obtain x r where "a = (x, r)" by force
  with Cons bookkeeping_conn [OF bookkeeping_fields(2), of x r s] bookkeeping_poller [OF bookkeeping_fields(2), of x r s]
  show ?case by (simp add: mark_all_def)
qed (simp add: mark_all_def)

lemma mark_all_other: "k \<notin> fst ` set L \<Longrightarrow> chans (mark_all L s) k = chans s k"
  by (induction L arbitrary: s) (auto simp: mark_all_def chans_upd_chan)

lemma mark_all_revents:
  "distinct (map fst L) \<Longrightarrow> (k, m) \<in> set L \<Longrightarrow> chans s k \<noteq> None \<Longrightarrow> map_option ch_revents (chans (mark_all L s) k) = Some m"
proof (induction L arbitrary: s)
  case (Cons a L)
  obtain x r where a: "a = (x, r)" by force
  let ?s = "upd_chan x (\<lambda>ch. ch\<lparr>ch_revents := r\<rparr>) s"
  have eq: "mark_all (a # L) s = mark_all L ?s" by (simp add: mark_all_def a)
  show ?case
  proof (cases "a = (k, m)")
    case True
    then have "k \<notin> fst ` set L" using Cons.prems(1) by simp
    with mark_all_other [OF this, of ?s] True a Cons.prems(3) show ?thesis unfolding eq by (auto simp: chans_upd_chan)
  next
    case False
    moreover have "chans ?s k \<noteq> None" using Cons.prems(3) by (auto simp: chans_upd_chan)
    ultimately show ?thesis using Cons.prems Cons.IH [of ?s] unfolding eq by simp
  qed
qed simp

lemma poll_answer_ok:
  fixes s :: "(echo_cb, 'm) sw"
  assumes inv: "poller_inv s" and w: "\<forall>k. ready k \<noteq> 0 \<longrightarrow> chan_watched s k \<and> 0 \<le> sint (ready k)"
  shows "\<exists>L s'. Poller_poll (poll_answer ready s) now [] s = Inr (now, map fst L, mark_all L s') \<and> distinct (map fst L)
     \<and> set L = {(k, scast (ready k)) |k. ready k \<noteq> 0} \<and> chans s' = chans s \<and> channelMap s' = channelMap s
     \<and> map pfd_fd (pollFdList s') = map pfd_fd (pollFdList s) \<and> conns s' = conns s \<and> loopId s' = loopId s
     \<and> isInLoopThread s' = isInLoopThread s \<and> pendingFunctors s' = pendingFunctors s"
proof -
  let ?ps = "map2 (\<lambda>p x. p\<lparr>pfd_revents := x\<rparr>) (pollFdList s) (poll_masks ready s)"
  have w': "\<forall>k. ready k \<noteq> 0 \<longrightarrow> chan_watched s k" using w by blast
  note rep = reported_masks [OF inv w']
  have len: "length (poll_masks ready s) = length (pollFdList s)" by (simp add: poll_masks_def)
  moreover have "\<forall>r \<in> set (poll_masks ready s). 0 \<le> sint r"
  proof
    fix r assume "r \<in> set (poll_masks ready s)"
    then obtain p :: pollfd where "r = (case channelMap s (pfd_fd p) of None \<Rightarrow> 0 | Some k \<Rightarrow> ready k)" by (auto simp: poll_masks_def)
    with w show "0 \<le> sint r" by (cases "r = 0") (auto split: option.splits)
  qed
  moreover have "\<forall>i < length (poll_masks ready s). pfd_fd (pollFdList s ! i) < 0 \<longrightarrow> poll_masks ready s ! i = 0"
    using channelMap_fd(1) [OF inv] by (fastforce simp: poll_masks_def split: option.splits)
  ultimately have "Poller_poll (poll_answer ready s) now [] s =
      Inr (now, [] @ map fst (reported s ?ps), mark_all (reported s ?ps) (s\<lparr>pollFdList := ?ps\<rparr>))"
    unfolding poll_answer_def by (intro Poller_poll_marks [OF inv]) simp_all
  with rep show ?thesis
    by (intro exI [of _ "reported s ?ps"] exI [of _ "s\<lparr>pollFdList := ?ps\<rparr>"]) (simp add: isInLoopThread_def)
qed

lemma echo_round_ok:
  fixes s :: "(echo_cb, 'm) sw"
  assumes ready: "echo_ready s P" and ok: "net_round_ok P r"
    and room: "\<forall>(c, k) \<in> P. used s c + kCheapPrepend + length (got (scast (rd_ready r k)) (ev_read (rd_io r c))) \<le> max_size"
  shows "\<exists>s'. echo_round r s = Inr s' \<and> echo_ready s' P
     \<and> (\<forall>(c, k) \<in> P. stream s' c = stream s c @ got (scast (rd_ready r k)) (ev_read (rd_io r c))
          \<and> used s' c \<le> used s c + length (got (scast (rd_ready r k)) (ev_read (rd_io r c))))"
proof -
  let ?m = "\<lambda>k. scast (rd_ready r k) :: 32 word" and ?io = "rd_io r"
  define s0 where "s0 = s\<lparr>activeChannels := []\<rparr>"
  have s0: "chans s0 = chans s" "channelMap s0 = channelMap s" "pollFdList s0 = pollFdList s" "conns s0 = conns s"
    "loopId s0 = loopId s" "isInLoopThread s0 = isInLoopThread s" "pendingFunctors s0 = []" "activeChannels s0 = []"
    using ready by (simp_all add: s0_def isInLoopThread_def echo_ready_def)
  have e0: "poller_inv s0 = poller_inv s" "echo_conn s0 c k = echo_conn s c k" "stream s0 c = stream s c" "used s0 c = used s c" for c k
    using echo_same [of s0 s] s0 by simp_all
  have "\<forall>k. rd_ready r k \<noteq> 0 \<longrightarrow> chan_watched s0 k \<and> 0 \<le> sint (rd_ready r k)"
  proof (intro allI impI)
    fix k assume "rd_ready r k \<noteq> 0"
    with ok obtain c where "(c, k) \<in> P" "0 \<le> sint (rd_ready r k)" by (auto simp: net_round_ok_def)
    moreover from this have "echo_conn s0 c k" using ready e0(2) by (auto simp: echo_ready_def)
    ultimately show "chan_watched s0 k \<and> 0 \<le> sint (rd_ready r k)" by (auto simp: echo_conn_def conn_ok_def)
  qed
  moreover have "poller_inv s0" using ready e0(1) by (simp add: echo_ready_def)
  ultimately obtain L s1 where L: "Poller_poll (poll_answer (rd_ready r) s0) (rd_time r) [] s0 = Inr (rd_time r, map fst L, mark_all L s1)"
    "distinct (map fst L)" "set L = {(k, ?m k) |k. rd_ready r k \<noteq> 0}"
    and s1: "chans s1 = chans s0" "channelMap s1 = channelMap s0" "map pfd_fd (pollFdList s1) = map pfd_fd (pollFdList s0)"
      "conns s1 = conns s0" "loopId s1 = loopId s0" "isInLoopThread s1 = isInLoopThread s0" "pendingFunctors s1 = pendingFunctors s0"
    using poll_answer_ok [of s0 "rd_ready r" "rd_time r"] by blast
  note e1 = echo_same [OF s1(1-6)]
  define s3 where "s3 = (mark_all L s1)\<lparr>activeChannels := map fst L, pollReturnTime := rd_time r\<rparr>"
  have s3: "poller_inv s3" "pendingFunctors s3 = []" "chans s3 = chans (mark_all L s1)"
    "echo_conn s3 c k = echo_conn s c k" "stream s3 c = stream s c" "used s3 c = used s c" for c k
    using echo_same [of s3 "mark_all L s1"] mark_all_echo [of L s1] e0 e1 ready s0(7) s1(7)
    by (simp_all add: s3_def isInLoopThread_def echo_ready_def)
  have sv: "served (map fst L) ?m ?io c k = got (?m k) (ev_read (?io c))" for c k
    using L(3) by (auto simp: served_def got_def readTest_def image_iff)
  have mk: "k \<in> set (map fst L) \<longleftrightarrow> rd_ready r k \<noteq> 0" for k using L(3) by force
  have "\<exists>s4. foldR (\<lambda>k. handleEvent (echo_exec ?io) k (rd_time r)) (map fst L) s3 = Inr s4 \<and> poller_inv s4
     \<and> pendingFunctors s4 = pendingFunctors s3
     \<and> (\<forall>(c, k) \<in> P. echo_conn s4 c k \<and> stream s4 c = stream s3 c @ served (map fst L) ?m ?io c k
          \<and> used s4 c \<le> used s3 c + length (served (map fst L) ?m ?io c k))"
  proof (rule echo_events [OF _ _ s3(1) L(2)])
    show "\<forall>k \<in> set (map fst L). map_option ch_revents (chans s3 k) = Some (?m k) \<and> \<not> closeTest (?m k)"
    proof
      fix k assume k: "k \<in> set (map fst L)"
      then obtain c where c: "(c, k) \<in> P" "\<not> closeTest (?m k)" using ok mk by (auto simp: net_round_ok_def)
      then have "echo_conn s1 c k" using ready e0 e1 by (auto simp: echo_ready_def)
      with mark_all_revents [OF L(2), of k "?m k" s1] k mk L(3) c(2) s3(3) echo_conn_chan [of s1 c k]
      show "map_option ch_revents (chans s3 k) = Some (?m k) \<and> \<not> closeTest (?m k)" by auto
    qed
  qed (use ready ok mk room sv s3(4-6) in \<open>auto simp: echo_ready_def net_round_ok_def\<close>)
  then obtain s4 where s4: "foldR (\<lambda>k. handleEvent (echo_exec ?io) k (rd_time r)) (map fst L) s3 = Inr s4" "poller_inv s4"
    "pendingFunctors s4 = []" "\<forall>(c, k) \<in> P. echo_conn s4 c k \<and> stream s4 c = stream s c @ got (?m k) (ev_read (?io c))
          \<and> used s4 c \<le> used s c + length (got (?m k) (ev_read (?io c)))"
    using s3(2,5,6) sv by auto
  let ?s5 = "s4\<lparr>callingPendingFunctors := False, pendingFunctors := []\<rparr>"
  have "poll_answer (rd_ready r) s = poll_answer (rd_ready r) s0" by (simp add: poll_answer_def poll_masks_def s0)
  then have "echo_round r s = Inr ?s5"
    using L(1) s4(1,3) s0(8)
    by (simp add: echo_round_def EventLoop_round_def Let_def s0_def [symmetric] s3_def [symmetric] doPendingFunctors_def swapFunctors_def)
  moreover have "poller_inv ?s5 = poller_inv s4" "echo_conn ?s5 c k = echo_conn s4 c k" "stream ?s5 c = stream s4 c" "used ?s5 c = used s4 c" for c k
    using echo_same [of ?s5 s4] by (simp_all add: isInLoopThread_def)
  ultimately show ?thesis using s4 ready by (auto simp: echo_ready_def)
qed

lemma echo_rounds_ok:
  fixes s :: "(echo_cb, 'm) sw"
  shows "echo_ready s P \<Longrightarrow> \<forall>r \<in> set rs. net_round_ok P r \<Longrightarrow>
     \<forall>(c, k) \<in> P. used s c + kCheapPrepend + length (received rs c k) \<le> max_size \<Longrightarrow>
     \<exists>s'. foldR echo_round rs s = Inr s' \<and> echo_ready s' P \<and> (\<forall>(c, k) \<in> P. stream s' c = stream s c @ received rs c k)"
proof (induction rs arbitrary: s)
  case Nil
  then show ?case by (auto simp: received_def)
next
  case (Cons r rs)
  have rc: "received (r # rs) c k = got (scast (rd_ready r k)) (ev_read (rd_io r c)) @ received rs c k" for c k
    by (simp add: received_def)
  obtain s1 where s1: "echo_round r s = Inr s1" "echo_ready s1 P"
    "\<forall>(c, k) \<in> P. stream s1 c = stream s c @ got (scast (rd_ready r k)) (ev_read (rd_io r c))
       \<and> used s1 c \<le> used s c + length (got (scast (rd_ready r k)) (ev_read (rd_io r c)))"
    using echo_round_ok [OF Cons.prems(1), of r] Cons.prems(2,3) rc by fastforce
  have "\<forall>(c, k) \<in> P. used s1 c + kCheapPrepend + length (received rs c k) \<le> max_size"
    using s1(3) Cons.prems(3) rc by fastforce
  from Cons.IH [OF s1(2) _ this] Cons.prems(2) s1 rc show ?case by fastforce
qed

section \<open>A connection comes\<close>

lemma opened_watched:
  fixes s :: "('v, 'm) sw"
  assumes "channelMap s fd = None" and "0 \<le> fd" and "x \<noteq> k" and "chan_watched s x"
  shows "chan_watched (opened c (server_conn k name fd la peer s) (server_chan c fd s) (with_conn c k fd la peer s)) x"
proof -
  let ?w = "setState c kConnected (with_conn c k fd la peer s)" and ?ch = "server_chan c fd s"
  obtain cx j where j: "chan_in s x cx j" "pfd_fd (pollFdList s ! j) = ch_fd cx" using assms(4) by (auto simp: chan_watched_def)
  have w: "pollFdList ?w = pollFdList s" "channelMap ?w = channelMap s" "chans ?w = (chans s)(k \<mapsto> ?ch)" "loopId ?w = loopId s"
    by (simp_all add: setState_def upd_conn_def with_conn_def Let_def)
  have ch: "ch_fd ?ch = fd" "ch_index ?ch = -1"
    by (simp_all add: server_chan_def setErrorCallback_def setCloseCallback_def setWriteCallback_def setReadCallback_def Channel_new_def)
  have sl: "slot_of s (ch_fd cx) x j" using j(1) by (simp add: chan_in_def)
  then have jl: "j < length (pollFdList s)" "ch_fd cx \<noteq> fd" using assms(1) by (auto simp: slot_of_def)
  have "slot_of ?w (ch_fd cx) x j" using sl assms(3) by (simp add: slot_of_def w)
  then have "slot_of (added k kReadEvent ?ch ?w) (ch_fd cx) x j"
    using slot_of_added [of ?w k ?ch] assms(1,2) jl(2) by (simp add: w ch)
  then have "chan_in (added k kReadEvent ?ch ?w) x cx j"
    using j(1) assms(3) by (simp add: chan_in_def added_sel w)
  moreover have "pfd_fd (pollFdList (added k kReadEvent ?ch ?w) ! j) = ch_fd cx" using j(2) jl(1) by (simp add: added_sel w nth_append)
  moreover have "connChannel (server_conn k name fd la peer s) = k" by (simp add: server_conn_def)
  ultimately show ?thesis unfolding opened_def chan_watched_def by auto
qed

lemma echo_accepts:
  fixes s :: "(echo_cb, 'm) sw"
  assumes inv: "server_inv s" and ready: "echo_ready s P"
    and cbs: "srvConnectionCallback s = Some OnConnection" "srvMessageCallback s = Some OnMessage" "srvWriteCompleteCallback s = None"
    and new: "conns s c = None" "k \<notin> ran (channelMap s)" "0 \<le> fd" "channelMap s fd = None"
  shows "\<exists>s'. newConnection (echo_user io) c k la t fd peer s = Inr s' \<and> server_inv s' \<and> echo_ready s' (insert (c, k) P)
     \<and> stream s' c = [] \<and> used s' c = kCheapPrepend \<and> (\<forall>(d, x) \<in> P. stream s' d = stream s d \<and> used s' d = used s d)
     \<and> (\<forall>d. d \<noteq> c \<longrightarrow> conns s' d = conns s d) \<and> channelMap s' = (channelMap s)(fd \<mapsto> k)
     \<and> srvConnectionCallback s' = srvConnectionCallback s \<and> srvMessageCallback s' = srvMessageCallback s
     \<and> srvWriteCompleteCallback s' = srvWriteCompleteCallback s"
proof -
  define name where "name = serverName s @ connIdText (nextConnId s)"
  let ?la = "InetAddress (getLocalAddr la)"
  let ?w = "with_conn c k fd ?la peer s" and ?conn = "server_conn k name fd ?la peer s" and ?ch = "server_chan c fd s"
  let ?o = "opened c ?conn ?ch ?w" and ?conn' = "?conn\<lparr>connState := kConnected\<rparr>"
  have pinv: "poller_inv s" using inv by (simp add: server_inv_def)
  note w = with_conn_poller [OF pinv new(2-4), of c ?la peer]
  have ch: "chans ?w k = Some ?ch" "ch_events ?ch = 0"
    by (simp_all add: with_conn_def Let_def server_chan_def setErrorCallback_def setCloseCallback_def setWriteCallback_def setReadCallback_def Channel_new_def)
  have cn: "conns ?w c = Some ?conn" "connState ?conn = kConnecting" "connChannel ?conn = k" "outputBuffer ?conn = Buffer_new"
    "connectionCallback ?conn = Some (UserCb OnConnection)" "connName ?conn = name"
    by (simp_all add: with_conn_def Let_def server_conn_def name_def cbs)
  note o = connectEstablished_opens [OF w(1) cn(1,2) _ _ ch(2) cn(4), unfolded cn(3), OF w(2) ch(1)]
  have run: "newConnection (echo_user io) c k la t fd peer s = Inr ?o"
    using newConnection_sets_up [of s "echo_user io" c k la t fd peer] poller_inv_thread [OF pinv] inv o(1,3)
    by (simp add: server_inv_def cn(5) call_def server_user_def echo_user_def echo_onConnection_def)
  have f: "conns ?o = (conns s)(c \<mapsto> ?conn')" "chans ?o = (chans s)(k \<mapsto> ?ch\<lparr>ch_events := kReadEvent, ch_index := int (length (pollFdList s))\<rparr>)"
    "connectionMap ?o = (connectionMap s)(name \<mapsto> c)" "nextConnId ?o = nextConnId s + 1" "serverName ?o = serverName s"
    "serverPool ?o = serverPool s" "loopId ?o = loopId s" "pendingFunctors ?o = pendingFunctors s"
    "channelMap ?o = (channelMap s)(fd \<mapsto> k)" "srvConnectionCallback ?o = srvConnectionCallback s"
    "srvMessageCallback ?o = srvMessageCallback s" "srvWriteCompleteCallback ?o = srvWriteCompleteCallback s"
    by (simp_all add: server_chan_def setErrorCallback_def setCloseCallback_def setWriteCallback_def setReadCallback_def Channel_new_def opened_def added_def setState_def upd_conn_def with_conn_def Let_def name_def server_conn_def)
  have pinv': "poller_inv ?o" using o(2) by (simp add: conn_ok_def)
  have "server_inv ?o"
    using f cn(6) pinv' by (intro server_inv_with_conn [OF inv new(1), where conn = ?conn']) (simp_all add: name_def)
  moreover have e0: "content Buffer_new = []" "writerIndex Buffer_new = kCheapPrepend"
    using Buffer_new_inv by (simp_all add: Buffer_new_def)
  have "echo_conn ?o c k" unfolding echo_conn_def
    using o(2) f(1,2) e0 Buffer_new_inv cbs
    by (simp add: server_conn_def server_chan_def setErrorCallback_def setCloseCallback_def setWriteCallback_def setReadCallback_def)
  moreover have "stream ?o c = []" "used ?o c = kCheapPrepend"
    using f(1) e0 by (simp_all add: stream_def used_def server_conn_def)
  moreover have old: "d \<noteq> c \<and> x \<noteq> k \<and> echo_conn ?o d x \<and> stream ?o d = stream s d \<and> used ?o d = used s d" if p: "(d, x) \<in> P" for d x
  proof -
    have e: "echo_conn s d x" using ready p by (auto simp: echo_ready_def)
    then have "d \<noteq> c" "chan_watched s x" using new(1) by (auto simp: echo_conn_def conn_ok_def)
    moreover from this(2) have "x \<noteq> k" using new(2) by (auto simp: chan_watched_def chan_in_def slot_of_def ran_def)
    ultimately show ?thesis
      using echo_conn_kept [of ?o d s x, OF _ _ _ pinv' e] opened_watched [OF new(4,3)] f(1,2) by simp
  qed
  moreover have "pairing (insert (c, k) P)"
    using ready old unfolding echo_ready_def pairing_def by blast
  ultimately show ?thesis using run ready f(1,8-12) pinv' by (auto simp: echo_ready_def)
qed

text \<open>A server's \<open>main\<close> up to the loop: the constructor makes a server that does not listen yet, \<open>start\<close> makes it listen.\<close>

lemma server_created:
  fixes s :: "('v, 'm) sw"
  assumes "poller_inv s" "0 \<le> fd" "0 \<le> br" "k \<notin> ran (channelMap s)"
  shows "\<exists>s'. TcpServer_new addr fd br k s = Inr s' \<and> poller_inv s' \<and> poll_interest s' = poll_interest s \<and> channelMap s' = channelMap s
     \<and> chans s' k = Some (setReadCallback (OtherCb AcceptorRead) (Channel_new (loopId s) fd)) \<and> loopId s' = loopId s
     \<and> pendingFunctors s' = pendingFunctors s \<and> conns s' = conns s \<and> \<not> listening s' \<and> acceptChannel s' = k \<and> hasNewConnectionCallback s'
     \<and> srvWriteCompleteCallback s' = srvWriteCompleteCallback s \<and> nextConnId s' = 1 \<and> connectionMap s' = Map.empty
     \<and> serverPool s' = EventLoopThreadPool_new (loopId s) \<and> \<not> serverStarted s'"
proof -
  let ?ch = "setReadCallback (OtherCb AcceptorRead) (Channel_new (loopId s) fd)"
  obtain s2 where s2: "TcpServer_new addr fd br k s = Inr s2" "pollFdList s2 = pollFdList s" "channelMap s2 = channelMap s"
    "chans s2 = (chans s)(k \<mapsto> ?ch)" "loopId s2 = loopId s" "isInLoopThread s2 = isInLoopThread s" "pendingFunctors s2 = pendingFunctors s"
    "conns s2 = conns s" "\<not> listening s2" "acceptChannel s2 = k" "hasNewConnectionCallback s2"
    "srvWriteCompleteCallback s2 = srvWriteCompleteCallback s"
    "nextConnId s2 = 1" "connectionMap s2 = Map.empty" "serverPool s2 = EventLoopThreadPool_new (loopId s)" "\<not> serverStarted s2"
    using assms(2,3)
    by (simp add: TcpServer_new_def Acceptor_new_def createNonblockingOrDie_def bindAddress_def bindOrDie_def isInLoopThread_def)
  have "slot_of s2 f d i \<longleftrightarrow> slot_of s f d i" for f d i using assms(4) by (auto simp: slot_of_def s2 ran_def)
  then have "poller_inv s2" using assms(1) by (simp add: poller_inv_def s2)
  moreover have "poll_interest s2 = poll_interest s" by (simp add: poll_interest_def s2 fun_eq_iff)
  ultimately show ?thesis using s2 by (intro exI [of _ s2]) simp
qed

lemma server_starts:
  fixes s :: "('v, 'm) sw"
  assumes inv: "poller_inv s" and ch: "chans s k = Some (setReadCallback cb (Channel_new (loopId s) fd))" "channelMap s fd = None" "0 \<le> fd"
    and s: "\<not> listening s" "\<not> serverStarted s" "acceptChannel s = k" and lr: "0 \<le> lr"
  shows "\<exists>s'. TcpServer_start lr s = Inr s' \<and> poller_inv s' \<and> poll_interest s' = (poll_interest s)(fd \<mapsto> kReadEvent)
     \<and> channelMap s' = (channelMap s)(fd \<mapsto> k) \<and> listening s' \<and> loopId s' = loopId s \<and> pendingFunctors s' = pendingFunctors s
     \<and> conns s' = conns s \<and> hasNewConnectionCallback s' = hasNewConnectionCallback s \<and> srvConnectionCallback s' = srvConnectionCallback s
     \<and> srvMessageCallback s' = srvMessageCallback s \<and> srvWriteCompleteCallback s' = srvWriteCompleteCallback s
     \<and> nextConnId s' = nextConnId s \<and> connectionMap s' = connectionMap s \<and> serverPool s' = serverPool s"
proof -
  let ?ch = "setReadCallback cb (Channel_new (loopId s) fd)"
  obtain sock where sock: "Socket_listen lr (acceptSocket s) = Inr sock" using lr by (simp add: Socket_listen_def listenOrDie_def)
  let ?s3 = "s\<lparr>serverStarted := True, listening := True, acceptSocket := sock\<rparr>"
  let ?s' = "added k kReadEvent ?ch ?s3"
  have f3: "pollFdList ?s3 = pollFdList s" "channelMap ?s3 = channelMap s" "chans ?s3 = chans s" "loopId ?s3 = loopId s"
    "isInLoopThread ?s3 = isInLoopThread s" by (simp_all add: isInLoopThread_def)
  have "slot_of ?s3 f d i \<longleftrightarrow> slot_of s f d i" for f d i by (simp add: slot_of_def)
  then have inv3: "poller_inv ?s3" using inv by (simp add: poller_inv_def f3)
  have fr: "ch_fd ?ch = fd" "ch_events ?ch = 0" by (simp_all add: setReadCallback_def Channel_new_def)
  have pre: "chans ?s3 k = Some ?ch" "ch_index ?ch < 0" "channelMap ?s3 (ch_fd ?ch) = None" "0 \<le> ch_fd ?ch" "ownerLoop ?ch = loopId ?s3"
    using ch f3 by (simp_all add: setReadCallback_def Channel_new_def)
  have "enableReading k ?s3 = Inr ?s'"
    using setEvents_fresh [OF inv3 pre(1-3,5), of kReadEvent] pre(1) fr(2) by (simp add: enableReading_def)
  moreover have "isInLoopThread s" using inv by (simp add: poller_inv_def)
  ultimately have "TcpServer_start lr s = Inr ?s'"
    using s sock by (simp add: TcpServer_start_def runInLoop_def Acceptor_listen_def assertInLoopThread_def isInLoopThread_def)
  moreover have "poller_inv ?s'" by (rule added_inv [OF inv3 pre(1-4)])
  moreover have "poll_interest ?s3 = poll_interest s" by (simp add: poll_interest_def fun_eq_iff)
  then have "poll_interest ?s' = (poll_interest s)(fd \<mapsto> kReadEvent)"
    using added_interest [OF inv3 pre(1-4) read_write_masks(1)] fr(1) by simp
  ultimately show ?thesis using fr(1) by (simp add: added_def)
qed

lemma echo_main_listens:
  fixes s :: "(echo_cb, 'm) sw"
  assumes inv: "poller_inv s" "pendingFunctors s = []" and ok: "0 \<le> fd" "0 \<le> br" "0 \<le> lr"
    and new: "k \<notin> ran (channelMap s)" "channelMap s fd = None" and wc: "srvWriteCompleteCallback s = None"
  shows "\<exists>s'. echo_main fd br lr k s = Inr s' \<and> server_inv s' \<and> echo_ready s' {} \<and> listening s' \<and> hasNewConnectionCallback s'
     \<and> srvConnectionCallback s' = Some OnConnection \<and> srvMessageCallback s' = Some OnMessage \<and> srvWriteCompleteCallback s' = None
     \<and> poll_interest s' = (poll_interest s)(fd \<mapsto> kReadEvent) \<and> conns s' = conns s \<and> channelMap s' = (channelMap s)(fd \<mapsto> k)"
proof -
  obtain s2 where s2: "TcpServer_new (InetAddress_port 9981) fd br k s = Inr s2" "poller_inv s2" "poll_interest s2 = poll_interest s"
    "channelMap s2 = channelMap s" "chans s2 k = Some (setReadCallback (OtherCb AcceptorRead) (Channel_new (loopId s) fd))" "loopId s2 = loopId s"
    "pendingFunctors s2 = []" "conns s2 = conns s" "\<not> listening s2" "acceptChannel s2 = k" "hasNewConnectionCallback s2"
    "srvWriteCompleteCallback s2 = None" "nextConnId s2 = 1" "connectionMap s2 = Map.empty" "serverPool s2 = EventLoopThreadPool_new (loopId s)"
    "\<not> serverStarted s2"
    using server_created [OF inv(1) ok(1,2) new(1), of "InetAddress_port 9981"] inv(2) wc by auto
  let ?s3 = "TcpServer_setMessageCallback OnMessage (TcpServer_setConnectionCallback OnConnection s2)"
  have "poller_inv ?s3" "poll_interest ?s3 = poll_interest s2"
    using s2(2) by (simp_all add: TcpServer_setMessageCallback_def TcpServer_setConnectionCallback_def poller_inv_def slot_of_def isInLoopThread_def
        poll_interest_def fun_eq_iff)
  moreover from server_starts [OF this(1), of k "OtherCb AcceptorRead" fd lr] s2 new(2) ok obtain s' where "TcpServer_start lr ?s3 = Inr s'"
    "poller_inv s'" "poll_interest s' = (poll_interest ?s3)(fd \<mapsto> kReadEvent)" "channelMap s' = (channelMap s)(fd \<mapsto> k)" "listening s'"
    "loopId s' = loopId s" "pendingFunctors s' = []" "conns s' = conns s" "hasNewConnectionCallback s'" "srvConnectionCallback s' = Some OnConnection"
    "srvMessageCallback s' = Some OnMessage" "srvWriteCompleteCallback s' = None" "nextConnId s' = 1" "connectionMap s' = Map.empty"
    "serverPool s' = EventLoopThreadPool_new (loopId s)"
    by (auto simp: TcpServer_setMessageCallback_def TcpServer_setConnectionCallback_def)
  ultimately show ?thesis using s2(1,3)
    by (intro exI [of _ s']) (simp add: echo_main_def server_inv_def echo_ready_def pairing_def EventLoopThreadPool_new_def)
qed

section \<open>Properties\<close>


definition echo_base :: "echo_cb server_world" where
  "echo_base = \<lparr>loopId = 0, threadId = 7, currentTid = 7, chans = Map.empty, pollFdList = [],
     channelMap = Map.empty, isLooping = False, isQuited = False, pollReturnTime = Timestamp 0,
     activeChannels = [], callingPendingFunctors = False, wakeupFd = 3, wakeupChannel = 0,
     pendingFunctors = [], eventfdCount = 0, timers = Map.empty, s_numCreated = 0, timerfd = 4, timerfdChannel = 1,
     timerList = [], activeTimerSet = {}, cancelingTimerSet = {}, callingExpiredTimers = False, timerfdValue = None,
     conns = Map.empty, acceptSocket = Socket_new 0, acceptChannel = 0, hasNewConnectionCallback = False, listening = False,
     serverName = [], serverPool = EventLoopThreadPool_new 0, srvConnectionCallback = None,
     srvMessageCallback = None, srvWriteCompleteCallback = None, srvHighWaterLevelCallback = None,
     serverStarted = False, nextConnId = 0, connectionMap = Map.empty, handedOver = [], acceptClosed = []\<rparr>"

definition io_none :: "nat \<Rightarrow> conn_io" where
  "io_none c = \<lparr>ev_read = ReadErr 11, ev_send = WriteErr 11, ev_write = WriteErr 11\<rparr>"

lemma echo_started:
  obtains s1 where "echo_main 8 0 0 2 echo_base = Inr s1" "server_inv s1" "echo_ready s1 {}" "hasNewConnectionCallback s1"
    "srvConnectionCallback s1 = Some OnConnection" "srvMessageCallback s1 = Some OnMessage" "srvWriteCompleteCallback s1 = None"
    "conns s1 = Map.empty" "channelMap s1 = [8 \<mapsto> 2]"
proof -
  have b: "poller_inv echo_base" "pendingFunctors echo_base = []" "channelMap echo_base = Map.empty" "conns echo_base = Map.empty"
    "srvWriteCompleteCallback echo_base = None"
    by (simp_all add: echo_base_def poller_inv_def isInLoopThread_def)
  then show ?thesis using echo_main_listens [OF b(1,2), of 8 0 0 2] that by auto
qed

lemma echo_session:
  obtains s1 s2 s3 where "echo_main 8 0 0 2 echo_base = Inr s1"
    "newConnection (echo_user io_none) 20 3 None (Timestamp 1) 9 (InetAddress_port 81) s1 = Inr s2"
    "newConnection (echo_user io_none) 21 4 None (Timestamp 2) 10 (InetAddress_port 82) s2 = Inr s3"
    "echo_ready s3 {(20, 3), (21, 4)}" "stream s3 20 = []" "stream s3 21 = []" "used s3 20 = kCheapPrepend" "used s3 21 = kCheapPrepend"
proof -
  obtain s1 where s1: "echo_main 8 0 0 2 echo_base = Inr s1" "server_inv s1" "echo_ready s1 {}" "srvConnectionCallback s1 = Some OnConnection"
    "srvMessageCallback s1 = Some OnMessage" "srvWriteCompleteCallback s1 = None" "conns s1 = Map.empty" "channelMap s1 = [8 \<mapsto> 2]"
    by (rule echo_started)
  obtain s2 where s2: "newConnection (echo_user io_none) 20 3 None (Timestamp 1) 9 (InetAddress_port 81) s1 = Inr s2" "server_inv s2"
    "echo_ready s2 {(20, 3)}" "stream s2 20 = []" "used s2 20 = kCheapPrepend" "conns s2 21 = None" "channelMap s2 = [8 \<mapsto> 2, 9 \<mapsto> 3]"
    "srvConnectionCallback s2 = Some OnConnection" "srvMessageCallback s2 = Some OnMessage" "srvWriteCompleteCallback s2 = None"
    using echo_accepts [OF s1(2-6), of 20 3 9 io_none None "Timestamp 1" "InetAddress_port 81"] s1(4-8) by auto
  obtain s3 where "newConnection (echo_user io_none) 21 4 None (Timestamp 2) 10 (InetAddress_port 82) s2 = Inr s3"
    "echo_ready s3 {(21, 4), (20, 3)}" "stream s3 21 = []" "used s3 21 = kCheapPrepend" "stream s3 20 = []" "used s3 20 = kCheapPrepend"
    using echo_accepts [OF s2(2,3,8-10), of 21 4 10 io_none None "Timestamp 2" "InetAddress_port 82"] s2(4-7) by auto
  with s1(1) s2(1) show thesis by (intro that) (simp_all add: insert_commute)
qed

text \<open>
  Two clients: both readable in the first round, with the \<open>write\<close> of the first refused; the first one writable in the
  second, which takes two bytes.
\<close>

definition echo_sample :: "net_round list" where
  "echo_sample = [\<lparr>rd_ready = (\<lambda>k. if k = 3 \<or> k = 4 then 1 else 0),
      rd_io = (\<lambda>c. if c = 20 then \<lparr>ev_read = ReadOk ''abc'', ev_send = WriteErr 11, ev_write = WriteErr 11\<rparr>
                   else \<lparr>ev_read = ReadOk ''xy'', ev_send = WriteOk 2, ev_write = WriteErr 11\<rparr>), rd_time = Timestamp 3\<rparr>,
    \<lparr>rd_ready = (\<lambda>k. if k = 3 then 4 else 0), rd_io = (\<lambda>c. \<lparr>ev_read = ReadErr 11, ev_send = WriteErr 11, ev_write = WriteOk 2\<rparr>),
     rd_time = Timestamp 4\<rparr>]"


text \<open>
  A client of the echo server comes: the acceptor's event with a new descriptor fails no assertion and gives a
  connection that is ready to echo, with nothing sent and nothing received, and the other connections stay as they are.
\<close>

theorem EchoServer_accepts:
  fixes s :: "(echo_cb, 'm) sw"
  assumes "server_inv s" and "echo_ready s P" and "hasNewConnectionCallback s"
    and "srvConnectionCallback s = Some OnConnection" "srvMessageCallback s = Some OnMessage" "srvWriteCompleteCallback s = None"
    and "conns s c = None" "k \<notin> ran (channelMap s)" "0 \<le> fd" "channelMap s fd = None"
  shows "\<exists>s'. Acceptor_handleRead (echo_user io) (AcceptOk fd addr) c k la t s = Inr s' \<and> server_inv s' \<and> echo_ready s' (insert (c, k) P)
     \<and> stream s' c = [] \<and> (\<forall>(d, x) \<in> P. stream s' d = stream s d)"
proof -
  have "isInLoopThread s" using assms(1) by (simp add: server_inv_def poller_inv_def)
  then show ?thesis
    using echo_accepts [OF assms(1,2,4-10), of io la t] assms(3,9)
    by (fastforce simp: Acceptor_handleRead_def assertInLoopThread_def Socket_accept_def sockets_accept_def)
qed

theorem EchoServer_accepts_witness:
  "\<exists>s1 s'. echo_main 8 0 0 2 echo_base = Inr s1
     \<and> Acceptor_handleRead (echo_user io_none) (AcceptOk 9 sockaddr_zero) 20 3 None (Timestamp 1) s1 = Inr s' \<and> echo_ready s' {(20, 3)}"
proof -
  obtain s1 where s1: "echo_main 8 0 0 2 echo_base = Inr s1" "server_inv s1" "echo_ready s1 {}" "hasNewConnectionCallback s1"
    "srvConnectionCallback s1 = Some OnConnection" "srvMessageCallback s1 = Some OnMessage" "srvWriteCompleteCallback s1 = None"
    "conns s1 = Map.empty" "channelMap s1 = [8 \<mapsto> 2]"
    by (rule echo_started)
  from EchoServer_accepts [OF s1(2-7), of 20 3 9 io_none sockaddr_zero None "Timestamp 1"] s1(1,8,9) show ?thesis by auto
qed

end
