(* ===== verification/Servers.thy ===== *)
theory Servers
  imports EchoServer
begin

text \<open>
  \<^verbatim>\<open>test10.cpp\<close>, a server that sends two messages and shuts the connection down, and \<^verbatim>\<open>test11.cpp\<close>, a
  character generator driven by the write-complete callback.
\<close>

section \<open>Two messages and shutdown, test10.cpp\<close>

text \<open>
  The connection callback sends two messages and shuts the connection down; \<open>r1\<close> and \<open>r2\<close> are what \<open>write\<close> answers to
  the two. It is also called when the connection goes down, and then only prints.
\<close>

definition two_onConnection :: "string \<Rightarrow> string \<Rightarrow> write_result \<Rightarrow> write_result \<Rightarrow> nat \<Rightarrow> ('v, 'm) sw \<Rightarrow> ('v, 'm) sw result" where
  "two_onConnection message1 message2 r1 r2 c s =
     bindR (derefR (conns s) c) (\<lambda>conn.
       if isConnected conn then
         bindR (send r1 c message1 s) (\<lambda>s1. bindR (send r2 c message2 s1) (shutdown c))
       else Inr s)"

definition two_onMessage :: "nat \<Rightarrow> ('v, 'm) sw \<Rightarrow> ('v, 'm) sw result" where
  "two_onMessage c s =
     bindR (derefR (conns s) c) (\<lambda>_. Inr (upd_conn c (\<lambda>x. x\<lparr>inputBuffer := retrieveAll (inputBuffer x)\<rparr>) s))"

definition two_user :: "string \<Rightarrow> string \<Rightarrow> write_result \<Rightarrow> write_result \<Rightarrow> echo_cb \<Rightarrow> nat \<Rightarrow> timestamp
    \<Rightarrow> (echo_cb, 'm) sw \<Rightarrow> (echo_cb, 'm) sw result" where
  "two_user m1 m2 r1 r2 v c t s = (case v of OnConnection \<Rightarrow> two_onConnection m1 m2 r1 r2 c s | OnMessage \<Rightarrow> two_onMessage c s)"

text \<open>
  \<open>main\<close> of \<^verbatim>\<open>test10.cpp\<close> fills the messages, with the lengths from the command line if there are two arguments, and starts the server
  as that of the echo server does; \<open>resize\<close> with a negative number throws.
\<close>

definition two_messages :: "(int \<times> int) option \<Rightarrow> (string \<times> string) result" where
  "two_messages args =
     (let (len1, len2) = (case args of None \<Rightarrow> (100, 200) | Some lens \<Rightarrow> lens) in
      if len1 < 0 \<or> len2 < 0 then Inl LengthError else Inr (replicate (nat len1) CHR ''A'', replicate (nat len2) CHR ''B''))"

definition two_main :: "(int \<times> int) option \<Rightarrow> int \<Rightarrow> int \<Rightarrow> int \<Rightarrow> nat \<Rightarrow> (echo_cb, 'm) sw \<Rightarrow> ((string \<times> string) \<times> (echo_cb, 'm) sw) result" where
  "two_main args fd br lr k s = bindR (two_messages args) (\<lambda>ms. bindR (echo_main fd br lr k s) (\<lambda>s1. Inr (ms, s1)))"

lemma two_main_listens:
  fixes s :: "(echo_cb, 'm) sw"
  assumes "poller_inv s" "pendingFunctors s = []" "0 \<le> fd" "0 \<le> br" "0 \<le> lr" "k \<notin> ran (channelMap s)" "channelMap s fd = None"
    "srvWriteCompleteCallback s = None" and "case args of None \<Rightarrow> True | Some (l1, l2) \<Rightarrow> 0 \<le> l1 \<and> 0 \<le> l2"
  shows "\<exists>m1 m2 s'. two_main args fd br lr k s = Inr ((m1, m2), s') \<and> set m1 \<subseteq> {CHR ''A''} \<and> set m2 \<subseteq> {CHR ''B''} \<and> server_inv s' \<and> listening s'
     \<and> srvConnectionCallback s' = Some OnConnection"
  using echo_main_listens [OF assms(1-8)] assms(9) by (auto simp: two_main_def two_messages_def split: option.splits)



section \<open>The character generator, test11.cpp\<close>

text \<open>The text that \<open>main\<close> builds: 94 lines of 72 printable characters, each starting one character later.\<close>

definition chargen_line :: string where
  "chargen_line = (let line = map char_of [33..<127] in line @ line)"

definition chargen_message :: string where
  "chargen_message = concat (map (\<lambda>i. take 72 (drop i chargen_line) @ [char_of (10 :: nat)]) [0..<127 - 33])"

datatype gen_cb = GenConnection | GenMessage | GenWriteComplete

definition chargen_onConnection :: "write_result \<Rightarrow> nat \<Rightarrow> ('v, 'm) sw \<Rightarrow> ('v, 'm) sw result" where
  "chargen_onConnection r c s =
     bindR (derefR (conns s) c) (\<lambda>conn. if isConnected conn then send r c chargen_message s else Inr s)"

definition chargen_onWriteComplete :: "write_result \<Rightarrow> nat \<Rightarrow> ('v, 'm) sw \<Rightarrow> ('v, 'm) sw result" where
  "chargen_onWriteComplete r c s = send r c chargen_message s"

definition chargen_user :: "write_result \<Rightarrow> gen_cb \<Rightarrow> nat \<Rightarrow> timestamp \<Rightarrow> (gen_cb, 'm) sw \<Rightarrow> (gen_cb, 'm) sw result" where
  "chargen_user r v c t s = (case v of GenConnection \<Rightarrow> chargen_onConnection r c s | GenMessage \<Rightarrow> two_onMessage c s
     | GenWriteComplete \<Rightarrow> chargen_onWriteComplete r c s)"

definition chargen_main :: "int \<Rightarrow> int \<Rightarrow> int \<Rightarrow> nat \<Rightarrow> (gen_cb, 'm) sw \<Rightarrow> (gen_cb, 'm) sw result" where
  "chargen_main fd br lr k s =
     bindR (TcpServer_new (InetAddress_port 9981) fd br k s) (\<lambda>s1.
       bindR (TcpServer_setThreadNum 4 (TcpServer_setWriteCompleteCallback GenWriteComplete
               (TcpServer_setMessageCallback GenMessage (TcpServer_setConnectionCallback GenConnection s1))))
         (TcpServer_start lr))"

text \<open>The four threads are asked for and never started: connections stay on the base loop.\<close>

lemma chargen_main_listens:
  fixes s :: "(gen_cb, 'm) sw"
  assumes "poller_inv s" "0 \<le> fd" "0 \<le> br" "0 \<le> lr" "k \<notin> ran (channelMap s)" "channelMap s fd = None"
  shows "\<exists>s'. chargen_main fd br lr k s = Inr s' \<and> server_inv s' \<and> listening s' \<and> srvConnectionCallback s' = Some GenConnection
     \<and> srvWriteCompleteCallback s' = Some GenWriteComplete \<and> poll_interest s' = (poll_interest s)(fd \<mapsto> kReadEvent)
     \<and> numThreads (serverPool s') = 4 \<and> pool_loops (serverPool s') = []"
proof -
  obtain s2 where s2: "TcpServer_new (InetAddress_port 9981) fd br k s = Inr s2" "poller_inv s2" "poll_interest s2 = poll_interest s"
    "channelMap s2 = channelMap s" "chans s2 k = Some (setReadCallback (OtherCb AcceptorRead) (Channel_new (loopId s) fd))" "loopId s2 = loopId s"
    "\<not> listening s2" "acceptChannel s2 = k" "nextConnId s2 = 1" "connectionMap s2 = Map.empty"
    "serverPool s2 = EventLoopThreadPool_new (loopId s)" "\<not> serverStarted s2"
    using server_created [OF assms(1-3,5), of "InetAddress_port 9981"] by auto
  let ?s3 = "s2\<lparr>srvConnectionCallback := Some GenConnection, srvMessageCallback := Some GenMessage,
    srvWriteCompleteCallback := Some GenWriteComplete, serverPool := pool_setThreadNum 4 (EventLoopThreadPool_new (loopId s))\<rparr>"
  have i3: "poller_inv ?s3" "poll_interest ?s3 = poll_interest s"
    using s2(2) unfolding s2(3) [symmetric] by (simp_all add: poller_inv_def slot_of_def isInLoopThread_def poll_interest_def fun_eq_iff)
  from server_starts [OF i3(1), of k "OtherCb AcceptorRead" fd lr] s2 assms(2,4,6) obtain s' where "TcpServer_start lr ?s3 = Inr s'"
    "poller_inv s'" "poll_interest s' = (poll_interest s)(fd \<mapsto> kReadEvent)" "listening s'" "loopId s' = loopId s"
    "srvConnectionCallback s' = Some GenConnection" "srvWriteCompleteCallback s' = Some GenWriteComplete" "nextConnId s' = 1"
    "connectionMap s' = Map.empty" "serverPool s' = pool_setThreadNum 4 (EventLoopThreadPool_new (loopId s))"
    by (auto simp: i3(2))
  then show ?thesis using s2(1,11)
    by (intro exI [of _ s']) (simp add: chargen_main_def TcpServer_setConnectionCallback_def TcpServer_setMessageCallback_def
        TcpServer_setWriteCompleteCallback_def TcpServer_setThreadNum_def server_inv_def pool_setThreadNum_def EventLoopThreadPool_new_def)
qed

text \<open>The end of a round of the loop, in which the kernel takes \<open>n\<close> bytes of what is sent.\<close>

definition gen_round :: "nat \<Rightarrow> timestamp \<Rightarrow> (gen_cb, 'm) sw \<Rightarrow> (gen_cb, 'm) sw result" where
  "gen_round n t = doPendingFunctors (run_fn t (run_net_fn (server_user (chargen_user (WriteOk n))) (\<lambda>_ s. Inr s) (WriteOk n) t))"

text \<open>A connection whose last message has been taken by the kernel: the write-complete callback waits in the loop.\<close>

definition gen_ready :: "(gen_cb, 'm) sw \<Rightarrow> nat \<Rightarrow> string \<Rightarrow> bool" where
  "gen_ready s c w \<longleftrightarrow> conn_ok s c \<and> pendingFunctors s = [UserFn (WriteComplete (UserCb GenWriteComplete) c)]
     \<and> (\<exists>conn. conns s c = Some conn \<and> connState conn = kConnected \<and> writeCompleteCallback conn = Some (UserCb GenWriteComplete)
          \<and> content (outputBuffer conn) = [] \<and> wire conn = w)"

lemma sendInLoop_all:
  assumes ok: "conn_ok s c" and conn: "conns s c = Some conn" "content (outputBuffer conn) = []" and n: "length m \<le> n"
  shows "sendInLoop (WriteOk n) c m s = Inr (queueWriteComplete c (upd_conn c (\<lambda>x. x\<lparr>wire := wire x @ m\<rparr>) s))"
proof -
  from ok conn obtain ch where c: "poller_inv s" "chans s (connChannel conn) = Some ch" "buffer_inv (outputBuffer conn)" "ch_events ch = kReadEvent"
    by (auto simp: conn_ok_def)
  moreover have "\<not> isWriting ch" using conn_ok_isWriting [of ch "[]"] c(4) by simp
  moreover have "readableBytes (outputBuffer conn) = 0" using length_content [OF c(3)] conn(2) by simp
  ultimately show ?thesis
    using conn(1) n by (simp add: sendInLoop_def assertInLoopThread_def poller_inv_def accepted_def Let_def)
qed

lemma gen_round_ok:
  fixes s :: "(gen_cb, 'm) sw"
  assumes r: "gen_ready s c w" and n: "length chargen_message \<le> n"
  shows "\<exists>s'. gen_round n t s = Inr s' \<and> gen_ready s' c (w @ chargen_message) \<and> 0 < eventfdCount s'"
proof -
  from r obtain conn where c: "conn_ok s c" "pendingFunctors s = [UserFn (WriteComplete (UserCb GenWriteComplete) c)]"
    "conns s c = Some conn" "connState conn = kConnected" "writeCompleteCallback conn = Some (UserCb GenWriteComplete)"
    "content (outputBuffer conn) = []" "wire conn = w" by (auto simp: gen_ready_def)
  let ?s1 = "s\<lparr>callingPendingFunctors := True, pendingFunctors := []\<rparr>"
  have sp: "same_poller s ?s1" by (simp add: same_poller_def isInLoopThread_def)
  have ok1: "conn_ok ?s1 c" by (rule conn_ok_quiet [OF c(1) sp]) simp
  have thr: "isInLoopThread ?s1" using ok1 by (simp add: conn_ok_def poller_inv_def)
  let ?s2 = "upd_conn c (\<lambda>x. x\<lparr>wire := wire x @ chargen_message\<rparr>) ?s1"
  let ?s3 = "queueInLoop (UserFn (WriteComplete (UserCb GenWriteComplete) c)) ?s2"
  have q: "queueWriteComplete c ?s2 = ?s3" using c(3,5) by (simp add: queueWriteComplete_def)
  have "send (WriteOk n) c chargen_message ?s1 = Inr ?s3"
    using sendInLoop_all [OF ok1, of conn chargen_message n] c(3,4,6) thr n q by (simp add: send_def)
  then have "gen_round n t s = Inr (?s3\<lparr>callingPendingFunctors := False\<rparr>)"
    using c(2) by (simp add: gen_round_def doPendingFunctors_def swapFunctors_def server_user_def chargen_user_def chargen_onWriteComplete_def)
  moreover have "0 < eventfdCount (?s3\<lparr>callingPendingFunctors := False\<rparr>)"
    by (simp add: queueInLoop_def pushFunctor_def wakeUp_def Let_def upd_conn_def)
  moreover have sp3: "same_poller s (?s3\<lparr>callingPendingFunctors := False\<rparr>)"
    by (rule same_poller_trans [OF same_poller_trans [OF same_poller_trans [OF sp same_poller_upd_conn] same_poller_queueInLoop]])
      (simp add: same_poller_def isInLoopThread_def)
  have cn: "conns (?s3\<lparr>callingPendingFunctors := False\<rparr>) c = Some (conn\<lparr>wire := w @ chargen_message\<rparr>)"
    using c(3,7) by simp
  have "buffer_inv (outputBuffer conn)" using c(1,3) by (auto simp: conn_ok_def)
  then have "conn_ok (?s3\<lparr>callingPendingFunctors := False\<rparr>) c"
    using c(6) by (intro conn_ok_same [OF c(1) sp3 cn c(3)]) simp_all
  moreover have "pendingFunctors (?s3\<lparr>callingPendingFunctors := False\<rparr>) = [UserFn (WriteComplete (UserCb GenWriteComplete) c)]"
    by (simp add: queueInLoop_def pushFunctor_def wakeUp_def Let_def)
  ultimately show ?thesis using c(3-7) by (simp add: gen_ready_def)
qed

text \<open>
  C25. The server of \<^verbatim>\<open>test11.cpp\<close> generates characters without end while the kernel takes them: every round of the loop
  runs the write-complete callback once, which sends the text again and leaves exactly one such callback for the next round;
  as it was queued while functors were being run, the wake-up descriptor is readable and the next round does not block.
\<close>

theorem Chargen_streams:
  fixes s :: "(gen_cb, 'm) sw"
  assumes "gen_ready s c w" and "length chargen_message \<le> n" and "ts \<noteq> []"
  shows "\<exists>s'. foldR (gen_round n) ts s = Inr s' \<and> gen_ready s' c (w @ concat (replicate (length ts) chargen_message)) \<and> 0 < eventfdCount s'"
  using assms
proof (induction ts arbitrary: s w)
  case (Cons t ts)
  obtain s1 where s1: "gen_round n t s = Inr s1" "gen_ready s1 c (w @ chargen_message)" "0 < eventfdCount s1"
    using gen_round_ok [OF Cons.prems(1,2)] by blast
  show ?case
  proof (cases "ts = []")
    case True
    with s1 show ?thesis by simp
  next
    case False
    from Cons.IH [OF s1(2) Cons.prems(2) this] s1(1) show ?thesis by simp
  qed
qed simp

text \<open>
  The text has 94 lines of 73 characters, and the character in column \<open>j\<close> of line \<open>i\<close> is the one with the code
  \<open>33 + (i + j) mod 94\<close>.
\<close>

lemma nth_twice:
  assumes "k < 2 * (b - a)"
  shows "(map f [a..<b] @ map f [a..<b]) ! k = f (a + k mod (b - a))"
proof (cases "k < b - a")
  case True
  then show ?thesis by (simp add: nth_append)
next
  case False
  then have "k - (b - a) < b - a" "k mod (b - a) = k - (b - a)" using assms by (simp_all add: mod_if)
  with False show ?thesis by (simp add: nth_append)
qed

lemma chargen_line_nth:
  assumes "i < 94" and "j < 72"
  shows "take 72 (drop i chargen_line) ! j = char_of (33 + (i + j) mod 94)"
proof -
  have "length chargen_line = 188" by (simp add: chargen_line_def Let_def)
  with assms have "take 72 (drop i chargen_line) ! j = chargen_line ! (i + j)" by simp
  also have "\<dots> = char_of (33 + (i + j) mod (127 - 33))"
    unfolding chargen_line_def Let_def using assms by (intro nth_twice) simp
  finally show ?thesis by simp
qed

lemma chargen_message_length: "length chargen_message = 94 * 73"
proof -
  have "length (take 72 (drop i chargen_line) @ [char_of (10 :: nat)]) = 73" if "i \<in> set [0..<127 - 33]" for i
    using that by (auto simp: chargen_line_def Let_def)
  then have "map (length \<circ> (\<lambda>i. take 72 (drop i chargen_line) @ [char_of (10 :: nat)])) [0..<127 - 33] = map (\<lambda>_. 73) [0..<127 - 33]"
    by (intro map_cong) simp_all
  then show ?thesis unfolding chargen_message_def length_concat map_map by (simp add: map_replicate_const sum_list_replicate)
qed

theorem Chargen_streams_witness:
  "\<exists>s s'. gen_ready (s :: gen_cb server_world) 20 chargen_message
     \<and> foldR (gen_round 7000) [Timestamp 2, Timestamp 3] s = Inr s'
     \<and> gen_ready s' 20 (chargen_message @ chargen_message @ chargen_message)"
proof -
  define base :: "gen_cb server_world" where "base = \<lparr>loopId = 0, threadId = 7, currentTid = 7, chans = Map.empty, pollFdList = [],
     channelMap = Map.empty, isLooping = False, isQuited = False, pollReturnTime = Timestamp 0,
     activeChannels = [], callingPendingFunctors = False, wakeupFd = 3, wakeupChannel = 0,
     pendingFunctors = [], eventfdCount = 0, timers = Map.empty, s_numCreated = 0, timerfd = 4, timerfdChannel = 1,
     timerList = [], activeTimerSet = {}, cancelingTimerSet = {}, callingExpiredTimers = False, timerfdValue = None,
     conns = Map.empty, acceptSocket = Socket_new 8, acceptChannel = 3, hasNewConnectionCallback = True, listening = True,
     serverName = ''srv'', serverPool = EventLoopThreadPool_new 0, srvConnectionCallback = Some GenConnection,
     srvMessageCallback = Some GenMessage, srvWriteCompleteCallback = Some GenWriteComplete, srvHighWaterLevelCallback = None,
     serverStarted = True, nextConnId = 1, connectionMap = Map.empty, handedOver = [], acceptClosed = []\<rparr>"
  let ?la = "InetAddress (getLocalAddr None)" and ?p = "InetAddress_port 81"
  let ?w = "with_conn 20 2 5 ?la ?p base" and ?conn = "server_conn 2 (''srv'' @ connIdText 1) 5 ?la ?p base"
  have inv: "poller_inv base" by (simp add: base_def poller_inv_def isInLoopThread_def)
  note w = with_conn_poller [OF inv, of 2 5 20 ?la ?p]
  obtain ch where ch: "chans ?w 2 = Some ch" "ch_events ch = 0" using w(5) by (auto simp: base_def)
  have cn: "conns ?w 20 = Some ?conn" "connState ?conn = kConnecting" "connChannel ?conn = 2" "outputBuffer ?conn = Buffer_new"
    "writeCompleteCallback ?conn = Some (UserCb GenWriteComplete)" "wire ?conn = []"
    by (simp_all add: with_conn_def Let_def server_conn_def base_def)
  note o = connectEstablished_opens [OF _ cn(1,2) _ _ ch(2) cn(4), unfolded cn(3), OF _ _ ch(1)]
  let ?o = "opened 20 ?conn ch ?w"
  have ok: "conn_ok ?o 20" "conns ?o 20 = Some (?conn\<lparr>connState := kConnected\<rparr>)" using o(2,3) w(1,2) by (simp_all add: base_def)
  have p0: "pendingFunctors ?o = []" by (simp add: opened_def added_def setState_def upd_conn_def with_conn_def Let_def base_def)
  have e0: "content Buffer_new = []" using Buffer_new_inv by simp
  let ?s1 = "upd_conn 20 (\<lambda>x. x\<lparr>wire := wire x @ chargen_message\<rparr>) ?o"
  let ?s = "queueInLoop (UserFn (WriteComplete (UserCb GenWriteComplete) 20)) ?s1"
  have "conn_ok ?s 20"
    using ok(2) cn(4) Buffer_new_inv
    by (intro conn_ok_same [OF ok(1) same_poller_trans [OF same_poller_upd_conn same_poller_queueInLoop] _ ok(2),
          where conn' = "?conn\<lparr>connState := kConnected, wire := wire ?conn @ chargen_message\<rparr>"]) simp_all
  moreover have "pendingFunctors ?s = [UserFn (WriteComplete (UserCb GenWriteComplete) 20)]"
    using p0 by (simp add: queueInLoop_def pushFunctor_def wakeUp_def Let_def)
  ultimately have g: "gen_ready ?s 20 chargen_message" using ok(2) cn(4-6) e0 by (simp add: gen_ready_def)
  from Chargen_streams [OF this, of 7000 "[Timestamp 2, Timestamp 3]"] g chargen_message_length show ?thesis
    by (auto simp: numeral_2_eq_2)
qed

section \<open>The server that prints, test8.cpp\<close>

text \<open>The message callback prints the input; the connection callback only prints who has come or gone, as in \<^verbatim>\<open>test9.cpp\<close>.\<close>

definition print_onMessage :: "nat \<Rightarrow> ('v, 'm) sw \<Rightarrow> (string \<times> ('v, 'm) sw) result" where
  "print_onMessage c s =
     bindR (derefR (conns s) c) (\<lambda>conn.
       bindR (retrieveAsString (inputBuffer conn)) (\<lambda>(str, ib). Inr (str, upd_conn c (\<lambda>x. x\<lparr>inputBuffer := ib\<rparr>) s)))"

text \<open>It prints everything that has been read and not yet printed, and leaves the buffer empty.\<close>

lemma print_onMessage_prints:
  assumes "conns s c = Some conn" and "buffer_inv (inputBuffer conn)"
  shows "\<exists>s' ib. print_onMessage c s = Inr (content (inputBuffer conn), s') \<and> conns s' c = Some (conn\<lparr>inputBuffer := ib\<rparr>) \<and> content ib = []"
  using retrieveAsString_spec [OF assms(2)] retrieveAll_spec [OF assms(2)] assms(1) by (auto simp: print_onMessage_def)

end
