(* ===== verification/Connector.thy ===== *)
theory Connector
  imports TcpConnection
begin

text \<open>
  \<^verbatim>\<open>muduo/Connector.h\<close> and \<^verbatim>\<open>Connector.cpp\<close>: the active end of a connection. A connector opens a socket, waits in
  the event loop until it is connected, hands it to a callback, and tries again with growing delays when that
  fails. Its state extends the loop's; what the kernel answers and the addresses of new objects are arguments.
\<close>

section \<open>The class\<close>

datatype connector_states = ckDisconnected | ckConnecting | ckConnected

text \<open>The functors and channel callbacks that a connector binds; \<open>'g\<close> are those of its owner.\<close>

datatype 'g connector_fn = StartInLoop | ResetChannel | ClientFn 'g

datatype connector_ch = ConnectorWrite | ConnectorError

record ('u, 'g) connector_world = "('u, 'g connector_fn, connector_ch) conn_world" +
  ct_serverAddr :: InetAddress
  ct_connect :: bool
  ct_state :: connector_states
  ct_channel :: "nat option"
  ct_hasCallback :: bool
  retryDelayMs :: int
  ct_timerId :: timer_id
  ct_closed :: "int list"

type_synonym ('u, 'g, 'm) ctw = "('u, 'g, 'm) connector_world_scheme"

text \<open>
  What happens outside during one call: the descriptor \<open>socket\<close> returns, the error of \<open>connect\<close> (0 when it
  returns 0), the pending error of a socket and its two addresses, the clock, the addresses of a new channel and a
  new timer.
\<close>

record kernel_io =
  io_sockfd :: int
  io_connectErrno :: int
  io_socketError :: "int + int"
  io_localAddr :: "sockaddr_in option"
  io_peerAddr :: "sockaddr_in option"
  io_clock :: timestamp
  io_channel :: nat
  io_timer :: nat

definition kMaxRetryDelayMs :: int where "kMaxRetryDelayMs = 30 * 1000"

definition kInitRetryDelayMs :: int where "kInitRetryDelayMs = 500"

definition Connector_new :: "InetAddress \<Rightarrow> ('u, 'g, 'm) ctw \<Rightarrow> ('u, 'g, 'm) ctw" where
  "Connector_new serverAddr s =
     s\<lparr>ct_serverAddr := serverAddr, ct_connect := False, ct_state := ckDisconnected, ct_channel := None, ct_hasCallback := False,
       retryDelayMs := kInitRetryDelayMs, ct_timerId := TimerId 0 0\<rparr>"

definition Connector_setNewConnectionCallback :: "('u, 'g, 'm) ctw \<Rightarrow> ('u, 'g, 'm) ctw" where
  "Connector_setNewConnectionCallback s = s\<lparr>ct_hasCallback := True\<rparr>"

definition Connector_setState :: "connector_states \<Rightarrow> ('u, 'g, 'm) ctw \<Rightarrow> ('u, 'g, 'm) ctw" where
  "Connector_setState st s = s\<lparr>ct_state := st\<rparr>"

text \<open>\<open>sockets::close\<close>: the descriptors closed so far are recorded in \<open>ct_closed\<close>.\<close>

definition Connector_close :: "int \<Rightarrow> ('u, 'g, 'm) ctw \<Rightarrow> ('u, 'g, 'm) ctw" where
  "Connector_close fd s = s\<lparr>ct_closed := ct_closed s @ [fd]\<rparr>"

text \<open>The timer operations of the loop never run a functor of their users on the spot, only those of the queue itself.\<close>

abbreviation no_functor :: "'f \<Rightarrow> 's \<Rightarrow> 's result" where
  "no_functor \<equiv> \<lambda>_ s. Inr s"

definition Connector_retry :: "(double \<Rightarrow> int) \<Rightarrow> kernel_io \<Rightarrow> int \<Rightarrow> ('u, 'g, 'm) ctw \<Rightarrow> ('u, 'g, 'm) ctw result" where
  "Connector_retry toMicros io fd s =
     (let s1 = Connector_setState ckDisconnected (Connector_close fd s) in
      if ct_connect s1 then
        bindR (runAfter toMicros (io_clock io) no_functor (io_timer io) (of_int (retryDelayMs s1) / 1000) (OtherFn StartInLoop) s1)
          (\<lambda>(i, s2). Inr (s2\<lparr>ct_timerId := i, retryDelayMs := min (retryDelayMs s2 * 2) kMaxRetryDelayMs\<rparr>))
      else Inr s1)"

definition Connector_connecting :: "kernel_io \<Rightarrow> int \<Rightarrow> ('u, 'g, 'm) ctw \<Rightarrow> ('u, 'g, 'm) ctw result" where
  "Connector_connecting io fd s =
     (let s1 = Connector_setState ckConnecting s; k = io_channel io in
      assertR (ct_channel s1 = None)
        (enableWriting k (s1\<lparr>ct_channel := Some k,
           chans := (chans s1)(k \<mapsto> setErrorCallback (OtherCb ConnectorError)
                                      (setWriteCallback (OtherCb ConnectorWrite) (Channel_new (loopId s1) fd)))\<rparr>)))"

definition Connector_connect :: "(double \<Rightarrow> int) \<Rightarrow> kernel_io \<Rightarrow> ('u, 'g, 'm) ctw \<Rightarrow> ('u, 'g, 'm) ctw result" where
  "Connector_connect toMicros io s =
     bindR (createNonblockingOrDie (io_sockfd io)) (\<lambda>fd.
       let savedErrno = io_connectErrno io in
       if savedErrno \<in> {0, EINPROGRESS, EINTR, EISCONN} then Connector_connecting io fd s
       else if savedErrno \<in> {EAGAIN, EADDRINUSE, EADDRNOTAVAIL, ECONNREFUSED, ENETUNREACH} then Connector_retry toMicros io fd s
       else Inr (Connector_close fd s))"

definition Connector_startInLoop :: "(double \<Rightarrow> int) \<Rightarrow> kernel_io \<Rightarrow> ('u, 'g, 'm) ctw \<Rightarrow> ('u, 'g, 'm) ctw result" where
  "Connector_startInLoop toMicros io s =
     assertInLoopThread s
       (assertR (ct_state s = ckDisconnected) (if ct_connect s then Connector_connect toMicros io s else Inr s))"

definition Connector_start :: "(double \<Rightarrow> int) \<Rightarrow> kernel_io \<Rightarrow> ('u, 'g, 'm) ctw \<Rightarrow> ('u, 'g, 'm) ctw result" where
  "Connector_start toMicros io s =
     runInLoop (\<lambda>_. Connector_startInLoop toMicros io) (UserFn (OtherFn StartInLoop)) (s\<lparr>ct_connect := True\<rparr>)"

definition Connector_restart :: "(double \<Rightarrow> int) \<Rightarrow> kernel_io \<Rightarrow> ('u, 'g, 'm) ctw \<Rightarrow> ('u, 'g, 'm) ctw result" where
  "Connector_restart toMicros io s =
     assertInLoopThread s
       (Connector_startInLoop toMicros io
         ((Connector_setState ckDisconnected s)\<lparr>retryDelayMs := kInitRetryDelayMs, ct_connect := True\<rparr>))"

definition Connector_stop :: "kernel_io \<Rightarrow> ('u, 'g, 'm) ctw \<Rightarrow> ('u, 'g, 'm) ctw result" where
  "Connector_stop io s = EventLoop_cancel (io_clock io) no_functor (ct_timerId s) (s\<lparr>ct_connect := False\<rparr>)"

definition removeAndResetChannel :: "('u, 'g, 'm) ctw \<Rightarrow> (int \<times> ('u, 'g, 'm) ctw) result" where
  "removeAndResetChannel s =
     (case ct_channel s of
        None \<Rightarrow> Inl DanglingPointer
      | Some k \<Rightarrow>
          bindR (disableAll k s) (\<lambda>s1.
            bindR (EventLoop_removeChannel k s1) (\<lambda>s2.
              bindR (derefR (chans s2) k) (\<lambda>ch.
                Inr (ch_fd ch, queueInLoop (UserFn (OtherFn ResetChannel)) s2)))))"

definition resetChannel :: "('u, 'g, 'm) ctw \<Rightarrow> ('u, 'g, 'm) ctw result" where
  "resetChannel s =
     (case ct_channel s of
        None \<Rightarrow> Inr s
      | Some k \<Rightarrow> bindR (Channel_delete k s) (\<lambda>s1. Inr (s1\<lparr>ct_channel := None\<rparr>)))"

text \<open>\<open>newConn\<close> is \<open>newConnectionCallback_\<close>.\<close>

definition Connector_handleWrite :: "(double \<Rightarrow> int) \<Rightarrow> (int \<Rightarrow> ('u, 'g, 'm) ctw \<Rightarrow> ('u, 'g, 'm) ctw result) \<Rightarrow> kernel_io
    \<Rightarrow> ('u, 'g, 'm) ctw \<Rightarrow> ('u, 'g, 'm) ctw result" where
  "Connector_handleWrite toMicros newConn io s =
     (if ct_state s = ckConnecting then
        bindR (removeAndResetChannel s) (\<lambda>(fd, s1).
          if getSocketError (io_socketError io) \<noteq> 0 then Connector_retry toMicros io fd s1
          else if isSelfConnect (io_localAddr io) (io_peerAddr io) then Connector_retry toMicros io fd s1
          else (let s2 = Connector_setState ckConnected s1 in
                if ct_connect s2 then
                  (if ct_hasCallback s2 then newConn fd s2 else Inl (LogicError ''bad_function_call''))
                else Inr (Connector_close fd s2)))
      else assertR (ct_state s = ckDisconnected) (Inr s))"

definition Connector_handleError :: "(double \<Rightarrow> int) \<Rightarrow> kernel_io \<Rightarrow> ('u, 'g, 'm) ctw \<Rightarrow> ('u, 'g, 'm) ctw result" where
  "Connector_handleError toMicros io s =
     assertR (ct_state s = ckConnecting)
       (bindR (removeAndResetChannel s) (\<lambda>(fd, s1). Connector_retry toMicros io fd s1))"

definition Connector_delete :: "kernel_io \<Rightarrow> ('u, 'g, 'm) ctw \<Rightarrow> ('u, 'g, 'm) ctw result" where
  "Connector_delete io s =
     bindR (EventLoop_cancel (io_clock io) no_functor (ct_timerId s) s) (\<lambda>s1. assertR (ct_channel s1 = None) (Inr s1))"

text \<open>The dispatch of the connector's functors and channel callbacks; the functors of its owner are an argument.\<close>

fun run_connector_fn :: "(double \<Rightarrow> int) \<Rightarrow> kernel_io \<Rightarrow> ('g \<Rightarrow> ('u, 'g, 'm) ctw \<Rightarrow> ('u, 'g, 'm) ctw result) \<Rightarrow> 'g connector_fn
    \<Rightarrow> ('u, 'g, 'm) ctw \<Rightarrow> ('u, 'g, 'm) ctw result" where
  "run_connector_fn toMicros io owner StartInLoop = Connector_startInLoop toMicros io"
| "run_connector_fn toMicros io owner ResetChannel = resetChannel"
| "run_connector_fn toMicros io owner (ClientFn g) = owner g"

fun run_connector_ch :: "(double \<Rightarrow> int) \<Rightarrow> (int \<Rightarrow> ('u, 'g, 'm) ctw \<Rightarrow> ('u, 'g, 'm) ctw result) \<Rightarrow> kernel_io \<Rightarrow> connector_ch
    \<Rightarrow> ('u, 'g, 'm) ctw \<Rightarrow> ('u, 'g, 'm) ctw result" where
  "run_connector_ch toMicros newConn io ConnectorWrite = Connector_handleWrite toMicros newConn io"
| "run_connector_ch toMicros newConn io ConnectorError = Connector_handleError toMicros io"

section \<open>What the loop's operations change\<close>

definition timer_added :: "nat \<Rightarrow> 'f \<Rightarrow> timestamp \<Rightarrow> (int \<times> int) option \<Rightarrow> ('cb, 'f, 'm) tq \<Rightarrow> ('cb, 'f, 'm) tq" where
  "timer_added a cb t v s =
     (let n = int64_wrap (s_numCreated s + 1) in
      s\<lparr>s_numCreated := n,
        timers := (timers s)(a \<mapsto> \<lparr>tm_callback = cb, expirationTimestamp = t, tm_interval = 0, tm_repeat = False, tm_sequence = n\<rparr>),
        timerList := entry_insert (t, a) (timerList s), activeTimerSet := insert (a, n) (activeTimerSet s), timerfdValue := v\<rparr>)"

lemma runAfter_adds:
  assumes "timer_inv s" and "timers s a = None" and "a < UINTPTR_MAX"
  shows "\<exists>v. runAfter toMicros now user a d cb s = Inr (TimerId_of a, timer_added a cb (addTime toMicros now d) v s)
           \<and> timer_inv (timer_added a cb (addTime toMicros now d) v s)"
proof -
  let ?t = "addTime toMicros now d"
  let ?s = "Timer_new a cb ?t 0 s"
  note n = Timer_new_inv [OF assms, where cb = cb and t = ?t and ivl = 0]
  obtain tm where tm: "timers ?s a = Some tm" "expirationTimestamp tm = ?t" "tm_sequence tm = int64_wrap (s_numCreated s + 1)"
    by (simp add: Timer_new_def Let_def)
  have thr: "isInLoopThread ?s" using n(1) by (simp add: timer_inv_def)
  define v where "v = (if case timerList s of [] \<Rightarrow> True | e # _ \<Rightarrow> ?t < fst e then Some (howMuchTimeFromNow ?t now) else timerfdValue s)"
  have l: "timerList ?s = timerList s" "timerfdValue ?s = timerfdValue s" by (simp_all add: Timer_new_def Let_def)
  have e: "timer_added a cb ?t w s = (scheduled a tm ?s)\<lparr>timerfdValue := w\<rparr>" for w
    by (simp add: timer_added_def scheduled_def tm(2,3)) (simp add: Timer_new_def Let_def)
  have k: "timerfdValue (scheduled a tm ?s) = timerfdValue s" "x\<lparr>timerfdValue := timerfdValue x\<rparr> = x" for x :: "('a, 'b, 'c) tq"
    by (simp_all add: scheduled_def l(2))
  have "addTimerInLoop now a ?s = Inr (timer_added a cb ?t v s)"
  proof (cases "case timerList s of [] \<Rightarrow> True | e # _ \<Rightarrow> ?t < fst e")
    case True
    then show ?thesis using insert_scheduled [OF n(1,2) tm(1), unfolded tm(2) l(1)] thr tm(1,2)
      by (simp add: addTimerInLoop_def assertInLoopThread_def e v_def resetTimerfd_def scheduled_def)
  next
    case False
    then show ?thesis using insert_scheduled [OF n(1,2) tm(1), unfolded tm(2) l(1)] thr k(2) [of "scheduled a tm ?s"]
      by (simp add: addTimerInLoop_def assertInLoopThread_def e v_def k(1))
  qed
  moreover have "timer_inv (timer_added a cb ?t v s)"
    using scheduled_inv [OF n(1,2) tm(1)] by (simp add: e timer_inv_def isInLoopThread_def seq_of_def [abs_def])
  ultimately show ?thesis using thr by (auto simp: runAfter_def runAt_def addTimer_def runInLoop_def)
qed

lemma timer_added_sel [simp]:
  "pollFdList (timer_added a cb t v s) = pollFdList s" "channelMap (timer_added a cb t v s) = channelMap s"
  "chans (timer_added a cb t v s) = chans s" "loopId (timer_added a cb t v s) = loopId s"
  "isInLoopThread (timer_added a cb t v s) = isInLoopThread s" "timerList (timer_added a cb t v s) = entry_insert (t, a) (timerList s)"
  "map_option tm_callback (timers (timer_added a cb t v s) a) = Some cb" "b \<noteq> a \<Longrightarrow> timers (timer_added a cb t v s) b = timers s b"
  by (simp_all add: timer_added_def Let_def isInLoopThread_def)

lemma same_poller_timer_added: "same_poller s (timer_added a cb t v s)"
  by (simp add: same_poller_def)

text \<open>Taking a watched channel out of the poller: only the poller and the channels change.\<close>

lemma drop_channel:
  assumes inv: "poller_inv s" and w: "chan_watched s k" and fd: "chan_fd s k = fd"
  shows "\<exists>s1 s2 i d j ch ch2. disableAll k s = Inr s1 \<and> EventLoop_removeChannel k s1 = Inr s2 \<and> poller_inv s2
     \<and> poll_interest s2 = (poll_interest s)(fd := None) \<and> s2 = moved fd i d (modified k 0 ch j s)
     \<and> chans s2 k = Some ch2 \<and> ch_fd ch2 = fd"
proof -
  from w obtain ch j where ch: "chan_in s k ch j" by (auto simp: chan_watched_def)
  let ?s1 = "modified k 0 ch j s"
  have f: "ch_fd ch = fd" using ch fd by (simp add: chan_in_def chan_fd_def)
  have s1: "setEvents k 0 s = Inr ?s1" by (rule setEvents_registered [OF inv ch])
  from setEvents_idle [OF inv disjI1 [OF w]] s1 have i1: "poller_inv ?s1" "chan_idle ?s1 k"
    "poll_interest ?s1 = (poll_interest s)(fd := None)" by (simp_all add: fd)
  obtain ch1 i where c1: "chan_in ?s1 k ch1 i" "ch_events ch1 = 0" "pfd_fd (pollFdList ?s1 ! i) = - ch_fd ch1 - 1"
    "pfd_events (pollFdList ?s1 ! i) = 0" using i1(2) by (auto simp: chan_idle_def)
  have f1: "ch_fd ch1 = fd" "chans ?s1 k = Some ch1" using c1(1) f by (auto simp: chan_in_def modified_sel)
  from c1(1) have "i < length (pollFdList ?s1)" by (simp add: chan_in_def slot_of_def)
  then have "length (pollFdList ?s1) - 1 < length (pollFdList ?s1)" by linarith
  with i1(1) obtain fd' d where l: "slot_of ?s1 fd' d (length (pollFdList ?s1) - 1)" unfolding poller_inv_def by blast
  have r: "EventLoop_removeChannel k ?s1 = Inr (moved fd i d ?s1)" using removeChannel_moved [OF i1(1) c1 l] f1 by simp
  from removeChannel_idle [OF i1(1,2)] r have "poller_inv (moved fd i d ?s1)" "poll_interest (moved fd i d ?s1) = poll_interest ?s1" by simp_all
  moreover have "\<exists>ch2. chans (moved fd i d ?s1) k = Some ch2 \<and> ch_fd ch2 = fd" using f1 by (auto simp: moved_sel)
  ultimately show ?thesis using s1 r i1(3) unfolding disableAll_def kNoneEvent_def by (metis (no_types, lifting))
qed

lemma timer_inv_moved [simp]: "timer_inv (moved fd i d s) = timer_inv s" "timer_inv (modified k e ch j s) = timer_inv s"
  by (simp_all add: timer_inv_def moved_def modified_def isInLoopThread_def seq_of_def [abs_def])

lemma timer_inv_queueInLoop [simp]: "timer_inv (queueInLoop f s) = timer_inv s"
  by (simp add: timer_inv_def queueInLoop_def pushFunctor_def wakeUp_def Let_def isInLoopThread_def seq_of_def [abs_def])

section \<open>Retries\<close>

text \<open>The delay in milliseconds before the attempt that follows \<open>n\<close> earlier retries.\<close>

definition backoff :: "nat \<Rightarrow> int" where
  "backoff n = min (500 * 2 ^ n) 30000"

lemma backoff_Suc: "min (backoff n * 2) kMaxRetryDelayMs = backoff (Suc n)"
  by (simp add: backoff_def kMaxRetryDelayMs_def min_def)

text \<open>The state after a retry that schedules an attempt.\<close>

definition retried :: "(double \<Rightarrow> int) \<Rightarrow> kernel_io \<Rightarrow> int \<Rightarrow> (int \<times> int) option \<Rightarrow> ('u, 'g, 'm) ctw \<Rightarrow> ('u, 'g, 'm) ctw" where
  "retried toMicros io fd v s =
     (timer_added (io_timer io) (OtherFn StartInLoop) (addTime toMicros (io_clock io) (of_int (retryDelayMs s) / 1000)) v
       (s\<lparr>ct_closed := ct_closed s @ [fd], ct_state := ckDisconnected\<rparr>))
     \<lparr>ct_timerId := TimerId_of (io_timer io), retryDelayMs := min (retryDelayMs s * 2) kMaxRetryDelayMs\<rparr>"

lemma retry_schedules:
  assumes "timer_inv s" and "timers s (io_timer io) = None" and "io_timer io < UINTPTR_MAX" and "ct_connect s"
  shows "\<exists>v. Connector_retry toMicros io fd s = Inr (retried toMicros io fd v s) \<and> timer_inv (retried toMicros io fd v s)"
proof -
  let ?s = "s\<lparr>ct_closed := ct_closed s @ [fd], ct_state := ckDisconnected\<rparr>"
  have upd: "timer_inv (x\<lparr>ct_timerId := i, retryDelayMs := r\<rparr>) = timer_inv x" for x :: "('u, 'g, 'm) ctw" and i r
    by (simp add: timer_inv_def isInLoopThread_def seq_of_def [abs_def])
  have "timer_inv ?s" using assms(1) by (simp add: timer_inv_def isInLoopThread_def seq_of_def [abs_def])
  from runAfter_adds [OF this, of "io_timer io" toMicros "io_clock io" no_functor "of_int (retryDelayMs s) / 1000" "OtherFn StartInLoop"] assms(2,3)
  show ?thesis
    by (auto simp: Connector_retry_def Connector_setState_def Connector_close_def Let_def assms(4) retried_def upd)
      (auto simp: timer_added_def Let_def)
qed

lemma retried_sel [simp]:
  "ct_state (retried toMicros io fd v s) = ckDisconnected" "ct_connect (retried toMicros io fd v s) = ct_connect s"
  "ct_channel (retried toMicros io fd v s) = ct_channel s" "ct_closed (retried toMicros io fd v s) = ct_closed s @ [fd]"
  "retryDelayMs (retried toMicros io fd v s) = min (retryDelayMs s * 2) kMaxRetryDelayMs"
  "ct_timerId (retried toMicros io fd v s) = TimerId_of (io_timer io)"
  "timerList (retried toMicros io fd v s) = entry_insert (addTime toMicros (io_clock io) (of_int (retryDelayMs s) / 1000), io_timer io) (timerList s)"
  "map_option tm_callback (timers (retried toMicros io fd v s) (io_timer io)) = Some (OtherFn StartInLoop)"
  "b \<noteq> io_timer io \<Longrightarrow> timers (retried toMicros io fd v s) b = timers s b"
  by (simp_all add: retried_def timer_added_def Let_def)

lemma retried_timer [simp]: "\<exists>z. timers (retried toMicros io fd v s) (io_timer io) = Some z \<and> tm_callback z = OtherFn StartInLoop"
  by (simp add: retried_def timer_added_def Let_def)

lemma same_poller_retried: "same_poller s (retried toMicros io fd v s)"
  by (simp add: same_poller_def retried_def timer_added_def Let_def isInLoopThread_def)

lemma retries_from:
  assumes "timer_inv s" and "ct_connect s" and "retryDelayMs s = backoff j" and "distinct (map (io_timer \<circ> fst) tries)"
    and "\<forall>p \<in> set tries. timers s (io_timer (fst p)) = None \<and> io_timer (fst p) < UINTPTR_MAX"
  shows "\<exists>s'. foldR (\<lambda>p. Connector_retry toMicros (fst p) (snd p)) tries s = Inr s' \<and> timer_inv s' \<and> same_poller s s'
     \<and> retryDelayMs s' = backoff (j + length tries) \<and> ct_closed s' = ct_closed s @ map snd tries
     \<and> set (timerList s) \<subseteq> set (timerList s') \<and> (\<forall>b. timers s b \<noteq> None \<longrightarrow> timers s' b = timers s b)
     \<and> (\<forall>i < length tries. let io = fst (tries ! i) in
          (addTime toMicros (io_clock io) (of_int (backoff (j + i)) / 1000), io_timer io) \<in> set (timerList s')
          \<and> map_option tm_callback (timers s' (io_timer io)) = Some (OtherFn StartInLoop))"
  using assms
proof (induction tries arbitrary: s j)
  case Nil
  then show ?case by (simp add: same_poller_def)
next
  case (Cons p tries)
  let ?io = "fst p"
  obtain v where v: "Connector_retry toMicros ?io (snd p) s = Inr (retried toMicros ?io (snd p) v s)"
    "timer_inv (retried toMicros ?io (snd p) v s)"
    using retry_schedules [OF Cons.prems(1) _ _ Cons.prems(2), of ?io toMicros "snd p"] Cons.prems(5) by auto
  let ?s = "retried toMicros ?io (snd p) v s"
  have fresh: "\<forall>q \<in> set tries. timers ?s (io_timer (fst q)) = None \<and> io_timer (fst q) < UINTPTR_MAX"
    using Cons.prems(4,5) by (force simp: image_iff)
  have delay: "retryDelayMs ?s = backoff (Suc j)" using Cons.prems(3) by (simp add: backoff_Suc)
  obtain s' where s': "foldR (\<lambda>p. Connector_retry toMicros (fst p) (snd p)) tries ?s = Inr s'" "timer_inv s'" "same_poller ?s s'"
    "retryDelayMs s' = backoff (Suc j + length tries)" "ct_closed s' = ct_closed ?s @ map snd tries"
    "set (timerList ?s) \<subseteq> set (timerList s')" "\<forall>b. timers ?s b \<noteq> None \<longrightarrow> timers s' b = timers ?s b"
    "\<forall>i < length tries. let io = fst (tries ! i) in
          (addTime toMicros (io_clock io) (of_int (backoff (Suc j + i)) / 1000), io_timer io) \<in> set (timerList s')
          \<and> map_option tm_callback (timers s' (io_timer io)) = Some (OtherFn StartInLoop)"
    using Cons.IH [of ?s "Suc j"] v(2) Cons.prems(2,4) fresh delay by auto
  have old: "timers s b \<noteq> None \<longrightarrow> timers s' b = timers s b" for b
    using s'(7) Cons.prems(5) by (cases "b = io_timer ?io") auto
  have cb: "map_option tm_callback (timers s' (io_timer ?io)) = Some (OtherFn StartInLoop)"
    using s'(7) retried_sel(8) [of toMicros ?io "snd p" v s] by (metis option.map_disc_iff option.distinct(1))
  have "let io = fst ((p # tries) ! i) in
          (addTime toMicros (io_clock io) (of_int (backoff (j + i)) / 1000), io_timer io) \<in> set (timerList s')
          \<and> map_option tm_callback (timers s' (io_timer io)) = Some (OtherFn StartInLoop)" if "i < length (p # tries)" for i
    using that s'(6,8) cb Cons.prems(3) by (cases i) auto
  with s' v(1) old show ?case
    using same_poller_trans [OF same_poller_retried s'(3)] by auto
qed

section \<open>An attempt\<close>

text \<open>A new channel is unknown to the poller and changes nothing for the others.\<close>

lemma new_channel:
  fixes s s' :: "('cb, 'm) poller_scheme"
  assumes inv: "poller_inv s" and k: "k \<notin> ran (channelMap s)" and fd: "0 \<le> ch_fd ch" "channelMap s (ch_fd ch) = None"
    and ch: "ch_index ch < 0" "ownerLoop ch = loopId s"
    and f: "pollFdList s' = pollFdList s" "channelMap s' = channelMap s" "loopId s' = loopId s" "isInLoopThread s' = isInLoopThread s"
      "chans s' = (chans s)(k \<mapsto> ch)"
  shows "poller_inv s'" "chan_fresh s' k" "chan_fd s' k = ch_fd ch" "poll_interest s' = poll_interest s"
proof -
  have "slot_of s' x d i \<longleftrightarrow> slot_of s x d i" for x d i using k by (auto simp: slot_of_def f ran_def)
  then show "poller_inv s'" using inv by (simp add: poller_inv_def f)
  show "chan_fresh s' k" using fd ch by (simp add: chan_fresh_def f)
  show "chan_fd s' k = ch_fd ch" by (simp add: chan_fd_def f)
  show "poll_interest s' = poll_interest s" by (simp add: poll_interest_def f fun_eq_iff)
qed

definition connector_chan :: "nat \<Rightarrow> int \<Rightarrow> connector_ch net_cb channel" where
  "connector_chan lp fd = setErrorCallback (OtherCb ConnectorError) (setWriteCallback (OtherCb ConnectorWrite) (Channel_new lp fd))"

lemma connector_chan_sel [simp]:
  "ch_fd (connector_chan lp fd) = fd" "ch_index (connector_chan lp fd) = -1" "ownerLoop (connector_chan lp fd) = lp"
  "ch_events (connector_chan lp fd) = 0" "writeCallback (connector_chan lp fd) = Some (OtherCb ConnectorWrite)"
  "errorCallback (connector_chan lp fd) = Some (OtherCb ConnectorError)"
  by (simp_all add: connector_chan_def setErrorCallback_def setWriteCallback_def Channel_new_def)

text \<open>The state once the socket is watched.\<close>

definition watching :: "nat \<Rightarrow> int \<Rightarrow> ('u, 'g, 'm) ctw \<Rightarrow> ('u, 'g, 'm) ctw" where
  "watching k fd s = added k kWriteEvent (connector_chan (loopId s) fd)
     (s\<lparr>ct_state := ckConnecting, ct_channel := Some k, chans := (chans s)(k \<mapsto> connector_chan (loopId s) fd)\<rparr>)"

text \<open>\<open>waiting s k fd\<close>: a connector whose socket \<open>fd\<close> is watched through the channel \<open>k\<close> until it is connected.\<close>

definition waiting :: "('u, 'g, 'm) ctw \<Rightarrow> nat \<Rightarrow> int \<Rightarrow> bool" where
  "waiting s k fd \<longleftrightarrow> poller_inv s \<and> timer_inv s \<and> ct_state s = ckConnecting \<and> ct_channel s = Some k \<and> chan_watched s k
     \<and> chan_fd s k = fd \<and> poll_interest s fd = Some kWriteEvent
     \<and> (\<exists>ch. chans s k = Some ch \<and> writeCallback ch = Some (OtherCb ConnectorWrite) \<and> errorCallback ch = Some (OtherCb ConnectorError))"

lemma connecting_waits:
  assumes inv: "poller_inv s" "timer_inv s" and c: "ct_channel s = None"
    and k: "io_channel io \<notin> ran (channelMap s)" and fd: "0 \<le> fd" "channelMap s fd = None"
  shows "\<exists>s'. Connector_connecting io fd s = Inr s' \<and> waiting s' (io_channel io) fd \<and> poll_interest s' = (poll_interest s)(fd \<mapsto> kWriteEvent)
     \<and> timerList s' = timerList s \<and> timers s' = timers s \<and> ct_closed s' = ct_closed s \<and> ct_connect s' = ct_connect s
     \<and> s' = watching (io_channel io) fd s"
proof -
  let ?k = "io_channel io" and ?ch = "connector_chan (loopId s) fd"
  let ?s = "s\<lparr>ct_state := ckConnecting, ct_channel := Some ?k, chans := (chans s)(?k \<mapsto> ?ch)\<rparr>"
  have n: "poller_inv ?s" "chan_fresh ?s ?k" "chan_fd ?s ?k = fd" "poll_interest ?s = poll_interest s"
    using new_channel [OF inv(1) k, of ?ch ?s] fd by (simp_all add: isInLoopThread_def)
  have m: "poll_mask kWriteEvent" "0 OR kWriteEvent = kWriteEvent" by (simp_all add: poll_mask_def poll_bits)
  have e: "setEvents ?k kWriteEvent ?s = Inr (added ?k kWriteEvent ?ch ?s)"
    using fd by (intro setEvents_fresh [OF n(1)]) simp_all
  let ?a = "added ?k kWriteEvent ?ch ?s"
  have w: "poller_inv ?a" "chan_watched ?a ?k" "chan_fd ?a ?k = fd" "poll_interest ?a = (poll_interest s)(fd \<mapsto> kWriteEvent)"
    using poll_mux.upd_watch [OF n(1) disjI1 [OF n(2)] m(1)] e n(3,4) by auto
  have "timer_inv ?a" using inv(2) by (simp add: timer_inv_def added_def isInLoopThread_def seq_of_def [abs_def])
  moreover have "Connector_connecting io fd s = Inr ?a"
    using c e by (simp add: Connector_connecting_def Connector_setState_def Let_def enableWriting_def m connector_chan_def [symmetric])
  ultimately show ?thesis using w by (auto simp: waiting_def watching_def added_def)
qed

section \<open>Properties\<close>

text \<open>The states in which a connector may be started.\<close>

definition connector_idle :: "kernel_io \<Rightarrow> ('u, 'g, 'm) ctw \<Rightarrow> bool" where
  "connector_idle io s \<longleftrightarrow> poller_inv s \<and> timer_inv s \<and> ct_state s = ckDisconnected \<and> ct_channel s = None
     \<and> io_channel io \<notin> ran (channelMap s) \<and> 0 \<le> io_sockfd io \<and> channelMap s (io_sockfd io) = None
     \<and> timers s (io_timer io) = None \<and> io_timer io < UINTPTR_MAX"

text \<open>
  C12. Starting a disconnected connector in its loop, on every answer of \<open>connect(2)\<close>: when the connection is
  established or in progress the socket is watched for writing and the connector is connecting; on an error worth
  another attempt the socket is closed and \<open>startInLoop\<close> is scheduled after the current delay, which doubles up to half a
  minute; on any other error the socket is closed and nothing is scheduled. No assertion fails, and no
  descriptor is left open without being watched.
\<close>

theorem Connector_start_outcomes:
  fixes toMicros :: "double \<Rightarrow> int" and s :: "('u, 'g, 'm) ctw"
  assumes idle: "connector_idle io s" and thr: "isInLoopThread s"
  defines "fd \<equiv> io_sockfd io" and "t \<equiv> addTime toMicros (io_clock io) (of_int (retryDelayMs s) / 1000)"
  shows "\<exists>s'. Connector_start toMicros io s = Inr s' \<and> poller_inv s' \<and> timer_inv s' \<and> ct_connect s'
     \<and> (if io_connectErrno io \<in> {0, EINPROGRESS, EINTR, EISCONN}
        then waiting s' (io_channel io) fd \<and> poll_interest s' = (poll_interest s)(fd \<mapsto> kWriteEvent)
           \<and> ct_closed s' = ct_closed s \<and> timerList s' = timerList s
        else ct_state s' = ckDisconnected \<and> ct_channel s' = None \<and> poll_interest s' = poll_interest s
           \<and> ct_closed s' = ct_closed s @ [fd]
           \<and> (if io_connectErrno io \<in> {EAGAIN, EADDRINUSE, EADDRNOTAVAIL, ECONNREFUSED, ENETUNREACH}
              then timerList s' = entry_insert (t, io_timer io) (timerList s)
                 \<and> map_option tm_callback (timers s' (io_timer io)) = Some (OtherFn StartInLoop)
                 \<and> retryDelayMs s' = min (retryDelayMs s * 2) kMaxRetryDelayMs
              else timerList s' = timerList s))"
proof -
  let ?s = "s\<lparr>ct_connect := True\<rparr>"
  have same: "same_poller s ?s" by (simp add: same_poller_def isInLoopThread_def)
  have i: "poller_inv ?s" "timer_inv ?s" "ct_channel ?s = None" "io_channel io \<notin> ran (channelMap ?s)" "0 \<le> fd"
    "channelMap ?s fd = None" "timers ?s (io_timer io) = None" "io_timer io < UINTPTR_MAX" "poll_interest ?s = poll_interest s"
    using idle same_poller_keeps(1,4) [OF same]
    by (simp_all add: connector_idle_def fd_def) (simp add: timer_inv_def isInLoopThread_def seq_of_def [abs_def])
  have run: "Connector_start toMicros io s = Connector_connect toMicros io ?s"
    using thr idle
    by (simp add: Connector_start_def runInLoop_def Connector_startInLoop_def assertInLoopThread_def isInLoopThread_def connector_idle_def)
  have sock: "createNonblockingOrDie (io_sockfd io) = Inr fd" using i(5) by (simp add: createNonblockingOrDie_def fd_def)
  consider (ok) "io_connectErrno io \<in> {0, EINPROGRESS, EINTR, EISCONN}"
    | (again) "io_connectErrno io \<notin> {0, EINPROGRESS, EINTR, EISCONN}"
        "io_connectErrno io \<in> {EAGAIN, EADDRINUSE, EADDRNOTAVAIL, ECONNREFUSED, ENETUNREACH}"
    | (fail) "io_connectErrno io \<notin> {0, EINPROGRESS, EINTR, EISCONN}"
        "io_connectErrno io \<notin> {EAGAIN, EADDRINUSE, EADDRNOTAVAIL, ECONNREFUSED, ENETUNREACH}" by blast
  then show ?thesis
  proof cases
    case ok
    then have "Connector_connect toMicros io ?s = Connector_connecting io fd ?s"
      unfolding Connector_connect_def sock bindR_Inr Let_def by (simp only: if_True)
    with connecting_waits [OF i(1-6)] run ok i(9) show ?thesis by (auto simp: waiting_def)
  next
    case again
    then have "Connector_connect toMicros io ?s = Connector_retry toMicros io fd ?s"
      unfolding Connector_connect_def sock bindR_Inr Let_def by (simp only: if_True if_False)
    moreover obtain v where "Connector_retry toMicros io fd ?s = Inr (retried toMicros io fd v ?s)" "timer_inv (retried toMicros io fd v ?s)"
      using retry_schedules [OF i(2,7,8)] by auto
    ultimately show ?thesis
      using run again i(1,3,9) same_poller_keeps(1,4) [OF same_poller_retried, of toMicros io fd v ?s]
      by (simp add: t_def)
  next
    case fail
    then have "Connector_connect toMicros io ?s = Inr (Connector_close fd ?s)"
      unfolding Connector_connect_def sock bindR_Inr Let_def by (simp only: if_False)
    moreover have "same_poller ?s (Connector_close fd ?s)" by (simp add: same_poller_def Connector_close_def isInLoopThread_def)
    moreover have "timer_inv (Connector_close fd ?s)"
      using i(2) by (simp add: Connector_close_def timer_inv_def isInLoopThread_def seq_of_def [abs_def])
    ultimately show ?thesis
      using run fail i(1,3,9) idle same_poller_keeps(1,4) [of ?s "Connector_close fd ?s"]
      by (simp add: Connector_close_def connector_idle_def)
  qed
qed

text \<open>An event loop with a connector, not connected yet.\<close>

definition connector_sample :: "(unit, unit) connector_world" where
  "connector_sample = \<lparr>loopId = 0, threadId = 7, currentTid = 7, chans = Map.empty, pollFdList = [],
     channelMap = Map.empty, isLooping = False, isQuited = False, pollReturnTime = Timestamp 0,
     activeChannels = [], callingPendingFunctors = False, wakeupFd = 3, wakeupChannel = 0,
     pendingFunctors = [], eventfdCount = 0, timers = Map.empty, s_numCreated = 0, timerfd = 4, timerfdChannel = 1,
     timerList = [], activeTimerSet = {}, cancelingTimerSet = {}, callingExpiredTimers = False, timerfdValue = None,
     conns = Map.empty, ct_serverAddr = InetAddress_port 80, ct_connect = False, ct_state = ckDisconnected, ct_channel = None,
     ct_hasCallback = True, retryDelayMs = kInitRetryDelayMs, ct_timerId = TimerId 0 0, ct_closed = []\<rparr>"

definition sample_io :: "int \<Rightarrow> nat \<Rightarrow> kernel_io" where
  "sample_io err a = \<lparr>io_sockfd = 9, io_connectErrno = err, io_socketError = Inr 0, io_localAddr = None, io_peerAddr = None,
     io_clock = Timestamp 1000, io_channel = 5, io_timer = a\<rparr>"

lemma sample_idle: "connector_idle (sample_io err 40) connector_sample" "isInLoopThread connector_sample"
  by (simp_all add: connector_idle_def connector_sample_def sample_io_def poller_inv_def slot_of_def timer_inv_def isInLoopThread_def
      UINTPTR_MAX_def)

lemma sample_fields:
  "ct_closed connector_sample = []" "timerList connector_sample = []" "retryDelayMs connector_sample = 500"
  "ct_connect (connector_sample\<lparr>ct_connect := True\<rparr>)"
  "io_sockfd (sample_io err a) = 9" "io_connectErrno (sample_io err a) = err" "io_clock (sample_io err a) = Timestamp 1000"
  "io_timer (sample_io err a) = a" "io_channel (sample_io err a) = 5"
  by (simp_all add: connector_sample_def sample_io_def kInitRetryDelayMs_def)

theorem Connector_start_outcomes_witness:
  "\<exists>s1 s2. Connector_start (\<lambda>d. 500000) (sample_io EINPROGRESS 40) connector_sample = Inr s1 \<and> waiting s1 5 9
     \<and> Connector_start (\<lambda>d. 500000) (sample_io ECONNREFUSED 40) connector_sample = Inr s2
     \<and> timerList s2 = [(Timestamp 501000, 40)] \<and> ct_closed s2 = [9]"
  using Connector_start_outcomes [OF sample_idle(1) [of EINPROGRESS] sample_idle(2), of "\<lambda>d. 500000"]
    Connector_start_outcomes [OF sample_idle(1) [of ECONNREFUSED] sample_idle(2), of "\<lambda>d. 500000"]
  by (auto simp: sample_fields addTime_def errnos)

text \<open>
  C14. Retries back off exponentially: the attempt after the first failure comes half a second later, each further
  one after twice the last delay, and never more than thirty seconds later; every failed socket is closed, and every
  retry schedules exactly the connector's \<open>startInLoop\<close>.
\<close>

theorem Connector_backoff:
  assumes "timer_inv s" and "ct_connect s" and "retryDelayMs s = kInitRetryDelayMs" and "distinct (map (io_timer \<circ> fst) tries)"
    and "\<forall>p \<in> set tries. timers s (io_timer (fst p)) = None \<and> io_timer (fst p) < UINTPTR_MAX"
  shows "\<exists>s'. foldR (\<lambda>p. Connector_retry toMicros (fst p) (snd p)) tries s = Inr s' \<and> timer_inv s'
     \<and> ct_closed s' = ct_closed s @ map snd tries
     \<and> (\<forall>i < length tries. let io = fst (tries ! i) in
          (addTime toMicros (io_clock io) (of_int (min (500 * 2 ^ i) 30000) / 1000), io_timer io) \<in> set (timerList s')
          \<and> map_option tm_callback (timers s' (io_timer io)) = Some (OtherFn StartInLoop))"
proof -
  have "retryDelayMs s = backoff 0" using assms(3) by (simp add: backoff_def kInitRetryDelayMs_def)
  from retries_from [OF assms(1,2) this assms(4,5), of toMicros] show ?thesis by (auto simp: backoff_def Let_def)
qed

theorem Connector_backoff_witness:
  "\<exists>s'. foldR (\<lambda>p. Connector_retry (\<lambda>d. \<lfloor>d * 1000000\<rfloor>) (fst p) (snd p)) [(sample_io 0 40, 9), (sample_io 0 41, 10)]
          (connector_sample\<lparr>ct_connect := True\<rparr>) = Inr s'
     \<and> (Timestamp 501000, 40) \<in> set (timerList s') \<and> (Timestamp 1001000, 41) \<in> set (timerList s')"
proof -
  let ?tries = "[(sample_io 0 40, 9), (sample_io 0 41, 10)]" and ?s = "connector_sample\<lparr>ct_connect := True\<rparr>"
  have t: "timer_inv ?s" and d: "retryDelayMs ?s = kInitRetryDelayMs" and e: "timers ?s = Map.empty"
    by (simp_all add: connector_sample_def timer_inv_def isInLoopThread_def)
  have b: "40 < UINTPTR_MAX" "41 < UINTPTR_MAX" by (simp_all add: UINTPTR_MAX_def)
  from Connector_backoff [OF t sample_fields(4) d, of ?tries "\<lambda>d. \<lfloor>d * 1000000\<rfloor>"] e b show ?thesis
    by (auto simp: sample_fields Let_def addTime_def less_Suc_eq all_conj_distrib numeral_2_eq_2)
qed

lemma removeAndResetChannel_drops:
  assumes "waiting s k fd"
  shows "\<exists>s1. removeAndResetChannel s = Inr (fd, s1) \<and> poller_inv s1 \<and> timer_inv s1 \<and> poll_interest s1 = (poll_interest s)(fd := None)
     \<and> pendingFunctors s1 = pendingFunctors s @ [UserFn (OtherFn ResetChannel)] \<and> ct_channel s1 = Some k
     \<and> ct_connect s1 = ct_connect s \<and> ct_closed s1 = ct_closed s \<and> ct_hasCallback s1 = ct_hasCallback s
     \<and> retryDelayMs s1 = retryDelayMs s \<and> timers s1 = timers s \<and> timerList s1 = timerList s \<and> conns s1 = conns s
     \<and> channelMap s1 = (channelMap s)(fd := None) \<and> (\<exists>i d j ch. s1 = queueInLoop (UserFn (OtherFn ResetChannel)) (moved fd i d (modified k 0 ch j s)))"
proof -
  have w: "poller_inv s" "chan_watched s k" "chan_fd s k = fd" "ct_channel s = Some k" "timer_inv s"
    using assms by (simp_all add: waiting_def)
  obtain s1 s2 i d j ch ch2 where d: "disableAll k s = Inr s1" "EventLoop_removeChannel k s1 = Inr s2" "poller_inv s2"
    "poll_interest s2 = (poll_interest s)(fd := None)" "s2 = moved fd i d (modified k 0 ch j s)" "chans s2 k = Some ch2" "ch_fd ch2 = fd"
    using drop_channel [OF w(1-3)] by blast
  let ?q = "queueInLoop (UserFn (OtherFn ResetChannel)) s2"
  have "removeAndResetChannel s = Inr (fd, ?q)" using w(4) d(1,2,6,7) by (simp add: removeAndResetChannel_def)
  moreover have "poller_inv ?q" "poll_interest ?q = (poll_interest s)(fd := None)"
    using same_poller_keeps(1,4) [OF same_poller_queueInLoop, of "UserFn (OtherFn ResetChannel)" s2] d(3,4) by simp_all
  moreover have "timer_inv ?q" using w(5) by (simp add: d(5))
  moreover have "pendingFunctors ?q = pendingFunctors s @ [UserFn (OtherFn ResetChannel)]" "ct_channel ?q = Some k" "ct_connect ?q = ct_connect s"
    "ct_closed ?q = ct_closed s" "ct_hasCallback ?q = ct_hasCallback s" "retryDelayMs ?q = retryDelayMs s" "timers ?q = timers s"
    "timerList ?q = timerList s" "conns ?q = conns s" "channelMap ?q = (channelMap s)(fd := None)"
    using w(4) by (simp_all add: d(5) moved_def modified_def queueInLoop_def pushFunctor_def wakeUp_def Let_def)
  moreover have "\<exists>i d j ch. ?q = queueInLoop (UserFn (OtherFn ResetChannel)) (moved fd i d (modified k 0 ch j s))" using d(5) by blast
  ultimately show ?thesis by (intro exI [of _ ?q] conjI)
qed

text \<open>
  C13. When a waiting socket becomes writable, it is taken out of the poller, and then exactly one of three things happens
  to its descriptor: a failed or a self-connected socket is closed and another attempt scheduled (if one is still
  wanted); a connected one is handed to the callback; or it is closed because \<open>stop()\<close> was called.
\<close>

theorem Connector_handleWrite_outcomes:
  fixes toMicros :: "double \<Rightarrow> int" and s :: "('u, 'g, 'm) ctw"
  assumes w: "waiting s k fd" and fresh: "timers s (io_timer io) = None" "io_timer io < UINTPTR_MAX" and cb: "ct_hasCallback s"
  defines "failed \<equiv> getSocketError (io_socketError io) \<noteq> 0 \<or> isSelfConnect (io_localAddr io) (io_peerAddr io)"
  shows "(if \<not> failed \<and> ct_connect s
      then \<exists>s1. Connector_handleWrite toMicros newConn io s = newConn fd s1 \<and> poller_inv s1 \<and> timer_inv s1
        \<and> poll_interest s1 = (poll_interest s)(fd := None) \<and> ct_state s1 = ckConnected \<and> ct_closed s1 = ct_closed s
        \<and> timerList s1 = timerList s
      else \<exists>s1. Connector_handleWrite toMicros newConn io s = Inr s1 \<and> poller_inv s1 \<and> timer_inv s1
        \<and> poll_interest s1 = (poll_interest s)(fd := None) \<and> ct_closed s1 = ct_closed s @ [fd]
        \<and> ct_state s1 = (if failed then ckDisconnected else ckConnected)
        \<and> timerList s1 = (if failed \<and> ct_connect s
             then entry_insert (addTime toMicros (io_clock io) (of_int (retryDelayMs s) / 1000), io_timer io) (timerList s) else timerList s))"
proof -
  obtain s1 where r: "removeAndResetChannel s = Inr (fd, s1)" "poller_inv s1" "timer_inv s1" "poll_interest s1 = (poll_interest s)(fd := None)"
    "ct_connect s1 = ct_connect s" "ct_closed s1 = ct_closed s" "ct_hasCallback s1 = ct_hasCallback s" "retryDelayMs s1 = retryDelayMs s"
    "timers s1 = timers s" "timerList s1 = timerList s"
    using removeAndResetChannel_drops [OF w] by blast
  have st: "ct_state s = ckConnecting" using w by (simp add: waiting_def)
  have run: "Connector_handleWrite toMicros newConn io s =
      (if failed then Connector_retry toMicros io fd s1
       else if ct_connect s then newConn fd (s1\<lparr>ct_state := ckConnected\<rparr>) else Inr (s1\<lparr>ct_state := ckConnected, ct_closed := ct_closed s @ [fd]\<rparr>))"
    using st r cb by (simp add: Connector_handleWrite_def failed_def Connector_setState_def Connector_close_def Let_def)
  have t: "timer_inv (s1\<lparr>ct_state := x\<rparr>)" "timer_inv (s1\<lparr>ct_state := x, ct_closed := y\<rparr>)"
    "timer_inv (s1\<lparr>ct_closed := y, ct_state := x\<rparr>)" for x y
    using r(3) by (simp_all add: timer_inv_def isInLoopThread_def seq_of_def [abs_def])
  have p: "same_poller s1 (s1\<lparr>ct_state := x\<rparr>)" "same_poller s1 (s1\<lparr>ct_state := x, ct_closed := y\<rparr>)" for x y
    by (simp_all add: same_poller_def isInLoopThread_def)
  note pk = same_poller_keeps(1,4) [OF p(1)] same_poller_keeps(1,4) [OF p(2)]
  show ?thesis
  proof (cases "failed \<and> ct_connect s")
    case True
    moreover obtain v where "Connector_retry toMicros io fd s1 = Inr (retried toMicros io fd v s1)" "timer_inv (retried toMicros io fd v s1)"
      using retry_schedules [OF r(3), of io toMicros fd] r(5,9) fresh True by auto
    ultimately show ?thesis
      using run r same_poller_keeps(1,4) [OF same_poller_retried, of toMicros io fd v s1] by simp
  next
    case False
    have "Connector_retry toMicros io fd s1 = Inr (s1\<lparr>ct_state := ckDisconnected, ct_closed := ct_closed s @ [fd]\<rparr>)" if "\<not> ct_connect s"
      using that r by (simp add: Connector_retry_def Connector_setState_def Connector_close_def Let_def)
    with False run r t pk show ?thesis by (cases failed; cases "ct_connect s") auto
  qed
qed

lemma sample_waits: "\<exists>s. Connector_start toMicros (sample_io 0 40) connector_sample = Inr s \<and> waiting s 5 9 \<and> timers s = Map.empty
    \<and> ct_hasCallback s \<and> ct_connect s"
proof -
  let ?s = "connector_sample\<lparr>ct_connect := True\<rparr>"
  have i: "poller_inv ?s" "timer_inv ?s" "ct_channel ?s = None" "io_channel (sample_io 0 40) \<notin> ran (channelMap ?s)" "channelMap ?s 9 = None"
    by (simp_all add: connector_sample_def sample_io_def poller_inv_def timer_inv_def isInLoopThread_def)
  have "Connector_start toMicros (sample_io 0 40) connector_sample = Connector_connecting (sample_io 0 40) 9 ?s"
    by (simp add: Connector_start_def runInLoop_def Connector_startInLoop_def assertInLoopThread_def isInLoopThread_def Connector_connect_def
        createNonblockingOrDie_def sample_fields) (simp add: connector_sample_def)
  moreover obtain s where s: "Connector_connecting (sample_io 0 40) 9 ?s = Inr s" "waiting s 5 9" "timers s = timers ?s" "ct_connect s"
    using connecting_waits [OF i(1-4) _ i(5)] by (auto simp: sample_fields)
  moreover have "ct_hasCallback s" using s(1)
    by (auto simp: Connector_connecting_def Connector_setState_def Let_def enableWriting_def setEvents_def Channel_update_def
        EventLoop_updateChannel_def Poller_updateChannel_def assertInLoopThread_def upd_chan_def setIndex_def bindR_eq_Inr
        derefR_eq_Inr connector_sample_def Channel_new_def setErrorCallback_def setWriteCallback_def split: if_splits)
  ultimately show ?thesis by (auto simp: connector_sample_def)
qed

theorem Connector_handleWrite_outcomes_witness:
  "\<exists>(s :: (unit, unit) connector_world) s1. waiting s 5 9 \<and> Connector_handleWrite (\<lambda>d. 500000) (\<lambda>fd w. Inr (w\<lparr>ct_closed := [fd]\<rparr>))
       ((sample_io 0 41)\<lparr>io_socketError := Inr ECONNREFUSED\<rparr>) s = Inr s1
     \<and> ct_state s1 = ckDisconnected \<and> poll_interest s1 9 = None"
proof -
  from sample_waits [of "\<lambda>d. 500000"] obtain s :: "(unit, unit) connector_world" where s: "waiting s 5 9" "timers s = Map.empty" "ct_hasCallback s" "ct_connect s" by blast
  have "41 < UINTPTR_MAX" by (simp add: UINTPTR_MAX_def)
  with Connector_handleWrite_outcomes [OF s(1) _ _ s(3), of "(sample_io 0 41)\<lparr>io_socketError := Inr ECONNREFUSED\<rparr>" "\<lambda>d. 500000"
      "\<lambda>fd w. Inr (w\<lparr>ct_closed := [fd]\<rparr>)"] s
  show ?thesis by (auto simp: getSocketError_def errnos sample_io_def)
qed

lemma cancelInLoop_miss:
  assumes "timer_inv s" and "(id_timer i, id_sequence i) \<notin> activeTimerSet s"
  shows "\<exists>X. cancelInLoop i s = Inr (s\<lparr>cancelingTimerSet := X\<rparr>)"
proof -
  have "sizes_agree (s\<lparr>cancelingTimerSet := X\<rparr>) = sizes_agree s" for X by (simp add: sizes_agree_def)
  then have "cancelInLoop i s = Inr (if callingExpiredTimers s
      then s\<lparr>cancelingTimerSet := insert (id_timer i, id_sequence i) (cancelingTimerSet s)\<rparr> else s)"
    using assms timer_inv_sizes [OF assms(1)] by (simp add: cancelInLoop_def assertInLoopThread_def Let_def timer_inv_def)
  moreover have "s\<lparr>cancelingTimerSet := cancelingTimerSet s\<rparr> = s" by simp
  ultimately show ?thesis by metis
qed

text \<open>
  \<open>stop()\<close> does not take back the attempt that a retry has scheduled: after a failed attempt, \<open>stop()\<close> and
  \<open>start()\<close>, the connector is connecting and the old timer, still in the queue, will run \<open>startInLoop\<close> again, whose
  assertion that the connector is disconnected then fails.
\<close>

theorem Connector_stale_retry:
  fixes toMicros :: "double \<Rightarrow> int" and s :: "('u, 'g, 'm) ctw"
  assumes inv: "poller_inv s" "timer_inv s" and st: "ct_connect s" "ct_channel s = None"
    and fresh: "timers s (io_timer io) = None" "io_timer io < UINTPTR_MAX" "0 \<le> s_numCreated s" "s_numCreated s < 2 ^ 63 - 1"
    and ok: "io_channel io2 \<notin> ran (channelMap s)" "0 \<le> io_sockfd io2" "channelMap s (io_sockfd io2) = None" "io_connectErrno io2 = EINPROGRESS"
  defines "t \<equiv> addTime toMicros (io_clock io) (of_int (retryDelayMs s) / 1000)"
  shows "\<exists>s1 s2 s3. Connector_retry toMicros io fd s = Inr s1 \<and> Connector_stop io2 s1 = Inr s2 \<and> Connector_start toMicros io2 s2 = Inr s3
     \<and> waiting s3 (io_channel io2) (io_sockfd io2) \<and> (t, io_timer io) \<in> set (timerList s3)
     \<and> map_option tm_callback (timers s3 (io_timer io)) = Some (OtherFn StartInLoop)
     \<and> Connector_startInLoop toMicros io3 s3 = Inl AssertionFailed"
proof -
  let ?a = "io_timer io"
  obtain v where r: "Connector_retry toMicros io fd s = Inr (retried toMicros io fd v s)" "timer_inv (retried toMicros io fd v s)"
    using retry_schedules [OF inv(2) fresh(1,2) st(1)] by blast
  let ?r = "retried toMicros io fd v s"
  let ?off = "?r\<lparr>ct_connect := False\<rparr>"
  have "int64_wrap (s_numCreated s + 1) = s_numCreated s + 1" using fresh(3,4) by (simp add: int64_wrap_def)
  then have "seq_of ?r ?a \<noteq> 0" using fresh(3) by (simp add: seq_of_def retried_def timer_added_def Let_def)
  moreover have t0: "timer_inv ?off" using r(2) by (simp add: timer_inv_def isInLoopThread_def seq_of_def [abs_def])
  ultimately have "(?a, 0) \<notin> activeTimerSet ?off" by (auto simp: timer_inv_def seq_of_def)
  then obtain X where X: "cancelInLoop (TimerId_of ?a) ?off = Inr (?off\<lparr>cancelingTimerSet := X\<rparr>)"
    using cancelInLoop_miss [OF t0, of "TimerId_of ?a"] by (auto simp: TimerId_of_def)
  define w where "w = ?off\<lparr>cancelingTimerSet := X\<rparr>"
  have thr: "isInLoopThread ?off" using t0 by (simp add: timer_inv_def)
  have stop: "Connector_stop io2 ?r = Inr w"
    using X thr by (simp add: Connector_stop_def EventLoop_cancel_def TimerQueue_cancel_def runInLoop_def w_def)
  let ?w = "w\<lparr>ct_connect := True\<rparr>"
  have same: "same_poller s ?w" using same_poller_retried [of s toMicros io fd v] by (simp add: same_poller_def w_def isInLoopThread_def)
  have wi: "poller_inv ?w" "timer_inv ?w" "ct_channel ?w = None" "io_channel io2 \<notin> ran (channelMap ?w)" "channelMap ?w (io_sockfd io2) = None"
    using same_poller_keeps(1) [OF same] inv(1) t0 st(2) ok(1,3) same
    by (simp_all add: w_def same_poller_def) (simp add: timer_inv_def isInLoopThread_def seq_of_def [abs_def])
  have "Connector_start toMicros io2 w = Connector_connecting io2 (io_sockfd io2) ?w"
    using thr ok(2,4)
    by (simp add: Connector_start_def runInLoop_def isInLoopThread_def Connector_startInLoop_def assertInLoopThread_def w_def
        Connector_connect_def createNonblockingOrDie_def)
  moreover obtain u where u: "Connector_connecting io2 (io_sockfd io2) ?w = Inr u" "waiting u (io_channel io2) (io_sockfd io2)"
    "timerList u = timerList ?w" "timers u = timers ?w"
    using connecting_waits [OF wi(1-4) ok(2) wi(5)] by blast
  moreover have "timerList ?w = timerList ?r" "timers ?w = timers ?r" by (simp_all add: w_def)
  moreover have "Connector_startInLoop toMicros io3 u = Inl AssertionFailed"
    using u(2) by (simp add: Connector_startInLoop_def waiting_def assertInLoopThread_def poller_inv_def)
  ultimately show ?thesis using r(1) stop by (auto simp: t_def)
qed

theorem Connector_stale_retry_witness:
  "\<exists>s1 s2 s3. Connector_retry (\<lambda>d. 500000) (sample_io 0 40) 8 (connector_sample\<lparr>ct_connect := True\<rparr>) = Inr s1
     \<and> Connector_stop (sample_io EINPROGRESS 41) s1 = Inr s2 \<and> Connector_start (\<lambda>d. 500000) (sample_io EINPROGRESS 41) s2 = Inr s3
     \<and> (Timestamp 501000, 40) \<in> set (timerList s3)
     \<and> Connector_startInLoop (\<lambda>d. 500000) (sample_io EINPROGRESS 42) s3 = Inl AssertionFailed"
proof -
  let ?s = "connector_sample\<lparr>ct_connect := True\<rparr>"
  have i: "poller_inv ?s" "timer_inv ?s" "ct_connect ?s" "ct_channel ?s = None" "timers ?s (io_timer (sample_io 0 40)) = None"
    "io_timer (sample_io 0 40) < UINTPTR_MAX" "0 \<le> s_numCreated ?s" "s_numCreated ?s < 2 ^ 63 - 1"
    "io_channel (sample_io EINPROGRESS 41) \<notin> ran (channelMap ?s)" "0 \<le> io_sockfd (sample_io EINPROGRESS 41)"
    "channelMap ?s (io_sockfd (sample_io EINPROGRESS 41)) = None" "io_connectErrno (sample_io EINPROGRESS 41) = EINPROGRESS"
    by (simp_all add: connector_sample_def sample_io_def poller_inv_def timer_inv_def isInLoopThread_def UINTPTR_MAX_def)
  from Connector_stale_retry [OF i, of "\<lambda>d. 500000" 8 "sample_io EINPROGRESS 42"] show ?thesis
    by (auto simp: sample_fields addTime_def)
qed

end
