(* ===== verification/TcpClient.thy ===== *)
theory TcpClient
  imports Connector
begin

text \<open>
  \<^verbatim>\<open>muduo/TcpClient.h\<close> and \<^verbatim>\<open>TcpClient.cpp\<close>: a client owns a connector and at most one connection. The state
  extends the connector's; \<open>MutexLockGuard\<close> around \<open>connection_\<close> makes its reads and writes atomic, which here they
  are. The functions that the client binds are values of its own types.
\<close>

section \<open>The class\<close>

datatype 'v client_cb = ClientRemoveConnection | DetailRemoveConnection | ClientUser 'v

datatype client_fn = SetCloseCallback nat | RemoveConnector

record 'v client_world = "('v client_cb, client_fn) connector_world" +
  clConnectionCallback :: "'v option"
  clMessageCallback :: "'v option"
  clWriteCompleteCallback :: "'v option"
  clRetry :: bool
  clConnect :: bool
  clNextConnId :: int
  clConnection :: "nat option"

type_synonym ('v, 'm) clw = "('v, 'm) client_world_scheme"

type_synonym ('v, 'm) client_user_code = "'v \<Rightarrow> nat \<Rightarrow> timestamp \<Rightarrow> ('v, 'm) clw \<Rightarrow> ('v, 'm) clw result"

text \<open>\<open>detail::removeConnection\<close>, the close callback of a connection that outlives its client.\<close>

definition detail_removeConnection :: "nat \<Rightarrow> ('v, 'm) clw \<Rightarrow> ('v, 'm) clw result" where
  "detail_removeConnection c s = Inr (queueInLoop (UserFn (ConnectDestroyed c)) s)"

text \<open>
  \<open>detail::removeConnector\<close> does nothing; after it has run, its timer is deleted and with it the last pointer to the
  connector.
\<close>

definition detail_removeConnector :: "kernel_io \<Rightarrow> ('v, 'm) clw \<Rightarrow> ('v, 'm) clw result" where
  "detail_removeConnector io s = Connector_delete io s"

definition TcpClient_new :: "InetAddress \<Rightarrow> ('v, 'm) clw \<Rightarrow> ('v, 'm) clw" where
  "TcpClient_new serverAddr s =
     (Connector_setNewConnectionCallback (Connector_new serverAddr s))
       \<lparr>clRetry := False, clConnect := True, clNextConnId := 1, clConnection := None,
        clConnectionCallback := None, clMessageCallback := None, clWriteCompleteCallback := None\<rparr>"

definition TcpClient_enableRetry :: "('v, 'm) clw \<Rightarrow> ('v, 'm) clw" where
  "TcpClient_enableRetry s = s\<lparr>clRetry := True\<rparr>"

definition TcpClient_connection :: "('v, 'm) clw \<Rightarrow> nat option" where
  "TcpClient_connection s = clConnection s"

definition TcpClient_setConnectionCallback :: "'v \<Rightarrow> ('v, 'm) clw \<Rightarrow> ('v, 'm) clw" where
  "TcpClient_setConnectionCallback cb s = s\<lparr>clConnectionCallback := Some cb\<rparr>"

definition TcpClient_setMessageCallback :: "'v \<Rightarrow> ('v, 'm) clw \<Rightarrow> ('v, 'm) clw" where
  "TcpClient_setMessageCallback cb s = s\<lparr>clMessageCallback := Some cb\<rparr>"

definition TcpClient_setWriteCompleteCallback :: "'v \<Rightarrow> ('v, 'm) clw \<Rightarrow> ('v, 'm) clw" where
  "TcpClient_setWriteCompleteCallback cb s = s\<lparr>clWriteCompleteCallback := Some cb\<rparr>"

definition TcpClient_connect :: "(double \<Rightarrow> int) \<Rightarrow> kernel_io \<Rightarrow> ('v, 'm) clw \<Rightarrow> ('v, 'm) clw result" where
  "TcpClient_connect toMicros io s = Connector_start toMicros io (s\<lparr>clConnect := True\<rparr>)"

definition TcpClient_disconnect :: "('v, 'm) clw \<Rightarrow> ('v, 'm) clw result" where
  "TcpClient_disconnect s =
     (let s1 = s\<lparr>clConnect := False\<rparr> in
      case clConnection s1 of None \<Rightarrow> Inr s1 | Some c \<Rightarrow> shutdown c s1)"

definition TcpClient_stop :: "kernel_io \<Rightarrow> ('v, 'm) clw \<Rightarrow> ('v, 'm) clw result" where
  "TcpClient_stop io s = Connector_stop io (s\<lparr>clConnect := False\<rparr>)"

definition TcpClient_removeConnection :: "(double \<Rightarrow> int) \<Rightarrow> kernel_io \<Rightarrow> nat \<Rightarrow> ('v, 'm) clw \<Rightarrow> ('v, 'm) clw result" where
  "TcpClient_removeConnection toMicros io c s =
     assertInLoopThread s
       (bindR (derefR (conns s) c) (\<lambda>conn.
          assertR (loopId s = connLoop conn)
            (assertR (clConnection s = Some c)
              (let s1 = queueInLoop (UserFn (ConnectDestroyed c)) (s\<lparr>clConnection := None\<rparr>) in
               if clRetry s1 \<and> clConnect s1 then Connector_restart toMicros io s1 else Inr s1))))"

text \<open>What a connection of this client calls. \<open>io\<close> is what the outside answers should a restart follow.\<close>

definition client_user :: "(double \<Rightarrow> int) \<Rightarrow> kernel_io \<Rightarrow> ('v, 'm) client_user_code
    \<Rightarrow> 'v client_cb \<Rightarrow> nat \<Rightarrow> timestamp \<Rightarrow> ('v, 'm) clw \<Rightarrow> ('v, 'm) clw result" where
  "client_user toMicros io user cb c t s =
     (case cb of
        ClientRemoveConnection \<Rightarrow> TcpClient_removeConnection toMicros io c s
      | DetailRemoveConnection \<Rightarrow> detail_removeConnection c s
      | ClientUser v \<Rightarrow> user v c t s)"

definition clientConnName :: "InetAddress \<Rightarrow> int \<Rightarrow> string" where
  "clientConnName peer n = fst (snprintf 32 ('':'' @ InetAddress_toHostPort peer @ ''#'' @ dec_int n))"

text \<open>\<open>c\<close> and \<open>k\<close> are the addresses of the new connection and its channel.\<close>

definition TcpClient_newConnection :: "(double \<Rightarrow> int) \<Rightarrow> kernel_io \<Rightarrow> ('v, 'm) client_user_code \<Rightarrow> nat \<Rightarrow> nat \<Rightarrow> timestamp \<Rightarrow> int
    \<Rightarrow> ('v, 'm) clw \<Rightarrow> ('v, 'm) clw result" where
  "TcpClient_newConnection toMicros io user c k t fd s =
     assertInLoopThread s
       (let peer = InetAddress (getPeerAddr (io_peerAddr io));
            name = clientConnName peer (clNextConnId s);
            s1 = s\<lparr>clNextConnId := clNextConnId s + 1\<rparr>;
            la = InetAddress (getLocalAddr (io_localAddr io));
            s2 = TcpConnection_new c k name fd la peer s1;
            s3 = upd_conn c (conn_setCloseCallback (Some ClientRemoveConnection)
                   \<circ> setWriteCompleteCallback (map_option ClientUser (clWriteCompleteCallback s2))
                   \<circ> setMessageCallback (map_option ClientUser (clMessageCallback s2))
                   \<circ> setConnectionCallback (map_option ClientUser (clConnectionCallback s2))) s2;
            s4 = s3\<lparr>clConnection := Some c\<rparr>
        in connectEstablished (client_user toMicros io user) c t s4)"

definition client_setCloseCallback :: "nat \<Rightarrow> ('v, 'm) clw \<Rightarrow> ('v, 'm) clw result" where
  "client_setCloseCallback c s = Inr (upd_conn c (conn_setCloseCallback (Some DetailRemoveConnection)) s)"

text \<open>
  The destructor. With a connection, the connector goes with the client; without one, a timer keeps the connector
  for a second.
\<close>

definition TcpClient_delete :: "(double \<Rightarrow> int) \<Rightarrow> kernel_io \<Rightarrow> ('v, 'm) clw \<Rightarrow> ('v, 'm) clw result" where
  "TcpClient_delete toMicros io s =
     (case clConnection s of
        Some c \<Rightarrow>
          bindR (runInLoop (\<lambda>_. client_setCloseCallback c) (UserFn (OtherFn (ClientFn (SetCloseCallback c)))) s)
            (Connector_delete io)
      | None \<Rightarrow>
          bindR (Connector_stop io s) (\<lambda>s1.
            bindR (runAfter toMicros (io_clock io) no_functor (io_timer io) 1 (OtherFn (ClientFn RemoveConnector)) s1)
              (\<lambda>(_, s2). Inr s2)))"

fun run_client_fn :: "kernel_io \<Rightarrow> client_fn \<Rightarrow> ('v, 'm) clw \<Rightarrow> ('v, 'm) clw result" where
  "run_client_fn io (SetCloseCallback c) = client_setCloseCallback c"
| "run_client_fn io RemoveConnector = detail_removeConnector io"

section \<open>A connection is made\<close>

text \<open>A callback of the user that leaves the poller, the connections, the client and its connector alone.\<close>

definition quiet_client :: "('v, 'm) client_user_code \<Rightarrow> 'v \<Rightarrow> bool" where
  "quiet_client user v \<longleftrightarrow> (\<forall>c t s. \<exists>s'. user v c t s = Inr s' \<and> same_poller s s' \<and> conns s' = conns s
     \<and> clConnection s' = clConnection s \<and> ct_state s' = ct_state s \<and> pendingFunctors s' = pendingFunctors s)"

definition client_chan :: "nat \<Rightarrow> nat \<Rightarrow> int \<Rightarrow> connector_ch net_cb channel" where
  "client_chan c lp fd = setErrorCallback (ConnError c) (setCloseCallback (ConnClose c)
     (setWriteCallback (ConnWrite c) (setReadCallback (ConnRead c) (Channel_new lp fd))))"

lemma client_chan_sel [simp]:
  "ch_fd (client_chan c lp fd) = fd" "ch_index (client_chan c lp fd) = -1" "ownerLoop (client_chan c lp fd) = lp" "ch_events (client_chan c lp fd) = 0"
  by (simp_all add: client_chan_def setErrorCallback_def setCloseCallback_def setWriteCallback_def setReadCallback_def Channel_new_def)

definition client_conn :: "nat \<Rightarrow> kernel_io \<Rightarrow> int \<Rightarrow> ('v, 'm) clw \<Rightarrow> 'v client_cb tcp_connection" where
  "client_conn k io fd s =
     (let peer = InetAddress (getPeerAddr (io_peerAddr io)) in
      \<lparr>connLoop = loopId s, connName = clientConnName peer (clNextConnId s), connState = kConnecting, connSocket = Socket_new fd,
       connChannel = k, localAddr = InetAddress (getLocalAddr (io_localAddr io)), peerAddr = peer,
       connectionCallback = map_option ClientUser (clConnectionCallback s), messageCallback = map_option ClientUser (clMessageCallback s),
       connCloseCallback = Some ClientRemoveConnection, writeCompleteCallback = map_option ClientUser (clWriteCompleteCallback s),
       highWaterLevelCallback = None, highWaterLevel = 0, inputBuffer = Buffer_new, outputBuffer = Buffer_new, wire = []\<rparr>)"

lemma client_conn_sel [simp]:
  "connState (client_conn k io fd s) = kConnecting" "connChannel (client_conn k io fd s) = k" "outputBuffer (client_conn k io fd s) = Buffer_new"
  "connectionCallback (client_conn k io fd s) = map_option ClientUser (clConnectionCallback s)" "connLoop (client_conn k io fd s) = loopId s"
  "connCloseCallback (client_conn k io fd s) = Some ClientRemoveConnection"
  by (simp_all add: client_conn_def Let_def)

definition with_client_conn :: "nat \<Rightarrow> nat \<Rightarrow> kernel_io \<Rightarrow> int \<Rightarrow> ('v, 'm) clw \<Rightarrow> ('v, 'm) clw" where
  "with_client_conn c k io fd s =
     s\<lparr>clNextConnId := clNextConnId s + 1, chans := (chans s)(k \<mapsto> client_chan c (loopId s) fd),
       conns := (conns s)(c \<mapsto> client_conn k io fd s), clConnection := Some c\<rparr>"

lemma newConnection_establishes:
  assumes "isInLoopThread s"
  shows "TcpClient_newConnection toMicros io user c k t fd s =
     connectEstablished (client_user toMicros io user) c t (with_client_conn c k io fd s)"
  using assms
  by (simp add: TcpClient_newConnection_def assertInLoopThread_def Let_def TcpConnection_new_def upd_conn_def conn_setCloseCallback_def
      setWriteCompleteCallback_def setMessageCallback_def setConnectionCallback_def with_client_conn_def client_conn_def client_chan_def)

text \<open>The new connection is open when the user's callback is called for it.\<close>

lemma client_newConnection_calls:
  fixes toMicros :: "double \<Rightarrow> int" and user :: "('v, 'm) client_user_code" and s :: "('v, 'm) clw"
  assumes inv: "poller_inv s" and k: "k \<notin> ran (channelMap s)" and fd: "0 \<le> fd" "channelMap s fd = None"
    and user: "clConnectionCallback s = Some v"
  shows "\<exists>o1. TcpClient_newConnection toMicros io user c k t fd s = user v c t o1 \<and> conn_ok o1 c \<and> clConnection o1 = Some c
     \<and> conns o1 = (conns s)(c \<mapsto> (client_conn k io fd s)\<lparr>connState := kConnected\<rparr>)
     \<and> poll_interest o1 = (poll_interest s)(fd \<mapsto> kReadEvent) \<and> ct_state o1 = ct_state s \<and> pendingFunctors o1 = pendingFunctors s"
proof -
  let ?w = "with_client_conn c k io fd s" and ?conn = "client_conn k io fd s" and ?ch = "client_chan c (loopId s) fd"
  have f: "pollFdList ?w = pollFdList s" "channelMap ?w = channelMap s" "loopId ?w = loopId s" "isInLoopThread ?w = isInLoopThread s"
    "chans ?w = (chans s)(k \<mapsto> ?ch)" "conns ?w = (conns s)(c \<mapsto> ?conn)"
    by (simp_all add: with_client_conn_def isInLoopThread_def)
  have n: "poller_inv ?w" "chan_fresh ?w k" "chan_fd ?w k = fd" "poll_interest ?w = poll_interest s"
    using new_channel [OF inv k, of ?ch ?w] fd f(1-5) by simp_all
  have cn: "conns ?w c = Some ?conn" "chans ?w k = Some ?ch" using f(5,6) by simp_all
  note o = connectEstablished_opens [of ?w c ?conn ?ch, OF n(1) cn(1), unfolded client_conn_sel, OF refl n(2) cn(2) client_chan_sel(4) refl]
  let ?o = "opened c ?conn ?ch ?w"
  have "TcpClient_newConnection toMicros io user c k t fd s = user v c t ?o"
    using newConnection_establishes [OF poller_inv_thread [OF inv], of toMicros io user c k t fd] o(1) [of "client_user toMicros io user" t]
    by (simp add: user(1) call_def client_user_def)
  moreover have "conns ?o = (conns s)(c \<mapsto> ?conn\<lparr>connState := kConnected\<rparr>)" "clConnection ?o = Some c" "ct_state ?o = ct_state s"
    "pendingFunctors ?o = pendingFunctors s"
    by (simp_all add: opened_def added_def setState_def upd_conn_def with_client_conn_def)
  ultimately show ?thesis using o(2,4) n(3,4) by (intro exI [of _ ?o]) simp
qed

lemma client_newConnection_opens:
  fixes toMicros :: "double \<Rightarrow> int" and user :: "('v, 'm) client_user_code" and s :: "('v, 'm) clw"
  assumes inv: "poller_inv s" and k: "k \<notin> ran (channelMap s)" and fd: "0 \<le> fd" "channelMap s fd = None"
    and user: "clConnectionCallback s = Some v" "quiet_client user v"
  shows "\<exists>s'. TcpClient_newConnection toMicros io user c k t fd s = Inr s' \<and> conn_ok s' c \<and> clConnection s' = Some c
     \<and> conns s' = (conns s)(c \<mapsto> (client_conn k io fd s)\<lparr>connState := kConnected\<rparr>)
     \<and> poll_interest s' = (poll_interest s)(fd \<mapsto> kReadEvent) \<and> ct_state s' = ct_state s \<and> pendingFunctors s' = pendingFunctors s"
proof -
  obtain o1 where o1: "TcpClient_newConnection toMicros io user c k t fd s = user v c t o1" "conn_ok o1 c" "clConnection o1 = Some c"
    "conns o1 = (conns s)(c \<mapsto> (client_conn k io fd s)\<lparr>connState := kConnected\<rparr>)" "poll_interest o1 = (poll_interest s)(fd \<mapsto> kReadEvent)"
    "ct_state o1 = ct_state s" "pendingFunctors o1 = pendingFunctors s"
    using client_newConnection_calls [OF inv k fd user(1)] by blast
  obtain s' where s': "user v c t o1 = Inr s'" "same_poller o1 s'" "conns s' = conns o1" "clConnection s' = clConnection o1"
    "ct_state s' = ct_state o1" "pendingFunctors s' = pendingFunctors o1"
    using user(2) unfolding quiet_client_def by blast
  have "conn_ok s' c" by (rule conn_ok_quiet [OF o1(2) s'(2,3)])
  with o1 s' same_poller_keeps(4) [OF s'(2)] show ?thesis by simp
qed

text \<open>The connector hands its connected socket over, in a state in which the client can make a connection of it.\<close>

lemma connector_hands_over:
  fixes toMicros :: "double \<Rightarrow> int" and newConn :: "int \<Rightarrow> ('v, 'm) clw \<Rightarrow> ('v, 'm) clw result" and s :: "('v, 'm) clw"
  assumes w: "waiting s kc fd" and c: "ct_hasCallback s" "ct_connect s"
    and io: "getSocketError (io_socketError io) = 0" "\<not> isSelfConnect (io_localAddr io) (io_peerAddr io)"
    and k: "k \<notin> ran (channelMap s)"
  shows "\<exists>r. Connector_handleWrite toMicros newConn io s = newConn fd r \<and> poller_inv r \<and> poll_interest r = (poll_interest s)(fd := None)
     \<and> k \<notin> ran (channelMap r) \<and> channelMap r fd = None \<and> clConnectionCallback r = clConnectionCallback s \<and> ct_state r = ckConnected
     \<and> pendingFunctors r = pendingFunctors s @ [UserFn (OtherFn ResetChannel)]"
proof -
  obtain r i d j ch where r: "removeAndResetChannel s = Inr (fd, r)" "poller_inv r" "poll_interest r = (poll_interest s)(fd := None)"
    "pendingFunctors r = pendingFunctors s @ [UserFn (OtherFn ResetChannel)]" "ct_connect r = ct_connect s" "ct_hasCallback r = ct_hasCallback s"
    "channelMap r = (channelMap s)(fd := None)" "r = queueInLoop (UserFn (OtherFn ResetChannel)) (moved fd i d (modified kc 0 ch j s))"
    using removeAndResetChannel_drops [OF w] by blast
  let ?r = "r\<lparr>ct_state := ckConnected\<rparr>"
  have "clConnectionCallback ?r = clConnectionCallback s"
    by (simp add: r(8) moved_def modified_def queueInLoop_def pushFunctor_def wakeUp_def Let_def)
  moreover have same: "same_poller r ?r" by (simp add: same_poller_def isInLoopThread_def)
  have "poller_inv ?r" "poll_interest ?r = (poll_interest s)(fd := None)" using same_poller_keeps(1,4) [OF same] r(2,3) by simp_all
  moreover have "k \<notin> ran (channelMap ?r)" "channelMap ?r fd = None" using k by (auto simp: r(7) ran_def split: if_splits)
  moreover have "Connector_handleWrite toMicros newConn io s = newConn fd ?r"
    using w r(1,5,6) c io by (simp add: Connector_handleWrite_def waiting_def Connector_setState_def Let_def)
  ultimately show ?thesis using r(4) by (intro exI [of _ ?r]) simp
qed

section \<open>Properties\<close>

text \<open>
  C10. From the writable socket to the open connection: when the socket of a waiting connector is connected, the event
  handler replaces the connector's channel by a connection of the client, open, watched for reading on the same
  descriptor, with its callbacks in place, and remembers it; the old channel is deleted by a functor after the event.
\<close>

theorem TcpClient_connects:
  fixes toMicros :: "double \<Rightarrow> int" and user :: "('v, 'm) client_user_code" and s :: "('v, 'm) clw"
  assumes w: "waiting s kc fd" and c: "ct_hasCallback s" "ct_connect s" and fd: "0 \<le> fd"
    and io: "getSocketError (io_socketError io) = 0" "\<not> isSelfConnect (io_localAddr io) (io_peerAddr io)"
    and k: "k \<notin> ran (channelMap s)" and user: "clConnectionCallback s = Some v" "quiet_client user v"
  shows "\<exists>s' conn. Connector_handleWrite toMicros (TcpClient_newConnection toMicros io user c k t) io s = Inr s'
     \<and> conn_ok s' c \<and> clConnection s' = Some c \<and> conns s' c = Some conn \<and> connState conn = kConnected \<and> connChannel conn = k
     \<and> connCloseCallback conn = Some ClientRemoveConnection \<and> ct_state s' = ckConnected
     \<and> poll_interest s' = (poll_interest s)(fd \<mapsto> kReadEvent)
     \<and> pendingFunctors s' = pendingFunctors s @ [UserFn (OtherFn ResetChannel)]"
proof -
  let ?new = "TcpClient_newConnection toMicros io user c k t"
  obtain r where r: "Connector_handleWrite toMicros ?new io s = ?new fd r" "poller_inv r" "poll_interest r = (poll_interest s)(fd := None)"
    "k \<notin> ran (channelMap r)" "channelMap r fd = None" "clConnectionCallback r = Some v" "ct_state r = ckConnected"
    "pendingFunctors r = pendingFunctors s @ [UserFn (OtherFn ResetChannel)]"
    using connector_hands_over [OF w c io k, of toMicros ?new] user(1) by auto
  from client_newConnection_opens [OF r(2,4) fd r(5,6) user(2), of toMicros io c t] r(1,3,7,8) show ?thesis by auto
qed

definition client_sample :: "unit client_world" where
  "client_sample = \<lparr>loopId = 0, threadId = 7, currentTid = 7, chans = Map.empty, pollFdList = [],
     channelMap = Map.empty, isLooping = False, isQuited = False, pollReturnTime = Timestamp 0,
     activeChannels = [], callingPendingFunctors = False, wakeupFd = 3, wakeupChannel = 0,
     pendingFunctors = [], eventfdCount = 0, timers = Map.empty, s_numCreated = 0, timerfd = 4, timerfdChannel = 1,
     timerList = [], activeTimerSet = {}, cancelingTimerSet = {}, callingExpiredTimers = False, timerfdValue = None,
     conns = Map.empty, ct_serverAddr = InetAddress_port 80, ct_connect = True, ct_state = ckDisconnected, ct_channel = None,
     ct_hasCallback = True, retryDelayMs = kInitRetryDelayMs, ct_timerId = TimerId 0 0, ct_closed = [],
     clConnectionCallback = Some (), clMessageCallback = Some (), clWriteCompleteCallback = None, clRetry = True, clConnect = True,
     clNextConnId = 1, clConnection = None\<rparr>"

definition idle_client_user :: "(unit, unit) client_user_code" where
  "idle_client_user v c t s = Inr s"

lemma idle_client_quiet: "quiet_client idle_client_user ()"
  by (auto simp: quiet_client_def idle_client_user_def same_poller_def)

text \<open>The sample client while it waits for its socket 9 through channel 5.\<close>

definition client_waiting :: "unit client_world" where
  "client_waiting = added 5 kWriteEvent (connector_chan 0 9)
     (client_sample\<lparr>ct_state := ckConnecting, ct_channel := Some 5, chans := [5 \<mapsto> connector_chan 0 9]\<rparr>)"

lemma client_waiting_ok: "waiting client_waiting 5 9" "Connector_start toMicros (sample_io 0 40) client_sample = Inr client_waiting"
proof -
  have i: "poller_inv client_sample" "timer_inv client_sample" "ct_channel client_sample = None" "channelMap client_sample = Map.empty"
    by (simp_all add: client_sample_def poller_inv_def timer_inv_def isInLoopThread_def)
  have e: "Connector_connecting (sample_io 0 40) 9 client_sample = Inr client_waiting"
    by (simp add: Connector_connecting_def Connector_setState_def Let_def client_sample_def sample_fields enableWriting_def connector_chan_def [symmetric]
        setEvents_def Channel_update_def EventLoop_updateChannel_def Poller_updateChannel_def assertInLoopThread_def isInLoopThread_def
        upd_chan_def setIndex_def client_waiting_def added_def)
  then show "waiting client_waiting 5 9" using connecting_waits [OF i(1-3), of "sample_io 0 40" 9] by (simp add: i(4) sample_fields)
  have "client_sample\<lparr>ct_connect := True\<rparr> = client_sample" by (simp add: client_sample_def)
  then show "Connector_start toMicros (sample_io 0 40) client_sample = Inr client_waiting"
    using e by (simp add: Connector_start_def runInLoop_def Connector_startInLoop_def assertInLoopThread_def isInLoopThread_def Connector_connect_def
        createNonblockingOrDie_def sample_fields) (simp add: client_sample_def)
qed

theorem TcpClient_connects_witness:
  "\<exists>s' conn. Connector_handleWrite (\<lambda>d. 0) (TcpClient_newConnection (\<lambda>d. 0)
       ((sample_io 0 41)\<lparr>io_peerAddr := Some (getSockAddrInet (InetAddress_port 80))\<rparr>) idle_client_user 20 6 (Timestamp 1))
       ((sample_io 0 41)\<lparr>io_peerAddr := Some (getSockAddrInet (InetAddress_port 80))\<rparr>) client_waiting = Inr s'
     \<and> clConnection s' = Some 20 \<and> conns s' 20 = Some conn \<and> connState conn = kConnected \<and> poll_interest s' 9 = Some kReadEvent"
proof -
  let ?io = "(sample_io 0 41)\<lparr>io_peerAddr := Some (getSockAddrInet (InetAddress_port 80))\<rparr>"
  have "ct_hasCallback client_waiting" "ct_connect client_waiting" "6 \<notin> ran (channelMap client_waiting)" "clConnectionCallback client_waiting = Some ()"
    by (simp_all add: client_waiting_def added_def client_sample_def)
  moreover have "getSocketError (io_socketError ?io) = 0" "\<not> isSelfConnect (io_localAddr ?io) (io_peerAddr ?io)"
    by (simp_all add: sample_io_def getSocketError_def isSelfConnect_def getLocalAddr_def getPeerAddr_def getSockAddr_def sockaddr_zero_def
        InetAddress_port_def hostToNetwork16_def byte_of_def)
  ultimately show ?thesis
    using TcpClient_connects [OF client_waiting_ok(1) _ _ _ _ _ _ _ idle_client_quiet, of ?io 6 "\<lambda>d. 0" 20 "Timestamp 1"] by auto
qed

text \<open>
  C11. When the peer closes the client's connection, the client forgets it and queues exactly one \<open>connectDestroyed\<close>; if it
  was told to retry and has not been disconnected, its connector starts again at once, with the delay reset
  to half a second, and otherwise stays as it is.
\<close>

theorem TcpClient_close_reconnects:
  fixes toMicros :: "double \<Rightarrow> int" and user :: "('v, 'm) client_user_code" and s :: "('v, 'm) clw"
  assumes ok: "conn_ok s c" and conn: "conns s c = Some conn" "connCloseCallback conn = Some ClientRemoveConnection" "connLoop conn = loopId s"
    and st: "connState conn = kConnected \<or> connState conn = kDisconnecting" and cl: "clConnection s = Some c"
    and ct: "timer_inv s" "ct_channel s = None" "io_connectErrno io = EINPROGRESS"
    and fresh: "io_channel io \<notin> ran (channelMap s)" "0 \<le> io_sockfd io" "channelMap s (io_sockfd io) = None"
  shows "\<exists>s'. TcpConnection_handleClose (client_user toMicros io user) c t s = Inr s' \<and> clConnection s' = None
     \<and> pendingFunctors s' = pendingFunctors s @ [UserFn (ConnectDestroyed c)]
     \<and> (if clRetry s \<and> clConnect s
        then waiting s' (io_channel io) (io_sockfd io) \<and> retryDelayMs s' = kInitRetryDelayMs \<and> ct_connect s'
           \<and> poll_interest s' = (poll_interest s)(chan_fd s (connChannel conn) := None, io_sockfd io \<mapsto> kWriteEvent)
        else ct_state s' = ct_state s \<and> ct_connect s' = ct_connect s
           \<and> poll_interest s' = (poll_interest s)(chan_fd s (connChannel conn) := None))"
proof -
  have w: "poller_inv s" "chan_watched s (connChannel conn)" using ok conn(1) by (auto simp: conn_ok_def)
  from handleClose_disables [OF w(1) disjI1 [OF w(2)] conn(1) st, of "client_user toMicros io user" t] obtain sa ch i where
    sa: "TcpConnection_handleClose (client_user toMicros io user) c t s = call (client_user toMicros io user) (connCloseCallback conn) c t sa"
      "poller_inv sa" "conns sa = conns s" "poll_interest sa = (poll_interest s)(chan_fd s (connChannel conn) := None)"
      "sa = modified (connChannel conn) 0 ch i s" by blast
  let ?q = "queueInLoop (UserFn (ConnectDestroyed c)) (sa\<lparr>clConnection := None\<rparr>)"
  have f: "clRetry ?q = clRetry s" "clConnect ?q = clConnect s" "clConnection ?q = None" "ct_state ?q = ct_state s" "ct_connect ?q = ct_connect s"
    "ct_channel ?q = None" "channelMap ?q = channelMap s" "pendingFunctors ?q = pendingFunctors s @ [UserFn (ConnectDestroyed c)]"
    using ct(2) by (simp_all add: sa(5) modified_def queueInLoop_def pushFunctor_def wakeUp_def Let_def)
  have "same_poller sa (sa\<lparr>clConnection := None\<rparr>)" by (simp add: same_poller_def isInLoopThread_def)
  note same = same_poller_trans [OF this same_poller_queueInLoop [of "sa\<lparr>clConnection := None\<rparr>" "UserFn (ConnectDestroyed c)"]]
  have q: "poller_inv ?q" "poll_interest ?q = poll_interest sa" using same_poller_keeps(1,4) [OF same] sa(2) by simp_all
  have thr: "isInLoopThread ?q" by (rule poller_inv_thread [OF q(1)])
  have ids: "loopId sa = connLoop conn" "clConnection sa = Some c" using conn(3) cl by (simp_all add: sa(5) modified_def)
  have run: "TcpConnection_handleClose (client_user toMicros io user) c t s
      = (if clRetry s \<and> clConnect s then Connector_restart toMicros io ?q else Inr ?q)"
    using sa(1,3) conn(1,2) poller_inv_thread [OF sa(2)] ids
    by (simp add: call_def client_user_def TcpClient_removeConnection_def assertInLoopThread_def Let_def f)
  let ?p = "?q\<lparr>ct_state := ckDisconnected, retryDelayMs := kInitRetryDelayMs, ct_connect := True\<rparr>"
  have samep: "same_poller ?q ?p" by (simp add: same_poller_def isInLoopThread_def)
  have p: "poller_inv ?p" "ct_channel ?p = None" "io_channel io \<notin> ran (channelMap ?p)" "channelMap ?p (io_sockfd io) = None" "poll_interest ?p = poll_interest sa"
    using same_poller_keeps(1,4) [OF samep] q f(6,7) fresh by simp_all
  have "timer_inv ?q" using ct(1) by (simp add: sa(5)) (simp add: timer_inv_def modified_def isInLoopThread_def seq_of_def [abs_def])
  then have t: "timer_inv ?p" by (simp add: timer_inv_def isInLoopThread_def seq_of_def [abs_def])
  have re: "Connector_restart toMicros io ?q = Connector_connecting io (io_sockfd io) ?p"
    using thr ct(3) fresh(2)
    by (simp add: Connector_restart_def assertInLoopThread_def Connector_startInLoop_def Connector_setState_def isInLoopThread_def
        Connector_connect_def createNonblockingOrDie_def)
  show ?thesis
  proof (cases "clRetry s \<and> clConnect s")
    case True
    obtain u where u: "Connector_connecting io (io_sockfd io) ?p = Inr u" "waiting u (io_channel io) (io_sockfd io)"
      "poll_interest u = (poll_interest ?p)(io_sockfd io \<mapsto> kWriteEvent)" "ct_connect u = ct_connect ?p" "u = watching (io_channel io) (io_sockfd io) ?p"
      using connecting_waits [OF p(1) t p(2,3) fresh(2) p(4)] by blast
    have "clConnection u = None" "pendingFunctors u = pendingFunctors s @ [UserFn (ConnectDestroyed c)]" "retryDelayMs u = kInitRetryDelayMs"
      using f(3,8) by (simp_all add: u(5) watching_def added_def)
    with True run re u(1-4) p(5) sa(4) show ?thesis by simp
  next
    case False
    with run f q(2) sa(4) show ?thesis by auto
  qed
qed

text \<open>The sample client with an open connection on descriptor 9.\<close>

definition client_open :: "unit client_world" where
  "client_open = opened 20 (client_conn 6 (sample_io 0 40) 9 client_sample) (client_chan 20 0 9) (with_client_conn 20 6 (sample_io 0 40) 9 client_sample)"

lemma client_open_ok: "conn_ok client_open 20"
  "conns client_open 20 = Some ((client_conn 6 (sample_io 0 40) 9 client_sample)\<lparr>connState := kConnected\<rparr>)"
  "timer_inv client_open" "ct_channel client_open = None" "channelMap client_open = [9 \<mapsto> 6]" "clConnection client_open = Some 20"
  "clRetry client_open" "clConnect client_open" "loopId client_open = 0" "loopId client_sample = 0"
proof -
  let ?w = "with_client_conn 20 6 (sample_io 0 40) 9 client_sample" and ?conn = "client_conn 6 (sample_io 0 40) 9 client_sample"
  have s: "poller_inv client_sample" "channelMap client_sample = Map.empty" by (simp_all add: client_sample_def poller_inv_def isInLoopThread_def)
  have f: "pollFdList ?w = pollFdList client_sample" "channelMap ?w = channelMap client_sample" "loopId ?w = loopId client_sample"
    "isInLoopThread ?w = isInLoopThread client_sample" "chans ?w = (chans client_sample)(6 \<mapsto> client_chan 20 0 9)" "conns ?w 20 = Some ?conn"
    by (simp_all add: with_client_conn_def isInLoopThread_def client_sample_def)
  have l: "ownerLoop (client_chan 20 0 9) = loopId client_sample" by (simp add: client_sample_def)
  have "6 \<notin> ran (channelMap client_sample)" by (simp add: s(2))
  from new_channel [OF s(1) this _ _ _ l f(1-5)] have n: "poller_inv ?w" "chan_fresh ?w 6" by (simp_all add: s(2))
  have c: "chans ?w 6 = Some (client_chan 20 0 9)" using f(5) by simp
  note o = connectEstablished_opens [of ?w 20 ?conn "client_chan 20 0 9", OF n(1) f(6), unfolded client_conn_sel, OF refl n(2) c client_chan_sel(4) refl]
  show "conn_ok client_open 20" "conns client_open 20 = Some (?conn\<lparr>connState := kConnected\<rparr>)" using o(2,3) by (simp_all add: client_open_def)
qed (simp_all add: client_open_def opened_def added_def setState_def upd_conn_def with_client_conn_def client_sample_def timer_inv_def isInLoopThread_def)

theorem TcpClient_close_reconnects_witness:
  "\<exists>s'. TcpConnection_handleClose (client_user (\<lambda>d. 0) ((sample_io EINPROGRESS 41)\<lparr>io_sockfd := 10\<rparr>) idle_client_user) 20 (Timestamp 2) client_open = Inr s'
     \<and> clConnection s' = None \<and> waiting s' 5 10"
proof -
  let ?io = "(sample_io EINPROGRESS 41)\<lparr>io_sockfd := 10\<rparr>" and ?conn = "(client_conn 6 (sample_io 0 40) 9 client_sample)\<lparr>connState := kConnected\<rparr>"
  have c: "connCloseCallback ?conn = Some ClientRemoveConnection" "connLoop ?conn = loopId client_open" "connState ?conn = kConnected"
    by (simp_all add: client_open_ok(9,10))
  have i: "io_connectErrno ?io = EINPROGRESS" "io_channel ?io \<notin> ran (channelMap client_open)" "0 \<le> io_sockfd ?io" "channelMap client_open (io_sockfd ?io) = None"
    by (simp_all add: client_open_ok(5) sample_io_def)
  from TcpClient_close_reconnects [OF client_open_ok(1,2) c(1,2) disjI1 [OF c(3)] client_open_ok(6,3,4) i, of "\<lambda>d. 0" idle_client_user "Timestamp 2"]
  show ?thesis by (auto simp: client_open_ok(7,8) sample_io_def)
qed

lemma cancelInLoop_keeps: "cancelInLoop i s = Inr s' \<Longrightarrow> ct_channel s' = ct_channel s \<and> ct_timerId s' = ct_timerId s"
  by (auto simp: cancelInLoop_def assertInLoopThread_def Let_def bindR_eq_Inr derefR_eq_Inr split: if_splits)

text \<open>
  Destroying a client whose connector is still connecting leaves the connector for one second only: the timer that the
  destructor schedules then destroys it, and the connector's destructor asserts that it has no channel, which fails if
  the socket has neither been connected nor refused by then.
\<close>

theorem TcpClient_delete_while_connecting:
  fixes toMicros :: "double \<Rightarrow> int" and s :: "('v, 'm) clw"
  assumes w: "waiting s kc fd" and cl: "clConnection s = None" and fresh: "timers s (io_timer io) = None" "io_timer io < UINTPTR_MAX"
  shows "\<exists>s'. TcpClient_delete toMicros io s = Inr s' \<and> (addTime toMicros (io_clock io) 1, io_timer io) \<in> set (timerList s')
     \<and> map_option tm_callback (timers s' (io_timer io)) = Some (OtherFn (ClientFn RemoveConnector))
     \<and> run_client_fn io2 RemoveConnector s' = Inl AssertionFailed"
proof -
  let ?s = "s\<lparr>ct_connect := False\<rparr>"
  have t: "timer_inv ?s" "isInLoopThread ?s" "ct_channel ?s = Some kc"
    using w by (simp_all add: waiting_def timer_inv_def isInLoopThread_def seq_of_def [abs_def])
  from cancelInLoop_inv [OF t(1), of "ct_timerId s"] obtain r where r: "cancelInLoop (ct_timerId s) ?s = Inr r" "timer_inv r"
    "timers r (io_timer io) = None" using fresh(1) by (auto split: if_splits)
  have stop: "Connector_stop io s = Inr r"
    using r(1) t(2) by (simp add: Connector_stop_def EventLoop_cancel_def TimerQueue_cancel_def runInLoop_def)
  obtain v where v: "runAfter toMicros (io_clock io) no_functor (io_timer io) 1 (OtherFn (ClientFn RemoveConnector)) r
      = Inr (TimerId_of (io_timer io), timer_added (io_timer io) (OtherFn (ClientFn RemoveConnector)) (addTime toMicros (io_clock io) 1) v r)"
    "timer_inv (timer_added (io_timer io) (OtherFn (ClientFn RemoveConnector)) (addTime toMicros (io_clock io) 1) v r)"
    using runAfter_adds [OF r(2,3) fresh(2)] by blast
  let ?e = "timer_added (io_timer io) (OtherFn (ClientFn RemoveConnector)) (addTime toMicros (io_clock io) 1) v r"
  have "ct_channel r = Some kc" using cancelInLoop_keeps [OF r(1)] t(3) by simp
  then have ch: "ct_channel ?e = Some kc" by (simp add: timer_added_def Let_def)
  from cancelInLoop_inv [OF v(2), of "ct_timerId ?e"] obtain x where x: "cancelInLoop (ct_timerId ?e) ?e = Inr x" by blast
  have "isInLoopThread ?e" using v(2) by (simp add: timer_inv_def)
  then have "run_client_fn io2 RemoveConnector ?e = Inl AssertionFailed"
    using x cancelInLoop_keeps [OF x] ch
    by (simp add: detail_removeConnector_def Connector_delete_def EventLoop_cancel_def TimerQueue_cancel_def runInLoop_def)
  moreover have "TcpClient_delete toMicros io s = Inr ?e" using cl stop v(1) by (simp add: TcpClient_delete_def)
  ultimately show ?thesis by (intro exI [of _ ?e]) (simp_all add: timer_added_def Let_def)
qed

theorem TcpClient_delete_while_connecting_witness:
  "\<exists>s'. TcpClient_delete (\<lambda>d. 1000000) (sample_io 0 41) client_waiting = Inr s' \<and> run_client_fn (sample_io 0 42) RemoveConnector s' = Inl AssertionFailed"
proof -
  have "clConnection client_waiting = None" "timers client_waiting (io_timer (sample_io 0 41)) = None" "io_timer (sample_io 0 41) < UINTPTR_MAX"
    by (simp_all add: client_waiting_def added_def client_sample_def sample_fields UINTPTR_MAX_def)
  from TcpClient_delete_while_connecting [OF client_waiting_ok(1) this] show ?thesis by blast
qed

end
