(* ===== verification/Clients.thy ===== *)
theory Clients
  imports TcpClient ConnFrame
begin

text \<open>
  \<^verbatim>\<open>test12.cpp\<close>, a connector on its own that ends the loop once it is connected, and \<^verbatim>\<open>test13.cpp\<close>, a client that sends a greeting over
  every connection it makes.
\<close>

section \<open>A connector, test12.cpp\<close>

definition connectCallback :: "int \<Rightarrow> ('u, 'g, 'm) ctw \<Rightarrow> ('u, 'g, 'm) ctw result" where
  "connectCallback fd s = Inr (EventLoop_quit s)"

definition connector_main :: "(double \<Rightarrow> int) \<Rightarrow> kernel_io \<Rightarrow> ('u, 'g, 'm) ctw \<Rightarrow> ('u, 'g, 'm) ctw result" where
  "connector_main toMicros io s =
     Connector_start toMicros io (Connector_setNewConnectionCallback (Connector_new (InetAddress_ip ''127.0.0.1'' 9981) s))"

section \<open>A client, test13.cpp\<close>

datatype hello_cb = HelloConnection | HelloMessage

definition hello_message :: string where
  "hello_message = ''Hello'' @ [char_of (10 :: nat)]"

definition hello_onConnection :: "write_result \<Rightarrow> nat \<Rightarrow> ('v, 'm) clw \<Rightarrow> ('v, 'm) clw result" where
  "hello_onConnection r c s =
     bindR (derefR (conns s) c) (\<lambda>conn. if isConnected conn then send r c hello_message s else Inr s)"

text \<open>The text that is read is printed.\<close>

definition hello_onMessage :: "nat \<Rightarrow> ('v, 'm) clw \<Rightarrow> (string \<times> ('v, 'm) clw) result" where
  "hello_onMessage c s =
     bindR (derefR (conns s) c) (\<lambda>conn.
       bindR (retrieveAsString (inputBuffer conn)) (\<lambda>(str, ib). Inr (str, upd_conn c (\<lambda>x. x\<lparr>inputBuffer := ib\<rparr>) s)))"

definition hello_user :: "write_result \<Rightarrow> (hello_cb, 'm) client_user_code" where
  "hello_user r v c t s = (case v of HelloConnection \<Rightarrow> hello_onConnection r c s
     | HelloMessage \<Rightarrow> bindR (hello_onMessage c s) (\<lambda>(_, s1). Inr s1))"

definition hello_main :: "(double \<Rightarrow> int) \<Rightarrow> kernel_io \<Rightarrow> (hello_cb, 'm) clw \<Rightarrow> (hello_cb, 'm) clw result" where
  "hello_main toMicros io s =
     TcpClient_connect toMicros io
       (TcpClient_enableRetry (TcpClient_setMessageCallback HelloMessage (TcpClient_setConnectionCallback HelloConnection
         (TcpClient_new (InetAddress_ip ''localhost'' 9981) s))))"

text \<open>
  The server's address is a name, which \<open>inet_pton\<close> does not know: the error is logged and the address stays all zero.
\<close>

lemma hello_address: "sin_addr (getSockAddrInet (InetAddress_ip ''localhost'' 9981)) = 0"
  by (simp add: InetAddress_ip_def sockets_fromHostPort_def inet_pton_def is_digit_def sockaddr_zero_def)

section \<open>Starting\<close>

text \<open>A new connector that is started in its loop thread, and whose \<open>connect\<close> is under way, waits for its socket.\<close>

lemma connector_starts:
  fixes s :: "('u, 'g, 'm) ctw"
  assumes inv: "poller_inv s" "timer_inv s" and ct: "ct_state s = ckDisconnected" "ct_channel s = None"
    and io: "io_connectErrno io \<in> {0, EINPROGRESS, EINTR, EISCONN}" "io_channel io \<notin> ran (channelMap s)" "0 \<le> io_sockfd io"
      "channelMap s (io_sockfd io) = None"
  shows "\<exists>s'. Connector_start toMicros io s = Inr s' \<and> waiting s' (io_channel io) (io_sockfd io) \<and> s' = watching (io_channel io) (io_sockfd io) (s\<lparr>ct_connect := True\<rparr>)"
proof -
  let ?s = "s\<lparr>ct_connect := True\<rparr>"
  have same: "same_poller s ?s" by (simp add: same_poller_def isInLoopThread_def)
  have thr: "isInLoopThread s" using inv(1) by (simp add: poller_inv_def)
  have i: "poller_inv ?s" "timer_inv ?s" using inv same_poller_keeps(1) [OF same] by (simp_all add: timer_inv_def isInLoopThread_def seq_of_def [abs_def])
  have "Connector_start toMicros io s = Connector_connect toMicros io ?s"
    using thr ct by (simp add: Connector_start_def runInLoop_def Connector_startInLoop_def assertInLoopThread_def isInLoopThread_def)
  moreover have sock: "createNonblockingOrDie (io_sockfd io) = Inr (io_sockfd io)" using io(3) by (simp add: createNonblockingOrDie_def)
  have "Connector_connect toMicros io ?s = Connector_connecting io (io_sockfd io) ?s"
    unfolding Connector_connect_def sock bindR_Inr Let_def using io(1) by (simp only: if_True)
  ultimately show ?thesis using connecting_waits [OF i, of io "io_sockfd io"] ct io by auto
qed

text \<open>\<^verbatim>\<open>test12.cpp\<close> ends: when the socket of its connector is connected, the loop is told to quit.\<close>

lemma connector_program_quits:
  fixes s :: "('u, 'g, 'm) ctw"
  assumes "waiting s kc fd" "ct_hasCallback s" "ct_connect s" and "getSocketError (io_socketError io) = 0" "\<not> isSelfConnect (io_localAddr io) (io_peerAddr io)"
  shows "\<exists>s'. Connector_handleWrite toMicros connectCallback io s = Inr s' \<and> isQuited s'"
  using removeAndResetChannel_drops [OF assms(1)] assms
  by (auto simp: Connector_handleWrite_def waiting_def Connector_setState_def connectCallback_def EventLoop_quit_def wakeUp_def Let_def)

text \<open>Sending does not touch the client.\<close>

lemma enableWriting_keeps_client: "enableWriting k x = Inr y \<Longrightarrow> clConnection y = clConnection x"
  by (auto simp: enableWriting_def setEvents_def Channel_update_def EventLoop_updateChannel_def Poller_updateChannel_def
      assertInLoopThread_def upd_chan_def setIndex_def Let_def bindR_eq_Inr derefR_eq_Inr split: if_splits)

lemma client_kept [simp]:
  "clConnection (queueInLoop f x) = clConnection x" "clConnection (upd_conn c g x) = clConnection x"
  "clConnection (queueWriteComplete c x) = clConnection x"
  by (simp_all add: queueWriteComplete_def queueInLoop_def pushFunctor_def wakeUp_def upd_conn_def Let_def split: option.splits)

lemma sendInLoop_keeps_client:
  fixes s :: "('v, 'm) clw"
  assumes "sendInLoop r c m s = Inr s'"
  shows "clConnection s' = clConnection s"
proof -
  obtain conn ch where c: "isInLoopThread s" "conns s c = Some conn" "chans s (connChannel conn) = Some ch"
    using assms by (auto simp: sendInLoop_def assertInLoopThread_def bindR_eq_Inr derefR_eq_Inr split: if_splits)
  define direct where "direct = (\<not> isWriting ch \<and> readableBytes (outputBuffer conn) = 0)"
  define taken where "taken = (if direct then accepted r m else [])"
  define s2 where "s2 = (let s1 = upd_conn c (\<lambda>x. x\<lparr>wire := wire x @ taken\<rparr>) s in
     if direct \<and> (\<exists>n. r = WriteOk n) \<and> \<not> length taken < length m then queueWriteComplete c s1 else s1)"
  have s2: "clConnection s2 = clConnection s" by (simp add: s2_def Let_def)
  show ?thesis
  proof (cases "length taken < length m")
    case False
    then have "s' = s2"
      using assms c by (simp add: sendInLoop_def assertInLoopThread_def Let_def direct_def taken_def s2_def split: if_splits)
    with s2 show ?thesis by simp
  next
    case True
    obtain ob where ob: "Buffer_append (outputBuffer conn) (drop (length taken) m) = Inr ob"
      "(if \<not> isWriting ch then enableWriting (connChannel conn) (upd_conn c (\<lambda>x. x\<lparr>outputBuffer := ob\<rparr>) s2)
        else Inr (upd_conn c (\<lambda>x. x\<lparr>outputBuffer := ob\<rparr>) s2)) = Inr s'"
      using assms c True
      by (auto simp: sendInLoop_def assertInLoopThread_def Let_def direct_def taken_def s2_def bindR_eq_Inr split: if_splits)
    with s2 ob(2) show ?thesis by (cases "isWriting ch") (auto dest: enableWriting_keeps_client)
  qed
qed

lemma send_keeps_client: "send r c m s = Inr s' \<Longrightarrow> isInLoopThread s \<Longrightarrow> clConnection s' = clConnection s"
  by (auto simp: send_def bindR_eq_Inr derefR_eq_Inr dest: sendInLoop_keeps_client split: if_splits)

section \<open>Properties\<close>

text \<open>
  The client of \<^verbatim>\<open>test13.cpp\<close>, from \<open>main\<close> to its greeting: it starts to connect, and when its socket is connected it has one open
  connection, on which exactly the greeting has been sent, whatever \<open>write\<close> accepts of it at once.
\<close>

theorem HelloClient_greets:
  fixes s :: "(hello_cb, 'm) clw"
  assumes inv: "poller_inv s" "timer_inv s"
    and io: "io_connectErrno io \<in> {0, EINPROGRESS, EINTR, EISCONN}" "io_channel io \<notin> ran (channelMap s)" "0 \<le> io_sockfd io"
      "channelMap s (io_sockfd io) = None"
    and io2: "getSocketError (io_socketError io2) = 0" "\<not> isSelfConnect (io_localAddr io2) (io_peerAddr io2)"
    and k: "k \<notin> ran (channelMap s)" "k \<noteq> io_channel io"
  shows "\<exists>s1 s2. hello_main toMicros io s = Inr s1 \<and> poll_interest s1 (io_sockfd io) = Some kWriteEvent
     \<and> Connector_handleWrite toMicros (TcpClient_newConnection toMicros io2 (hello_user r) c k t) io2 s1 = Inr s2
     \<and> clConnection s2 = Some c \<and> map_option connState (conns s2 c) = Some kConnected \<and> conn_ok s2 c \<and> stream s2 c = hello_message"
proof -
  let ?s = "(TcpClient_enableRetry (TcpClient_setMessageCallback HelloMessage (TcpClient_setConnectionCallback HelloConnection
         (TcpClient_new (InetAddress_ip ''localhost'' 9981) s))))\<lparr>clConnect := True\<rparr>"
  note d = TcpClient_enableRetry_def TcpClient_setMessageCallback_def TcpClient_setConnectionCallback_def TcpClient_new_def
    Connector_setNewConnectionCallback_def Connector_new_def
  have same: "same_poller s ?s" by (simp add: same_poller_def isInLoopThread_def d)
  have i: "poller_inv ?s" "timer_inv ?s" using inv same_poller_keeps(1) [OF same] by (simp_all add: timer_inv_def isInLoopThread_def seq_of_def [abs_def] d)
  have f: "ct_state ?s = ckDisconnected" "ct_channel ?s = None" "channelMap ?s = channelMap s" by (simp_all add: d)
  obtain s1 where s1: "Connector_start toMicros io ?s = Inr s1" "waiting s1 (io_channel io) (io_sockfd io)"
    "s1 = watching (io_channel io) (io_sockfd io) (?s\<lparr>ct_connect := True\<rparr>)"
    using connector_starts [OF i f(1,2) io(1)] io(2-4) f(3) by auto
  have f1: "ct_hasCallback s1" "ct_connect s1" "clConnectionCallback s1 = Some HelloConnection" "k \<notin> ran (channelMap s1)"
    using k by (auto simp: s1(3) watching_def added_def d ran_def)
  let ?new = "TcpClient_newConnection toMicros io2 (hello_user r) c k t"
  obtain w where w: "Connector_handleWrite toMicros ?new io2 s1 = ?new (io_sockfd io) w" "poller_inv w" "k \<notin> ran (channelMap w)"
    "channelMap w (io_sockfd io) = None" "clConnectionCallback w = Some HelloConnection"
    using connector_hands_over [OF s1(2) f1(1,2) io2 f1(4), of toMicros ?new] f1(3) by auto
  obtain o1 where o1: "?new (io_sockfd io) w = hello_user r HelloConnection c t o1" "conn_ok o1 c" "clConnection o1 = Some c"
    "conns o1 = (conns w)(c \<mapsto> (client_conn k io2 (io_sockfd io) w)\<lparr>connState := kConnected\<rparr>)"
    using client_newConnection_calls [OF w(2,3) io(3) w(4,5), of toMicros io2 "hello_user r" c t] by blast
  have e0: "content Buffer_new = []" "writerIndex Buffer_new = kCheapPrepend" using Buffer_new_inv by (simp_all add: Buffer_new_def)
  have st: "map_option connState (conns o1 c) = Some kConnected" "used o1 c = kCheapPrepend" "stream o1 c = []"
    using o1(4) e0 by (simp_all add: used_def stream_def client_conn_def Let_def)
  obtain s2 where s2: "send r c hello_message o1 = Inr s2" "conn_ok s2 c" "stream s2 c = hello_message" "map_option connState (conns s2 c) = Some kConnected"
    using send_ok [OF o1(2) st(1), of hello_message r] st(2,3) by (auto simp: hello_message_def kCheapPrepend_def max_size_def)
  have "hello_user r HelloConnection c t o1 = Inr s2" using o1(4) s2(1) by (simp add: hello_user_def hello_onConnection_def isConnected_def)
  moreover have "hello_main toMicros io s = Inr s1" using s1(1) by (simp add: hello_main_def TcpClient_connect_def)
  moreover have "poll_interest s1 (io_sockfd io) = Some kWriteEvent" using s1(2) by (simp add: waiting_def)
  moreover have "clConnection s2 = Some c" using send_keeps_client [OF s2(1)] o1(2,3) by (simp add: conn_ok_def poller_inv_def)
  ultimately show ?thesis using w(1) o1(1) s2 by auto
qed

theorem HelloClient_greets_witness:
  "\<exists>(s :: hello_cb client_world) s1 s2. hello_main (\<lambda>d. 0) (sample_io 0 40) s = Inr s1
     \<and> Connector_handleWrite (\<lambda>d. 0) (TcpClient_newConnection (\<lambda>d. 0)
         ((sample_io 0 41)\<lparr>io_peerAddr := Some (getSockAddrInet (InetAddress_port 80))\<rparr>) (hello_user (WriteOk 2)) 20 6 (Timestamp 1))
         ((sample_io 0 41)\<lparr>io_peerAddr := Some (getSockAddrInet (InetAddress_port 80))\<rparr>) s1 = Inr s2
     \<and> clConnection s2 = Some 20 \<and> stream s2 20 = hello_message"
proof -
  let ?io = "(sample_io 0 41)\<lparr>io_peerAddr := Some (getSockAddrInet (InetAddress_port 80))\<rparr>"
  define s :: "hello_cb client_world" where "s = \<lparr>loopId = 0, threadId = 7, currentTid = 7, chans = Map.empty, pollFdList = [],
     channelMap = Map.empty, isLooping = False, isQuited = False, pollReturnTime = Timestamp 0,
     activeChannels = [], callingPendingFunctors = False, wakeupFd = 3, wakeupChannel = 0,
     pendingFunctors = [], eventfdCount = 0, timers = Map.empty, s_numCreated = 0, timerfd = 4, timerfdChannel = 1,
     timerList = [], activeTimerSet = {}, cancelingTimerSet = {}, callingExpiredTimers = False, timerfdValue = None,
     conns = Map.empty, ct_serverAddr = InetAddress_port 80, ct_connect = False, ct_state = ckDisconnected, ct_channel = None,
     ct_hasCallback = False, retryDelayMs = 0, ct_timerId = TimerId 0 0, ct_closed = [],
     clConnectionCallback = None, clMessageCallback = None, clWriteCompleteCallback = None, clRetry = False, clConnect = False,
     clNextConnId = 0, clConnection = None\<rparr>"
  have i: "poller_inv s" "timer_inv s" "channelMap s = Map.empty"
    by (simp_all add: s_def poller_inv_def timer_inv_def isInLoopThread_def)
  have "getSocketError (io_socketError ?io) = 0" "\<not> isSelfConnect (io_localAddr ?io) (io_peerAddr ?io)"
    by (simp_all add: sample_io_def getSocketError_def isSelfConnect_def getLocalAddr_def getPeerAddr_def getSockAddr_def sockaddr_zero_def
        InetAddress_port_def hostToNetwork16_def byte_of_def)
  from HelloClient_greets [OF i(1,2), of "sample_io 0 40", OF _ _ _ _ this, of 6 "\<lambda>d. 0" "WriteOk 2" 20 "Timestamp 1"] i(3) show ?thesis
    by (auto simp: sample_fields)
qed

end
