(* ===== verification/OwnLoop.thy ===== *)
theory OwnLoop
  imports TimerQueue
begin

text \<open>
  A loop that watches only its own two descriptors, the timer's and the wake-up one's: what a round of \<open>loop()\<close> does with any report of
  \<open>poll\<close> about them. Shared by the programs that use a loop for timers and functors.
\<close>

section \<open>Rounds of a loop with its two own descriptors\<close>

datatype loop_cb = TimerCb | WakeupCb

text \<open>The callbacks that \<open>EventLoop\<close> and \<open>TimerQueue\<close> bind to the two channels; \<open>alarm\<close> is \<open>TimerQueue::handleRead\<close>.\<close>

definition own_exec :: "(timestamp \<Rightarrow> (loop_cb, 'u, 'm) tq \<Rightarrow> (loop_cb, 'u, 'm) tq result) \<Rightarrow> loop_cb \<Rightarrow> timestamp
    \<Rightarrow> (loop_cb, 'u, 'm) tq \<Rightarrow> (loop_cb, 'u, 'm) tq result" where
  "own_exec alarm cb t s = (case cb of TimerCb \<Rightarrow> alarm t s | WakeupCb \<Rightarrow> Inr (EventLoop_handleRead s))"

text \<open>A round in which the timer descriptor and the wake-up descriptor are readable or not.\<close>

definition ready_round :: "bool \<Rightarrow> bool \<Rightarrow> timestamp \<Rightarrow> 'f round_input" where
  "ready_round timer wake t = ([], PollOk (of_bool timer + of_bool wake) [of_bool timer, of_bool wake], t)"

fun round_of :: "bool \<times> bool \<times> timestamp \<Rightarrow> 'f round_input" where
  "round_of (timer, wake, t) = ready_round timer wake t"

text \<open>
  While the loop runs: only the timer descriptor's and the wake-up descriptor's channels exist.
  \<open>own_chan\<close> is such a channel.
\<close>

definition own_chan :: "loop_cb \<Rightarrow> int \<Rightarrow> int \<Rightarrow> 32 word \<Rightarrow> loop_cb channel" where
  "own_chan cb fd i r = \<lparr>readCallback = Some cb, writeCallback = None, errorCallback = None, closeCallback = None,
     eventHandling = False, ownerLoop = 0, ch_fd = fd, ch_events = kReadEvent, ch_revents = r, ch_index = i\<rparr>"

definition own_loop :: "int \<Rightarrow> int \<Rightarrow> nat \<Rightarrow> int \<Rightarrow> nat \<Rightarrow> (loop_cb, 'u, 'm) tq \<Rightarrow> bool" where
  "own_loop tid tfd tc efd wc s \<longleftrightarrow> loopId s = 0 \<and> threadId s = tid \<and> currentTid s = tid
     \<and> (\<exists>r. chans s tc = Some (own_chan TimerCb tfd 0 r)) \<and> (\<exists>r. chans s wc = Some (own_chan WakeupCb efd 1 r))
     \<and> (\<exists>r r'. pollFdList s = [\<lparr>pfd_fd = tfd, pfd_events = ucast kReadEvent, pfd_revents = r\<rparr>,
                                \<lparr>pfd_fd = efd, pfd_events = ucast kReadEvent, pfd_revents = r'\<rparr>])
     \<and> channelMap s = [tfd \<mapsto> tc, efd \<mapsto> wc] \<and> isLooping s \<and> pendingFunctors s = [] \<and> \<not> callingExpiredTimers s"

definition fds_ok :: "int \<Rightarrow> nat \<Rightarrow> int \<Rightarrow> nat \<Rightarrow> bool" where
  "fds_ok tfd tc efd wc \<longleftrightarrow> 0 \<le> tfd \<and> 0 \<le> efd \<and> tfd \<noteq> efd \<and> tc \<noteq> wc"

text \<open>The state after \<open>poll\<close> has filled in what it reports.\<close>

definition polled :: "int \<Rightarrow> nat \<Rightarrow> int \<Rightarrow> nat \<Rightarrow> bool \<Rightarrow> bool \<Rightarrow> timestamp \<Rightarrow> (loop_cb, 'u, 'm) tq \<Rightarrow> (loop_cb, 'u, 'm) tq" where
  "polled tfd tc efd wc timer wake t s =
     s\<lparr>pollFdList := [\<lparr>pfd_fd = tfd, pfd_events = ucast kReadEvent, pfd_revents = of_bool timer\<rparr>,
                      \<lparr>pfd_fd = efd, pfd_events = ucast kReadEvent, pfd_revents = of_bool wake\<rparr>],
       chans := (chans s)(tc := map_option (\<lambda>ch. if timer then ch\<lparr>ch_revents := 1\<rparr> else ch) (chans s tc),
                          wc := map_option (\<lambda>ch. if wake then ch\<lparr>ch_revents := 1\<rparr> else ch) (chans s wc)),
       activeChannels := (if timer then [tc] else []) @ (if wake then [wc] else []), pollReturnTime := t\<rparr>"

lemma bindR_return: "bindR m Inr = m"
  by (cases m) simp_all

lemma foldR_short: "foldR f [] = Inr" "foldR f [x] = f x"
proof -
  show e: "foldR f [] = Inr" for f :: "'x \<Rightarrow> 'y \<Rightarrow> 'z + 'y" by (rule ext) simp
  show "foldR f [x] = f x" by (rule ext) (simp only: foldR.simps(2) e bindR_return)
qed

lemma round_polls:
  assumes w: "own_loop tid tfd tc efd wc s" and ok: "fds_ok tfd tc efd wc"
  shows "EventLoop_round exec run (ready_round timer wake t) s =
     bindR (if timer then handleEvent exec tc t (polled tfd tc efd wc timer wake t s) else Inr (polled tfd tc efd wc timer wake t s))
       (\<lambda>s1. bindR (if wake then handleEvent exec wc t s1 else Inr s1) (doPendingFunctors run))"
proof -
  from w obtain r1 r2 p1 p2 where s: "chans s tc = Some (own_chan TimerCb tfd 0 r1)" "chans s wc = Some (own_chan WakeupCb efd 1 r2)"
    "pollFdList s = [\<lparr>pfd_fd = tfd, pfd_events = ucast kReadEvent, pfd_revents = p1\<rparr>,
       \<lparr>pfd_fd = efd, pfd_events = ucast kReadEvent, pfd_revents = p2\<rparr>]" "channelMap s = [tfd \<mapsto> tc, efd \<mapsto> wc]"
    by (auto simp: own_loop_def)
  have ne: "tfd \<noteq> efd" "tc \<noteq> wc" "efd \<noteq> tfd" "wc \<noteq> tc" using ok by (auto simp: fds_ok_def)
  show ?thesis
  proof (cases "timer \<or> wake")
    case True
    then show ?thesis
      by (cases timer; cases wake) (simp_all add: EventLoop_round_def ready_round_def Poller_poll_def setRevents_def upd_chan_def polled_def
          s ne own_chan_def Let_def fun_upd_idem bindR_assoc foldR_short)
  next
    case False
    then have "polled tfd tc efd wc timer wake t s =
        s\<lparr>pollFdList := map2 (\<lambda>p x. p\<lparr>pfd_revents := x\<rparr>) (pollFdList s) [0, 0], activeChannels := [], pollReturnTime := t\<rparr>"
      using s(1-3) by (cases s) (simp add: polled_def fun_upd_idem)
    with False show ?thesis by (simp add: EventLoop_round_def ready_round_def Poller_poll_def Let_def)
  qed
qed

lemma polled_own:
  assumes "own_loop tid tfd tc efd wc s" and "fds_ok tfd tc efd wc"
  shows "own_loop tid tfd tc efd wc (polled tfd tc efd wc timer wake t s)"
    "wake \<Longrightarrow> chans (polled tfd tc efd wc timer wake t s) wc = Some (own_chan WakeupCb efd 1 1)"
    "timer \<Longrightarrow> chans (polled tfd tc efd wc timer wake t s) tc = Some (own_chan TimerCb tfd 0 1)"
  using assms by (cases timer; cases wake; auto simp: own_loop_def polled_def fds_ok_def own_chan_def)+

lemma wake_event:
  assumes "chans s wc = Some (own_chan WakeupCb efd 1 1)"
  shows "handleEvent (own_exec alarm) wc t s = Inr (EventLoop_handleRead s)"
  using assms by (cases s) (simp add: handleEvent_def setEventHandling_def invoke_def closeTest_def errorTest_def readTest_def writeTest_def
      poll_bits own_chan_def upd_chan_def own_exec_def EventLoop_handleRead_def fun_upd_idem)

text \<open>The channel of the timer is marked while its callback runs.\<close>

lemma timer_event:
  assumes "chans s tc = Some (own_chan TimerCb tfd 0 1)"
    and "alarm t (s\<lparr>chans := (chans s)(tc \<mapsto> (own_chan TimerCb tfd 0 1)\<lparr>eventHandling := True\<rparr>)\<rparr>) = Inr s1"
    and "chans s1 = (chans s)(tc \<mapsto> (own_chan TimerCb tfd 0 1)\<lparr>eventHandling := True\<rparr>)"
  shows "handleEvent (own_exec alarm) tc t s = Inr (s1\<lparr>chans := chans s\<rparr>)"
  using assms by (simp add: handleEvent_def setEventHandling_def invoke_def closeTest_def errorTest_def readTest_def writeTest_def
      poll_bits own_chan_def upd_chan_def own_exec_def fun_upd_idem)

text \<open>The wake-up event, if any, after the timer event, and then the functors.\<close>

lemma round_after_timer:
  assumes "own_loop tid tfd tc efd wc s" "fds_ok tfd tc efd wc"
    and "(if timer then handleEvent (own_exec alarm) tc t (polled tfd tc efd wc timer wake t s) else Inr (polled tfd tc efd wc timer wake t s)) = Inr s1"
    and "chans s1 = chans (polled tfd tc efd wc timer wake t s)"
  shows "EventLoop_round (own_exec alarm) run (ready_round timer wake t) s = doPendingFunctors run (if wake then EventLoop_handleRead s1 else s1)"
proof (cases wake)
  case True
  then have "handleEvent (own_exec alarm) wc t s1 = Inr (EventLoop_handleRead s1)"
    using wake_event polled_own(2) [OF assms(1,2)] assms(4) by metis
  with True show ?thesis unfolding round_polls [OF assms(1,2)] assms(3) by simp
next
  case False
  then show ?thesis unfolding round_polls [OF assms(1,2)] assms(3) by simp
qed

lemma functors_none:
  assumes "pendingFunctors s = []"
  shows "doPendingFunctors run s = Inr (s\<lparr>callingPendingFunctors := False\<rparr>)"
  using assms by (cases s) (simp add: doPendingFunctors_def swapFunctors_def)

end
