(* ===== verification/LoopExamples.thy ===== *)
theory LoopExamples
  imports OwnLoop
begin

text \<open>
  The program \<^verbatim>\<open>test5.cpp\<close>, which runs a loop with timers and functors to its end, on the constructor of \<open>EventLoop\<close>, the poller, the timer queue and \<open>loop()\<close>. A round of the loop is a result of \<open>poll(2)\<close> in which the timer descriptor
  and the wake-up descriptor are readable or not; clock readings after \<open>poll\<close> has returned are functions of the time it
  returned at.
\<close>

section \<open>Functors and timers, test5.cpp\<close>

text \<open>The functions of the program, its variable \<open>g_flag\<close>, and the values of \<open>g_flag\<close> that it prints.\<close>

datatype run_cb = Run1 | Run2 | Run3 | Run4

record run_world = "(loop_cb, run_cb) timer_queue" +
  g_flag :: int
  g_out :: "int list"

text \<open>
  The program's environment: the conversion of seconds to microseconds, the addresses of the two timers, and the clock readings, before
  the loop starts, in \<open>handleRead\<close> of the timer queue (two), and in \<open>run3\<close>.
\<close>

record run_env =
  env_micros :: "double \<Rightarrow> int"
  env_addr1 :: nat
  env_addr4 :: nat
  env_start :: timestamp
  env_alarm :: "timestamp \<Rightarrow> timestamp \<times> timestamp"
  env_run3 :: "timestamp \<Rightarrow> timestamp"

definition print_flag :: "run_world \<Rightarrow> run_world" where
  "print_flag s = s\<lparr>g_out := g_out s @ [g_flag s]\<rparr>"

definition run4 :: "run_world \<Rightarrow> run_world result" where
  "run4 s = Inr (EventLoop_quit (print_flag s))"

text \<open>\<open>addTimer\<close> hands the loop an \<open>addTimerInLoop\<close> only; no functor of the program runs inside it.\<close>

definition run3 :: "run_env \<Rightarrow> run_world \<Rightarrow> run_world result" where
  "run3 env s =
     bindR (runAfter (env_micros env) (env_run3 env (pollReturnTime s)) (\<lambda>_. Inr) (env_addr4 env) 3 Run4 (print_flag s))
       (\<lambda>(_, s1). Inr (s1\<lparr>g_flag := 3\<rparr>))"

definition run2 :: "run_world \<Rightarrow> run_world result" where
  "run2 s = Inr (queueInLoop (UserFn Run3) (print_flag s))"

definition run1 :: "run_world \<Rightarrow> run_world result" where
  "run1 s =
     bindR (runInLoop (\<lambda>_. run2) (UserFn Run2) (print_flag (s\<lparr>g_flag := 1\<rparr>))) (\<lambda>s1. Inr (s1\<lparr>g_flag := 2\<rparr>))"

fun run_user :: "run_env \<Rightarrow> run_cb \<Rightarrow> run_world \<Rightarrow> run_world result" where
  "run_user env Run1 = run1"
| "run_user env Run2 = run2"
| "run_user env Run3 = run3 env"
| "run_user env Run4 = run4"

abbreviation run_alarm :: "run_env \<Rightarrow> timestamp \<Rightarrow> run_world \<Rightarrow> run_world result" where
  "run_alarm env t \<equiv> TimerQueue_handleRead (env_micros env) (run_user env) (fst (env_alarm env t)) (snd (env_alarm env t))"

abbreviation run_exec :: "run_env \<Rightarrow> loop_cb \<Rightarrow> timestamp \<Rightarrow> run_world \<Rightarrow> run_world result" where
  "run_exec env \<equiv> own_exec (run_alarm env)"

definition run_functor :: "run_env \<Rightarrow> run_cb loop_fn \<Rightarrow> run_world \<Rightarrow> run_world result" where
  "run_functor env f s = run_fn (env_run3 env (pollReturnTime s)) (run_user env) f s"

text \<open>
  \<open>main\<close>: \<open>None\<close> when the loop has not ended after the given rounds. \<open>tid\<close>, \<open>garbage\<close>, \<open>tfd\<close>, \<open>tc\<close>, \<open>efd\<close> and \<open>wc\<close> are as in
  the constructor of \<open>EventLoop\<close>.
\<close>

definition run_main :: "run_env \<Rightarrow> int \<Rightarrow> bool \<Rightarrow> int \<Rightarrow> nat \<Rightarrow> int \<Rightarrow> nat \<Rightarrow> run_cb loop_fn round_input list \<Rightarrow> run_world option result" where
  "run_main env tid garbage tfd tc efd wc inps =
     bindR (EventLoop_new None 0 tid garbage tfd tc TimerCb efd wc WakeupCb) (\<lambda>s.
       bindR (runAfter (env_micros env) (env_start env) (\<lambda>_. Inr) (env_addr1 env) 2 Run1
               (print_flag (timer_queue.extend s (run_world.fields 0 []))))
         (\<lambda>(_, s1). bindR (EventLoop_loop (run_exec env) (run_functor env) inps s1)
           (\<lambda>r. Inr (map_option print_flag r))))"

section \<open>The states of the loop between two rounds\<close>

text \<open>Nothing but the timer at \<open>a\<close> with the sequence number \<open>n\<close> is scheduled, for the time \<open>e\<close>, to run \<open>f\<close>.\<close>

definition one_timer :: "run_cb \<Rightarrow> nat \<Rightarrow> timestamp \<Rightarrow> int \<Rightarrow> run_world \<Rightarrow> bool" where
  "one_timer f a e n s \<longleftrightarrow> s_numCreated s = n \<and> timerList s = [(e, a)] \<and> activeTimerSet s = {(a, n)}
     \<and> timers s = [a \<mapsto> \<lparr>tm_callback = f, expirationTimestamp = e, tm_interval = 0, tm_repeat = False, tm_sequence = n\<rparr>]"

definition loop_waits :: "int \<Rightarrow> int \<Rightarrow> nat \<Rightarrow> int \<Rightarrow> nat \<Rightarrow> run_cb \<Rightarrow> nat \<Rightarrow> timestamp \<Rightarrow> int \<Rightarrow> int \<Rightarrow> int list \<Rightarrow> run_world \<Rightarrow> bool" where
  "loop_waits tid tfd tc efd wc f a e n flag out s \<longleftrightarrow> own_loop tid tfd tc efd wc s \<and> one_timer f a e n s \<and> \<not> isQuited s
     \<and> g_flag s = flag \<and> g_out s = out"

text \<open>The timer descriptor is readable, and the queue's clock has reached \<open>e\<close>.\<close>

fun due :: "run_env \<Rightarrow> timestamp \<Rightarrow> bool \<times> bool \<times> timestamp \<Rightarrow> bool" where
  "due env e (timer, wake, t) \<longleftrightarrow> timer \<and> e \<le> fst (env_alarm env t)"

lemma polled_waits:
  assumes "loop_waits tid tfd tc efd wc f a e n flag out s" and "fds_ok tfd tc efd wc"
  shows "loop_waits tid tfd tc efd wc f a e n flag out (polled tfd tc efd wc timer wake t s)"
    "pollReturnTime (polled tfd tc efd wc timer wake t s) = t"
  using assms polled_own(1) [OF _ assms(2), of tid s timer wake t]
  by (simp_all add: loop_waits_def) (simp_all add: one_timer_def polled_def)

lemmas timer_defs = TimerQueue_handleRead_def getExpired_def sizes_agree_def before_sentry TimerQueue_reset_def resetTimerfd_def isInLoopThread_def
  assertInLoopThread_def erase_active_def run_timer_def reset_one_def

lemma timer_early:
  assumes w: "loop_waits tid tfd tc efd wc f a e n flag out s" and ch: "chans s tc = Some (own_chan TimerCb tfd 0 1)"
    and e: "\<not> e \<le> fst (env_alarm env t)" "a < UINTPTR_MAX"
  shows "\<exists>s1. handleEvent (run_exec env) tc t s = Inr s1 \<and> loop_waits tid tfd tc efd wc f a e n flag out s1 \<and> chans s1 = chans s"
proof -
  let ?s = "s\<lparr>chans := (chans s)(tc \<mapsto> (own_chan TimerCb tfd 0 1)\<lparr>eventHandling := True\<rparr>)\<rparr>"
  define s1 where "s1 = ?s\<lparr>cancelingTimerSet := {}, callingExpiredTimers := False,
    timerfdValue := (if Timestamp_valid e then Some (howMuchTimeFromNow e (snd (env_alarm env t))) else timerfdValue s)\<rparr>"
  have "TimerQueue_handleRead (env_micros env) (run_user env) (fst (env_alarm env t)) (snd (env_alarm env t)) ?s = Inr s1"
    using w e by (cases s) (auto simp: loop_waits_def own_loop_def one_timer_def timer_defs Let_def s1_def)
  from timer_event [where alarm = "run_alarm env" and t = t and s = s and tc = tc, OF ch this] have "handleEvent (run_exec env) tc t s = Inr (s1\<lparr>chans := chans s\<rparr>)"
    by (simp add: s1_def)
  moreover have "loop_waits tid tfd tc efd wc f a e n flag out (s1\<lparr>chans := chans s\<rparr>)"
    using w by (simp add: loop_waits_def own_loop_def one_timer_def s1_def)
  ultimately show ?thesis by simp
qed

text \<open>After the timer: no timer is left, and the functors \<open>fs\<close> wait.\<close>

definition fired :: "int \<Rightarrow> int \<Rightarrow> nat \<Rightarrow> int \<Rightarrow> nat \<Rightarrow> int \<Rightarrow> run_cb loop_fn list \<Rightarrow> bool \<Rightarrow> int \<Rightarrow> int list \<Rightarrow> timestamp \<Rightarrow> run_world \<Rightarrow> bool" where
  "fired tid tfd tc efd wc n fs q flag out t s \<longleftrightarrow> own_loop tid tfd tc efd wc (s\<lparr>pendingFunctors := []\<rparr>) \<and> pendingFunctors s = fs
     \<and> s_numCreated s = n \<and> timerList s = [] \<and> activeTimerSet s = {} \<and> timers s = Map.empty \<and> isQuited s = q \<and> g_flag s = flag \<and> g_out s = out
     \<and> pollReturnTime s = t"

lemma timer_run1:
  assumes w: "loop_waits tid tfd tc efd wc Run1 a e n flag out s" and ch: "chans s tc = Some (own_chan TimerCb tfd 0 1)"
    and e: "e \<le> fst (env_alarm env t)" "a < UINTPTR_MAX"
  shows "\<exists>s1. handleEvent (run_exec env) tc t s = Inr s1 \<and> chans s1 = chans s
     \<and> fired tid tfd tc efd wc n [UserFn Run3] False 2 (out @ [1, 1]) (pollReturnTime s) s1"
proof -
  let ?s = "s\<lparr>chans := (chans s)(tc \<mapsto> (own_chan TimerCb tfd 0 1)\<lparr>eventHandling := True\<rparr>)\<rparr>"
  have "\<exists>s1. TimerQueue_handleRead (env_micros env) (run_user env) (fst (env_alarm env t)) (snd (env_alarm env t)) ?s = Inr s1
      \<and> chans s1 = (chans s)(tc \<mapsto> (own_chan TimerCb tfd 0 1)\<lparr>eventHandling := True\<rparr>)
      \<and> fired tid tfd tc efd wc n [UserFn Run3] False 2 (out @ [1, 1]) (pollReturnTime s) (s1\<lparr>chans := chans s\<rparr>)"
    using w e by (cases s) (auto simp: loop_waits_def own_loop_def one_timer_def fired_def timer_defs Let_def run1_def run2_def print_flag_def runInLoop_def
        queueInLoop_def pushFunctor_def wakeUp_def Timestamp_valid_def Timestamp_default_def)
  then obtain s1 where "TimerQueue_handleRead (env_micros env) (run_user env) (fst (env_alarm env t)) (snd (env_alarm env t)) ?s = Inr s1"
    and c: "chans s1 = (chans s)(tc \<mapsto> (own_chan TimerCb tfd 0 1)\<lparr>eventHandling := True\<rparr>)"
    and f: "fired tid tfd tc efd wc n [UserFn Run3] False 2 (out @ [1, 1]) (pollReturnTime s) (s1\<lparr>chans := chans s\<rparr>)" by blast
  from timer_event [where alarm = "run_alarm env" and t = t and s = s and tc = tc, OF ch this(1,2)] f show ?thesis by simp
qed

lemma timer_run4:
  assumes w: "loop_waits tid tfd tc efd wc Run4 a e n flag out s" and ch: "chans s tc = Some (own_chan TimerCb tfd 0 1)"
    and e: "e \<le> fst (env_alarm env t)" "a < UINTPTR_MAX"
  shows "\<exists>s1. handleEvent (run_exec env) tc t s = Inr s1 \<and> chans s1 = chans s
     \<and> fired tid tfd tc efd wc n [] True flag (out @ [flag]) (pollReturnTime s) s1"
proof -
  let ?s = "s\<lparr>chans := (chans s)(tc \<mapsto> (own_chan TimerCb tfd 0 1)\<lparr>eventHandling := True\<rparr>)\<rparr>"
  have "\<exists>s1. TimerQueue_handleRead (env_micros env) (run_user env) (fst (env_alarm env t)) (snd (env_alarm env t)) ?s = Inr s1
      \<and> chans s1 = (chans s)(tc \<mapsto> (own_chan TimerCb tfd 0 1)\<lparr>eventHandling := True\<rparr>)
      \<and> fired tid tfd tc efd wc n [] True flag (out @ [flag]) (pollReturnTime s) (s1\<lparr>chans := chans s\<rparr>)"
    using w e by (cases s) (auto simp: loop_waits_def own_loop_def one_timer_def fired_def timer_defs Let_def run4_def print_flag_def
        EventLoop_quit_def Timestamp_valid_def Timestamp_default_def)
  then obtain s1 where "TimerQueue_handleRead (env_micros env) (run_user env) (fst (env_alarm env t)) (snd (env_alarm env t)) ?s = Inr s1"
    and c: "chans s1 = (chans s)(tc \<mapsto> (own_chan TimerCb tfd 0 1)\<lparr>eventHandling := True\<rparr>)"
    and f: "fired tid tfd tc efd wc n [] True flag (out @ [flag]) (pollReturnTime s) (s1\<lparr>chans := chans s\<rparr>)" by blast
  from timer_event [where alarm = "run_alarm env" and t = t and s = s and tc = tc, OF ch this(1,2)] f show ?thesis by simp
qed

lemma functors_run3:
  assumes "fired tid tfd tc efd wc 1 [UserFn Run3] False 2 out t s" and "env_addr4 env < UINTPTR_MAX"
  shows "\<exists>s1. doPendingFunctors (run_functor env) s = Inr s1
     \<and> loop_waits tid tfd tc efd wc Run4 (env_addr4 env) (addTime (env_micros env) (env_run3 env t) 3) 2 3 (out @ [2]) s1"
  using assms
  by (cases s) (auto simp: fired_def own_loop_def loop_waits_def one_timer_def doPendingFunctors_def swapFunctors_def run_functor_def run3_def runAfter_def
      runAt_def addTimer_def runInLoop_def Timer_new_def addTimerInLoop_def TimerQueue_insert_def sizes_agree_def print_flag_def isInLoopThread_def
      assertInLoopThread_def resetTimerfd_def int64_wrap_def Let_def)

lemma handleRead_keeps:
  "loop_waits tid tfd tc efd wc f a e n flag out (EventLoop_handleRead s) = loop_waits tid tfd tc efd wc f a e n flag out s"
  "fired tid tfd tc efd wc n fs q flag out t (EventLoop_handleRead s) = fired tid tfd tc efd wc n fs q flag out t s"
  by (simp_all add: EventLoop_handleRead_def loop_waits_def fired_def own_loop_def one_timer_def)

section \<open>Rounds of the loop\<close>

lemma early_round:
  assumes w: "loop_waits tid tfd tc efd wc f a e n flag out s" and ok: "fds_ok tfd tc efd wc" "a < UINTPTR_MAX" and r: "\<not> due env e r"
  shows "\<exists>s'. EventLoop_round (run_exec env) (run_functor env) (round_of r) s = Inr s' \<and> loop_waits tid tfd tc efd wc f a e n flag out s'"
proof -
  obtain timer wake t where rr: "r = (timer, wake, t)" by (cases r)
  let ?p = "polled tfd tc efd wc timer wake t s"
  have own: "own_loop tid tfd tc efd wc s" using w by (simp add: loop_waits_def)
  have p: "loop_waits tid tfd tc efd wc f a e n flag out ?p" by (rule polled_waits(1) [OF w ok(1)])
  have "\<exists>s1. (if timer then handleEvent (run_exec env) tc t ?p else Inr ?p) = Inr s1 \<and> loop_waits tid tfd tc efd wc f a e n flag out s1
     \<and> chans s1 = chans ?p"
    using timer_early [OF p polled_own(3) [OF own ok(1)], of env t] r ok(2) p unfolding rr by auto
  then obtain s1 where s1: "(if timer then handleEvent (run_exec env) tc t ?p else Inr ?p) = Inr s1"
    "loop_waits tid tfd tc efd wc f a e n flag out s1" "chans s1 = chans ?p" by blast
  let ?s2 = "if wake then EventLoop_handleRead s1 else s1"
  have s2: "loop_waits tid tfd tc efd wc f a e n flag out ?s2" using s1(2) by (simp add: handleRead_keeps)
  then have "loop_waits tid tfd tc efd wc f a e n flag out (?s2\<lparr>callingPendingFunctors := False\<rparr>)"
    by (simp add: loop_waits_def own_loop_def one_timer_def)
  moreover have "pendingFunctors ?s2 = []" using s2 by (simp add: loop_waits_def own_loop_def)
  ultimately show ?thesis using round_after_timer [OF own ok(1) s1(1,3)] by (simp add: rr functors_none)
qed

lemma run1_round:
  assumes w: "loop_waits tid tfd tc efd wc Run1 a e 1 flag out s" and ok: "fds_ok tfd tc efd wc" "a < UINTPTR_MAX" "env_addr4 env < UINTPTR_MAX"
    and r: "due env e r"
  shows "\<exists>s'. EventLoop_round (run_exec env) (run_functor env) (round_of r) s = Inr s'
     \<and> loop_waits tid tfd tc efd wc Run4 (env_addr4 env) (addTime (env_micros env) (env_run3 env (snd (snd r))) 3) 2 3 (out @ [1, 1, 2]) s'"
proof -
  obtain timer wake t where rr: "r = (timer, wake, t)" by (cases r)
  let ?p = "polled tfd tc efd wc timer wake t s"
  have own: "own_loop tid tfd tc efd wc s" using w by (simp add: loop_waits_def)
  note p = polled_waits [OF w ok(1), of timer wake t]
  have tm: "timer" "e \<le> fst (env_alarm env t)" using r by (simp_all add: rr)
  obtain s1 where s1: "handleEvent (run_exec env) tc t ?p = Inr s1" "chans s1 = chans ?p"
    "fired tid tfd tc efd wc 1 [UserFn Run3] False 2 (out @ [1, 1]) t s1"
    using timer_run1 [OF p(1) polled_own(3) [OF own ok(1)] tm(2) ok(2)] tm(1) p(2) by auto
  let ?s2 = "if wake then EventLoop_handleRead s1 else s1"
  have "fired tid tfd tc efd wc 1 [UserFn Run3] False 2 (out @ [1, 1]) t ?s2" using s1(3) by (simp add: handleRead_keeps)
  from functors_run3 [OF this ok(3)] round_after_timer [OF own ok(1) _ s1(2)] s1(1) tm(1) show ?thesis by (simp add: rr)
qed

lemma run4_round:
  assumes w: "loop_waits tid tfd tc efd wc Run4 a e n flag out s" and ok: "fds_ok tfd tc efd wc" "a < UINTPTR_MAX" and r: "due env e r"
  shows "\<exists>s'. EventLoop_round (run_exec env) (run_functor env) (round_of r) s = Inr s'
     \<and> fired tid tfd tc efd wc n [] True flag (out @ [flag]) (snd (snd r)) s'"
proof -
  obtain timer wake t where rr: "r = (timer, wake, t)" by (cases r)
  let ?p = "polled tfd tc efd wc timer wake t s"
  have own: "own_loop tid tfd tc efd wc s" using w by (simp add: loop_waits_def)
  note p = polled_waits [OF w ok(1), of timer wake t]
  have tm: "timer" "e \<le> fst (env_alarm env t)" using r by (simp_all add: rr)
  obtain s1 where s1: "handleEvent (run_exec env) tc t ?p = Inr s1" "chans s1 = chans ?p"
    "fired tid tfd tc efd wc n [] True flag (out @ [flag]) t s1"
    using timer_run4 [OF p(1) polled_own(3) [OF own ok(1)] tm(2) ok(2)] tm(1) p(2) by auto
  let ?s2 = "if wake then EventLoop_handleRead s1 else s1"
  have s2: "fired tid tfd tc efd wc n [] True flag (out @ [flag]) t ?s2" using s1(3) by (simp add: handleRead_keeps)
  then have "fired tid tfd tc efd wc n [] True flag (out @ [flag]) t (?s2\<lparr>callingPendingFunctors := False\<rparr>)" by (simp add: fired_def own_loop_def)
  moreover have "pendingFunctors ?s2 = []" using s2 by (simp add: fired_def)
  ultimately show ?thesis using round_after_timer [OF own ok(1) _ s1(2)] s1(1) tm(1) by (simp add: rr functors_none)
qed

lemma early_rounds:
  assumes "loop_waits tid tfd tc efd wc f a e n flag out s" and ok: "fds_ok tfd tc efd wc" "a < UINTPTR_MAX" and "\<forall>r \<in> set rs. \<not> due env e r"
  shows "\<exists>s'. loop_waits tid tfd tc efd wc f a e n flag out s'
     \<and> (\<forall>more. EventLoop_rounds (run_exec env) (run_functor env) (map round_of rs @ more) s
              = EventLoop_rounds (run_exec env) (run_functor env) more s')"
  using assms(1,4)
proof (induction rs arbitrary: s)
  case Nil
  then show ?case by auto
next
  case (Cons r rs)
  then obtain s1 where s1: "EventLoop_round (run_exec env) (run_functor env) (round_of r) s = Inr s1" "loop_waits tid tfd tc efd wc f a e n flag out s1"
    using early_round [OF _ ok, of tid f e n flag out s env r] by auto
  moreover have "\<not> isQuited s" using Cons.prems(1) by (simp add: loop_waits_def)
  ultimately show ?case using Cons.IH [OF s1(2)] Cons.prems(2) by auto
qed

text \<open>Up to the loop: the constructor, and the timer of \<open>run1\<close>.\<close>

lemma run_main_loops:
  assumes ok: "fds_ok tfd tc efd wc"
  shows "\<exists>s. loop_waits tid tfd tc efd wc Run1 (env_addr1 env) (addTime (env_micros env) (env_start env) 2) 1 0 [0] s
     \<and> (\<forall>inps. run_main env tid garbage tfd tc efd wc inps
              = bindR (EventLoop_rounds (run_exec env) (run_functor env) inps s) (\<lambda>r. Inr (map_option print_flag r)))"
  using ok
  by (simp add: run_main_def EventLoop_new_def TimerQueue_new_def createTimerfd_def createEventfd_def enableReading_def setEvents_def
      Channel_update_def EventLoop_updateChannel_def Let_def Channel_new_def setReadCallback_def upd_chan_def Poller_updateChannel_def
      isInLoopThread_def assertInLoopThread_def setIndex_def fds_ok_def print_flag_def run_world.defs timer_queue.defs runAfter_def runAt_def
      addTimer_def runInLoop_def Timer_new_def addTimerInLoop_def TimerQueue_insert_def sizes_agree_def resetTimerfd_def int64_wrap_def
      EventLoop_loop_def)
    (rule exI, rule conjI [rotated], rule allI, rule refl, simp add: loop_waits_def own_loop_def one_timer_def own_chan_def)

section \<open>Properties\<close>

text \<open>
  C27. \<^verbatim>\<open>test5.cpp\<close> ends, and prints what it should: in any run of the loop, with alarms that come early or late, wake-ups at any time and
  any value in the uninitialised \<open>callingPendingFunctors\<close>, the loop waits until two seconds after its start, runs \<open>run1\<close>, \<open>run2\<close> at once and \<open>run3\<close>
  at the end of the same round, waits another three seconds, runs \<open>run4\<close> and returns; the flags printed are 0, 1, 1, 2, 3 and 3.
\<close>

theorem Loop_program_ends:
  assumes "fds_ok tfd tc efd wc" "env_addr1 env < UINTPTR_MAX" "env_addr4 env < UINTPTR_MAX"
    and "\<forall>r \<in> set rs1. \<not> due env (addTime (env_micros env) (env_start env) 2) r"
    and "due env (addTime (env_micros env) (env_start env) 2) r1"
    and "\<forall>r \<in> set rs2. \<not> due env (addTime (env_micros env) (env_run3 env (snd (snd r1))) 3) r"
    and "due env (addTime (env_micros env) (env_run3 env (snd (snd r1))) 3) r2"
  shows "run_main env tid garbage tfd tc efd wc (map round_of (rs1 @ r1 # rs2)) = Inr None
     \<and> (\<exists>s. run_main env tid garbage tfd tc efd wc (map round_of (rs1 @ r1 # rs2 @ r2 # rs3)) = Inr (Some s)
          \<and> g_out s = [0, 1, 1, 2, 3, 3] \<and> timers s = Map.empty \<and> \<not> isLooping s)"
proof -
  let ?e = "addTime (env_micros env) (env_run3 env (snd (snd r1))) 3"
  let ?R = "EventLoop_rounds (run_exec env) (run_functor env)"
  obtain s0 where s0: "loop_waits tid tfd tc efd wc Run1 (env_addr1 env) (addTime (env_micros env) (env_start env) 2) 1 0 [0] s0"
    "\<And>inps. run_main env tid garbage tfd tc efd wc inps = bindR (?R inps s0) (\<lambda>r. Inr (map_option print_flag r))"
    using run_main_loops [OF assms(1)] by blast
  from early_rounds [OF s0(1) assms(1,2,4)] obtain s1 where s1: "loop_waits tid tfd tc efd wc Run1 (env_addr1 env) (addTime (env_micros env) (env_start env) 2) 1 0 [0] s1"
    "\<And>more. ?R (map round_of rs1 @ more) s0 = ?R more s1" by blast
  from run1_round [OF s1(1) assms(1-3,5)] obtain s2 where s2: "EventLoop_round (run_exec env) (run_functor env) (round_of r1) s1 = Inr s2"
    "loop_waits tid tfd tc efd wc Run4 (env_addr4 env) ?e 2 3 [0, 1, 1, 2] s2" by auto
  from early_rounds [OF s2(2) assms(1,3,6)] obtain s3 where s3: "loop_waits tid tfd tc efd wc Run4 (env_addr4 env) ?e 2 3 [0, 1, 1, 2] s3"
    "\<And>more. ?R (map round_of rs2 @ more) s2 = ?R more s3" by blast
  from run4_round [OF s3(1) assms(1,3,7)] obtain s4 where s4: "EventLoop_round (run_exec env) (run_functor env) (round_of r2) s3 = Inr s4"
    "fired tid tfd tc efd wc 2 [] True 3 [0, 1, 1, 2, 3] (snd (snd r2)) s4" by auto
  have q: "\<not> isQuited s1" "\<not> isQuited s2" "\<not> isQuited s3" "isQuited s4" using s1(1) s2(2) s3(1) s4(2) by (simp_all add: loop_waits_def fired_def)
  have "?R more s4 = Inr (Some (s4\<lparr>isLooping := False\<rparr>))" for more using q(4) by (cases more) simp_all
  then have "run_main env tid garbage tfd tc efd wc (map round_of (rs1 @ r1 # rs2 @ r2 # rs3)) = Inr (Some (print_flag (s4\<lparr>isLooping := False\<rparr>)))"
    using s0(2) s1(2) s2(1) s3(2) s4(1) q by simp
  moreover have "run_main env tid garbage tfd tc efd wc (map round_of (rs1 @ r1 # rs2)) = Inr None"
    using s0(2) s1(2) s2(1) s3(2) [of "[]"] q by simp
  ultimately show ?thesis using s4(2) by (simp add: fired_def print_flag_def)
qed

text \<open>
  A run with times in microseconds: the poll times out after ten seconds in the middle of the first wait, then the alarm comes ten microseconds late; a
  spurious wake-up; the second alarm.
\<close>

definition run_sample :: run_env where
  "run_sample = \<lparr>env_micros = (\<lambda>d. \<lfloor>d * 1000000\<rfloor>), env_addr1 = 64, env_addr4 = 64, env_start = Timestamp 1000,
     env_alarm = (\<lambda>t. (addTime (\<lambda>d. 10) t 0, addTime (\<lambda>d. 20) t 0)), env_run3 = (\<lambda>t. addTime (\<lambda>d. 30) t 0)\<rparr>"

theorem Loop_program_ends_witness:
  "\<exists>s. run_main run_sample 7 True 3 0 4 1
        (map round_of [(False, False, Timestamp 900000), (True, False, Timestamp 2001000), (False, True, Timestamp 2500000), (True, True, Timestamp 5002000)])
      = Inr (Some s) \<and> g_out s = [0, 1, 1, 2, 3, 3]"
  using Loop_program_ends [of 3 0 4 1 run_sample "[(False, False, Timestamp 900000)]" "(True, False, Timestamp 2001000)"
      "[(False, True, Timestamp 2500000)]" "(True, True, Timestamp 5002000)" 7 True "[]"]
  by (auto simp: run_sample_def fds_ok_def UINTPTR_MAX_def addTime_def less_eq_timestamp_iff)

end
