(* ===== verification/TimerExample.thy ===== *)
theory TimerExample
  imports OwnLoop
begin

text \<open>
  The program \<^verbatim>\<open>test4.cpp\<close>: four timers that run once and two that repeat, on a loop that one of them ends. An alarm of the timer
  queue is first shown to be a function of the schedule alone; the output of the program is then counted timer by timer.
\<close>

section \<open>The program\<close>

text \<open>The globals of the program: \<open>cnt\<close>, and the lines printed by \<open>print\<close>, each with the time it shows.\<close>

record print_world = "(loop_cb, string) timer_queue" +
  cnt :: int
  printed :: "(timestamp \<times> string) list"

text \<open>
  The environment: the conversion of seconds to microseconds; for each of the six timers the address \<open>new\<close> returns and the clock
  reading it is created at; the two clock readings of \<open>handleRead\<close> of the timer queue; and the clock reading of each line.
\<close>

record print_env =
  pe_micros :: "double \<Rightarrow> int"
  pe_addr :: "nat \<Rightarrow> nat"
  pe_start :: "nat \<Rightarrow> timestamp"
  pe_alarm :: "timestamp \<Rightarrow> timestamp \<times> timestamp"
  pe_clock :: "int \<Rightarrow> timestamp"

definition print_msg :: "print_env \<Rightarrow> string \<Rightarrow> print_world \<Rightarrow> print_world" where
  "print_msg env msg s =
     (let s1 = s\<lparr>printed := printed s @ [(pe_clock env (cnt s), msg)], cnt := cnt s + 1\<rparr> in
      if cnt s1 = 20 then EventLoop_quit s1 else s1)"

abbreviation print_user :: "print_env \<Rightarrow> string \<Rightarrow> print_world \<Rightarrow> print_world result" where
  "print_user env msg s \<equiv> Inr (print_msg env msg s)"

abbreviation print_alarm :: "print_env \<Rightarrow> timestamp \<Rightarrow> print_world \<Rightarrow> print_world result" where
  "print_alarm env t \<equiv> TimerQueue_handleRead (pe_micros env) (print_user env) (fst (pe_alarm env t)) (snd (pe_alarm env t))"

definition print_functor :: "print_env \<Rightarrow> string loop_fn \<Rightarrow> print_world \<Rightarrow> print_world result" where
  "print_functor env f s = run_fn (fst (pe_alarm env (pollReturnTime s))) (print_user env) f s"

definition start_timers :: "print_env \<Rightarrow> print_world \<Rightarrow> print_world result" where
  "start_timers env s =
     (let once = (\<lambda>i d m s. bindR (runAfter (pe_micros env) (pe_start env i) (print_user env) (pe_addr env i) d m s) (Inr \<circ> snd));
          every = (\<lambda>i d m s. bindR (runEvery (pe_micros env) (pe_start env i) (print_user env) (pe_addr env i) d m s) (Inr \<circ> snd))
      in bindR (once 0 1 ''once1'' s) (\<lambda>s. bindR (once 1 (3/2) ''once1.5'' s) (\<lambda>s.
         bindR (once 2 (5/2) ''once2.5'' s) (\<lambda>s. bindR (once 3 (7/2) ''once3.5'' s) (\<lambda>s.
         bindR (every 4 2 ''every2'' s) (every 5 3 ''every3''))))))"

text \<open>\<open>main\<close>: \<open>None\<close> when the loop has not ended after the given rounds.\<close>

definition timer_main :: "print_env \<Rightarrow> int \<Rightarrow> bool \<Rightarrow> int \<Rightarrow> nat \<Rightarrow> int \<Rightarrow> nat \<Rightarrow> string loop_fn round_input list \<Rightarrow> print_world option result" where
  "timer_main env tid garbage tfd tc efd wc inps =
     bindR (EventLoop_new None 0 tid garbage tfd tc TimerCb efd wc WakeupCb) (\<lambda>s.
     bindR (start_timers env (print_msg env ''main'' (timer_queue.extend s (print_world.fields 0 [])))) (\<lambda>s.
     bindR (EventLoop_loop (own_exec (print_alarm env)) (print_functor env) inps s) (\<lambda>r.
       Inr (map_option (print_msg env ''main loop exits'') r))))"

section \<open>An alarm as a function of the schedule\<close>

text \<open>What the operations on timers leave alone.\<close>

definition tq_rest :: "('cb, 'u, 'm) tq \<Rightarrow> ('cb, 'u, 'm) tq" where
  "tq_rest s = s\<lparr>timers := Map.empty, s_numCreated := 0, timerList := [], activeTimerSet := {}, cancelingTimerSet := {},
     timerfdValue := None\<rparr>"

text \<open>Every timer is scheduled.\<close>

definition all_listed :: "('cb, 'u, 'm) tq \<Rightarrow> bool" where
  "all_listed s \<longleftrightarrow> timer_inv s \<and> set (timerList s) = {(t, a). \<exists>tm. timers s a = Some tm \<and> expirationTimestamp tm = t}"

definition after_alarm :: "(double \<Rightarrow> int) \<Rightarrow> timestamp \<Rightarrow> 'u timer \<Rightarrow> 'u timer option" where
  "after_alarm toMicros now tm =
     (if now < expirationTimestamp tm then Some tm
      else if tm_repeat tm then Some (tm\<lparr>expirationTimestamp := addTime toMicros now (tm_interval tm)\<rparr>) else None)"

text \<open>Callbacks that do not touch the timers.\<close>

definition quiet :: "('u \<Rightarrow> ('cb, 'u, 'm) tq \<Rightarrow> ('cb, 'u, 'm) tq) \<Rightarrow> bool" where
  "quiet g \<longleftrightarrow> (\<forall>u s. timers (g u s) = timers s \<and> timerList (g u s) = timerList s \<and> activeTimerSet (g u s) = activeTimerSet s
     \<and> cancelingTimerSet (g u s) = cancelingTimerSet s \<and> isInLoopThread (g u s) = isInLoopThread s \<and> tq_rest (g u s) = g u (tq_rest s)
     \<and> (\<forall>b. g u (s\<lparr>callingExpiredTimers := b\<rparr>) = (g u s)\<lparr>callingExpiredTimers := b\<rparr>))"

lemma quiet_fold:
  assumes "quiet g"
  shows "foldR (\<lambda>u s. Inr (g u s)) us s = Inr (fold g us s)" "timers (fold g us s) = timers s"
    "cancelingTimerSet (fold g us s) = cancelingTimerSet s" "timerList (fold g us s) = timerList s"
    "tq_rest (fold g us s) = fold g us (tq_rest s)"
    "(fold g us s)\<lparr>callingExpiredTimers := b\<rparr> = fold g us (s\<lparr>callingExpiredTimers := b\<rparr>)"
  using assms by (induction us arbitrary: s) (simp_all add: quiet_def)

lemma quiet_keeps:
  assumes "quiet g"
  shows "keeps_timers E (\<lambda>u s. Inr (g u s))"
  using assms by (auto simp: keeps_timers_def quiet_def timer_inv_def idle_timer_def seq_of_def)

lemma timer_rest:
  "erase_active e s = Inr s' \<Longrightarrow> tq_rest s' = tq_rest s"
  "TimerQueue_insert a s = Inr (b, s') \<Longrightarrow> tq_rest s' = tq_rest s"
  "reset_one toMicros now e s = Inr s' \<Longrightarrow> tq_rest s' = tq_rest s"
proof -
  show ins: "TimerQueue_insert a s = Inr (b, s') \<Longrightarrow> tq_rest s' = tq_rest s" for a b s s'
    by (auto simp: TimerQueue_insert_def tq_rest_def assertInLoopThread_def res_simps Let_def split: if_splits)
  show "erase_active e s = Inr s' \<Longrightarrow> tq_rest s' = tq_rest s"
    by (auto simp: erase_active_def tq_rest_def res_simps Let_def split: if_splits)
  have "tq_rest (s\<lparr>timers := X\<rparr>) = tq_rest s" for X by (simp add: tq_rest_def)
  then show "reset_one toMicros now e s = Inr s' \<Longrightarrow> tq_rest s' = tq_rest s"
    by (auto simp: reset_one_def bindR_eq_Inr dest: ins split: if_splits)
qed

lemma fold_rest:
  "foldR erase_active es s = Inr s' \<Longrightarrow> tq_rest s' = tq_rest s"
  "foldR (reset_one toMicros now) es s = Inr s' \<Longrightarrow> tq_rest s' = tq_rest s"
proof -
  assume "foldR erase_active es s = Inr s'"
  from foldR_invariant [where P = "\<lambda>s'. tq_rest s' = tq_rest s", OF _ refl this] show "tq_rest s' = tq_rest s"
    by (metis timer_rest(1))
next
  assume "foldR (reset_one toMicros now) es s = Inr s'"
  from foldR_invariant [where P = "\<lambda>s'. tq_rest s' = tq_rest s", OF _ refl this] show "tq_rest s' = tq_rest s"
    by (metis timer_rest(3))
qed

lemma queue_rest:
  "getExpired now s = Inr (es, s') \<Longrightarrow> tq_rest s' = tq_rest s"
  "TimerQueue_reset toMicros es now now2 s = Inr s' \<Longrightarrow> tq_rest s' = tq_rest s"
proof -
  have "tq_rest (s\<lparr>timerList := X\<rparr>) = tq_rest s" "tq_rest (resetTimerfd t e s) = tq_rest s" for s :: "('a, 'b, 'c) tq" and X t e
    by (simp_all add: tq_rest_def resetTimerfd_def)
  then show "getExpired now s = Inr (es, s') \<Longrightarrow> tq_rest s' = tq_rest s"
    "TimerQueue_reset toMicros es now now2 s = Inr s' \<Longrightarrow> tq_rest s' = tq_rest s"
    by (auto simp: getExpired_def TimerQueue_reset_def res_simps Let_def dest!: fold_rest split: if_splits)
qed

text \<open>
  An alarm, on callbacks that leave the timers alone: the due callbacks run in the order of their times, and every timer becomes what
  \<open>after_alarm\<close> says.
\<close>

lemma alarm_effect:
  fixes s :: "('cb, 'u, 'm) tq" and now :: timestamp
  assumes s: "all_listed s" and c: "\<not> callingExpiredTimers s" and g: "quiet g"
  defines "ex \<equiv> filter (\<lambda>e. fst e \<le> now) (timerList s)"
  shows "\<exists>s'. TimerQueue_handleRead toMicros (\<lambda>u s. Inr (g u s)) now now2 s = Inr s' \<and> all_listed s'
     \<and> timers s' = (\<lambda>a. Option.bind (timers s a) (after_alarm toMicros now))
     \<and> tq_rest s' = fold g (map (\<lambda>e. tm_callback (the (timers s (snd e)))) ex) (tq_rest s)"
proof -
  let ?user = "\<lambda>u s. Inr (g u s)"
  let ?us = "map (\<lambda>e. tm_callback (the (timers s (snd e)))) ex"
  have inv: "timer_inv s" using s by (simp add: all_listed_def)
  obtain s0 where s0: "getExpired now s = Inr (ex, s0)" "timer_inv s0" "timerList s0 = filter (\<lambda>e. now < fst e) (timerList s)"
    "timers s0 = timers s" "\<forall>e \<in> set ex. idle_timer s0 (snd e)" "distinct (map snd ex)"
    using getExpired_ok [OF inv, of now] unfolding ex_def by blast
  let ?s1 = "s0\<lparr>callingExpiredTimers := True, cancelingTimerSet := {}\<rparr>"
  let ?s2 = "(fold g ?us ?s1)\<lparr>callingExpiredTimers := False\<rparr>"
  have s2: "foldR (run_timer ?user) ex ?s1 = Inr (fold g ?us ?s1)" "timer_inv ?s2" "\<forall>e \<in> set ex. idle_timer ?s2 (snd e)"
    "timers ?s2 = timers s" "timerList ?s2 = timerList s0" "cancelingTimerSet ?s2 = {}"
    using run_timers_ok [OF quiet_keeps [OF g], of ?s1 "snd ` set ex" ex] s0(2,4,5) by (auto simp: quiet_fold(1-5) [OF g])
  obtain s3 where s3: "foldR (reset_one toMicros now) ex ?s2 = Inr s3" "timer_inv s3" "\<forall>a. a \<notin> snd ` set ex \<longrightarrow> timers s3 a = timers s a"
    "\<forall>e \<in> set ex. timers s3 (snd e) = reset_spec toMicros now {} e (the (timers s (snd e)))"
    "set (timerList s3) = set (timerList s0) \<union> {(t, a). a \<in> snd ` set ex \<and> (\<exists>tm. timers s3 a = Some tm \<and> expirationTimestamp tm = t)}"
    using reset_all_ok [OF s2(2,3) s0(6), of toMicros now] unfolding s2(4-6) by blast
  obtain s' where s': "TimerQueue_reset toMicros ex now now2 ?s2 = Inr s'" "timer_inv s'" "timers s' = timers s3" "timerList s' = timerList s3"
    using reset_arms [OF s3(1,2), of now2] by blast
  have due: "a \<in> snd ` set ex \<longleftrightarrow> (\<exists>tm. timers s a = Some tm \<and> expirationTimestamp tm \<le> now)" for a
    using s by (force simp: ex_def all_listed_def)
  have tms: "timers s3 a = Option.bind (timers s a) (after_alarm toMicros now)" for a
  proof (cases "a \<in> snd ` set ex")
    case True
    then obtain e where e: "e \<in> set ex" "a = snd e" by blast
    from True obtain tm where "timers s a = Some tm" "expirationTimestamp tm \<le> now" unfolding due by blast
    with s3(4) e show ?thesis by (auto simp: reset_spec_def after_alarm_def)
  next
    case False
    then have "timers s3 a = timers s a" using s3(3) by blast
    with False show ?thesis unfolding due by (cases "timers s a") (auto simp: after_alarm_def)
  qed
  have "all_listed s'" unfolding all_listed_def
  proof (intro conjI s'(2) set_eqI, unfold s'(3,4) s3(5))
    fix e show "e \<in> set (timerList s0) \<union> {(t, a). a \<in> snd ` set ex \<and> (\<exists>tm. timers s3 a = Some tm \<and> expirationTimestamp tm = t)}
      \<longleftrightarrow> e \<in> {(t, a). \<exists>tm. timers s3 a = Some tm \<and> expirationTimestamp tm = t}"
    proof (cases "snd e \<in> snd ` set ex")
      case True
      then obtain e' where "e' \<in> set ex" "snd e = snd e'" by blast
      with s0(5) have "snd e \<notin> snd ` set (timerList s0)" by (simp add: idle_timer_def)
      then have "e \<notin> set (timerList s0)" by blast
      with True show ?thesis by (cases e) simp
    next
      case False
      then have "e \<in> set (timerList s0) \<longleftrightarrow> e \<in> set (timerList s)" by (auto simp: s0(3) ex_def not_less)
      moreover have "timers s3 (snd e) = timers s (snd e)" using s3(3) False by blast
      ultimately show ?thesis using False s by (cases e) (auto simp: all_listed_def)
    qed
  qed
  moreover have "TimerQueue_handleRead toMicros ?user now now2 s = Inr s'"
    using inv s0(1) s2(1) s'(1) by (simp add: TimerQueue_handleRead_def assertInLoopThread_def timer_inv_def)
  moreover have "tq_rest s' = fold g ?us (tq_rest s)"
    using queue_rest(2) [OF s'(1)] queue_rest(1) [OF s0(1)] c quiet_fold(5) [OF g, of ?us "s0\<lparr>cancelingTimerSet := {}, callingExpiredTimers := False\<rparr>"]
    quiet_fold(6) [OF g, where us = ?us and s = ?s1 and b = False] by (cases s0; cases s) (simp add: tq_rest_def)
  ultimately show ?thesis using s'(3) tms by (intro exI [of _ s']) (simp add: fun_eq_iff)
qed

lemma timer_added:
  assumes s: "all_listed s" and a: "timers s a = None" "a < UINTPTR_MAX"
  shows "\<exists>s' n. addTimer now user a cb t ivl s = Inr (TimerId_of a, s') \<and> all_listed s' \<and> tq_rest s' = tq_rest s
     \<and> timers s' = (timers s)(a \<mapsto> \<lparr>tm_callback = cb, expirationTimestamp = t, tm_interval = ivl, tm_repeat = (0 < ivl), tm_sequence = n\<rparr>)"
proof -
  let ?s = "Timer_new a cb t ivl s"
  have inv: "timer_inv s" using s by (simp add: all_listed_def)
  note n = Timer_new_inv [OF inv a, where cb = cb and t = t and ivl = ivl]
  from addTimerInLoop_ok [OF n(1,2), of now] obtain s' tm where s': "addTimerInLoop now a ?s = Inr s'" "timer_inv s'" "timers ?s a = Some tm"
    "timerList s' = entry_insert (expirationTimestamp tm, a) (timerList ?s)" "timers s' = timers ?s" by blast
  have t: "timers ?s = (timers s)(a \<mapsto> \<lparr>tm_callback = cb, expirationTimestamp = t, tm_interval = ivl, tm_repeat = (0 < ivl),
      tm_sequence = int64_wrap (s_numCreated s + 1)\<rparr>)" "timerList ?s = timerList s" "tq_rest ?s = tq_rest s"
    by (simp_all add: Timer_new_def Let_def tq_rest_def)
  have "tq_rest (resetTimerfd now e s) = tq_rest s" for e and s :: "('a, 'b, 'c) tq" by (simp add: tq_rest_def resetTimerfd_def)
  then have "tq_rest s' = tq_rest s"
    using s'(1) t(3) by (auto simp: addTimerInLoop_def assertInLoopThread_def res_simps split: if_splits dest: timer_rest(2))
  moreover have "all_listed s'" using s s'(2-5) a(1) unfolding all_listed_def t(1,2) by (auto simp: t(1))
  moreover have "isInLoopThread ?s" using n(1) by (simp add: timer_inv_def)
  ultimately show ?thesis using s'(1,5) t(1) by (auto simp: addTimer_def runInLoop_def)
qed

section \<open>The due messages\<close>

definition due_msgs :: "timestamp \<Rightarrow> ('cb, 'u, 'm) tq \<Rightarrow> 'u list" where
  "due_msgs now s = map (\<lambda>e. tm_callback (the (timers s (snd e)))) (filter (\<lambda>e. fst e \<le> now) (timerList s))"

text \<open>The timers have different callbacks, that of the timer at \<open>a\<close> is \<open>name a\<close>.\<close>

definition named :: "(nat \<Rightarrow> 'u) \<Rightarrow> nat set \<Rightarrow> ('cb, 'u, 'm) tq \<Rightarrow> bool" where
  "named name A s \<longleftrightarrow> finite A \<and> inj_on name A \<and> (\<forall>a tm. timers s a = Some tm \<longrightarrow> a \<in> A \<and> tm_callback tm = name a)"

text \<open>How often a timer runs, given the clock readings of the alarms.\<close>

fun fires :: "(double \<Rightarrow> int) \<Rightarrow> timestamp list \<Rightarrow> 'u timer option \<Rightarrow> nat" where
  "fires toMicros [] tm = 0"
| "fires toMicros (c # cs) None = 0"
| "fires toMicros (c # cs) (Some tm) = of_bool (expirationTimestamp tm \<le> c) + fires toMicros cs (after_alarm toMicros c tm)"

lemma fires_Cons: "fires f (c # cs) x = fires f [c] x + fires f cs (Option.bind x (after_alarm f c))"
proof (cases x)
  case None
  then show ?thesis by (cases cs) simp_all
qed simp

lemma distinct_count_list: "distinct xs \<Longrightarrow> count_list xs x = of_bool (x \<in> set xs)"
  by (induction xs) auto

lemma due_msgs_count:
  assumes s: "all_listed s" and n: "named name A s"
  shows "set (due_msgs now s) \<subseteq> name ` A" and "a \<in> A \<Longrightarrow> count_list (due_msgs now s) (name a) = fires f [now] (timers s a)"
proof -
  let ?ex = "filter (\<lambda>e. fst e \<le> now) (timerList s)"
  have inv: "timer_inv s" using s by (simp add: all_listed_def)
  have cb: "tm_callback (the (timers s (snd e))) = name (snd e) \<and> snd e \<in> A" if "e \<in> set (timerList s)" for e
    using that s n by (auto simp: all_listed_def named_def)
  then have eq: "due_msgs now s = map (\<lambda>e. name (snd e)) ?ex" by (simp add: due_msgs_def)
  with cb show "set (due_msgs now s) \<subseteq> name ` A" by auto
  have "distinct (timerList s)" using inv by (simp add: timer_inv_def sorted_entries_distinct)
  moreover have "inj_on (\<lambda>e. name (snd e)) (set ?ex)"
  proof (rule inj_onI)
    fix x y assume xy: "x \<in> set ?ex" "y \<in> set ?ex" "name (snd x) = name (snd y)"
    then have "snd x = snd y" using cb n by (auto simp: named_def inj_on_def)
    with xy timer_inv_inj [OF inv] show "x = y" by (auto dest: inj_onD)
  qed
  ultimately have d: "distinct (due_msgs now s)" by (simp add: eq distinct_map)
  have "name a \<in> set (due_msgs now s) \<longleftrightarrow> (\<exists>tm. timers s a = Some tm \<and> expirationTimestamp tm \<le> now)" if "a \<in> A"
  proof -
    have "name a \<in> set (due_msgs now s) \<longleftrightarrow> (\<exists>e \<in> set ?ex. snd e = a)"
    proof
      assume "name a \<in> set (due_msgs now s)"
      then obtain e where e: "e \<in> set ?ex" "name a = name (snd e)" unfolding eq by auto
      then have "snd e = a" using that cb [of e] n by (auto simp: named_def dest: inj_onD)
      with e(1) show "\<exists>e \<in> set ?ex. snd e = a" by blast
    qed (force simp: eq)
    then show ?thesis using s by (force simp: all_listed_def)
  qed
  then show "a \<in> A \<Longrightarrow> count_list (due_msgs now s) (name a) = fires f [now] (timers s a)"
    using d by (cases "timers s a") (auto simp: distinct_count_list)
qed

lemma named_length:
  assumes "named name A s" "set xs \<subseteq> name ` A"
  shows "length xs = (\<Sum>a \<in> A. count_list xs (name a))"
  using assms sum_count_set [of xs "name ` A"] by (simp add: named_def sum.reindex)

section \<open>Rounds of the loop\<close>

text \<open>The state of the program between two rounds.\<close>

definition ticking :: "int \<Rightarrow> int \<Rightarrow> nat \<Rightarrow> int \<Rightarrow> nat \<Rightarrow> (nat \<Rightarrow> string) \<Rightarrow> nat set \<Rightarrow> print_world \<Rightarrow> bool" where
  "ticking tid tfd tc efd wc name A s \<longleftrightarrow> own_loop tid tfd tc efd wc s \<and> all_listed s \<and> named name A s
     \<and> (isQuited s \<longleftrightarrow> 20 \<le> cnt s)"

lemma quiet_print: "quiet (print_msg env)"
  by (simp add: quiet_def print_msg_def Let_def EventLoop_quit_def wakeUp_def isInLoopThread_def tq_rest_def)

lemma print_msg_sel:
  "printed (print_msg env m s) = printed s @ [(pe_clock env (cnt s), m)]" "cnt (print_msg env m s) = cnt s + 1"
  "isQuited (print_msg env m s) \<longleftrightarrow> isQuited s \<or> cnt s = 19" "chans (print_msg env m s) = chans s"
  "own_loop tid tfd tc efd wc (print_msg env m s) = own_loop tid tfd tc efd wc s"
  "(print_msg env m s)\<lparr>chans := X\<rparr> = print_msg env m (s\<lparr>chans := X\<rparr>)"
  by (simp_all add: print_msg_def Let_def EventLoop_quit_def wakeUp_def isInLoopThread_def) (simp add: own_loop_def)

lemma print_fold:
  "map snd (printed (fold (print_msg env) ms s)) = map snd (printed s) @ ms" "cnt (fold (print_msg env) ms s) = cnt s + int (length ms)"
  "isQuited (fold (print_msg env) ms s) \<longleftrightarrow> isQuited s \<or> cnt s < 20 \<and> 20 \<le> cnt s + int (length ms)"
  "chans (fold (print_msg env) ms s) = chans s" "own_loop tid tfd tc efd wc (fold (print_msg env) ms s) = own_loop tid tfd tc efd wc s"
  "(fold (print_msg env) ms s)\<lparr>chans := X\<rparr> = fold (print_msg env) ms (s\<lparr>chans := X\<rparr>)"
  by (induction ms arbitrary: s) (auto simp: print_msg_sel)

lemma rest_sel:
  fixes s s' :: print_world
  assumes "tq_rest s' = tq_rest s"
  shows "printed s' = printed s" "cnt s' = cnt s" "isQuited s' = isQuited s" "chans s' = chans s"
    "own_loop tid tfd tc efd wc s' = own_loop tid tfd tc efd wc s"
  using arg_cong [OF assms, of printed] arg_cong [OF assms, of cnt] arg_cong [OF assms, of isQuited] arg_cong [OF assms, of chans]
    arg_cong [OF assms, of "own_loop tid tfd tc efd wc"]
  by (simp_all add: tq_rest_def own_loop_def)

lemma rest_fold:
  fixes s s' :: print_world
  assumes "tq_rest s' = fold (print_msg env) ms (tq_rest s)"
  shows "map snd (printed s') = map snd (printed s) @ ms" "cnt s' = cnt s + int (length ms)"
    "isQuited s' \<longleftrightarrow> isQuited s \<or> cnt s < 20 \<and> 20 \<le> cnt s + int (length ms)" "chans s' = chans s"
    "own_loop tid tfd tc efd wc s' = own_loop tid tfd tc efd wc s"
proof -
  have "tq_rest s' = tq_rest (fold (print_msg env) ms s)" using assms quiet_fold(5) [OF quiet_print] by simp
  from rest_sel [OF this] show "map snd (printed s') = map snd (printed s) @ ms" "cnt s' = cnt s + int (length ms)"
    "isQuited s' \<longleftrightarrow> isQuited s \<or> cnt s < 20 \<and> 20 \<le> cnt s + int (length ms)" "chans s' = chans s"
    "own_loop tid tfd tc efd wc s' = own_loop tid tfd tc efd wc s" by (simp_all add: print_fold)
qed

text \<open>The alarm of a round.\<close>

lemma ticking_alarm:
  fixes env :: print_env and t :: timestamp
  assumes s: "ticking tid tfd tc efd wc name A s" "\<not> isQuited s" and ch: "chans s tc = Some (own_chan TimerCb tfd 0 1)"
  defines "now \<equiv> fst (pe_alarm env t)"
  shows "\<exists>s'. handleEvent (own_exec (print_alarm env)) tc t s = Inr s' \<and> ticking tid tfd tc efd wc name A s' \<and> chans s' = chans s
     \<and> timers s' = (\<lambda>a. Option.bind (timers s a) (after_alarm (pe_micros env) now))
     \<and> map snd (printed s') = map snd (printed s) @ due_msgs now s \<and> cnt s' = cnt s + int (length (due_msgs now s))"
proof -
  let ?s = "s\<lparr>chans := (chans s)(tc \<mapsto> (own_chan TimerCb tfd 0 1)\<lparr>eventHandling := True\<rparr>)\<rparr>"
  have al: "all_listed (s\<lparr>chans := X\<rparr>) = all_listed s" for X and s :: print_world
    by (simp add: all_listed_def timer_inv_def isInLoopThread_def seq_of_def)
  have "all_listed ?s" "\<not> callingExpiredTimers ?s" using s(1) by (simp_all add: ticking_def own_loop_def al)
  from alarm_effect [OF this quiet_print, of "pe_micros env" env now "snd (pe_alarm env t)"] obtain s1 where
    s1: "print_alarm env t ?s = Inr s1" "all_listed s1" "timers s1 = (\<lambda>a. Option.bind (timers s a) (after_alarm (pe_micros env) now))"
      "tq_rest s1 = fold (print_msg env) (due_msgs now s) (tq_rest ?s)"
    by (auto simp: now_def due_msgs_def)
  note r = rest_fold [OF s1(4)]
  let ?s' = "s1\<lparr>chans := chans s\<rparr>"
  have "handleEvent (own_exec (print_alarm env)) tc t s = Inr ?s'" using timer_event [where alarm = "print_alarm env", OF ch s1(1)] r(4) by simp
  moreover have "own_loop tid tfd tc efd wc ?s'"
  proof -
    have "tq_rest ?s' = (tq_rest s1)\<lparr>chans := chans s\<rparr>" by (simp add: tq_rest_def)
    also have "\<dots> = fold (print_msg env) (due_msgs now s) (tq_rest s)" unfolding s1(4) print_fold(6) by (simp add: tq_rest_def)
    finally show ?thesis using s(1) rest_fold(5) by (simp add: ticking_def)
  qed
  moreover have "named name A ?s'" using s(1) s1(3) by (auto simp: ticking_def named_def after_alarm_def bind_eq_Some_conv split: if_splits)
  ultimately show ?thesis using r s s1(2,3) by (intro exI [of _ ?s']) (auto simp: ticking_def al)
qed

text \<open>The clock readings of the alarms among some rounds.\<close>

fun alarms :: "print_env \<Rightarrow> (bool \<times> bool \<times> timestamp) list \<Rightarrow> timestamp list" where
  "alarms env [] = []"
| "alarms env ((timer, wake, t) # rs) = (if timer then fst (pe_alarm env t) # alarms env rs else alarms env rs)"

lemma ticking_keeps:
  "ticking tid tfd tc efd wc name A (EventLoop_handleRead s) = ticking tid tfd tc efd wc name A s"
  "ticking tid tfd tc efd wc name A (s\<lparr>callingPendingFunctors := b\<rparr>) = ticking tid tfd tc efd wc name A s"
  by (simp_all add: ticking_def own_loop_def all_listed_def timer_inv_def isInLoopThread_def seq_of_def named_def EventLoop_handleRead_def)

lemma ticking_polled:
  assumes "ticking tid tfd tc efd wc name A s" "fds_ok tfd tc efd wc"
  shows "ticking tid tfd tc efd wc name A (polled tfd tc efd wc timer wake t s)"
  using assms(1) polled_own(1) [OF _ assms(2), of tid s timer wake t]
  by (simp add: ticking_def) (simp add: polled_def all_listed_def timer_inv_def isInLoopThread_def seq_of_def named_def)

text \<open>
  A round: \<open>new\<close> is what it prints, the lines of the timers that are due.
\<close>

lemma ticking_round:
  assumes s: "ticking tid tfd tc efd wc name A s" "\<not> isQuited s" and ok: "fds_ok tfd tc efd wc"
  shows "\<exists>s' new. EventLoop_round (own_exec (print_alarm env)) (print_functor env) (round_of r) s = Inr s' \<and> ticking tid tfd tc efd wc name A s'
     \<and> map snd (printed s') = map snd (printed s) @ new \<and> cnt s' = cnt s + int (length new) \<and> set new \<subseteq> name ` A
     \<and> (\<forall>a \<in> A. count_list new (name a) = fires (pe_micros env) (alarms env [r]) (timers s a)
          \<and> (\<forall>cs. fires (pe_micros env) (alarms env [r] @ cs) (timers s a)
                  = fires (pe_micros env) (alarms env [r]) (timers s a) + fires (pe_micros env) cs (timers s' a)))"
proof -
  obtain timer wake t where r: "r = (timer, wake, t)" by (cases r)
  let ?p = "polled tfd tc efd wc timer wake t s" and ?now = "fst (pe_alarm env t)"
  have own: "own_loop tid tfd tc efd wc s" using s(1) by (simp add: ticking_def)
  have p: "ticking tid tfd tc efd wc name A ?p" "\<not> isQuited ?p" "printed ?p = printed s" "cnt ?p = cnt s" "timers ?p = timers s" "timerList ?p = timerList s"
    using ticking_polled [OF s(1) ok] s(2) by (simp_all add: polled_def)
  let ?new = "if timer then due_msgs ?now ?p else []"
  obtain s1 where s1: "(if timer then handleEvent (own_exec (print_alarm env)) tc t ?p else Inr ?p) = Inr s1"
    "ticking tid tfd tc efd wc name A s1" "chans s1 = chans ?p" "map snd (printed s1) = map snd (printed s) @ ?new" "cnt s1 = cnt s + int (length ?new)"
    "timers s1 = (if timer then \<lambda>a. Option.bind (timers s a) (after_alarm (pe_micros env) ?now) else timers s)"
    using ticking_alarm [OF p(1,2) polled_own(3) [OF own ok], of env t] p by (cases timer) auto
  let ?s2 = "if wake then EventLoop_handleRead s1 else s1"
  let ?s' = "?s2\<lparr>callingPendingFunctors := False\<rparr>"
  have s2: "ticking tid tfd tc efd wc name A ?s2" using s1(2) by (simp add: ticking_keeps)
  then have "pendingFunctors ?s2 = []" by (simp add: ticking_def own_loop_def)
  then have "EventLoop_round (own_exec (print_alarm env)) (print_functor env) (round_of r) s = Inr ?s'"
    by (simp only: r round_of.simps round_after_timer [OF own ok s1(1,3)] functors_none)
  moreover have "printed ?s' = printed s1" "cnt ?s' = cnt s1" "timers ?s' = timers s1" by (simp_all add: EventLoop_handleRead_def)
  moreover have "ticking tid tfd tc efd wc name A ?s'" using s2 by (simp only: ticking_keeps)
  moreover have "set ?new \<subseteq> name ` A" "\<forall>a \<in> A. count_list ?new (name a) = fires (pe_micros env) (alarms env [r]) (timers s a)"
    using due_msgs_count [where s = ?p and name = name and A = A and now = ?now] p(1,5) by (cases timer; simp add: ticking_def r)+
  moreover have "fires (pe_micros env) (alarms env [r] @ cs) (timers s a)
      = fires (pe_micros env) (alarms env [r]) (timers s a) + fires (pe_micros env) cs (timers s1 a)" for a cs
    using fires_Cons [of "pe_micros env" ?now cs "timers s a"] s1(6) by (simp add: r)
  ultimately show ?thesis using s1(4,5) by (intro exI [of _ ?s'] exI [of _ ?new]) simp
qed

lemma alarms_Cons: "alarms env (r # rs) = alarms env [r] @ alarms env rs"
  by (cases r) simp

lemma alarms_append: "alarms env (rs @ rs') = alarms env rs @ alarms env rs'"
  by (induction env rs rule: alarms.induct) simp_all

text \<open>As long as fewer than 20 lines are due, the loop goes on.\<close>

lemma ticking_rounds:
  assumes ok: "fds_ok tfd tc efd wc" and "ticking tid tfd tc efd wc name A s"
    and "cnt s + int (\<Sum>a \<in> A. fires (pe_micros env) (alarms env rs) (timers s a)) < 20"
  shows "\<exists>s' new. ticking tid tfd tc efd wc name A s' \<and> cnt s' < 20
     \<and> (\<forall>more. EventLoop_rounds (own_exec (print_alarm env)) (print_functor env) (map round_of rs @ more) s
              = EventLoop_rounds (own_exec (print_alarm env)) (print_functor env) more s')
     \<and> map snd (printed s') = map snd (printed s) @ new \<and> cnt s' = cnt s + int (length new) \<and> set new \<subseteq> name ` A
     \<and> (\<forall>a \<in> A. count_list new (name a) = fires (pe_micros env) (alarms env rs) (timers s a)
          \<and> (\<forall>cs. fires (pe_micros env) (alarms env rs @ cs) (timers s a)
                  = fires (pe_micros env) (alarms env rs) (timers s a) + fires (pe_micros env) cs (timers s' a)))"
  using assms(2,3)
proof (induction rs arbitrary: s)
  case Nil
  then show ?case by (intro exI [of _ s] exI [of _ "[]"]) simp
next
  case (Cons r rs)
  let ?f = "fires (pe_micros env)"
  have q: "\<not> isQuited s" using Cons.prems by (simp add: ticking_def)
  from ticking_round [OF Cons.prems(1) q ok, of env r] obtain s1 new where
    s1: "EventLoop_round (own_exec (print_alarm env)) (print_functor env) (round_of r) s = Inr s1" "ticking tid tfd tc efd wc name A s1"
      "map snd (printed s1) = map snd (printed s) @ new" "cnt s1 = cnt s + int (length new)" "set new \<subseteq> name ` A"
      "\<forall>a \<in> A. count_list new (name a) = ?f (alarms env [r]) (timers s a)"
      "\<forall>a \<in> A. \<forall>cs. ?f (alarms env [r] @ cs) (timers s a) = ?f (alarms env [r]) (timers s a) + ?f cs (timers s1 a)" by blast
  have "named name A s" using Cons.prems(1) by (simp add: ticking_def)
  from named_length [OF this s1(5)] s1(6) have "length new = (\<Sum>a \<in> A. ?f (alarms env [r]) (timers s a))" by simp
  moreover have "(\<Sum>a \<in> A. ?f (alarms env (r # rs)) (timers s a))
      = (\<Sum>a \<in> A. ?f (alarms env [r]) (timers s a)) + (\<Sum>a \<in> A. ?f (alarms env rs) (timers s1 a))"
    using s1(7) by (subst alarms_Cons) (simp add: sum.distrib)
  ultimately have "cnt s1 + int (\<Sum>a \<in> A. ?f (alarms env rs) (timers s1 a)) < 20" using Cons.prems(2) s1(4) by simp
  from Cons.IH [OF s1(2) this] obtain s2 new2 where
    s2: "ticking tid tfd tc efd wc name A s2" "cnt s2 < 20"
      "\<forall>more. EventLoop_rounds (own_exec (print_alarm env)) (print_functor env) (map round_of rs @ more) s1
              = EventLoop_rounds (own_exec (print_alarm env)) (print_functor env) more s2"
      "map snd (printed s2) = map snd (printed s1) @ new2" "cnt s2 = cnt s1 + int (length new2)" "set new2 \<subseteq> name ` A"
      "\<forall>a \<in> A. count_list new2 (name a) = ?f (alarms env rs) (timers s1 a)"
      "\<forall>a \<in> A. \<forall>cs. ?f (alarms env rs @ cs) (timers s1 a) = ?f (alarms env rs) (timers s1 a) + ?f cs (timers s2 a)" by blast
  show ?case
    by (subst (1 2 3) alarms_Cons, intro exI [of _ s2] exI [of _ "new @ new2"])
      (use q s1 s2 in \<open>simp add: append_assoc\<close>)
qed

section \<open>Up to the loop\<close>

abbreviation new_timer :: "'u \<Rightarrow> timestamp \<Rightarrow> double \<Rightarrow> int \<Rightarrow> 'u timer" where
  "new_timer m t d n \<equiv> \<lparr>tm_callback = m, expirationTimestamp = t, tm_interval = d, tm_repeat = (0 < d), tm_sequence = n\<rparr>"

text \<open>The six timers: the number, the message, the delay and the interval (0: none).\<close>

type_synonym job = "nat \<times> string \<times> double \<times> double"

definition jobs :: "job list" where
  "jobs = [(0, ''once1'', 1, 0), (1, ''once1.5'', 3/2, 0), (2, ''once2.5'', 5/2, 0), (3, ''once3.5'', 7/2, 0), (4, ''every2'', 2, 2), (5, ''every3'', 3, 3)]"

fun add_job :: "print_env \<Rightarrow> job \<Rightarrow> print_world \<Rightarrow> print_world result" where
  "add_job env (i, m, d, ivl) s =
     bindR (addTimer (pe_start env i) (print_user env) (pe_addr env i) m (addTime (pe_micros env) (pe_start env i) d) ivl s) (Inr \<circ> snd)"

lemma start_timers_jobs: "start_timers env s = foldR (add_job env) jobs s"
proof -
  have "foldR f (x # xs) = (\<lambda>s. bindR (f x s) (foldR f xs))" for f :: "job \<Rightarrow> print_world \<Rightarrow> print_world result" and x xs
    by (rule ext) simp
  then show ?thesis by (simp add: start_timers_def jobs_def runAfter_def runAt_def runEvery_def Let_def bindR_return foldR_short)
qed

fun has_job :: "print_env \<Rightarrow> print_world \<Rightarrow> job \<Rightarrow> bool" where
  "has_job env s (i, m, d, ivl) \<longleftrightarrow> (\<exists>n. timers s (pe_addr env i) = Some (new_timer m (addTime (pe_micros env) (pe_start env i) d) ivl n))"

lemma jobs_added:
  assumes "all_listed s" and "distinct (map (\<lambda>j. pe_addr env (fst j)) js)" and "\<forall>j \<in> set js. pe_addr env (fst j) \<notin> dom (timers s) \<and> pe_addr env (fst j) < UINTPTR_MAX"
  shows "\<exists>s'. foldR (add_job env) js s = Inr s' \<and> all_listed s' \<and> tq_rest s' = tq_rest s \<and> (\<forall>j \<in> set js. has_job env s' j)
     \<and> (\<forall>a. a \<notin> (\<lambda>j. pe_addr env (fst j)) ` set js \<longrightarrow> timers s' a = timers s a)"
  using assms
proof (induction js arbitrary: s)
  case (Cons j js)
  obtain i m d ivl where j: "j = (i, m, d, ivl)" by (cases j)
  have "timers s (pe_addr env i) = None" "pe_addr env i < UINTPTR_MAX" using Cons.prems(3) by (auto simp: j)
  from timer_added [OF Cons.prems(1) this, of "pe_start env i" "print_user env" m "addTime (pe_micros env) (pe_start env i) d" ivl]
  obtain s1 n where s1: "add_job env j s = Inr s1" "all_listed s1" "tq_rest s1 = tq_rest s"
    "timers s1 = (timers s)(pe_addr env i \<mapsto> new_timer m (addTime (pe_micros env) (pe_start env i) d) ivl n)" by (auto simp: j)
  have new: "pe_addr env i \<notin> (\<lambda>j. pe_addr env (fst j)) ` set js" "distinct (map (\<lambda>j. pe_addr env (fst j)) js)" using Cons.prems(2) by (simp_all add: j)
  then have "\<forall>j \<in> set js. pe_addr env (fst j) \<notin> dom (timers s1) \<and> pe_addr env (fst j) < UINTPTR_MAX"
    using Cons.prems(3) s1(4) by (auto simp: image_iff)
  from Cons.IH [OF s1(2) new(2) this] obtain s2 where s2: "foldR (add_job env) js s1 = Inr s2" "all_listed s2" "tq_rest s2 = tq_rest s1"
    "\<forall>j \<in> set js. has_job env s2 j" "\<forall>a. a \<notin> (\<lambda>j. pe_addr env (fst j)) ` set js \<longrightarrow> timers s2 a = timers s1 a" by blast
  have "has_job env s2 j" using s2(5) new(1) s1(4) by (simp add: j)
  moreover have "timers s2 a = timers s a" if "a \<notin> (\<lambda>j. pe_addr env (fst j)) ` set (j # js)" for a
    using that s2(5) s1(4) by (simp add: j)
  ultimately show ?case using s1(1,3) s2(1-4) by (intro exI [of _ s2]) simp
qed simp

text \<open>The counts that the program should print: a timer that runs once, and one that repeats.\<close>

definition once_count :: "print_env \<Rightarrow> nat \<Rightarrow> double \<Rightarrow> timestamp list \<Rightarrow> nat" where
  "once_count env i d cs = of_bool (\<exists>c \<in> set cs. addTime (pe_micros env) (pe_start env i) d \<le> c)"

fun ticks :: "(double \<Rightarrow> int) \<Rightarrow> double \<Rightarrow> timestamp \<Rightarrow> timestamp list \<Rightarrow> nat" where
  "ticks toMicros ivl e [] = 0"
| "ticks toMicros ivl e (c # cs) = (if e \<le> c then Suc (ticks toMicros ivl (addTime toMicros c ivl) cs) else ticks toMicros ivl e cs)"

definition expected :: "print_env \<Rightarrow> timestamp list \<Rightarrow> (string \<times> nat) list" where
  "expected env cs = [(''once1'', once_count env 0 1 cs), (''once1.5'', once_count env 1 (3/2) cs),
     (''once2.5'', once_count env 2 (5/2) cs), (''once3.5'', once_count env 3 (7/2) cs),
     (''every2'', ticks (pe_micros env) 2 (addTime (pe_micros env) (pe_start env 4) 2) cs),
     (''every3'', ticks (pe_micros env) 3 (addTime (pe_micros env) (pe_start env 5) 3) cs)]"

definition lines_due :: "print_env \<Rightarrow> timestamp list \<Rightarrow> nat" where
  "lines_due env cs = 1 + sum_list (map snd (expected env cs))"

lemma fires_None [simp]: "fires f cs None = 0"
  by (cases cs) simp_all

lemma fires_once: "\<not> tm_repeat tm \<Longrightarrow> fires f cs (Some tm) = of_bool (\<exists>c \<in> set cs. expirationTimestamp tm \<le> c)"
  by (induction cs) (auto simp: after_alarm_def not_less)

lemma fires_every: "tm_repeat tm \<Longrightarrow> fires f cs (Some tm) = ticks f (tm_interval tm) (expirationTimestamp tm) cs"
  by (induction cs arbitrary: tm) (auto simp: after_alarm_def)

lemma jobs_expected:
  assumes "\<forall>j \<in> set jobs. has_job env s j"
  shows "expected env cs = map (\<lambda>j. (fst (snd j), fires (pe_micros env) cs (timers s (pe_addr env (fst j))))) jobs"
  using assms by (auto simp: jobs_def expected_def once_count_def fires_once fires_every)

definition job_name :: "print_env \<Rightarrow> nat \<Rightarrow> string" where
  "job_name env a = fst (snd (jobs ! the_inv_into {..<6} (pe_addr env) a))"

lemma job_name_ok:
  assumes "inj_on (pe_addr env) {..<6}"
  shows "j \<in> set jobs \<Longrightarrow> job_name env (pe_addr env (fst j)) = fst (snd j)" "inj_on (job_name env) (pe_addr env ` {..<6})"
    "(\<lambda>j. pe_addr env (fst j)) ` set jobs = pe_addr env ` {..<6}" "distinct (map (\<lambda>j. pe_addr env (fst j)) jobs)"
    "j \<in> set jobs \<Longrightarrow> fst j < 6"
proof -
  have at: "job_name env (pe_addr env i) = fst (snd (jobs ! i))" if "i < 6" for i
    using that assms by (simp add: job_name_def the_inv_into_f_f)
  have n: "fst (jobs ! i) = i" if "i < 6" for i
    using that by (auto simp: jobs_def less_Suc_eq numeral_eq_Suc)
  have len: "length jobs = 6" by (simp add: jobs_def)
  have fs: "map fst jobs = [0..<6]" by (simp add: jobs_def upt_rec numeral_eq_Suc)
  then have st: "fst ` set jobs = {..<6}" by (metis atLeast0LessThan set_map set_upt)
  from st show "j \<in> set jobs \<Longrightarrow> fst j < 6" by auto
  show "j \<in> set jobs \<Longrightarrow> job_name env (pe_addr env (fst j)) = fst (snd j)" using at n by (auto simp: in_set_conv_nth len)
  have "distinct (map (fst \<circ> snd) jobs)" by (simp add: jobs_def)
  then have "i = k" if "fst (snd (jobs ! i)) = fst (snd (jobs ! k))" "i < 6" "k < 6" for i k
    using that by (simp add: distinct_conv_nth len) metis
  then show "inj_on (job_name env) (pe_addr env ` {..<6})" by (auto simp: inj_on_def at)
  show "(\<lambda>j. pe_addr env (fst j)) ` set jobs = pe_addr env ` {..<6}" unfolding st [symmetric] by (simp add: image_image)
  have "distinct (map (pe_addr env) (map fst jobs))" unfolding fs distinct_map using assms by (simp add: atLeast0LessThan)
  then show "distinct (map (\<lambda>j. pe_addr env (fst j)) jobs)" by (simp add: comp_def)
qed

lemma loop_created:
  assumes "fds_ok tfd tc efd wc"
  shows "\<exists>s w. EventLoop_new None 0 tid garbage tfd tc TimerCb efd wc WakeupCb = Inr s \<and> w = timer_queue.extend s (print_world.fields 0 [])
     \<and> own_loop tid tfd tc efd wc (w\<lparr>isLooping := True\<rparr>) \<and> all_listed w \<and> timers w = Map.empty \<and> cnt w = 0 \<and> printed w = [] \<and> \<not> isLooping w"
  using assms
  by (simp add: EventLoop_new_def TimerQueue_new_def createTimerfd_def createEventfd_def enableReading_def setEvents_def
      Channel_update_def EventLoop_updateChannel_def Let_def Channel_new_def setReadCallback_def upd_chan_def Poller_updateChannel_def
      isInLoopThread_def assertInLoopThread_def setIndex_def fds_ok_def print_world.defs timer_queue.defs own_loop_def own_chan_def
      all_listed_def timer_inv_def)

lemma timer_main_loops:
  assumes ok: "fds_ok tfd tc efd wc" and a: "inj_on (pe_addr env) {..<6}" "\<forall>i < 6. pe_addr env i < UINTPTR_MAX"
  shows "\<exists>s. ticking tid tfd tc efd wc (job_name env) (pe_addr env ` {..<6}) s \<and> cnt s = 1 \<and> map snd (printed s) = [''main'']
     \<and> (\<forall>j \<in> set jobs. has_job env s j)
     \<and> (\<forall>inps. timer_main env tid garbage tfd tc efd wc inps
          = bindR (EventLoop_rounds (own_exec (print_alarm env)) (print_functor env) inps s) (\<lambda>r. Inr (map_option (print_msg env ''main loop exits'') r)))"
proof -
  note jn = job_name_ok [OF a(1)]
  obtain s w where w: "EventLoop_new None 0 tid garbage tfd tc TimerCb efd wc WakeupCb = Inr s" "w = timer_queue.extend s (print_world.fields 0 [])"
    "own_loop tid tfd tc efd wc (w\<lparr>isLooping := True\<rparr>)" "all_listed w" "timers w = Map.empty" "cnt w = 0" "printed w = []" "\<not> isLooping w"
    using loop_created [OF ok, of tid garbage] by blast
  let ?w = "print_msg env ''main'' w"
  have w1: "all_listed ?w" "timers ?w = Map.empty" using w(4-6) quiet_print [of env]
    by (simp_all add: quiet_def all_listed_def timer_inv_def seq_of_def)
  moreover have "\<forall>j \<in> set jobs. pe_addr env (fst j) \<notin> dom (timers ?w) \<and> pe_addr env (fst j) < UINTPTR_MAX"
    using a(2) w1(2) jn(5) by auto
  ultimately obtain s1 where s1: "start_timers env ?w = Inr s1" "all_listed s1" "tq_rest s1 = tq_rest ?w" "\<forall>j \<in> set jobs. has_job env s1 j"
    "\<forall>b. b \<notin> pe_addr env ` {..<6} \<longrightarrow> timers s1 b = None"
    using jobs_added [OF _ jn(4), of ?w] unfolding start_timers_jobs jn(3) by auto
  let ?s = "s1\<lparr>isLooping := True, isQuited := False\<rparr>"
  have r: "tq_rest ?s = (tq_rest ?w)\<lparr>isLooping := True, isQuited := False\<rparr>" unfolding s1(3) [symmetric] by (simp add: tq_rest_def)
  have "cnt ?s = 1" "map snd (printed ?s) = [''main'']" "\<not> isLooping s1"
    using rest_sel [OF s1(3)] arg_cong [OF s1(3), of isLooping] w(6-8) by (simp_all add: print_msg_def Let_def EventLoop_quit_def tq_rest_def)
  moreover have "own_loop tid tfd tc efd wc ?s"
    using w(3,6) arg_cong [OF r, of "own_loop tid tfd tc efd wc"] by (simp add: print_msg_def Let_def own_loop_def tq_rest_def)
  moreover have "named (job_name env) (pe_addr env ` {..<6}) s1" unfolding named_def
  proof (intro conjI allI impI jn(2))
    fix b tm assume b: "timers s1 b = Some tm"
    then show "b \<in> pe_addr env ` {..<6}" using s1(5) by force
    then obtain j where j: "j \<in> set jobs" "b = pe_addr env (fst j)" unfolding jn(3) [symmetric] by blast
    then have "has_job env s1 j" using s1(4) by blast
    with j(2) b jn(1) [OF j(1)] show "tm_callback tm = job_name env b" by (cases j) auto
  qed simp
  ultimately have t: "ticking tid tfd tc efd wc (job_name env) (pe_addr env ` {..<6}) ?s" "cnt ?s = 1" "map snd (printed ?s) = [''main'']" "\<not> isLooping s1"
    using s1(2) by (simp_all add: ticking_def named_def all_listed_def timer_inv_def isInLoopThread_def seq_of_def)
  have "has_job env ?s j" if "j \<in> set jobs" for j using s1(4) that by (cases j) auto
  moreover have "timer_main env tid garbage tfd tc efd wc inps
      = bindR (EventLoop_rounds (own_exec (print_alarm env)) (print_functor env) inps ?s) (\<lambda>r. Inr (map_option (print_msg env ''main loop exits'') r))" for inps
    using s1(1,2) w(1,2) t(4) by (simp add: timer_main_def EventLoop_loop_def assertInLoopThread_def all_listed_def timer_inv_def)
  ultimately show ?thesis using t(1-3) by (intro exI [of _ ?s] conjI ballI allI)
qed

lemma lines_due_sum:
  assumes "inj_on (pe_addr env) {..<6}" "\<forall>j \<in> set jobs. has_job env s j"
  shows "lines_due env cs = 1 + (\<Sum>a \<in> pe_addr env ` {..<6}. fires (pe_micros env) cs (timers s a))"
proof -
  have "sum_list (map snd (expected env cs))
      = sum_list (map (\<lambda>a. fires (pe_micros env) cs (timers s a)) (map (\<lambda>j. pe_addr env (fst j)) jobs))"
    by (simp add: jobs_expected [OF assms(2)] comp_def)
  also have "\<dots> = (\<Sum>a \<in> pe_addr env ` {..<6}. fires (pe_micros env) cs (timers s a))"
    using job_name_ok(3,4) [OF assms(1)] by (subst sum_list_distinct_conv_sum_set) simp_all
  finally show ?thesis by (simp add: lines_due_def)
qed

section \<open>Properties\<close>

text \<open>
  C28. \<^verbatim>\<open>test4.cpp\<close> prints what it should and ends: in any run of the loop, with alarms at any times, early or late, each timer that runs once
  prints at most one line, at the first alarm after its time, each repeating timer one line at each alarm that comes an interval or more after its last, and nothing else
  is printed between \<open>main\<close> and \<open>main loop exits\<close>; the loop goes on while fewer than 20 lines are due, returns after the round in which the 20th is
  printed, even when more timers are due in that round, and no operation fails.
\<close>

theorem Timer_program_counts:
  assumes ok: "fds_ok tfd tc efd wc" and a: "inj_on (pe_addr env) {..<6}" "\<forall>i < 6. pe_addr env i < UINTPTR_MAX"
    and p: "lines_due env (alarms env p) < 20" and r: "20 \<le> lines_due env (alarms env (p @ [r]))"
  shows "timer_main env tid garbage tfd tc efd wc (map round_of p) = Inr None
     \<and> (\<exists>s ms. timer_main env tid garbage tfd tc efd wc (map round_of (p @ r # q)) = Inr (Some s) \<and> \<not> isLooping s
          \<and> map snd (printed s) = ''main'' # ms @ [''main loop exits''] \<and> Suc (length ms) = lines_due env (alarms env (p @ [r]))
          \<and> (\<forall>(m, n) \<in> set (expected env (alarms env (p @ [r]))). count_list ms m = n))"
proof -
  let ?A = "pe_addr env ` {..<6}" and ?f = "fires (pe_micros env)" and ?R = "EventLoop_rounds (own_exec (print_alarm env)) (print_functor env)"
  obtain s where s: "ticking tid tfd tc efd wc (job_name env) ?A s" "cnt s = 1" "map snd (printed s) = [''main'']" "\<forall>j \<in> set jobs. has_job env s j"
    "\<forall>inps. timer_main env tid garbage tfd tc efd wc inps = bindR (?R inps s) (\<lambda>r. Inr (map_option (print_msg env ''main loop exits'') r))"
    using timer_main_loops [OF ok a, of tid garbage] by (elim exE conjE) (rule that)
  note sum = lines_due_sum [OF a(1) s(4)]
  have nm: "named (job_name env) ?A s" using s(1) by (simp add: ticking_def)
  have "cnt s + int (\<Sum>a \<in> ?A. ?f (alarms env p) (timers s a)) < 20" using p [unfolded sum] s(2) by linarith
  from ticking_rounds [OF ok s(1) this] obtain s1 new where
    s1: "ticking tid tfd tc efd wc (job_name env) ?A s1" "cnt s1 < 20" "\<And>more. ?R (map round_of p @ more) s = ?R more s1"
      "map snd (printed s1) = map snd (printed s) @ new" "cnt s1 = cnt s + int (length new)" "set new \<subseteq> job_name env ` ?A"
      "\<forall>a \<in> ?A. count_list new (job_name env a) = ?f (alarms env p) (timers s a)
         \<and> (\<forall>cs. ?f (alarms env p @ cs) (timers s a) = ?f (alarms env p) (timers s a) + ?f cs (timers s1 a))" by blast
  have q1: "\<not> isQuited s1" using s1(1,2) by (simp add: ticking_def)
  from ticking_round [OF s1(1) q1 ok, of env r] obtain s2 new2 where
    s2: "EventLoop_round (own_exec (print_alarm env)) (print_functor env) (round_of r) s1 = Inr s2" "ticking tid tfd tc efd wc (job_name env) ?A s2"
      "map snd (printed s2) = map snd (printed s1) @ new2" "cnt s2 = cnt s1 + int (length new2)" "set new2 \<subseteq> job_name env ` ?A"
      "\<forall>a \<in> ?A. count_list new2 (job_name env a) = ?f (alarms env [r]) (timers s1 a)" by blast
  let ?ms = "new @ new2"
  have cl: "count_list ?ms (job_name env a) = ?f (alarms env (p @ [r])) (timers s a)" if "a \<in> ?A" for a
    using bspec [OF s1(7) that] bspec [OF s2(6) that] by (simp add: alarms_append)
  have len: "Suc (length ?ms) = lines_due env (alarms env (p @ [r]))"
    using named_length [OF nm, of ?ms] s1(6) s2(5) cl sum by simp
  have "isQuited s2" using s2(2,4) s1(5) s(2) len r by (simp add: ticking_def)
  then have fin: "?R more s2 = Inr (Some (s2\<lparr>isLooping := False\<rparr>))" for more by (cases more) simp_all
  let ?s = "print_msg env ''main loop exits'' (s2\<lparr>isLooping := False\<rparr>)"
  have "timer_main env tid garbage tfd tc efd wc (map round_of (p @ r # q)) = Inr (Some ?s)"
    using s(5) s1(3) s2(1) q1 fin by simp
  moreover have "timer_main env tid garbage tfd tc efd wc (map round_of p) = Inr None" using s(5) s1(3) [of "[]"] q1 by simp
  moreover have "map snd (printed ?s) = ''main'' # ?ms @ [''main loop exits'']" "\<not> isLooping ?s"
    using s(3) s1(4) s2(3) by (simp_all add: print_msg_def Let_def EventLoop_quit_def wakeUp_def)
  moreover have "count_list ?ms m = n" if mn: "(m, n) \<in> set (expected env (alarms env (p @ [r])))" for m n
  proof -
    from mn obtain j where j: "j \<in> set jobs" "m = fst (snd j)" "n = ?f (alarms env (p @ [r])) (timers s (pe_addr env (fst j)))"
      unfolding jobs_expected [OF s(4)] by auto
    with cl [of "pe_addr env (fst j)"] job_name_ok(1,5) [OF a(1) j(1)] show ?thesis by simp
  qed
  then have "\<forall>(m, n) \<in> set (expected env (alarms env (p @ [r]))). count_list ?ms m = n" by auto
  ultimately show ?thesis using len by (intro conjI exI [of _ ?s] exI [of _ ?ms])
qed

text \<open>
  A run with an alarm every 3.1 seconds: both repeating timers run at each, the 20th and the 21st line come in the eighth round.
\<close>

definition print_sample :: print_env where
  "print_sample = \<lparr>pe_micros = (\<lambda>d. \<lfloor>d * 1000000\<rfloor>), pe_addr = (\<lambda>i. 64 * i + 64), pe_start = (\<lambda>i. Timestamp (1000 + int i)),
     pe_alarm = (\<lambda>t. (t, t)), pe_clock = Timestamp\<rparr>"

definition sample_rounds :: "(bool \<times> bool \<times> timestamp) list" where
  "sample_rounds = map (\<lambda>k. (True, False, Timestamp (3100000 * k))) [1, 2, 3, 4, 5, 6, 7]"

lemma sample_lines:
  "lines_due print_sample (alarms print_sample sample_rounds) = 19"
  "lines_due print_sample (alarms print_sample (sample_rounds @ [(True, True, Timestamp 24800000)])) = 21"
  by (simp_all add: lines_due_def expected_def once_count_def print_sample_def sample_rounds_def addTime_def less_eq_timestamp_iff)

theorem Timer_program_counts_witness:
  "timer_main print_sample 7 True 3 0 4 1 (map round_of sample_rounds) = Inr None
     \<and> (\<exists>s. timer_main print_sample 7 True 3 0 4 1 (map round_of (sample_rounds @ [(True, True, Timestamp 24800000)])) = Inr (Some s)
          \<and> length (printed s) = 22)"
proof -
  have "fds_ok 3 0 4 1" "inj_on (pe_addr print_sample) {..<6}" "\<forall>i < 6. pe_addr print_sample i < UINTPTR_MAX"
    by (auto simp: fds_ok_def print_sample_def inj_on_def UINTPTR_MAX_def)
  from Timer_program_counts [OF this, of sample_rounds "(True, True, Timestamp 24800000)" 7 True "[]"]
  obtain s ms where "timer_main print_sample 7 True 3 0 4 1 (map round_of sample_rounds) = Inr None"
    "timer_main print_sample 7 True 3 0 4 1 (map round_of (sample_rounds @ [(True, True, Timestamp 24800000)])) = Inr (Some s)"
    "map snd (printed s) = ''main'' # ms @ [''main loop exits'']" "Suc (length ms) = 21"
    by (auto simp: sample_lines)
  moreover from this(4) arg_cong [OF this(3), of length] have "length (printed s) = 22" by simp
  ultimately show ?thesis by blast
qed

end
