(* ===== verification/TimeoutExample.thy ===== *)
theory TimeoutExample
  imports TimerQueue
begin

text \<open>
  The program \<^verbatim>\<open>test2.cpp\<close> (and \<^verbatim>\<open>test3.cpp\<close>, which differs in the initialiser of \<open>howLong\<close> only): a user's own channel, on a timer descriptor of
  its own, in a loop that its callback ends. The rounds are the reports of \<open>poll\<close> about the user's descriptor. The loop's own two
  descriptors are not readable in them: nobody sets a timer or wakes the loop up.
\<close>

section \<open>The program\<close>

datatype timeout_cb = QueueCb | WakeCb | TimeoutCb

text \<open>What the program prints, and the seconds its timer descriptor is set to.\<close>

record timeout_world = "(timeout_cb, unit) timer_queue" +
  timeout_out :: "string list"
  howLong :: "int option"

definition timeout :: "timestamp \<Rightarrow> timeout_world \<Rightarrow> timeout_world result" where
  "timeout receiveTime s = Inr (EventLoop_quit (s\<lparr>timeout_out := timeout_out s @ [Timestamp_toFormattedString receiveTime @ '' Timeout!'']\<rparr>))"

text \<open>\<open>clk\<close> gives the two clock readings of the timer queue; the program has no timers and no functors of its own.\<close>

fun timeout_exec :: "(double \<Rightarrow> int) \<Rightarrow> (timestamp \<Rightarrow> timestamp \<times> timestamp) \<Rightarrow> timeout_cb \<Rightarrow> timestamp \<Rightarrow> timeout_world \<Rightarrow> timeout_world result" where
  "timeout_exec micros clk QueueCb t = TimerQueue_handleRead micros (\<lambda>_. Inr) (fst (clk t)) (snd (clk t))"
| "timeout_exec micros clk WakeCb t = (\<lambda>s. Inr (EventLoop_handleRead s))"
| "timeout_exec micros clk TimeoutCb t = timeout t"

definition timeout_functor :: "(timestamp \<Rightarrow> timestamp \<times> timestamp) \<Rightarrow> unit loop_fn \<Rightarrow> timeout_world \<Rightarrow> timeout_world result" where
  "timeout_functor clk f s = run_fn (fst (clk (pollReturnTime s))) (\<lambda>_. Inr) f s"

text \<open>\<open>main\<close> up to \<open>loop()\<close>: the loop, the channel at \<open>c\<close> on the descriptor \<open>fd\<close>, and the timer of five seconds.\<close>

definition timeout_start :: "int \<Rightarrow> bool \<Rightarrow> int \<Rightarrow> nat \<Rightarrow> int \<Rightarrow> nat \<Rightarrow> int \<Rightarrow> nat \<Rightarrow> timeout_world result" where
  "timeout_start tid garbage tfd tc efd wc fd c =
     bindR (EventLoop_new None 0 tid garbage tfd tc QueueCb efd wc WakeCb) (\<lambda>s.
       let s0 = timer_queue.extend s (timeout_world.fields [] None) in
       bindR (enableReading c (s0\<lparr>chans := (chans s0)(c \<mapsto> setReadCallback TimeoutCb (Channel_new 0 fd))\<rparr>)) (\<lambda>s1.
         Inr (s1\<lparr>howLong := Some 5\<rparr>)))"

text \<open>The end of \<open>main\<close>: the destructors of the channel and of the loop.\<close>

definition timeout_exit :: "nat \<Rightarrow> timeout_world \<Rightarrow> timeout_world result" where
  "timeout_exit c s = bindR (Channel_delete c s) (\<lambda>s1. bindR (EventLoop_delete s1) (\<lambda>_. Inr s1))"

text \<open>\<open>main\<close>; \<open>None\<close> when the loop has not ended after the given rounds.\<close>

definition timeout_main :: "(double \<Rightarrow> int) \<Rightarrow> (timestamp \<Rightarrow> timestamp \<times> timestamp) \<Rightarrow> int \<Rightarrow> bool \<Rightarrow> int \<Rightarrow> nat \<Rightarrow> int \<Rightarrow> nat \<Rightarrow> int \<Rightarrow> nat
    \<Rightarrow> unit loop_fn round_input list \<Rightarrow> timeout_world option result" where
  "timeout_main micros clk tid garbage tfd tc efd wc fd c inps =
     bindR (timeout_start tid garbage tfd tc efd wc fd c) (\<lambda>s.
       bindR (EventLoop_loop (timeout_exec micros clk) (timeout_functor clk) inps s) (\<lambda>r.
         case r of None \<Rightarrow> Inr None | Some s1 \<Rightarrow> bindR (timeout_exit c s1) (\<lambda>s2. Inr (Some s2))))"

text \<open>A round in which the user's descriptor, the third of the poller, is readable or not.\<close>

fun timeout_round :: "bool \<times> timestamp \<Rightarrow> unit loop_fn round_input" where
  "timeout_round (ready, t) = ([], PollOk (of_bool ready) [0, 0, of_bool ready], t)"

section \<open>The loop while it waits\<close>

definition user_chan :: "int \<Rightarrow> 32 word \<Rightarrow> timeout_cb channel" where
  "user_chan fd r = \<lparr>readCallback = Some TimeoutCb, writeCallback = None, errorCallback = None, closeCallback = None,
     eventHandling = False, ownerLoop = 0, ch_fd = fd, ch_events = kReadEvent, ch_revents = r, ch_index = 2\<rparr>"

definition awaiting :: "int \<Rightarrow> int \<Rightarrow> int \<Rightarrow> nat \<Rightarrow> timeout_world \<Rightarrow> bool" where
  "awaiting tfd efd fd c s \<longleftrightarrow> isInLoopThread s \<and> chans s c = Some (user_chan fd 0) \<and> channelMap s fd = Some c
     \<and> map pfd_fd (pollFdList s) = [tfd, efd, fd] \<and> pendingFunctors s = [] \<and> isLooping s \<and> timeout_out s = [] \<and> howLong s = Some 5"

lemma no_functors:
  assumes "pendingFunctors s = []"
  shows "doPendingFunctors run s = Inr (s\<lparr>callingPendingFunctors := False\<rparr>)"
  using assms by (cases s) (simp add: doPendingFunctors_def swapFunctors_def)

lemma awaiting_round:
  assumes "awaiting tfd efd fd c s" and "\<not> isQuited s"
  shows "\<exists>s'. EventLoop_round exec run (timeout_round (False, t)) s = Inr s' \<and> awaiting tfd efd fd c s' \<and> \<not> isQuited s'"
proof -
  from assms(1) obtain p q r where "pollFdList s = [p, q, r]" "pfd_fd p = tfd" "pfd_fd q = efd" "pfd_fd r = fd"
    by (auto simp: awaiting_def map_eq_Cons_conv)
  with assms show ?thesis
    by (simp add: awaiting_def EventLoop_round_def Poller_poll_def no_functors isInLoopThread_def Let_def)
qed

lemma awaiting_rounds:
  assumes "awaiting tfd efd fd c s" and "\<not> isQuited s"
  shows "\<exists>s'. (\<forall>rest. EventLoop_rounds exec run (map (\<lambda>t. timeout_round (False, t)) ts @ rest) s = EventLoop_rounds exec run rest s')
     \<and> awaiting tfd efd fd c s' \<and> \<not> isQuited s'"
  using assms
proof (induction ts arbitrary: s)
  case Nil
  then show ?case by (intro exI [of _ s]) simp
next
  case (Cons t ts)
  from awaiting_round [OF Cons.prems, of exec run t] obtain s1 where
    s1: "EventLoop_round exec run (timeout_round (False, t)) s = Inr s1" "awaiting tfd efd fd c s1" "\<not> isQuited s1" by blast
  from Cons.IH [OF s1(2,3)] s1(1) Cons.prems(2) show ?case by (auto simp del: timeout_round.simps)
qed

text \<open>The callback runs in the round that reports the descriptor, with the time \<open>poll\<close> returned at, and ends the loop.\<close>

lemma timeout_event:
  assumes "chans s c = Some (user_chan fd 1)" and "isInLoopThread s"
  shows "handleEvent (timeout_exec micros clk) c t s =
     Inr (s\<lparr>isQuited := True, timeout_out := timeout_out s @ [Timestamp_toFormattedString t @ '' Timeout!'']\<rparr>)"
  using assms by (cases s) (simp add: handleEvent_def setEventHandling_def invoke_def closeTest_def errorTest_def readTest_def writeTest_def
      poll_bits user_chan_def upd_chan_def timeout_def EventLoop_quit_def isInLoopThread_def Let_def fun_upd_idem)

lemma timeout_ends:
  assumes w: "awaiting tfd efd fd c s"
  shows "\<exists>s'. EventLoop_round (timeout_exec micros clk) run (timeout_round (True, t)) s = Inr s' \<and> isQuited s'
     \<and> chans s' c = Some (user_chan fd 1) \<and> timeout_out s' = [Timestamp_toFormattedString t @ '' Timeout!''] \<and> howLong s' = Some 5"
proof -
  from w obtain p q r where fds: "pollFdList s = [p, q, r]" "pfd_fd r = fd"
    by (auto simp: awaiting_def map_eq_Cons_conv)
  have "chans s c = Some (user_chan fd 0)" "channelMap s fd = Some c" "isInLoopThread s" "pendingFunctors s = []" "timeout_out s = []" "howLong s = Some 5"
    using w by (auto simp: awaiting_def)
  note s = this fds
  have ch: "(user_chan fd 0)\<lparr>ch_revents := 1\<rparr> = user_chan fd 1" "ch_fd (user_chan fd 0) = fd" by (simp_all add: user_chan_def)
  show ?thesis using s
    by (simp add: EventLoop_round_def Poller_poll_def setRevents_def upd_chan_def ch timeout_event isInLoopThread_def no_functors Let_def)
qed

section \<open>Properties\<close>

lemma timeout_setup:
  assumes "distinct [tfd, efd, fd]" and "distinct [tc, wc, c]" and "0 \<le> tfd" "0 \<le> efd"
  shows "\<exists>s. timeout_start tid garbage tfd tc efd wc fd c = Inr s \<and> \<not> isLooping s \<and> isInLoopThread s
     \<and> awaiting tfd efd fd c (s\<lparr>isLooping := True, isQuited := False\<rparr>)"
  using assms
  by (simp add: timeout_start_def EventLoop_new_def TimerQueue_new_def createTimerfd_def createEventfd_def enableReading_def setEvents_def
      Channel_update_def EventLoop_updateChannel_def Poller_updateChannel_def setIndex_def upd_chan_def Channel_new_def setReadCallback_def
      assertInLoopThread_def isInLoopThread_def Let_def timer_queue.extend_def timeout_world.fields_def awaiting_def user_chan_def)

text \<open>
  The program waits as long as its descriptor is not readable, whatever the number of rounds, and ends in the round that reports it: it has
  printed one line, with the time of that round, and the channel and the loop are destroyed without a failed assertion.
\<close>

theorem Timeout_program_ends:
  assumes "distinct [tfd, efd, fd]" and "distinct [tc, wc, c]" and "0 \<le> tfd" "0 \<le> efd"
  shows "timeout_main micros clk tid garbage tfd tc efd wc fd c (map (\<lambda>t. timeout_round (False, t)) ts) = Inr None"
    and "\<exists>s. timeout_main micros clk tid garbage tfd tc efd wc fd c (map (\<lambda>t. timeout_round (False, t)) ts @ timeout_round (True, t) # rest) = Inr (Some s)
      \<and> timeout_out s = [Timestamp_toFormattedString t @ '' Timeout!''] \<and> chans s c = None \<and> \<not> isLooping s"
proof -
  let ?R = "EventLoop_rounds (timeout_exec micros clk) (timeout_functor clk)"
  let ?early = "map (\<lambda>t. timeout_round (False, t)) ts"
  from timeout_setup [OF assms] obtain s0 where s0: "timeout_start tid garbage tfd tc efd wc fd c = Inr s0" "\<not> isLooping s0" "isInLoopThread s0"
    "awaiting tfd efd fd c (s0\<lparr>isLooping := True, isQuited := False\<rparr>)" by blast
  then have main: "timeout_main micros clk tid garbage tfd tc efd wc fd c inps = bindR (?R inps (s0\<lparr>isLooping := True, isQuited := False\<rparr>)) (\<lambda>r.
         case r of None \<Rightarrow> Inr None | Some s1 \<Rightarrow> bindR (timeout_exit c s1) (\<lambda>s2. Inr (Some s2)))" for inps
    by (simp add: timeout_main_def EventLoop_loop_def assertInLoopThread_def)
  from awaiting_rounds [OF s0(4), of "timeout_exec micros clk" "timeout_functor clk" ts] obtain s1 where
    s1: "\<forall>rest. ?R (?early @ rest) (s0\<lparr>isLooping := True, isQuited := False\<rparr>) = ?R rest s1" "awaiting tfd efd fd c s1" "\<not> isQuited s1" by auto
  from spec [OF s1(1), of "[]"] s1(3) have "?R ?early (s0\<lparr>isLooping := True, isQuited := False\<rparr>) = Inr None" by simp
  then show "timeout_main micros clk tid garbage tfd tc efd wc fd c ?early = Inr None" unfolding main by simp
  from timeout_ends [OF s1(2)] obtain s2 where s2: "EventLoop_round (timeout_exec micros clk) (timeout_functor clk) (timeout_round (True, t)) s1 = Inr s2"
    "isQuited s2" "chans s2 c = Some (user_chan fd 1)" "timeout_out s2 = [Timestamp_toFormattedString t @ '' Timeout!'']" by blast
  have "?R rest s2 = Inr (Some (s2\<lparr>isLooping := False\<rparr>))" using s2(2) by (cases rest) simp_all
  then have "?R (timeout_round (True, t) # rest) s1 = Inr (Some (s2\<lparr>isLooping := False\<rparr>))" using s2(1) s1(3) by (simp del: timeout_round.simps)
  moreover have "timeout_exit c (s2\<lparr>isLooping := False\<rparr>) = Inr (s2\<lparr>isLooping := False, chans := (chans s2)(c := None)\<rparr>)"
    using s2(3) by (simp add: timeout_exit_def Channel_delete_def EventLoop_delete_def user_chan_def)
  ultimately have "timeout_main micros clk tid garbage tfd tc efd wc fd c (?early @ timeout_round (True, t) # rest)
      = Inr (Some (s2\<lparr>isLooping := False, chans := (chans s2)(c := None)\<rparr>))" unfolding main by (simp add: s1(1) del: timeout_round.simps)
  with s2(4) show "\<exists>s. timeout_main micros clk tid garbage tfd tc efd wc fd c (?early @ timeout_round (True, t) # rest) = Inr (Some s)
      \<and> timeout_out s = [Timestamp_toFormattedString t @ '' Timeout!''] \<and> chans s c = None \<and> \<not> isLooping s" by simp
qed

theorem Timeout_program_ends_witness:
  "\<exists>s. timeout_main (\<lambda>d. 0) (\<lambda>t. (t, t)) 7 True 3 0 4 1 5 2
      (map (\<lambda>t. timeout_round (False, t)) [Timestamp 1, Timestamp 2] @ [timeout_round (True, Timestamp 5000000)]) = Inr (Some s)
     \<and> length (timeout_out s) = 1"
  using Timeout_program_ends(2) [of 3 4 5 0 1 2 "\<lambda>d. 0" "\<lambda>t. (t, t)" 7 True "[Timestamp 1, Timestamp 2]" "Timestamp 5000000" "[]"] by auto

end
