(* ===== verification/DateTest.thy ===== *)
theory DateTest
  imports Date
begin

text \<open>
  \<^verbatim>\<open>muduo/datetime/Date_unittest.cc\<close>: the test walks through the calendar day by day, with counters of its own for the Julian day
  number and the day of the week, and compares them with \<open>Date\<close>. It is a specification of the class: days are counted, not computed.
\<close>

section \<open>Date_unittest.cc\<close>

definition kMonthsOfYear :: int where
  "kMonthsOfYear = 12"

definition isLeapYear :: "int \<Rightarrow> int" where
  "isLeapYear year = (if year smod 400 = 0 then 1 else if year smod 100 = 0 then 0 else if year smod 4 = 0 then 1 else 0)"

definition daysOfMonth :: "int \<Rightarrow> int \<Rightarrow> int" where
  "daysOfMonth year month =
     (let days = [[0, 31, 28, 31, 30, 31, 30, 31, 31, 30, 31, 30, 31],
                  [0, 31, 29, 31, 30, 31, 30, 31, 31, 30, 31, 30, 31]]
      in days ! nat (isLeapYear year) ! nat month)"

text \<open>The variables \<open>julianDayNumber\<close> and \<open>weekDay\<close> of \<open>main\<close> are the state of the loops.\<close>

type_synonym day_counters = "int \<times> int"

definition test_date :: "int \<Rightarrow> int \<Rightarrow> int \<Rightarrow> day_counters \<Rightarrow> date \<Rightarrow> bool" where
  "test_date year month day s d \<longleftrightarrow> (case s of (jdn, wday) \<Rightarrow>
     year = Date_year d \<and> month = Date_month d \<and> day = Date_day d \<and> wday = weekDay d \<and> jdn = julianDayNumber d)"

definition test_day :: "int \<Rightarrow> int \<Rightarrow> int \<Rightarrow> day_counters \<Rightarrow> day_counters result" where
  "test_day year month day s = (case s of (jdn, wday) \<Rightarrow>
     assertR (test_date year month day s (Date_ymd year month day))
       (assertR (test_date year month day s (Date jdn))
         (Inr (jdn + 1, (wday + 1) smod 7))))"

definition test_month :: "int \<Rightarrow> int \<Rightarrow> day_counters \<Rightarrow> day_counters result" where
  "test_month year month = foldR (test_day year month) [1..daysOfMonth year month]"

definition test_year :: "int \<Rightarrow> day_counters \<Rightarrow> day_counters result" where
  "test_year year s =
     assertR (julianDayNumber (Date_ymd year 3 1) - julianDayNumber (Date_ymd year 2 29) = isLeapYear year)
       (foldR (test_month year) [1..kMonthsOfYear] s)"

definition Date_unittest_main :: "day_counters result" where
  "Date_unittest_main = foldR test_year [1900..2499] (2415021, 1)"

section \<open>The counters follow the calendar\<close>

lemma smod_zero: "0 < n \<Longrightarrow> (year::int) smod n = 0 \<longleftrightarrow> year mod n = 0"
  by (cases "0 \<le> year") (simp_all add: smod_nonneg smod_neg mod_eq_0_iff_dvd)

lemma isLeapYear_leap: "isLeapYear year = (if leap_year year then 1 else 0)"
proof -
  have z: "year smod 400 = 0 \<longleftrightarrow> year mod 400 = 0" "year smod 100 = 0 \<longleftrightarrow> year mod 100 = 0" "year smod 4 = 0 \<longleftrightarrow> year mod 4 = 0"
    by (rule smod_zero, simp)+
  show ?thesis
  proof (cases "year mod 400 = 0")
    case True
    from mod_400_100 [OF this] mod_100_4 [OF mod_400_100 [OF this]] True show ?thesis unfolding isLeapYear_def z leap_year_def by (simp only: simp_thms if_True)
  next
    case False
    then show ?thesis unfolding isLeapYear_def z leap_year_def using mod_100_4 [of year] by (cases "year mod 100 = 0") (simp_all only: simp_thms if_False if_True)
  qed
qed

lemma daysOfMonth_calendar: "1 \<le> month \<Longrightarrow> month \<le> 12 \<Longrightarrow> daysOfMonth year month = days_in_month year month"
  using month_cases [of month] by (auto simp: daysOfMonth_def isLeapYear_leap days_in_month_def)

text \<open>The counters at a date.\<close>

definition counters_at :: "int \<Rightarrow> int \<Rightarrow> int \<Rightarrow> day_counters" where
  "counters_at year month day = (getJulianDayNumber year month day, (getJulianDayNumber year month day + 1) mod 7)"

lemma jdn_day: "getJulianDayNumber year month (day + k) = getJulianDayNumber year month day + k"
  by (simp add: getJulianDayNumber_def Let_def)

lemma jdn_nonneg:
  assumes "- 4712 \<le> year" and "1 \<le> month" "month \<le> 12" and "1 \<le> day"
  shows "0 \<le> getJulianDayNumber year month day"
proof -
  define y where "y = march_year year month"
  have y: "87 \<le> y" using assms(1) by (simp add: y_def march_year_def)
  have ys: "y * 365 \<le> year_days y + y div 100" using y by (simp add: year_days_def pos_imp_zdiv_nonneg_iff)
  have "y div 100 \<le> y" using y by simp
  moreover have "0 \<le> month_start (march_month month)"
    using month_start_bounds(1) [of "march_month month"] march_month_range [OF assms(2,3)] by linarith
  moreover have "y = 87 \<Longrightarrow> month \<le> 2" using assms(1) by (auto simp: y_def march_year_def split: if_splits)
  moreover have "month \<le> 2 \<Longrightarrow> 275 \<le> month_start (march_month month)"
    using month_start_bounds(1) [of "march_month month"] assms(2) by (simp add: march_month_def)
  moreover have "y = 87 \<Longrightarrow> year_days y = 31776" by (simp add: year_days_def)
  moreover have "88 \<le> y \<Longrightarrow> 32044 \<le> year_days y" using ys calculation(1) y by (simp add: year_days_def)
  ultimately show ?thesis
    using getJulianDayNumber_year_days [OF assms(2,3), of year day] y assms(4) y_def by (cases "y = 87") auto
qed

lemma next_weekday: "((jdn + 1) mod 7 + 1) mod 7 = (2 + jdn) mod (7::int)"
  by presburger

lemma test_day_passes:
  assumes "calendar_date year month day" and "- 4712 \<le> year"
  shows "test_day year month day (counters_at year month day) = Inr (counters_at year month (day + 1))"
proof -
  have m: "1 \<le> month" "month \<le> 12" "1 \<le> day" using assms(1) by (auto simp: calendar_date_def)
  have j: "0 \<le> getJulianDayNumber year month day" by (rule jdn_nonneg [OF assms(2) m])
  have "0 \<le> march_year year month" using assms(2) by (simp add: march_year_def)
  from ymd_of_jdn [OF assms(1) this] j show ?thesis
    by (simp add: test_day_def test_date_def counters_at_def Date_year_def Date_month_def Date_day_def yearMonthDay_def Date_ymd_def
        weekDay_def kDaysPerWeek_def smod_nonneg next_weekday jdn_day [of year month day 1])
qed

text \<open>A loop over consecutive integers that moves the state along.\<close>

lemma foldR_upto:
  assumes "\<And>i. a \<le> i \<Longrightarrow> i \<le> b \<Longrightarrow> f i (P i) = Inr (P (i + 1))" and "a \<le> b + 1"
  shows "foldR f [a..b] (P a) = Inr (P (b + 1))"
  using assms
proof (induction a b rule: upto.induct)
  case (1 a b)
  show ?case
  proof (cases "a \<le> b")
    case True
    then show ?thesis using 1 by (simp add: upto_rec1)
  next
    case False
    then have "a = b + 1" using "1.prems"(2) by simp
    then show ?thesis by simp
  qed
qed

lemma days_in_month_pos: "28 \<le> days_in_month year month"
  by (simp add: days_in_month_def)

lemma test_month_passes:
  assumes "1 \<le> month" "month \<le> 12" and "- 4712 \<le> year"
  shows "test_month year month (counters_at year month 1) = Inr (counters_at year month (days_in_month year month + 1))"
  unfolding test_month_def daysOfMonth_calendar [OF assms(1,2)]
proof (rule foldR_upto)
  fix d
  assume "1 \<le> d" "d \<le> days_in_month year month"
  then show "test_day year month d (counters_at year month d) = Inr (counters_at year month (d + 1))"
    using assms by (intro test_day_passes) (simp_all add: calendar_date_def)
qed (use days_in_month_pos [of year month] in simp)

text \<open>The first day of a month, where the thirteenth is January of the next year.\<close>

definition month_begins :: "int \<Rightarrow> int \<Rightarrow> day_counters" where
  "month_begins year month = (if month = 13 then counters_at (year + 1) 1 1 else counters_at year month 1)"

lemma month_ends:
  assumes "1 \<le> month" "month \<le> 12" and "- 4712 \<le> year"
  shows "counters_at year month (days_in_month year month + 1) = month_begins year (month + 1)"
proof (cases "month = 12")
  case True
  then show ?thesis using getJulianDayNumber_next_year [of year] jdn_day [of year 12 31 1] assms(3)
    by (simp add: month_begins_def counters_at_def days_in_month_def march_year_def)
next
  case False
  then show ?thesis using getJulianDayNumber_next_month [of month year] jdn_day [of year month "days_in_month year month" 1] assms
    by (simp add: month_begins_def counters_at_def march_year_def)
qed

lemma february_29:
  assumes "- 4712 \<le> year"
  shows "getJulianDayNumber year 3 1 - getJulianDayNumber year 2 29 = isLeapYear year"
  using getJulianDayNumber_next_month [of 2 year] jdn_day [of year 2 28 1] assms
  by (auto simp: march_year_def days_in_month_def isLeapYear_leap split: if_splits)

lemma test_year_passes:
  assumes "- 4712 \<le> year"
  shows "test_year year (counters_at year 1 1) = Inr (counters_at (year + 1) 1 1)"
proof -
  have "foldR (test_month year) [1..12] (month_begins year 1) = Inr (month_begins year (12 + 1))"
  proof (rule foldR_upto)
    fix m :: int
    assume "1 \<le> m" "m \<le> 12"
    then show "test_month year m (month_begins year m) = Inr (month_begins year (m + 1))"
      using test_month_passes [of m year] month_ends [of m year] assms by (simp add: month_begins_def)
  qed simp
  then show ?thesis
    using february_29 [OF assms] by (simp add: test_year_def Date_ymd_def kMonthsOfYear_def month_begins_def)
qed

section \<open>Properties\<close>



end
