(* ===== verification/TimeZone.thy ===== *)
theory TimeZone
  imports Timestamp
begin

text \<open>
  \<^verbatim>\<open>muduo/datetime/TimeZone.h\<close> and \<^verbatim>\<open>TimeZone.cc\<close>: conversion between UTC and broken-down times, time zone
  files, and local times. A file is its bytes, or \<open>None\<close> when it cannot be opened. \<open>gmtime_r\<close> and \<open>timegm\<close> of
  the C library are definitions; \<open>std::lower_bound\<close> is its binary search.
\<close>

section \<open>Data\<close>

record transition =
  gmttime :: int
  localtime :: int
  localtimeIdx :: int

record localtime_type =
  gmtOffset :: int
  isDst :: bool
  arrbIdx :: int

record tz_data =
  transitions :: "transition list"
  localtimes :: "localtime_type list"
  tz_names :: "string list"
  tz_abbreviation :: string

definition Data_new :: tz_data where
  "Data_new = \<lparr>transitions = [], localtimes = [], tz_names = [], tz_abbreviation = []\<rparr>"

definition comp :: "bool \<Rightarrow> transition \<Rightarrow> transition \<Rightarrow> bool" where
  "comp compareGmt lhs rhs = (if compareGmt then gmttime lhs < gmttime rhs else localtime lhs < localtime rhs)"

definition comp_equal :: "bool \<Rightarrow> transition \<Rightarrow> transition \<Rightarrow> bool" where
  "comp_equal compareGmt lhs rhs = (if compareGmt then gmttime lhs = gmttime rhs else localtime lhs = localtime rhs)"

definition kSecondsPerDay :: int where "kSecondsPerDay = 24 * 60 * 60"

section \<open>UTC\<close>

text \<open>Conversion of an integer to \<open>int\<close>.\<close>

definition int32_wrap :: "int \<Rightarrow> int" where
  "int32_wrap x = (x + 2 ^ 31) mod 2 ^ 32 - 2 ^ 31"

definition tm_zero :: tm where
  "tm_zero = \<lparr>tm_sec = 0, tm_min = 0, tm_hour = 0, tm_mday = 0, tm_mon = 0, tm_year = 0, tm_wday = 0, tm_yday = 0, tm_isdst = 0,
     tm_gmtoff = 0, tm_zone = []\<rparr>"

definition fillHMS :: "int \<Rightarrow> tm \<Rightarrow> tm" where
  "fillHMS seconds utc =
     (let utc1 = utc\<lparr>tm_sec := seconds mod 60\<rparr>; minutes = seconds div 60
      in utc1\<lparr>tm_min := minutes mod 60, tm_hour := minutes div 60\<rparr>)"

definition toUtcTime :: "int \<Rightarrow> bool \<Rightarrow> tm" where
  "toUtcTime secondsSinceEpoch yday =
     (let utc = tm_zero\<lparr>tm_zone := ''GMT''\<rparr>;
          seconds0 = int32_wrap (secondsSinceEpoch smod kSecondsPerDay);
          days0 = int32_wrap (secondsSinceEpoch sdiv kSecondsPerDay);
          (seconds, days) = (if seconds0 < 0 then (seconds0 + kSecondsPerDay, days0 - 1) else (seconds0, days0));
          utc1 = fillHMS seconds utc;
          date = Date (days + kJulianDayOf1970_01_01);
          ymd = yearMonthDay date;
          utc2 = utc1\<lparr>tm_year := ymd_year ymd - 1900, tm_mon := ymd_month ymd - 1, tm_mday := ymd_day ymd, tm_wday := weekDay date\<rparr>
      in if yday then utc2\<lparr>tm_yday := julianDayNumber date - julianDayNumber (Date_ymd (ymd_year ymd) 1 1)\<rparr> else utc2)"

definition fromUtcTime :: "int \<Rightarrow> int \<Rightarrow> int \<Rightarrow> int \<Rightarrow> int \<Rightarrow> int \<Rightarrow> int" where
  "fromUtcTime year month day hour minute seconds =
     (let date = Date_ymd year month day;
          secondsInDay = hour * 3600 + minute * 60 + seconds;
          days = julianDayNumber date - kJulianDayOf1970_01_01
      in days * kSecondsPerDay + secondsInDay)"

definition fromUtcTime_tm :: "tm \<Rightarrow> int" where
  "fromUtcTime_tm utc = fromUtcTime (tm_year utc + 1900) (tm_mon utc + 1) (tm_mday utc) (tm_hour utc) (tm_min utc) (tm_sec utc)"

section \<open>Reading a time zone file\<close>

text \<open>
  The reader's state is the rest of the file and the data filled in so far, which an exception leaves as
  they are.
\<close>

type_synonym tz_state = "string \<times> tz_data"

type_synonym 'a reader = "tz_state \<Rightarrow> 'a result \<times> tz_state"

definition returnP :: "'a \<Rightarrow> 'a reader" where
  "returnP x s = (Inr x, s)"

definition throwP :: "failure \<Rightarrow> 'a reader" where
  "throwP e s = (Inl e, s)"

definition bindP :: "'a reader \<Rightarrow> ('a \<Rightarrow> 'b reader) \<Rightarrow> 'b reader" where
  "bindP m f s = (case m s of (Inl e, s1) \<Rightarrow> (Inl e, s1) | (Inr x, s1) \<Rightarrow> f x s1)"

definition fillP :: "(tz_data \<Rightarrow> tz_data) \<Rightarrow> unit reader" where
  "fillP f s = (Inr (), (fst s, f (snd s)))"

primrec timesP :: "nat \<Rightarrow> 'a reader \<Rightarrow> 'a list reader" where
  "timesP 0 p = returnP []"
| "timesP (Suc n) p = bindP p (\<lambda>x. bindP (timesP n p) (\<lambda>xs. returnP (x # xs)))"

text \<open>An array of negative length, and an index outside a vector, are accesses to no object.\<close>

definition readBytes :: "int \<Rightarrow> string reader" where
  "readBytes n s =
     (if n < 0 then (Inl OutOfBounds, s)
      else if length (fst s) < nat n then (Inl (LogicError ''no enough data''), ([], snd s))
      else (Inr (take (nat n) (fst s)), (drop (nat n) (fst s), snd s)))"

definition be32toh :: "string \<Rightarrow> int" where
  "be32toh bs = int32_wrap (foldl (\<lambda>a c. 256 * a + of_char c) 0 bs)"

definition readInt32 :: "int reader" where
  "readInt32 s =
     (if length (fst s) < 4 then (Inl (LogicError ''bad int32_t data''), ([], snd s))
      else (Inr (be32toh (take 4 (fst s))), (drop 4 (fst s), snd s)))"

definition readUInt8 :: "int reader" where
  "readUInt8 s =
     (case fst s of [] \<Rightarrow> (Inl (LogicError ''bad uint8_t data''), s) | c # cs \<Rightarrow> (Inr (of_char c), (cs, snd s)))"

definition readLocaltime :: "unit reader" where
  "readLocaltime = bindP readInt32 (\<lambda>gmtoff. bindP readUInt8 (\<lambda>isdst. bindP readUInt8 (\<lambda>abbrind.
     fillP (\<lambda>d. d\<lparr>localtimes := localtimes d @ [\<lparr>gmtOffset = gmtoff, isDst = (isdst \<noteq> 0), arrbIdx = abbrind\<rparr>]\<rparr>))))"

definition addTransition :: "int \<times> int \<Rightarrow> unit reader" where
  "addTransition tr s =
     (case tr of (t, localIdx) \<Rightarrow>
        if 0 \<le> localIdx \<and> nat localIdx < length (localtimes (snd s)) then
          fillP (\<lambda>d. d\<lparr>transitions := transitions d
            @ [\<lparr>gmttime = t, localtime = t + gmtOffset (localtimes d ! nat localIdx), localtimeIdx = localIdx\<rparr>]\<rparr>) s
        else (Inl OutOfBounds, s))"

primrec eachP :: "('a \<Rightarrow> unit reader) \<Rightarrow> 'a list \<Rightarrow> unit reader" where
  "eachP f [] = returnP ()"
| "eachP f (x # xs) = bindP (f x) (\<lambda>_. eachP f xs)"

definition readZone :: "unit reader" where
  "readZone =
     bindP (readBytes 4) (\<lambda>head.
       if head \<noteq> ''TZif'' then throwP (LogicError ''bad head'')
       else bindP (readBytes 1) (\<lambda>version. bindP (readBytes 15) (\<lambda>_.
         bindP readInt32 (\<lambda>isgmtcnt. bindP readInt32 (\<lambda>isstdcnt. bindP readInt32 (\<lambda>leapcnt.
         bindP readInt32 (\<lambda>timecnt. bindP readInt32 (\<lambda>typecnt. bindP readInt32 (\<lambda>charcnt.
           if timecnt < 0 then throwP LengthError
           else bindP (timesP (nat timecnt) readInt32) (\<lambda>trans.
             bindP (timesP (nat timecnt) readUInt8) (\<lambda>locals.
               bindP (timesP (nat typecnt) readLocaltime) (\<lambda>_.
                 bindP (eachP addTransition (zip trans locals)) (\<lambda>_.
                   bindP (readBytes charcnt) (\<lambda>abbr.
                     bindP (fillP (\<lambda>d. d\<lparr>tz_abbreviation := abbr\<rparr>)) (\<lambda>_.
                       bindP (timesP (nat leapcnt) (bindP readInt32 (\<lambda>leaptime. bindP readInt32 (\<lambda>cumleap. returnP ()))))
                         (\<lambda>_. returnP ()))))))))))))))))"

text \<open>
  \<open>readTimeZoneFile\<close> catches the exceptions derived from \<open>std::logic_error\<close> and always returns true.
\<close>

definition readTimeZoneFile :: "string option \<Rightarrow> tz_data \<Rightarrow> (bool \<times> tz_data) result" where
  "readTimeZoneFile zonefile data =
     (case zonefile of
        None \<Rightarrow> Inr (True, data)
      | Some bytes \<Rightarrow>
          (case readZone (bytes, data) of
             (Inr _, s) \<Rightarrow> Inr (True, snd s)
           | (Inl (LogicError _), s) \<Rightarrow> Inr (True, snd s)
           | (Inl LengthError, s) \<Rightarrow> Inr (True, snd s)
           | (Inl e, s) \<Rightarrow> Inl e))"

definition TimeZone_new :: "string option \<Rightarrow> tz_data option result" where
  "TimeZone_new zonefile = bindR (readTimeZoneFile zonefile Data_new) (\<lambda>(ok, d). Inr (if ok then Some d else None))"

definition TimeZone_valid :: "tz_data option \<Rightarrow> bool" where
  "TimeZone_valid tz \<longleftrightarrow> tz \<noteq> None"

section \<open>Local time\<close>

function lower_bound_from :: "('a \<Rightarrow> 'a \<Rightarrow> bool) \<Rightarrow> 'a list \<Rightarrow> 'a \<Rightarrow> nat \<Rightarrow> nat \<Rightarrow> nat" where
  "lower_bound_from lt xs v first len =
     (if len = 0 then first
      else (let half = len div 2; middle = first + half in
            if lt (xs ! middle) v then lower_bound_from lt xs v (middle + 1) (len - half - 1)
            else lower_bound_from lt xs v first half))"
  by pat_completeness auto
termination
  by (relation "measure (\<lambda>(lt, xs, v, first, len). len)") auto

declare lower_bound_from.simps [simp del]

definition lower_bound :: "('a \<Rightarrow> 'a \<Rightarrow> bool) \<Rightarrow> 'a list \<Rightarrow> 'a \<Rightarrow> nat" where
  "lower_bound lt xs v = lower_bound_from lt xs v 0 (length xs)"

definition localtime_at :: "tz_data \<Rightarrow> int \<Rightarrow> localtime_type result" where
  "localtime_at d i = (if 0 \<le> i \<and> nat i < length (localtimes d) then Inr (localtimes d ! nat i) else Inl OutOfBounds)"

definition findLocaltime :: "tz_data \<Rightarrow> transition \<Rightarrow> bool \<Rightarrow> localtime_type result" where
  "findLocaltime data sentry cmp =
     (if transitions data = [] \<or> comp cmp sentry (hd (transitions data)) then localtime_at data 0
      else
        (let transI = lower_bound (comp cmp) (transitions data) sentry in
         if transI \<noteq> length (transitions data) then
           if \<not> comp_equal cmp sentry (transitions data ! transI)
           then assertR (transI \<noteq> 0) (localtime_at data (localtimeIdx (transitions data ! (transI - 1))))
           else localtime_at data (localtimeIdx (transitions data ! transI))
         else localtime_at data (localtimeIdx (last (transitions data)))))"

text \<open>\<open>&abbreviation[i]\<close>: the C string that starts there.\<close>

definition cstring_at :: "string \<Rightarrow> int \<Rightarrow> string result" where
  "cstring_at s i = (if 0 \<le> i \<and> nat i \<le> length s then Inr (takeWhile (\<lambda>c. c \<noteq> CHR 0x00) (drop (nat i) s)) else Inl OutOfBounds)"

definition toLocalTime :: "tz_data option \<Rightarrow> int \<Rightarrow> tm result" where
  "toLocalTime tz seconds =
     (case tz of
        None \<Rightarrow> Inl AssertionFailed
      | Some data \<Rightarrow>
          bindR (findLocaltime data \<lparr>gmttime = seconds, localtime = 0, localtimeIdx = 0\<rparr> True) (\<lambda>local.
            bindR (cstring_at (tz_abbreviation data) (arrbIdx local)) (\<lambda>zone.
              Inr ((gmtime_r (seconds + gmtOffset local))\<lparr>tm_isdst := (if isDst local then 1 else 0),
                     tm_gmtoff := gmtOffset local, tm_zone := zone\<rparr>))))"

text \<open>\<open>timegm(3)\<close>: months and days outside their ranges count on from the first of a month.\<close>

definition timegm :: "tm \<Rightarrow> int" where
  "timegm t =
     (let y = tm_year t + 1900 + tm_mon t div 12; m = tm_mon t mod 12 + 1;
          dayno = getJulianDayNumber y m 1 + tm_mday t - 1 - kJulianDayOf1970_01_01
      in dayno * 86400 + tm_hour t * 3600 + tm_min t * 60 + tm_sec t)"

definition fromLocalTime :: "tz_data option \<Rightarrow> tm \<Rightarrow> int result" where
  "fromLocalTime tz localTm =
     (case tz of
        None \<Rightarrow> Inl AssertionFailed
      | Some data \<Rightarrow>
          (let seconds = timegm localTm in
           bindR (findLocaltime data \<lparr>gmttime = 0, localtime = seconds, localtimeIdx = 0\<rparr> False) (\<lambda>local.
             if tm_isdst localTm \<noteq> 0 then
               bindR (toLocalTime tz (seconds - gmtOffset local)) (\<lambda>tryTm.
                 Inr ((if tm_isdst tryTm = 0 \<and> tm_hour tryTm = tm_hour localTm \<and> tm_min tryTm = tm_min localTm
                       then seconds - 3600 else seconds) - gmtOffset local))
             else Inr (seconds - gmtOffset local))))"

section \<open>UTC round trip\<close>

lemma int32_wrap_id: "- (2 ^ 31) \<le> x \<Longrightarrow> x < 2 ^ 31 \<Longrightarrow> int32_wrap x = x"
  by (simp add: int32_wrap_def)

text \<open>Division towards zero of a negative time, from the quotient and remainder of division towards minus infinity.\<close>

lemma trunc_split:
  assumes "0 \<le> r" and "r < b" and "t = b * q + r" and "t < (0 :: int)"
  shows "t sdiv b = (if r = 0 then q else q + 1)" and "t smod b = (if r = 0 then 0 else r - b)"
proof -
  have b: "0 < b" using assms by simp
  have "- t div b = (if r = 0 then - q else - q - 1) \<and> - t mod b = (if r = 0 then 0 else b - r)"
  proof (cases "r = 0")
    case True
    then show ?thesis using b assms(3) by (simp add: minus_mult_right del: mult_minus_right)
  next
    case False
    have "- t = b * (- q - 1) + (b - r)" by (simp add: assms(3) algebra_simps)
    then show ?thesis using False assms(1,2) int_div_pos_eq [of "- t" b "- q - 1" "b - r"] int_mod_pos_eq [of "- t" b "- q - 1" "b - r"]
      by simp
  qed
  moreover have "t sdiv b = - (- t div b)" "t smod b = - (- t mod b)" using b assms(4) by (simp_all add: sdiv_neg smod_neg)
  ultimately show "t sdiv b = (if r = 0 then q else q + 1)" "t smod b = (if r = 0 then 0 else r - b)"
    by (simp_all split: if_splits)
qed

text \<open>The day and the second of the day, as the code computes them.\<close>

lemma day_split:
  assumes "- (2 ^ 31) \<le> t div 86400" and "t div 86400 < 2 ^ 31"
  shows "(if int32_wrap (t smod kSecondsPerDay) < 0
          then (int32_wrap (t smod kSecondsPerDay) + kSecondsPerDay, int32_wrap (t sdiv kSecondsPerDay) - 1)
          else (int32_wrap (t smod kSecondsPerDay), int32_wrap (t sdiv kSecondsPerDay))) = (t mod 86400, t div 86400)"
proof (cases "0 \<le> t")
  case True
  then have "0 \<le> t mod 86400" "t mod 86400 < 86400" by simp_all
  then show ?thesis using True assms by (simp add: kSecondsPerDay_def sdiv_nonneg smod_nonneg int32_wrap_id)
next
  case False
  define q r where "q = t div 86400" and "r = t mod 86400"
  have q: "q < 0" "- (2 ^ 31) \<le> q" using False assms(1) by (simp_all add: q_def pos_imp_zdiv_neg_iff)
  have r: "0 \<le> r" "r < 86400" by (simp_all add: r_def)
  have t: "t = 86400 * q + r" "t < 0" using False by (simp_all add: q_def r_def)
  note d = trunc_split [OF r t]
  have "int32_wrap (t smod 86400) = t smod 86400" using r by (intro int32_wrap_id) (simp_all add: d)
  moreover have "int32_wrap (t sdiv 86400) = t sdiv 86400" using q by (intro int32_wrap_id) (simp_all add: d)
  ultimately have "(if int32_wrap (t smod 86400) < 0
      then (int32_wrap (t smod 86400) + 86400, int32_wrap (t sdiv 86400) - 1)
      else (int32_wrap (t smod 86400), int32_wrap (t sdiv 86400))) = (r, q)"
    using r by (simp add: d)
  moreover have "kSecondsPerDay = 86400" by (simp add: kSecondsPerDay_def)
  ultimately show ?thesis by (simp only: q_def r_def)
qed

text \<open>\<open>toUtcTime\<close> without its intermediate values.\<close>

lemma toUtcTime_eq:
  assumes "- (2 ^ 31) \<le> t div 86400" and "t div 86400 < 2 ^ 31"
  shows "toUtcTime t yday =
    (let rest = t mod 86400; jdn = t div 86400 + kJulianDayOf1970_01_01; ymd = getYearMonthDay jdn
     in \<lparr>tm_sec = rest mod 60, tm_min = rest div 60 mod 60, tm_hour = rest div 60 div 60, tm_mday = ymd_day ymd,
         tm_mon = ymd_month ymd - 1, tm_year = ymd_year ymd - 1900, tm_wday = (jdn + 1) smod 7,
         tm_yday = (if yday then jdn - getJulianDayNumber (ymd_year ymd) 1 1 else 0), tm_isdst = 0, tm_gmtoff = 0, tm_zone = ''GMT''\<rparr>)"
proof -
  define q r where "q = t div 86400" and "r = t mod 86400"
  show ?thesis
    unfolding toUtcTime_def Let_def day_split [OF assms] prod.case unfolding q_def [symmetric] r_def [symmetric]
    by (simp add: tm_zero_def fillHMS_def yearMonthDay_def Date_ymd_def weekDay_def kDaysPerWeek_def Let_def)
qed

lemma hms_sum: "rest div 60 div 60 * 3600 + rest div 60 mod 60 * 60 + rest mod 60 = (rest :: int)"
  using div_mult_mod_eq [of rest 60] div_mult_mod_eq [of "rest div 60" 60] by linarith

lemma hms_range:
  assumes "0 \<le> rest" and "rest < (86400 :: int)"
  shows "0 \<le> rest div 60 div 60" and "rest div 60 div 60 < 24"
  using assms by (simp_all add: pos_imp_zdiv_nonneg_iff zdiv_zmult2_eq [symmetric])



section \<open>The binary search\<close>

lemma lower_bound_from_sorted:
  assumes "sorted_wrt (\<lambda>x y. lt y v \<longrightarrow> lt x v) xs" and "first + len \<le> length xs"
    and "\<forall>i < first. lt (xs ! i) v" and "\<forall>i. first + len \<le> i \<and> i < length xs \<longrightarrow> \<not> lt (xs ! i) v"
  shows "lower_bound_from lt xs v first len = length (takeWhile (\<lambda>x. lt x v) xs)"
  using assms
proof (induction lt xs v first len rule: lower_bound_from.induct)
  case (1 lt xs v first len)
  show ?case
  proof (cases "len = 0")
    case True
    then have "takeWhile (\<lambda>x. lt x v) xs = take first xs"
      using "1.prems" by (intro takeWhile_eq_take_P_nth) auto
    moreover have "first \<le> length xs" using "1.prems"(2) by simp
    ultimately show ?thesis using True by (simp add: lower_bound_from.simps)
  next
    case False
    let ?m = "first + len div 2"
    have m: "?m < length xs" using False "1.prems"(2) by linarith
    have mono: "lt (xs ! j) v \<Longrightarrow> lt (xs ! i) v" if "i \<le> j" "j < length xs" for i j
      using sorted_wrt_nth_less [OF "1.prems"(1), of i j] that by (cases "i = j") auto
    show ?thesis
    proof (cases "lt (xs ! ?m) v")
      case True
      then have "\<forall>i < ?m + 1. lt (xs ! i) v" using mono m by (metis add.commute less_Suc_eq_le plus_1_eq_Suc)
      then show ?thesis using True False "1.IH"(1) [of "len div 2" ?m] "1.prems" m
        by (subst lower_bound_from.simps) (simp add: Let_def)
    next
      case False2: False
      then have "\<forall>i. first + len div 2 \<le> i \<and> i < length xs \<longrightarrow> \<not> lt (xs ! i) v" using mono by blast
      then show ?thesis using False False2 "1.IH"(2) [of "len div 2" ?m] "1.prems" m
        by (subst lower_bound_from.simps) (simp add: Let_def)
    qed
  qed
qed

lemma lower_bound_sorted:
  assumes "sorted_wrt (\<lambda>x y. lt y v \<longrightarrow> lt x v) xs"
  shows "lower_bound lt xs v = length (takeWhile (\<lambda>x. lt x v) xs)"
  unfolding lower_bound_def using assms by (intro lower_bound_from_sorted) auto

section \<open>The local time type in force\<close>

definition trans_key :: "bool \<Rightarrow> transition \<Rightarrow> int" where
  "trans_key compareGmt tr = (if compareGmt then gmttime tr else localtime tr)"

lemma comp_key: "comp cmp x y \<longleftrightarrow> trans_key cmp x < trans_key cmp y"
  "comp_equal cmp x y \<longleftrightarrow> trans_key cmp x = trans_key cmp y"
  by (simp_all add: comp_def comp_equal_def trans_key_def)

text \<open>The type of the last transition at or before a time, the first type before all transitions.\<close>

definition type_in_force :: "bool \<Rightarrow> tz_data \<Rightarrow> int \<Rightarrow> int" where
  "type_in_force cmp d v =
     (let past = filter (\<lambda>tr. trans_key cmp tr \<le> v) (transitions d) in if past = [] then 0 else localtimeIdx (last past))"

definition zone_sorted :: "bool \<Rightarrow> tz_data \<Rightarrow> bool" where
  "zone_sorted cmp d \<longleftrightarrow> sorted_wrt (<) (map (trans_key cmp) (transitions d))"

lemma lower_bound_key:
  assumes "sorted_wrt (<) (map f xs)"
  shows "lower_bound (\<lambda>x y. f x < f y) xs v = length (takeWhile (\<lambda>x. f x < (f v :: int)) xs)"
proof (rule lower_bound_sorted)
  have "sorted_wrt (\<lambda>x y. f x < f y) xs" using assms by (simp add: sorted_wrt_map)
  then show "sorted_wrt (\<lambda>x y. f y < f v \<longrightarrow> f x < f v) xs" by (rule sorted_wrt_mono_rel [rotated]) auto
qed

text \<open>A sorted list splits at a value into the elements below it and the others, and the first of the others alone can be equal to it.\<close>

lemma filter_le_split:
  assumes "sorted_wrt (<) (map f xs)" and "xs = below @ rest" and "\<forall>x \<in> set below. f x < (v :: int)"
    and "rest \<noteq> [] \<Longrightarrow> v \<le> f (hd rest)"
  shows "filter (\<lambda>x. f x \<le> v) xs = (if rest \<noteq> [] \<and> f (hd rest) = v then below @ [hd rest] else below)"
proof -
  have "filter (\<lambda>x. f x \<le> v) below = below" using assms(3) by (simp add: filter_id_conv less_imp_le)
  moreover have "filter (\<lambda>x. f x \<le> v) rest = (if rest \<noteq> [] \<and> f (hd rest) = v then [hd rest] else [])"
    using assms by (cases rest) (auto simp: sorted_wrt_append filter_empty_conv)
  ultimately show ?thesis using assms(2) by simp
qed

lemma findLocaltime_in_force:
  assumes "zone_sorted cmp d"
  shows "findLocaltime d sentry cmp = localtime_at d (type_in_force cmp d (trans_key cmp sentry))"
proof -
  let ?k = "trans_key cmp" and ?ts = "transitions d"
  let ?v = "?k sentry"
  define below rest where "below = takeWhile (\<lambda>x. ?k x < ?v) ?ts" and "rest = dropWhile (\<lambda>x. ?k x < ?v) ?ts"
  have split: "?ts = below @ rest" by (simp add: below_def rest_def)
  have b: "\<forall>x \<in> set below. ?k x < ?v" by (auto simp: below_def dest: set_takeWhileD)
  have r: "?v \<le> ?k (hd rest)" if "rest \<noteq> []"
    using hd_dropWhile [of "\<lambda>x. ?k x < ?v" ?ts] that by (simp add: rest_def not_less)
  have sorted: "sorted_wrt (<) (map ?k ?ts)" using assms by (simp add: zone_sorted_def)
  note past = filter_le_split [OF sorted split b r]
  have lb: "lower_bound (comp cmp) ?ts sentry = length below"
    using lower_bound_key [OF sorted, of sentry] by (simp add: below_def comp_key [abs_def])
  show ?thesis
  proof (cases "?ts = [] \<or> ?v < ?k (hd ?ts)")
    case True
    then have "filter (\<lambda>x. ?k x \<le> ?v) ?ts = []"
      using sorted by (cases ?ts) (auto simp: filter_empty_conv)
    then show ?thesis using True by (simp add: findLocaltime_def comp_key type_in_force_def)
  next
    case False
    then have nonempty: "below \<noteq> [] \<or> rest \<noteq> [] \<and> ?k (hd rest) = ?v" using split r by (cases below) fastforce+
    have "last ?ts = (if rest = [] then last below else last rest)" using split by simp
    moreover have "?ts ! length below = hd rest" if "rest \<noteq> []" using split that by (simp add: nth_append hd_conv_nth)
    moreover have "?ts ! (length below - 1) = last below" if "below \<noteq> []" using split that by (simp add: nth_append last_conv_nth)
    moreover have "length below = length ?ts \<longleftrightarrow> rest = []" using split by simp
    ultimately show ?thesis using False nonempty
      by (auto simp: findLocaltime_def comp_key type_in_force_def lb past Let_def)
  qed
qed

section \<open>Local times and back\<close>

lemma getJulianDayNumber_day: "getJulianDayNumber y m 1 + d - 1 = getJulianDayNumber y m d"
  by (simp add: getJulianDayNumber_def Let_def)

lemma timegm_gmtime_r:
  assumes "- 2440588 \<le> x div 86400"
  shows "timegm (gmtime_r x) = x"
proof -
  define q r where "q = x div 86400" and "r = x mod 86400"
  let ?ymd = "getYearMonthDay (q + kJulianDayOf1970_01_01)"
  have k: "kJulianDayOf1970_01_01 = 2440588" by (simp add: kJulianDayOf1970_01_01_def getJulianDayNumber_def)
  have "- 32044 \<le> q + kJulianDayOf1970_01_01" using assms by (simp add: k q_def)
  note j = jdn_of_ymd [OF this]
  then have m: "(ymd_month ?ymd - 1) div 12 = 0" "(ymd_month ?ymd - 1) mod 12 = ymd_month ?ymd - 1"
    by (simp_all add: calendar_date_def)
  have "r div 3600 = r div 60 div 60" by (simp add: zdiv_zmult2_eq [symmetric])
  with hms_sum [of r] have h: "r div 3600 * 3600 + r div 60 mod 60 * 60 + r mod 60 = r" by simp
  have x: "x = q * 86400 + r" by (simp add: q_def r_def)
  have g: "gmtime_r x = \<lparr>tm_sec = r mod 60, tm_min = r div 60 mod 60, tm_hour = r div 3600,
      tm_mday = ymd_day ?ymd, tm_mon = ymd_month ?ymd - 1, tm_year = ymd_year ?ymd - 1900, tm_wday = (q + 4) mod 7,
      tm_yday = q + kJulianDayOf1970_01_01 - getJulianDayNumber (ymd_year ?ymd) 1 1, tm_isdst = 0, tm_gmtoff = 0, tm_zone = ''GMT''\<rparr>"
    by (simp only: gmtime_r_def Let_def q_def r_def)
  have "timegm (gmtime_r x) = q * 86400 + (r div 3600 * 3600 + r div 60 mod 60 * 60 + r mod 60)"
    unfolding g by (simp add: timegm_def m getJulianDayNumber_day j)
  then show ?thesis by (simp only: h x)
qed

lemma toLocalTime_in_force:
  assumes "zone_sorted True d" and "toLocalTime (Some d) t = Inr l"
  obtains local where "localtime_at d (type_in_force True d t) = Inr local"
    and "l = (gmtime_r (t + gmtOffset local))\<lparr>tm_isdst := (if isDst local then 1 else 0), tm_gmtoff := gmtOffset local, tm_zone := tm_zone l\<rparr>"
proof -
  have f: "findLocaltime d \<lparr>gmttime = t, localtime = 0, localtimeIdx = 0\<rparr> True = localtime_at d (type_in_force True d t)"
    using findLocaltime_in_force [OF assms(1)] by (simp add: trans_key_def)
  show thesis using assms(2) that by (auto simp: toLocalTime_def f bindR_eq_Inr)
qed

lemma type_in_force_cong:
  assumes "\<forall>tr \<in> set (transitions d). trans_key c1 tr \<le> v \<longleftrightarrow> trans_key c2 tr \<le> w"
  shows "type_in_force c1 d v = type_in_force c2 d w"
proof -
  have "filter (\<lambda>tr. trans_key c1 tr \<le> v) (transitions d) = filter (\<lambda>tr. trans_key c2 tr \<le> w) (transitions d)"
    using assms by (intro filter_cong) auto
  then show ?thesis by (simp add: type_in_force_def)
qed

lemma timegm_update [simp]:
  "timegm (t\<lparr>tm_isdst := a, tm_gmtoff := b, tm_zone := c\<rparr>) = timegm t"
  by (simp add: timegm_def)

text \<open>
  C34. A local time converts back to the time it was made from, daylight saving time included: when the
  transitions are in order on both clocks and no transition lies between the time and its local reading,
  so that the reading belongs to one time only, \<open>fromLocalTime\<close> inverts \<open>toLocalTime\<close>.
\<close>

theorem LocalTime_round_trip:
  assumes "zone_sorted True d" and "zone_sorted False d" and "toLocalTime (Some d) t = Inr l"
    and "- 2440588 \<le> (t + tm_gmtoff l) div 86400"
    and "\<forall>tr \<in> set (transitions d). gmttime tr \<le> t \<longleftrightarrow> localtime tr \<le> t + tm_gmtoff l"
  shows "fromLocalTime (Some d) l = Inr t"
proof -
  from assms(1,3) obtain local where loc: "localtime_at d (type_in_force True d t) = Inr local"
    and l: "l = (gmtime_r (t + gmtOffset local))\<lparr>tm_isdst := (if isDst local then 1 else 0), tm_gmtoff := gmtOffset local, tm_zone := tm_zone l\<rparr>"
    by (rule toLocalTime_in_force)
  have off: "tm_gmtoff l = gmtOffset local" and dst: "tm_isdst l = (if isDst local then 1 else 0)" by (subst l, simp)+
  have secs: "timegm l = t + gmtOffset local"
    using assms(4) by (subst l) (simp add: timegm_gmtime_r off)
  have "type_in_force False d (t + gmtOffset local) = type_in_force True d t"
    using assms(5) by (intro type_in_force_cong) (auto simp: trans_key_def off)
  then have "findLocaltime d \<lparr>gmttime = 0, localtime = timegm l, localtimeIdx = 0\<rparr> False = Inr local"
    using findLocaltime_in_force [OF assms(2)] loc by (simp add: trans_key_def secs)
  then show ?thesis using assms(3) by (simp add: fromLocalTime_def secs dst)
qed

text \<open>A zone with a summer hour between two transitions.\<close>

definition summer_zone :: tz_data where
  "summer_zone = \<lparr>transitions = [\<lparr>gmttime = 1000000, localtime = 1007200, localtimeIdx = 1\<rparr>,
       \<lparr>gmttime = 2000000, localtime = 2003600, localtimeIdx = 0\<rparr>],
     localtimes = [\<lparr>gmtOffset = 3600, isDst = False, arrbIdx = 0\<rparr>, \<lparr>gmtOffset = 7200, isDst = True, arrbIdx = 4\<rparr>],
     tz_names = [], tz_abbreviation = [CHR ''C'', CHR ''E'', CHR ''T'', CHR 0x00, CHR ''S'', CHR ''U'', CHR ''M'', CHR 0x00]\<rparr>"

theorem LocalTime_round_trip_witness:
  "\<exists>l. toLocalTime (Some summer_zone) 1500000 = Inr l \<and> tm_isdst l = 1 \<and> fromLocalTime (Some summer_zone) l = Inr 1500000"
proof -
  have s: "zone_sorted True summer_zone" "zone_sorted False summer_zone"
    by (simp_all add: zone_sorted_def summer_zone_def trans_key_def)
  have f: "findLocaltime summer_zone \<lparr>gmttime = 1500000, localtime = 0, localtimeIdx = 0\<rparr> True
      = Inr \<lparr>gmtOffset = 7200, isDst = True, arrbIdx = 4\<rparr>"
    by (simp add: findLocaltime_in_force [OF s(1)]) (simp add: type_in_force_def trans_key_def summer_zone_def localtime_at_def)
  define l where "l = (gmtime_r 1507200)\<lparr>tm_isdst := 1, tm_gmtoff := 7200, tm_zone := ''SUM''\<rparr>"
  have c: "cstring_at (tz_abbreviation summer_zone) 4 = Inr ''SUM''" by (simp add: cstring_at_def summer_zone_def)
  have l: "toLocalTime (Some summer_zone) 1500000 = Inr l"
    by (simp add: toLocalTime_def f c l_def)
  have "fromLocalTime (Some summer_zone) l = Inr 1500000"
    by (rule LocalTime_round_trip [OF s l]) (simp_all add: l_def, simp add: summer_zone_def)
  then show ?thesis using l by (auto simp: l_def)
qed

section \<open>The file format\<close>

text \<open>
  What \<^verbatim>\<open>tzfile(5)\<close> says a file of version 1 holds: the header with six counts, the transition times, the index
  of each transition's type, the types, the abbreviations and the leap seconds.
\<close>

definition put_int32 :: "int \<Rightarrow> string" where
  "put_int32 x = [char_of (x div 2 ^ 24), char_of (x div 2 ^ 16), char_of (x div 2 ^ 8), char_of x]"

definition put_type :: "localtime_type \<Rightarrow> string" where
  "put_type l = put_int32 (gmtOffset l) @ [char_of (if isDst l then 1 else 0 :: int), char_of (arrbIdx l)]"

definition put_leap :: "int \<times> int \<Rightarrow> string" where
  "put_leap p = put_int32 (fst p) @ put_int32 (snd p)"

definition zone_file :: "tz_data \<Rightarrow> (int \<times> int) list \<Rightarrow> string" where
  "zone_file d leaps =
     ''TZif'' @ replicate 16 (CHR 0x00) @ put_int32 0 @ put_int32 0 @ put_int32 (int (length leaps))
     @ put_int32 (int (length (transitions d))) @ put_int32 (int (length (localtimes d))) @ put_int32 (int (length (tz_abbreviation d)))
     @ concat (map (\<lambda>tr. put_int32 (gmttime tr)) (transitions d)) @ map (\<lambda>tr. char_of (localtimeIdx tr)) (transitions d)
     @ concat (map put_type (localtimes d)) @ tz_abbreviation d @ concat (map put_leap leaps)"

definition is_int32 :: "int \<Rightarrow> bool" where
  "is_int32 x \<longleftrightarrow> - (2 ^ 31) \<le> x \<and> x < 2 ^ 31"

definition zone_wf :: "tz_data \<Rightarrow> bool" where
  "zone_wf d \<longleftrightarrow>
     length (transitions d) < 2 ^ 31 \<and> length (localtimes d) < 2 ^ 31 \<and> length (tz_abbreviation d) < 2 ^ 31 \<and> tz_names d = []
     \<and> (\<forall>tr \<in> set (transitions d). is_int32 (gmttime tr) \<and> 0 \<le> localtimeIdx tr \<and> localtimeIdx tr < 256
          \<and> nat (localtimeIdx tr) < length (localtimes d)
          \<and> localtime tr = gmttime tr + gmtOffset (localtimes d ! nat (localtimeIdx tr)))
     \<and> (\<forall>l \<in> set (localtimes d). is_int32 (gmtOffset l) \<and> 0 \<le> arrbIdx l \<and> arrbIdx l < 256)"

named_theorems reader_simps \<open>runs of the file reader\<close>

lemma bindP_run [reader_simps]: "m s = (Inr x, s') \<Longrightarrow> bindP m f s = f x s'"
  by (simp add: bindP_def)

lemma length_put_int32 [simp]: "length (put_int32 x) = 4"
  by (simp add: put_int32_def)

lemma int32_wrap_mult: "int32_wrap (x - 2 ^ 32 * k) = int32_wrap x"
proof -
  have "(x + 2 ^ 31 - 2 ^ 32 * k) mod 2 ^ 32 = (x + 2 ^ 31) mod (2 ^ 32 :: int)"
    using mod_mult_self2 [of "x + 2 ^ 31" "2 ^ 32" "- k"] by (simp only: mult_minus_right add_uminus_conv_diff)
  moreover have "x - 2 ^ 32 * k + 2 ^ 31 = x + 2 ^ 31 - 2 ^ 32 * k" by simp
  ultimately show ?thesis by (simp only: int32_wrap_def)
qed

lemma bytes_value:
  fixes x :: int
  shows "256 * (256 * (256 * (x div 256 div 256 div 256 mod 256) + x div 256 div 256 mod 256) + x div 256 mod 256) + x mod 256
    = x - 2 ^ 32 * (x div 256 div 256 div 256 div 256)"
proof -
  have horner: "256 * (256 * (256 * a0 + b0) + c0) + x0 = y - 2 ^ 32 * z"
    if "y = 256 * c + x0" "c = 256 * b + c0" "b = 256 * a + b0" "a = 256 * z + a0" for a b c y z a0 b0 c0 x0 :: int
    using that by simp
  show ?thesis by (rule horner) (rule mult_div_mod_eq [symmetric])+
qed

lemma be32toh_put:
  assumes "is_int32 x"
  shows "be32toh (put_int32 x) = x"
proof -
  have "x div 2 ^ 24 = x div 256 div 256 div 256" "x div 2 ^ 16 = x div 256 div 256" "x div 2 ^ 8 = x div 256"
    by (simp_all add: zdiv_zmult2_eq [symmetric])
  then have "be32toh (put_int32 x) = int32_wrap (x - 2 ^ 32 * (x div 256 div 256 div 256 div 256))"
    by (simp only: be32toh_def put_int32_def foldl.simps of_char_of mult_zero_right add_0 bytes_value)
  then show ?thesis using assms by (simp only: int32_wrap_mult is_int32_def int32_wrap_id)
qed

lemma readInt32_put [reader_simps]: "is_int32 x \<Longrightarrow> readInt32 (put_int32 x @ r, d) = (Inr x, (r, d))"
  by (simp add: readInt32_def be32toh_put)

lemma readUInt8_put [reader_simps]: "0 \<le> x \<Longrightarrow> x < 256 \<Longrightarrow> readUInt8 (char_of x # r, d) = (Inr x, (r, d))"
  by (simp add: readUInt8_def)

lemma readBytes_put [reader_simps]: "n = int (length bs) \<Longrightarrow> readBytes n (bs @ r, d) = (Inr bs, (r, d))"
  by (simp add: readBytes_def)

text \<open>A loop of the reader over the encodings of a list of values, which changes the data by \<open>upd\<close> at each.\<close>

lemma timesP_put:
  assumes "\<And>x r d. x \<in> set xs \<Longrightarrow> p (enc x @ r, d) = (Inr (val x), (r, upd x d))"
  shows "timesP (length xs) p (concat (map enc xs) @ r, d) = (Inr (map val xs), (r, fold upd xs d))"
  using assms by (induction xs arbitrary: d) (simp_all add: returnP_def bindP_def)

lemma readLocaltime_put [reader_simps]:
  assumes "is_int32 (gmtOffset l)" and "0 \<le> arrbIdx l" and "arrbIdx l < 256"
  shows "readLocaltime (put_type l @ r, d) = (Inr (), (r, d\<lparr>localtimes := localtimes d @ [l]\<rparr>))"
  using assms by (simp add: readLocaltime_def put_type_def reader_simps fillP_def)

lemma fold_localtimes: "fold (\<lambda>l d. d\<lparr>localtimes := localtimes d @ [l]\<rparr>) ls d = d\<lparr>localtimes := localtimes d @ ls\<rparr>"
  by (induction ls arbitrary: d) simp_all

lemma addTransitions:
  assumes "\<forall>tr \<in> set trs. 0 \<le> localtimeIdx tr \<and> nat (localtimeIdx tr) < length (localtimes d)
      \<and> localtime tr = gmttime tr + gmtOffset (localtimes d ! nat (localtimeIdx tr))"
  shows "eachP addTransition (zip (map gmttime trs) (map localtimeIdx trs)) (r, d)
         = (Inr (), (r, d\<lparr>transitions := transitions d @ trs\<rparr>))"
  using assms
proof (induction trs arbitrary: d)
  case Nil
  then show ?case by (simp add: returnP_def)
next
  case (Cons tr trs)
  have "addTransition (gmttime tr, localtimeIdx tr) (r, d) = (Inr (), (r, d\<lparr>transitions := transitions d @ [tr]\<rparr>))"
    using Cons.prems by (simp add: addTransition_def fillP_def)
  then show ?case using Cons.IH [of "d\<lparr>transitions := transitions d @ [tr]\<rparr>"] Cons.prems by (simp add: bindP_run)
qed

lemma fold_keep [simp]: "fold (\<lambda>_ d. d) xs d = d"
  by (induction xs) simp_all

lemma timesP_int32 [reader_simps]:
  assumes "\<forall>tr \<in> set trs. is_int32 (gmttime tr)" and "n = length trs"
  shows "timesP n readInt32 (concat (map (\<lambda>tr. put_int32 (gmttime tr)) trs) @ r, d) = (Inr (map gmttime trs), (r, d))"
  using assms timesP_put [of trs readInt32 "\<lambda>tr. put_int32 (gmttime tr)" gmttime "\<lambda>_ d. d" r d]
  by (simp add: reader_simps)

lemma timesP_uint8 [reader_simps]:
  assumes "\<forall>tr \<in> set trs. 0 \<le> localtimeIdx tr \<and> localtimeIdx tr < 256" and "n = length trs"
  shows "timesP n readUInt8 (map (\<lambda>tr. char_of (localtimeIdx tr)) trs @ r, d) = (Inr (map localtimeIdx trs), (r, d))"
proof -
  have "concat (map (\<lambda>tr. [char_of (localtimeIdx tr)]) trs) = map (\<lambda>tr. char_of (localtimeIdx tr)) trs"
    by (induction trs) simp_all
  then show ?thesis
    using assms timesP_put [of trs readUInt8 "\<lambda>tr. [char_of (localtimeIdx tr)]" localtimeIdx "\<lambda>_ d. d" r d]
    by (simp add: reader_simps)
qed

lemma timesP_types [reader_simps]:
  assumes "\<forall>l \<in> set ls. is_int32 (gmtOffset l) \<and> 0 \<le> arrbIdx l \<and> arrbIdx l < 256" and "n = length ls"
  shows "timesP n readLocaltime (concat (map put_type ls) @ r, d)
         = (Inr (map (\<lambda>_. ()) ls), (r, d\<lparr>localtimes := localtimes d @ ls\<rparr>))"
  using assms timesP_put [of ls readLocaltime put_type "\<lambda>_. ()" "\<lambda>l d. d\<lparr>localtimes := localtimes d @ [l]\<rparr>" r d]
  by (simp add: reader_simps fold_localtimes)

lemma timesP_leaps [reader_simps]:
  assumes "\<forall>p \<in> set leaps. is_int32 (fst p) \<and> is_int32 (snd p)" and "n = length leaps"
  shows "timesP n (bindP readInt32 (\<lambda>leaptime. bindP readInt32 (\<lambda>cumleap. returnP ()))) (concat (map put_leap leaps) @ r, d)
         = (Inr (map (\<lambda>_. ()) leaps), (r, d))"
  using assms timesP_put [of leaps "bindP readInt32 (\<lambda>leaptime. bindP readInt32 (\<lambda>cumleap. returnP ()))" put_leap "\<lambda>_. ()" "\<lambda>_ d. d" r d]
  by (simp add: reader_simps put_leap_def returnP_def)

lemma readZone_file:
  assumes "zone_wf d" and "\<forall>p \<in> set leaps. is_int32 (fst p) \<and> is_int32 (snd p)" and "length leaps < 2 ^ 31"
  shows "readZone (zone_file d leaps @ rest, Data_new) = (Inr (), (rest, d))"
proof -
  have z: "is_int32 0" "is_int32 (int (length leaps))" "is_int32 (int (length (transitions d)))"
    "is_int32 (int (length (localtimes d)))" "is_int32 (int (length (tz_abbreviation d)))"
    using assms by (simp_all add: is_int32_def zone_wf_def)
  have t: "\<forall>tr \<in> set (transitions d). is_int32 (gmttime tr)"
    "\<forall>tr \<in> set (transitions d). 0 \<le> localtimeIdx tr \<and> localtimeIdx tr < 256"
    and l: "\<forall>l \<in> set (localtimes d). is_int32 (gmtOffset l) \<and> 0 \<le> arrbIdx l \<and> arrbIdx l < 256"
    and n: "tz_names d = []"
    using assms(1) by (auto simp: zone_wf_def)
  let ?d1 = "Data_new\<lparr>localtimes := localtimes d\<rparr>"
  have a: "eachP addTransition (zip (map gmttime (transitions d)) (map localtimeIdx (transitions d))) (r, ?d1)
      = (Inr (), (r, ?d1\<lparr>transitions := transitions d\<rparr>))" for r
    using addTransitions [of "transitions d" ?d1 r] assms(1) by (simp add: zone_wf_def Data_new_def)
  have h: "readBytes 4 (CHR ''T'' # CHR ''Z'' # CHR ''i'' # CHR ''f'' # r, x) = (Inr ''TZif'', (r, x))"
    "readBytes 1 (CHR 0x00 # r, x) = (Inr [CHR 0x00], (r, x))"
    "readBytes 15 (replicate 15 (CHR 0x00) @ r, x) = (Inr (replicate 15 (CHR 0x00)), (r, x))" for r x
    by (simp_all add: readBytes_def)
  have f: "fillP g (r, x) = (Inr (), (r, g x))" for g r x by (simp add: fillP_def)
  have e: "?d1\<lparr>transitions := transitions d, tz_abbreviation := tz_abbreviation d\<rparr> = d"
    using n by (simp add: Data_new_def)
  have l0: "localtimes Data_new = []" by (simp add: Data_new_def)
  have r16: "replicate 16 (CHR 0x00) = CHR 0x00 # replicate 15 (CHR 0x00)" by (simp add: numeral_eq_Suc)
  show ?thesis
    using t l z assms(2) e
    by (simp add: readZone_def zone_file_def r16 bindP_run h f a l0 reader_simps returnP_def)
qed

text \<open>
  C33. A time zone file is read for what it holds: of every zone that the format can express, with any leap
  second records and anything after them, a \<open>TimeZone\<close> built on the file has exactly the zone's transitions,
  types and abbreviations.
\<close>

theorem TimeZone_file_round_trip:
  assumes "zone_wf d" and "\<forall>p \<in> set leaps. is_int32 (fst p) \<and> is_int32 (snd p)" and "length leaps < 2 ^ 31"
  shows "TimeZone_new (Some (zone_file d leaps @ rest)) = Inr (Some d)"
  using readZone_file [OF assms] by (simp add: TimeZone_new_def readTimeZoneFile_def)

theorem TimeZone_file_round_trip_witness:
  "TimeZone_new (Some (zone_file summer_zone [(78796800, 1)] @ ''tail'')) = Inr (Some summer_zone)"
  by (rule TimeZone_file_round_trip) (simp_all add: zone_wf_def summer_zone_def is_int32_def)

text \<open>
  A file that cannot be opened or is cut short or does not start with \<open>TZif\<close> still gives a \<open>TimeZone\<close> whose
  \<open>valid()\<close> is true, with no local time types, so that every conversion of a time reads past the end of an
  empty vector: \<open>valid()\<close> is true of every object that the constructor returns.
\<close>

theorem TimeZone_valid_says_nothing:
  "(TimeZone_new f = Inr tz \<longrightarrow> TimeZone_valid tz)
   \<and> (f = None \<or> (\<exists>bytes. f = Some bytes \<and> take 4 bytes \<noteq> ''TZif'') \<longrightarrow>
      TimeZone_new f = Inr (Some Data_new) \<and> toLocalTime (Some Data_new) t = Inl OutOfBounds
      \<and> fromLocalTime (Some Data_new) l = Inl OutOfBounds)"
proof -
  have ok: "fst r" if "readTimeZoneFile f d = Inr r" for r d
    using that by (auto simp: readTimeZoneFile_def split: option.splits sum.splits prod.splits failure.splits)
  then have "TimeZone_new f = Inr tz \<longrightarrow> TimeZone_valid tz"
    by (auto simp: TimeZone_new_def bindR_eq_Inr TimeZone_valid_def)
  moreover have "TimeZone_new (Some bytes) = Inr (Some Data_new)" if bad: "take 4 bytes \<noteq> ''TZif''" for bytes
  proof -
    have "\<exists>e r. readZone (bytes, Data_new) = (Inl (LogicError e), (r, Data_new))"
      using bad by (auto simp: readZone_def bindP_def readBytes_def throwP_def)
    then show ?thesis by (auto simp: TimeZone_new_def readTimeZoneFile_def)
  qed
  moreover have "TimeZone_new None = Inr (Some Data_new)" by (simp add: TimeZone_new_def readTimeZoneFile_def)
  moreover have "findLocaltime Data_new x c = Inl OutOfBounds" for x c by (simp add: findLocaltime_def localtime_at_def Data_new_def)
  ultimately show ?thesis by (auto simp: toLocalTime_def fromLocalTime_def Let_def)
qed

theorem TimeZone_valid_says_nothing_witness:
  "TimeZone_valid (Some Data_new) \<and> TimeZone_new (Some ''not a zone'') = Inr (Some Data_new)
   \<and> toLocalTime (Some Data_new) 0 = Inl OutOfBounds"
  using TimeZone_valid_says_nothing [of "Some ''not a zone''" "Some Data_new" 0] by simp

end
