(* ===== verification/TimeZoneTest.thy ===== *)
theory TimeZoneTest
  imports TimeZone
begin

text \<open>
  \<^verbatim>\<open>muduo/datetime/TimeZone_unittest.cc\<close>: the test of the zone files and of the conversion to UTC. \<open>strptime\<close> and
  \<open>strftime\<close> are modelled for the formats of the test; the contents of the four zone files and \<open>gmtime\<close>, the reference of the test, are
  arguments. What the program prints is its result.
\<close>

section \<open>strptime and strftime\<close>

text \<open>A number of at most \<open>n\<close> digits.\<close>

definition read_number :: "nat \<Rightarrow> string \<Rightarrow> (int \<times> string) option" where
  "read_number n s =
     (let ds = takeWhile is_digit (take n s) in if ds = [] then None else Some (int (val_nat ds), drop (length ds) s))"

text \<open>
  \<open>strptime(str, "%F %T", &tm)\<close>: each conversion is a field with its width, what precedes it, and how it is stored. At
  the first mismatch the rest is left as it is.
\<close>

fun scan_fields :: "(string \<times> nat \<times> (int \<Rightarrow> tm \<Rightarrow> tm)) list \<Rightarrow> string \<Rightarrow> tm \<Rightarrow> tm" where
  "scan_fields [] s t = t"
| "scan_fields ((sep, w, store) # fs) s t =
     (if take (length sep) s \<noteq> sep then t
      else (case read_number w (drop (length sep) s) of None \<Rightarrow> t | Some (n, s1) \<Rightarrow> scan_fields fs s1 (store n t)))"

definition strptime_FT :: "string \<Rightarrow> tm \<Rightarrow> tm" where
  "strptime_FT = scan_fields
     [([], 4, \<lambda>n t. t\<lparr>tm_year := n - 1900\<rparr>), (''-'', 2, \<lambda>n t. t\<lparr>tm_mon := n - 1\<rparr>), (''-'', 2, \<lambda>n t. t\<lparr>tm_mday := n\<rparr>),
      ('' '', 2, \<lambda>n t. t\<lparr>tm_hour := n\<rparr>), ('':'', 2, \<lambda>n t. t\<lparr>tm_min := n\<rparr>), ('':'', 2, \<lambda>n t. t\<lparr>tm_sec := n\<rparr>)]"

definition strftime_FT :: "tm \<Rightarrow> string" where
  "strftime_FT t = fmt_0d 4 (tm_year t + 1900) @ ''-'' @ fmt_0d 2 (tm_mon t + 1) @ ''-'' @ fmt_0d 2 (tm_mday t) @ '' ''
     @ fmt_0d 2 (tm_hour t) @ '':'' @ fmt_0d 2 (tm_min t) @ '':'' @ fmt_0d 2 (tm_sec t)"

definition strftime_z :: "tm \<Rightarrow> string" where
  "strftime_z t = (let m = \<bar>tm_gmtoff t\<bar> div 60 in (if tm_gmtoff t < 0 then ''-'' else ''+'') @ fmt_0d 4 (m div 60 * 100 + m mod 60))"

text \<open>A text that does not fit the buffer leaves its contents undefined.\<close>

definition strftime_buf :: "nat \<Rightarrow> string \<Rightarrow> string result" where
  "strftime_buf sz txt = (if length txt < sz then Inr txt else Inl OutOfBounds)"

definition strftime_local :: "tm \<Rightarrow> string result" where
  "strftime_local t = strftime_buf 256 (strftime_FT t @ strftime_z t @ ''('' @ tm_zone t @ '')'')"

definition strftime_utc :: "tm \<Rightarrow> string result" where
  "strftime_utc t = strftime_buf 80 (strftime_FT t @ '' '' @ dec_int ((tm_wday t + 6) mod 7 + 1) @ '' '' @ fmt_0d 3 (tm_yday t + 1))"

section \<open>The test\<close>

definition getTm :: "int \<Rightarrow> int \<Rightarrow> int \<Rightarrow> int \<Rightarrow> int \<Rightarrow> int \<Rightarrow> tm" where
  "getTm year month day hour minute seconds =
     tm_zero\<lparr>tm_year := year - 1900, tm_mon := month - 1, tm_mday := day, tm_hour := hour, tm_min := minute, tm_sec := seconds\<rparr>"

definition getTm_str :: "string \<Rightarrow> tm" where
  "getTm_str str = strptime_FT str tm_zero"

definition getGmt :: "int \<Rightarrow> int \<Rightarrow> int \<Rightarrow> int \<Rightarrow> int \<Rightarrow> int \<Rightarrow> int" where
  "getGmt year month day hour minute seconds = timegm (getTm year month day hour minute seconds)"

definition getGmt_str :: "string \<Rightarrow> int" where
  "getGmt_str str = timegm (getTm_str str)"

datatype test_case = TestCase (tc_gmt: string) (tc_local: string) (tc_isdst: bool)

definition newline :: string where
  "newline = [CHR 0x0A]"

text \<open>The two halves of \<open>test\<close>.\<close>

definition test_to_local :: "tz_data option \<Rightarrow> test_case \<Rightarrow> string result" where
  "test_to_local tz tc =
     bindR (toLocalTime tz (getGmt_str (tc_gmt tc))) (\<lambda>local.
       bindR (strftime_local local) (\<lambda>buf.
         Inr ((if buf \<noteq> tc_local tc \<or> of_bool (tc_isdst tc) \<noteq> tm_isdst local then ''WRONG: '' else [])
              @ tc_gmt tc @ '' -> '' @ buf @ newline)))"

definition test_from_local :: "tz_data option \<Rightarrow> test_case \<Rightarrow> string result" where
  "test_from_local tz tc =
     bindR (fromLocalTime tz ((getTm_str (tc_local tc))\<lparr>tm_isdst := of_bool (tc_isdst tc)\<rparr>)) (\<lambda>res.
       if res \<noteq> getGmt_str (tc_gmt tc) then
         bindR (toLocalTime tz res) (\<lambda>local. bindR (strftime_local local) (\<lambda>buf.
           Inr (''WRONG fromLocalTime: '' @ dec_int (getGmt_str (tc_gmt tc)) @ '' '' @ dec_int res @ '' '' @ buf @ newline)))
       else Inr [])"

definition test_zone :: "tz_data option \<Rightarrow> test_case \<Rightarrow> string result" where
  "test_zone tz tc = bindR (test_to_local tz tc) (\<lambda>out1. bindR (test_from_local tz tc) (\<lambda>out2. Inr (out1 @ out2)))"

text \<open>What the four functions for the zones share: the zone is read, and the cases are tested in turn.\<close>

definition test_zones :: "test_case list \<Rightarrow> string option \<Rightarrow> string result" where
  "test_zones cases zonefile =
     bindR (TimeZone_new zonefile) (\<lambda>tz. foldR (\<lambda>tc out. bindR (test_zone tz tc) (\<lambda>o1. Inr (out @ o1))) cases [])"

definition new_york_cases :: "test_case list" where
  "new_york_cases =
    [TestCase ''2006-03-07 00:00:00'' ''2006-03-06 19:00:00-0500(EST)'' False,
     TestCase ''2006-04-02 06:59:59'' ''2006-04-02 01:59:59-0500(EST)'' False,
     TestCase ''2006-04-02 07:00:00'' ''2006-04-02 03:00:00-0400(EDT)'' True,
     TestCase ''2006-05-01 00:00:00'' ''2006-04-30 20:00:00-0400(EDT)'' True,
     TestCase ''2006-05-02 01:00:00'' ''2006-05-01 21:00:00-0400(EDT)'' True,
     TestCase ''2006-10-21 05:00:00'' ''2006-10-21 01:00:00-0400(EDT)'' True,
     TestCase ''2006-10-29 05:59:59'' ''2006-10-29 01:59:59-0400(EDT)'' True,
     TestCase ''2006-10-29 06:00:00'' ''2006-10-29 01:00:00-0500(EST)'' False,
     TestCase ''2006-10-29 06:59:59'' ''2006-10-29 01:59:59-0500(EST)'' False,
     TestCase ''2006-12-31 06:00:00'' ''2006-12-31 01:00:00-0500(EST)'' False,
     TestCase ''2007-01-01 00:00:00'' ''2006-12-31 19:00:00-0500(EST)'' False,
     TestCase ''2007-03-07 00:00:00'' ''2007-03-06 19:00:00-0500(EST)'' False,
     TestCase ''2007-03-11 06:59:59'' ''2007-03-11 01:59:59-0500(EST)'' False,
     TestCase ''2007-03-11 07:00:00'' ''2007-03-11 03:00:00-0400(EDT)'' True,
     TestCase ''2007-05-01 00:00:00'' ''2007-04-30 20:00:00-0400(EDT)'' True,
     TestCase ''2007-05-02 01:00:00'' ''2007-05-01 21:00:00-0400(EDT)'' True,
     TestCase ''2007-10-31 05:00:00'' ''2007-10-31 01:00:00-0400(EDT)'' True,
     TestCase ''2007-11-04 05:59:59'' ''2007-11-04 01:59:59-0400(EDT)'' True,
     TestCase ''2007-11-04 06:00:00'' ''2007-11-04 01:00:00-0500(EST)'' False,
     TestCase ''2007-11-04 06:59:59'' ''2007-11-04 01:59:59-0500(EST)'' False,
     TestCase ''2007-12-31 06:00:00'' ''2007-12-31 01:00:00-0500(EST)'' False,
     TestCase ''2008-01-01 00:00:00'' ''2007-12-31 19:00:00-0500(EST)'' False,
     TestCase ''2009-03-07 00:00:00'' ''2009-03-06 19:00:00-0500(EST)'' False,
     TestCase ''2009-03-08 06:59:59'' ''2009-03-08 01:59:59-0500(EST)'' False,
     TestCase ''2009-03-08 07:00:00'' ''2009-03-08 03:00:00-0400(EDT)'' True,
     TestCase ''2009-05-01 00:00:00'' ''2009-04-30 20:00:00-0400(EDT)'' True,
     TestCase ''2009-05-02 01:00:00'' ''2009-05-01 21:00:00-0400(EDT)'' True,
     TestCase ''2009-10-31 05:00:00'' ''2009-10-31 01:00:00-0400(EDT)'' True,
     TestCase ''2009-11-01 05:59:59'' ''2009-11-01 01:59:59-0400(EDT)'' True,
     TestCase ''2009-11-01 06:00:00'' ''2009-11-01 01:00:00-0500(EST)'' False,
     TestCase ''2009-11-01 06:59:59'' ''2009-11-01 01:59:59-0500(EST)'' False,
     TestCase ''2009-12-31 06:00:00'' ''2009-12-31 01:00:00-0500(EST)'' False,
     TestCase ''2010-01-01 00:00:00'' ''2009-12-31 19:00:00-0500(EST)'' False,
     TestCase ''2010-03-13 00:00:00'' ''2010-03-12 19:00:00-0500(EST)'' False,
     TestCase ''2010-03-14 06:59:59'' ''2010-03-14 01:59:59-0500(EST)'' False,
     TestCase ''2010-03-14 07:00:00'' ''2010-03-14 03:00:00-0400(EDT)'' True,
     TestCase ''2010-05-01 00:00:00'' ''2010-04-30 20:00:00-0400(EDT)'' True,
     TestCase ''2010-05-02 01:00:00'' ''2010-05-01 21:00:00-0400(EDT)'' True,
     TestCase ''2010-11-06 05:00:00'' ''2010-11-06 01:00:00-0400(EDT)'' True,
     TestCase ''2010-11-07 05:59:59'' ''2010-11-07 01:59:59-0400(EDT)'' True,
     TestCase ''2010-11-07 06:00:00'' ''2010-11-07 01:00:00-0500(EST)'' False,
     TestCase ''2010-11-07 06:59:59'' ''2010-11-07 01:59:59-0500(EST)'' False,
     TestCase ''2010-12-31 06:00:00'' ''2010-12-31 01:00:00-0500(EST)'' False,
     TestCase ''2011-01-01 00:00:00'' ''2010-12-31 19:00:00-0500(EST)'' False,
     TestCase ''2011-03-01 00:00:00'' ''2011-02-28 19:00:00-0500(EST)'' False,
     TestCase ''2011-03-13 06:59:59'' ''2011-03-13 01:59:59-0500(EST)'' False,
     TestCase ''2011-03-13 07:00:00'' ''2011-03-13 03:00:00-0400(EDT)'' True,
     TestCase ''2011-05-01 00:00:00'' ''2011-04-30 20:00:00-0400(EDT)'' True,
     TestCase ''2011-05-02 01:00:00'' ''2011-05-01 21:00:00-0400(EDT)'' True,
     TestCase ''2011-11-06 05:59:59'' ''2011-11-06 01:59:59-0400(EDT)'' True,
     TestCase ''2011-11-06 06:00:00'' ''2011-11-06 01:00:00-0500(EST)'' False,
     TestCase ''2011-11-06 06:59:59'' ''2011-11-06 01:59:59-0500(EST)'' False,
     TestCase ''2011-12-31 06:00:00'' ''2011-12-31 01:00:00-0500(EST)'' False,
     TestCase ''2012-01-01 00:00:00'' ''2011-12-31 19:00:00-0500(EST)'' False]"

definition testNewYork :: "string option \<Rightarrow> string result" where
  "testNewYork = test_zones new_york_cases"

definition london_cases :: "test_case list" where
  "london_cases =
    [TestCase ''2011-03-26 00:00:00'' ''2011-03-26 00:00:00+0000(GMT)'' False,
     TestCase ''2011-03-27 00:59:59'' ''2011-03-27 00:59:59+0000(GMT)'' False,
     TestCase ''2011-03-27 01:00:00'' ''2011-03-27 02:00:00+0100(BST)'' True,
     TestCase ''2011-10-30 00:59:59'' ''2011-10-30 01:59:59+0100(BST)'' True,
     TestCase ''2011-10-30 01:00:00'' ''2011-10-30 01:00:00+0000(GMT)'' False,
     TestCase ''2012-10-30 01:59:59'' ''2012-10-30 01:59:59+0000(GMT)'' False,
     TestCase ''2011-12-31 22:00:00'' ''2011-12-31 22:00:00+0000(GMT)'' False,
     TestCase ''2012-01-01 00:00:00'' ''2012-01-01 00:00:00+0000(GMT)'' False,
     TestCase ''2012-03-24 00:00:00'' ''2012-03-24 00:00:00+0000(GMT)'' False,
     TestCase ''2012-03-25 00:59:59'' ''2012-03-25 00:59:59+0000(GMT)'' False,
     TestCase ''2012-03-25 01:00:00'' ''2012-03-25 02:00:00+0100(BST)'' True,
     TestCase ''2012-10-28 00:59:59'' ''2012-10-28 01:59:59+0100(BST)'' True,
     TestCase ''2012-10-28 01:00:00'' ''2012-10-28 01:00:00+0000(GMT)'' False,
     TestCase ''2012-10-28 01:59:59'' ''2012-10-28 01:59:59+0000(GMT)'' False,
     TestCase ''2012-12-31 22:00:00'' ''2012-12-31 22:00:00+0000(GMT)'' False,
     TestCase ''2013-01-01 00:00:00'' ''2013-01-01 00:00:00+0000(GMT)'' False]"

definition testLondon :: "string option \<Rightarrow> string result" where
  "testLondon = test_zones london_cases"

definition hong_kong_cases :: "test_case list" where
  "hong_kong_cases =
    [TestCase ''2011-04-03 00:00:00'' ''2011-04-03 08:00:00+0800(HKT)'' False]"

definition testHongKong :: "string option \<Rightarrow> string result" where
  "testHongKong = test_zones hong_kong_cases"

definition sydney_cases :: "test_case list" where
  "sydney_cases =
    [TestCase ''2011-01-01 00:00:00'' ''2011-01-01 11:00:00+1100(EST)'' True,
     TestCase ''2011-04-02 15:59:59'' ''2011-04-03 02:59:59+1100(EST)'' True,
     TestCase ''2011-04-02 16:00:00'' ''2011-04-03 02:00:00+1000(EST)'' False,
     TestCase ''2011-04-02 16:59:59'' ''2011-04-03 02:59:59+1000(EST)'' False,
     TestCase ''2011-05-02 01:00:00'' ''2011-05-02 11:00:00+1000(EST)'' False,
     TestCase ''2011-10-01 15:59:59'' ''2011-10-02 01:59:59+1000(EST)'' False,
     TestCase ''2011-10-01 16:00:00'' ''2011-10-02 03:00:00+1100(EST)'' True,
     TestCase ''2011-12-31 22:00:00'' ''2012-01-01 09:00:00+1100(EST)'' True]"

definition testSydney :: "string option \<Rightarrow> string result" where
  "testSydney = test_zones sydney_cases"

text \<open>One round of the loop of \<open>testUtc\<close>; \<open>assert(0)\<close> aborts.\<close>

definition test_utc_time :: "(int \<Rightarrow> tm) \<Rightarrow> int \<Rightarrow> unit result" where
  "test_utc_time gmtime t =
     (let t2 = toUtcTime t True in
      bindR (strftime_utc (gmtime t)) (\<lambda>buf1. bindR (strftime_utc t2) (\<lambda>buf2.
        assertR (buf1 = buf2) (assertR (t = fromUtcTime_tm t2) (Inr ())))))"

definition kRange :: int where
  "kRange = 100 * 1000 * 1000"

function testUtc_from :: "(int \<Rightarrow> tm) \<Rightarrow> int \<Rightarrow> unit result" where
  "testUtc_from gmtime t = (if t \<le> kRange then bindR (test_utc_time gmtime t) (\<lambda>_. testUtc_from gmtime (t + 11)) else Inr ())"
  by pat_completeness auto
termination
  by (relation "measure (\<lambda>(g, t). nat (kRange + 1 - t))") auto

declare testUtc_from.simps [simp del]

definition testUtc :: "(int \<Rightarrow> tm) \<Rightarrow> unit result" where
  "testUtc gmtime = testUtc_from gmtime (- kRange)"

definition TimeZone_unittest_main :: "string option \<Rightarrow> string option \<Rightarrow> string option \<Rightarrow> string option \<Rightarrow> (int \<Rightarrow> tm) \<Rightarrow> string result" where
  "TimeZone_unittest_main newYork london sydney hongKong gmtime =
     bindR (testNewYork newYork) (\<lambda>o1. bindR (testLondon london) (\<lambda>o2. bindR (testSydney sydney) (\<lambda>o3.
       bindR (testHongKong hongKong) (\<lambda>o4. bindR (testUtc gmtime) (\<lambda>_. Inr (o1 @ o2 @ o3 @ o4))))))"

section \<open>The conversion to UTC against POSIX\<close>

text \<open>
  What POSIX says of \<open>gmtime\<close>: the fields are a date of the Gregorian calendar and a time of day, the day of the year counts from the first of January, the day of the week
  from Sunday, and the seconds since the Epoch are those of the formula of the standard (with divisions that round down).
\<close>

definition days_before :: "int \<Rightarrow> int \<Rightarrow> int" where
  "days_before year month = sum_list (map (days_in_month year) [1..month - 1])"

definition posix_seconds :: "tm \<Rightarrow> int" where
  "posix_seconds u = tm_sec u + tm_min u * 60 + tm_hour u * 3600 + tm_yday u * 86400
     + (tm_year u - 70) * 31536000 + ((tm_year u - 69) div 4) * 86400 - ((tm_year u - 1) div 100) * 86400 + ((tm_year u + 299) div 400) * 86400"

definition posix_tm :: "int \<Rightarrow> tm \<Rightarrow> bool" where
  "posix_tm t u \<longleftrightarrow> calendar_date (tm_year u + 1900) (tm_mon u + 1) (tm_mday u)
     \<and> 0 \<le> tm_hour u \<and> tm_hour u < 24 \<and> 0 \<le> tm_min u \<and> tm_min u < 60 \<and> 0 \<le> tm_sec u \<and> tm_sec u < 60
     \<and> tm_yday u = days_before (tm_year u + 1900) (tm_mon u + 1) + tm_mday u - 1
     \<and> tm_wday u = (t div 86400 + 4) mod 7 \<and> posix_seconds u = t"

text \<open>Quotients as new variables, so that linear arithmetic does not split them.\<close>

lemma div_bounds:
  fixes x n :: int
  assumes "0 < n"
  obtains q where "x div n = q" "n * q \<le> x" "x < n * q + n"
proof -
  have "n * (x div n) + x mod n = x" "0 \<le> x mod n" "x mod n < n" using assms by simp_all
  then have "n * (x div n) \<le> x" "x < n * (x div n) + n" by linarith+
  then show thesis by (rule that [OF refl])
qed

lemma div_shift: "(n::int) \<noteq> 0 \<Longrightarrow> x = y + k * n \<Longrightarrow> x div n = k + y div n"
  by simp

lemma jdn_year_start:
  assumes "- 4799 \<le> year"
  shows "getJulianDayNumber year 1 1 - 2440588 = (year - 1970) * 365 + (year - 1969) div 4 - (year - 1901) div 100 + (year - 1601) div 400"
proof -
  have "0 \<le> march_year year 1" using assms by (simp add: march_year_def)
  from getJulianDayNumber_year_days [OF _ _ this, of 1]
  have j: "getJulianDayNumber year 1 1 = year_days (year + 4799) + 306 + 1 - 32045"
    by (simp add: march_year_def march_month_def month_start_def)
  have d: "(year + 4799) div 4 = 1692 + (year - 1969) div 4" "(year + 4799) div 100 = 67 + (year - 1901) div 100"
    "(year + 4799) div 400 = 16 + (year - 1601) div 400" by (rule div_shift; simp)+
  show ?thesis unfolding j year_days_def d by (simp only: algebra_simps)
qed

lemma jdn_days_before:
  assumes "- 4799 \<le> year" "1 \<le> month" "month \<le> 12"
  shows "getJulianDayNumber year month day = getJulianDayNumber year 1 1 + days_before year month + day - 1"
proof -
  have "month \<le> 12 \<longrightarrow> getJulianDayNumber year month 1 = getJulianDayNumber year 1 1 + days_before year month"
    using assms(2)
  proof (induction month rule: int_ge_induct)
    case (step m)
    show ?case
    proof
      assume m: "m + 1 \<le> 12"
      have "0 \<le> march_year year m" using assms(1) by (simp add: march_year_def)
      from getJulianDayNumber_next_month [OF step.hyps _ this] m
      have "getJulianDayNumber year (m + 1) 1 = getJulianDayNumber year m 1 + days_in_month year m"
        using getJulianDayNumber_day [of year m "days_in_month year m"] by simp
      moreover have "days_before year (m + 1) = days_before year m + days_in_month year m"
        using step.hyps upto_rec2 [of 1 m] by (simp add: days_before_def)
      ultimately show "getJulianDayNumber year (m + 1) 1 = getJulianDayNumber year 1 1 + days_before year (m + 1)"
        using step.IH m by simp
    qed
  qed (simp add: days_before_def)
  with assms(3) getJulianDayNumber_day [of year month day] show ?thesis by simp
qed

lemma days_before_bounds:
  assumes "1 \<le> month"
  shows "0 \<le> days_before year month" "days_before year month \<le> 31 * (month - 1)"
proof -
  show "0 \<le> days_before year month" unfolding days_before_def by (rule sum_list_nonneg) (auto simp: days_in_month_def)
  have "days_before year month \<le> sum_list (map (\<lambda>_. 31) [1..month - 1])"
    unfolding days_before_def by (rule sum_list_mono) (simp add: days_in_month_def)
  then show "days_before year month \<le> 31 * (month - 1)" using assms by (simp add: sum_list_triv)
qed

text \<open>There is one broken-down time that POSIX allows, and \<open>toUtcTime\<close> computes it.\<close>

lemma posix_days:
  assumes u: "posix_tm t u"
  defines "year \<equiv> tm_year u + 1900"
  shows "t div 86400 = tm_yday u + (year - 1970) * 365 + (year - 1969) div 4 - (year - 1901) div 100 + (year - 1601) div 400"
    and "t mod 86400 = tm_hour u * 3600 + tm_min u * 60 + tm_sec u"
proof -
  define d r where "d = tm_yday u + (year - 1970) * 365 + (year - 1969) div 4 - (year - 1901) div 100 + (year - 1601) div 400"
    and "r = tm_hour u * 3600 + tm_min u * 60 + tm_sec u"
  have y: "year - 1969 = tm_year u - 69" "year - 1901 = tm_year u - 1" "year - 1601 = tm_year u + 299" by (simp_all add: year_def)
  have "t = posix_seconds u" using u by (simp add: posix_tm_def)
  then have t: "t = 86400 * d + r" unfolding posix_seconds_def d_def r_def y by (simp add: year_def algebra_simps)
  have r: "0 \<le> r" "r < 86400" using u by (simp_all add: posix_tm_def r_def)
  show "t div 86400 = tm_yday u + (year - 1970) * 365 + (year - 1969) div 4 - (year - 1901) div 100 + (year - 1601) div 400"
    "t mod 86400 = tm_hour u * 3600 + tm_min u * 60 + tm_sec u"
    using int_div_pos_eq [OF t r] int_mod_pos_eq [OF t r] by (simp_all only: d_def r_def)
qed

lemma posix_year_bound:
  assumes u: "posix_tm t u"
  shows "365 * tm_year u + (tm_year u - 69) div 4 - (tm_year u - 1) div 100 + (tm_year u + 299) div 400 \<le> t div 86400 + 25550"
    and "t div 86400 + 25550 \<le> 365 * tm_year u + (tm_year u - 69) div 4 - (tm_year u - 1) div 100 + (tm_year u + 299) div 400 + 372"
proof -
  have "0 \<le> tm_yday u" "tm_yday u \<le> 372"
    using u days_before_bounds [of "tm_mon u + 1" "tm_year u + 1900"]
    by (auto simp: posix_tm_def calendar_date_def days_in_month_def split: if_splits)
  with posix_days(1) [OF u]
  show "365 * tm_year u + (tm_year u - 69) div 4 - (tm_year u - 1) div 100 + (tm_year u + 299) div 400 \<le> t div 86400 + 25550"
    "t div 86400 + 25550 \<le> 365 * tm_year u + (tm_year u - 69) div 4 - (tm_year u - 1) div 100 + (tm_year u + 299) div 400 + 372" by simp_all
qed

lemma posix_year_range:
  assumes "posix_tm t u"
  shows "- 2440588 \<le> t div 86400 \<Longrightarrow> - 4799 \<le> tm_year u + 1900"
    and "\<bar>t\<bar> \<le> kRange \<Longrightarrow> 0 \<le> tm_year u + 1900 \<and> tm_year u + 1900 < 10000"
proof -
  obtain a where a: "(tm_year u - 69) div 4 = a" "4 * a \<le> tm_year u - 69" "tm_year u - 69 < 4 * a + 4" by (rule div_bounds [of 4]) simp
  obtain b where b: "(tm_year u - 1) div 100 = b" "100 * b \<le> tm_year u - 1" "tm_year u - 1 < 100 * b + 100" by (rule div_bounds [of 100]) simp
  obtain c where c: "(tm_year u + 299) div 400 = c" "400 * c \<le> tm_year u + 299" "tm_year u + 299 < 400 * c + 400" by (rule div_bounds [of 400]) simp
  obtain q where q: "t div 86400 = q" "86400 * q \<le> t" "t < 86400 * q + 86400" by (rule div_bounds [of 86400]) simp
  note y = posix_year_bound [OF assms, unfolded a(1) b(1) c(1) q(1)]
  show "- 2440588 \<le> t div 86400 \<Longrightarrow> - 4799 \<le> tm_year u + 1900" unfolding q(1) using y a(2,3) b(2,3) c(2,3) by linarith
  assume "\<bar>t\<bar> \<le> kRange"
  then have "- 1159 \<le> q" "q \<le> 1158" unfolding kRange_def using q(2,3) by linarith+
  with y a(2,3) b(2,3) c(2,3) show "0 \<le> tm_year u + 1900 \<and> tm_year u + 1900 < 10000" by linarith
qed

lemma hms_unique:
  fixes h m c :: int
  assumes "0 \<le> c" "c < 60" "0 \<le> m" "m < 60"
  shows "(h * 3600 + m * 60 + c) mod 60 = c" "(h * 3600 + m * 60 + c) div 60 mod 60 = m" "(h * 3600 + m * 60 + c) div 60 div 60 = h"
proof -
  have r: "h * 3600 + m * 60 + c = 60 * (60 * h + m) + c" by simp
  have d: "(h * 3600 + m * 60 + c) div 60 = 60 * h + m" using assms by (intro int_div_pos_eq [OF r])
  show "(h * 3600 + m * 60 + c) mod 60 = c" using assms by (intro int_mod_pos_eq [OF r])
  show "(h * 3600 + m * 60 + c) div 60 mod 60 = m" "(h * 3600 + m * 60 + c) div 60 div 60 = h"
    unfolding d using assms by simp_all
qed

lemma toUtcTime_posix:
  assumes u: "posix_tm t u" and t: "- 2440588 \<le> t div 86400" "t div 86400 < 2 ^ 31"
  shows "toUtcTime t True = u\<lparr>tm_isdst := 0, tm_gmtoff := 0, tm_zone := ''GMT''\<rparr>"
    and "fromUtcTime_tm u = t"
proof -
  define year month where "year = tm_year u + 1900" and "month = tm_mon u + 1"
  have k: "kJulianDayOf1970_01_01 = 2440588" by (simp add: kJulianDayOf1970_01_01_def getJulianDayNumber_def)
  have y: "- 4799 \<le> year" using posix_year_range(1) [OF u t(1)] by (simp add: year_def)
  have c: "calendar_date year month (tm_mday u)" using u by (simp add: posix_tm_def year_def month_def)
  then have m: "1 \<le> month" "month \<le> 12" by (simp_all add: calendar_date_def)
  have yday: "tm_yday u = days_before year month + tm_mday u - 1" using u by (simp add: posix_tm_def year_def month_def)
  have j: "t div 86400 + kJulianDayOf1970_01_01 = getJulianDayNumber year month (tm_mday u)"
    using posix_days(1) [OF u, folded year_def] jdn_year_start [OF y] jdn_days_before [OF y m, of "tm_mday u"] yday by (simp add: k)
  have "0 \<le> march_year year month" using y by (simp add: march_year_def)
  note ymd = ymd_of_jdn [OF c this]
  have "0 \<le> t div 86400 + kJulianDayOf1970_01_01 + 1" using t(1) by (simp add: k)
  then have w: "(t div 86400 + kJulianDayOf1970_01_01 + 1) smod 7 = (t div 86400 + 4) mod 7"
  proof -
    have "(t div 86400 + 4 + 348655 * 7) mod 7 = (t div 86400 + 4) mod 7" by (rule mod_mult_self1)
    with \<open>0 \<le> t div 86400 + kJulianDayOf1970_01_01 + 1\<close> show ?thesis by (simp add: smod_nonneg k)
  qed
  have h: "0 \<le> tm_sec u" "tm_sec u < 60" "0 \<le> tm_min u" "tm_min u < 60" "tm_wday u = (t div 86400 + 4) mod 7" using u by (simp_all add: posix_tm_def)
  have lo: "- (2 ^ 31) \<le> t div 86400" using t(1) by simp
  have "getJulianDayNumber year month (tm_mday u) - getJulianDayNumber year 1 1 = tm_yday u"
    using jdn_days_before [OF y m, of "tm_mday u"] yday by simp
  with h hms_unique [OF h(1-4)] w show "toUtcTime t True = u\<lparr>tm_isdst := 0, tm_gmtoff := 0, tm_zone := ''GMT''\<rparr>"
    unfolding toUtcTime_eq [OF lo t(2)] Let_def posix_days(2) [OF u] w unfolding j ymd by (cases u) (simp add: year_def month_def)
  have "fromUtcTime_tm u = t div 86400 * 86400 + t mod 86400"
    unfolding posix_days(2) [OF u] fromUtcTime_tm_def fromUtcTime_def Date_ymd_def using j by (simp add: Let_def year_def month_def kSecondsPerDay_def)
  then show "fromUtcTime_tm u = t" by (simp only: div_mult_mod_eq)
qed

lemma strftime_FT_length:
  assumes "posix_tm t u" "\<bar>t\<bar> \<le> kRange"
  shows "length (strftime_FT u) = 19"
proof -
  have c: "calendar_date (tm_year u + 1900) (tm_mon u + 1) (tm_mday u)" "0 \<le> tm_hour u" "tm_hour u < 24" "0 \<le> tm_min u" "tm_min u < 60"
    "0 \<le> tm_sec u" "tm_sec u < 60" using assms(1) by (simp_all add: posix_tm_def)
  then have d: "1 \<le> tm_mon u + 1" "tm_mon u + 1 \<le> 12" "1 \<le> tm_mday u" "tm_mday u \<le> 31"
    by (auto simp: calendar_date_def days_in_month_def split: if_splits)
  have "length (fmt_0d 4 (tm_year u + 1900)) = 4" using posix_year_range(2) [OF assms] by (intro length_fmt_0d) simp_all
  moreover have "length (fmt_0d 2 (tm_mon u + 1)) = 2" "length (fmt_0d 2 (tm_mday u)) = 2" "length (fmt_0d 2 (tm_hour u)) = 2"
    "length (fmt_0d 2 (tm_min u)) = 2" "length (fmt_0d 2 (tm_sec u)) = 2" using c(2-7) d by (intro length_fmt_0d; simp)+
  ultimately show ?thesis by (simp add: strftime_FT_def)
qed

lemma test_utc_time_passes:
  assumes u: "posix_tm t (gmtime t)" and t: "\<bar>t\<bar> \<le> kRange"
  shows "test_utc_time gmtime t = Inr ()"
proof -
  let ?u = "gmtime t"
  have q: "- 2440588 \<le> t div 86400" "t div 86400 < 2 ^ 31"
  proof -
    obtain q where q: "t div 86400 = q" "86400 * q \<le> t" "t < 86400 * q + 86400" by (rule div_bounds [of 86400]) simp
    show "- 2440588 \<le> t div 86400" "t div 86400 < 2 ^ 31" unfolding q(1) using t q(2,3) unfolding kRange_def by simp_all
  qed
  note eq = toUtcTime_posix(1) [OF u q]
  have "length (dec_int (w + 1)) \<le> 1" if "0 \<le> w" "w < 7" for w
    using that length_dec_nat_le [of "nat (w + 1)" 1] by (simp add: dec_int_def)
  from this [of "(tm_wday ?u + 6) mod 7"] have l1: "length (dec_int ((tm_wday ?u + 6) mod 7 + 1)) \<le> 1" by simp
  have "0 \<le> tm_yday ?u" "tm_yday ?u \<le> 372"
    using u days_before_bounds [of "tm_mon ?u + 1" "tm_year ?u + 1900"]
    by (auto simp: posix_tm_def calendar_date_def days_in_month_def split: if_splits)
  then have l2: "length (fmt_0d 3 (tm_yday ?u + 1)) = 3" by (intro length_fmt_0d) simp_all
  have "\<exists>buf. strftime_utc ?u = Inr buf" using strftime_FT_length [OF u t] l1 l2 by (simp add: strftime_utc_def strftime_buf_def)
  moreover have "strftime_utc (toUtcTime t True) = strftime_utc ?u" by (simp add: eq strftime_utc_def strftime_FT_def)
  moreover have "fromUtcTime_tm (toUtcTime t True) = t" using toUtcTime_posix(2) [OF u q] by (simp add: eq fromUtcTime_tm_def)
  ultimately show ?thesis by (auto simp: test_utc_time_def Let_def)
qed

lemma testUtc_from_passes:
  assumes "\<forall>t. \<bar>t\<bar> \<le> kRange \<longrightarrow> posix_tm t (gmtime t)" and "- kRange \<le> t"
  shows "testUtc_from gmtime t = Inr ()"
  using assms
proof (induction gmtime t rule: testUtc_from.induct)
  case (1 g t)
  then show ?case by (subst testUtc_from.simps) (auto simp: test_utc_time_passes)
qed

section \<open>Zones with two types\<close>

text \<open>
  What a zone file of the tz database says about some years: an offset and an abbreviation for the standard and for the daylight saving time, and the switches between
  them, \<open>True\<close> to daylight saving time; all later transitions come after \<open>limit\<close>.
\<close>

type_synonym zone_type = "int \<times> string"

definition has_type :: "tz_data \<Rightarrow> int \<Rightarrow> bool \<Rightarrow> zone_type \<Rightarrow> bool" where
  "has_type d i s ty \<longleftrightarrow> (\<exists>k. localtime_at d i = Inr \<lparr>gmtOffset = fst ty, isDst = s, arrbIdx = k\<rparr> \<and> cstring_at (tz_abbreviation d) k = Inr (snd ty))"

definition zone_years :: "zone_type \<Rightarrow> zone_type \<Rightarrow> (int \<times> bool) list \<Rightarrow> int \<Rightarrow> tz_data \<Rightarrow> bool" where
  "zone_years std dst table limit d \<longleftrightarrow> zone_sorted True d \<and> zone_sorted False d \<and> (\<exists>before after i j.
     transitions d = before @ map (\<lambda>(t, s). \<lparr>gmttime = t, localtime = t + fst (if s then dst else std), localtimeIdx = (if s then j else i)\<rparr>) table @ after
     \<and> (\<forall>tr \<in> set after. limit \<le> gmttime tr \<and> limit \<le> localtime tr) \<and> has_type d i False std \<and> has_type d j True dst)"

text \<open>The same conversions on the switches alone.\<close>

definition switch_key :: "zone_type \<Rightarrow> zone_type \<Rightarrow> bool \<Rightarrow> int \<times> bool \<Rightarrow> int" where
  "switch_key std dst cmp p = (if cmp then fst p else fst p + fst (if snd p then dst else std))"

definition dst_at :: "zone_type \<Rightarrow> zone_type \<Rightarrow> (int \<times> bool) list \<Rightarrow> bool \<Rightarrow> int \<Rightarrow> bool" where
  "dst_at std dst table cmp v = snd (last (filter (\<lambda>p. switch_key std dst cmp p \<le> v) table))"

definition local_at :: "zone_type \<Rightarrow> zone_type \<Rightarrow> (int \<times> bool) list \<Rightarrow> int \<Rightarrow> tm" where
  "local_at std dst table t =
     (let s = dst_at std dst table True t; ty = (if s then dst else std)
      in (gmtime_r (t + fst ty))\<lparr>tm_isdst := (if s then 1 else 0), tm_gmtoff := fst ty, tm_zone := snd ty\<rparr>)"

definition from_at :: "zone_type \<Rightarrow> zone_type \<Rightarrow> (int \<times> bool) list \<Rightarrow> tm \<Rightarrow> int" where
  "from_at std dst table l =
     (let secs = timegm l; off = fst (if dst_at std dst table False secs then dst else std); tryTm = local_at std dst table (secs - off)
      in (if tm_isdst l \<noteq> 0 \<and> tm_isdst tryTm = 0 \<and> tm_hour tryTm = tm_hour l \<and> tm_min tryTm = tm_min l then secs - 3600 else secs) - off)"

definition in_years :: "zone_type \<Rightarrow> zone_type \<Rightarrow> (int \<times> bool) list \<Rightarrow> int \<Rightarrow> bool \<Rightarrow> int \<Rightarrow> bool" where
  "in_years std dst table limit cmp v \<longleftrightarrow> table \<noteq> [] \<and> switch_key std dst cmp (hd table) \<le> v \<and> v < limit"

definition case_ok :: "zone_type \<Rightarrow> zone_type \<Rightarrow> (int \<times> bool) list \<Rightarrow> int \<Rightarrow> test_case \<Rightarrow> bool" where
  "case_ok std dst table limit tc \<longleftrightarrow>
     (let t = getGmt_str (tc_gmt tc); l = (getTm_str (tc_local tc))\<lparr>tm_isdst := of_bool (tc_isdst tc)\<rparr>; secs = timegm l;
          off = fst (if dst_at std dst table False secs then dst else std)
      in in_years std dst table limit True t \<and> in_years std dst table limit False secs \<and> in_years std dst table limit True (secs - off)
         \<and> strftime_local (local_at std dst table t) = Inr (tc_local tc) \<and> tm_isdst (local_at std dst table t) = of_bool (tc_isdst tc)
         \<and> from_at std dst table l = t)"

lemma find_in_years:
  assumes z: "zone_years std dst table limit d" and v: "in_years std dst table limit cmp (trans_key cmp sentry)"
  defines "s \<equiv> dst_at std dst table cmp (trans_key cmp sentry)"
  shows "\<exists>k. findLocaltime d sentry cmp = Inr \<lparr>gmtOffset = fst (if s then dst else std), isDst = s, arrbIdx = k\<rparr>
     \<and> cstring_at (tz_abbreviation d) k = Inr (snd (if s then dst else std))"
proof -
  let ?v = "trans_key cmp sentry"
  let ?tr = "\<lambda>i j (t, s). \<lparr>gmttime = t, localtime = t + fst (if s then dst else std), localtimeIdx = (if s then j else i)\<rparr>"
  from z obtain before after i j where
    t: "transitions d = before @ map (?tr i j) table @ after" and after: "\<forall>tr \<in> set after. limit \<le> gmttime tr \<and> limit \<le> localtime tr"
    and ty: "has_type d i False std" "has_type d j True dst" by (auto simp: zone_years_def)
  let ?past = "filter (\<lambda>p. switch_key std dst cmp p \<le> ?v) table"
  have key: "trans_key cmp (?tr i j p) = switch_key std dst cmp p" for p by (cases p) (simp add: trans_key_def switch_key_def)
  have "filter (\<lambda>tr. trans_key cmp tr \<le> ?v) after = []"
    using after v by (auto simp: filter_empty_conv trans_key_def in_years_def)
  moreover have "filter (\<lambda>tr. trans_key cmp tr \<le> ?v) (map (?tr i j) table) = map (?tr i j) ?past"
    by (simp add: filter_map o_def key)
  ultimately have f: "filter (\<lambda>tr. trans_key cmp tr \<le> ?v) (transitions d) = filter (\<lambda>tr. trans_key cmp tr \<le> ?v) before @ map (?tr i j) ?past"
    unfolding t by simp
  have ne: "?past \<noteq> []" using v by (cases table) (auto simp: in_years_def)
  then have "type_in_force cmp d ?v = localtimeIdx (?tr i j (last ?past))"
    unfolding type_in_force_def f by (simp add: last_map)
  also have "\<dots> = (if s then j else i)" by (simp add: s_def dst_at_def split: prod.splits)
  finally have "findLocaltime d sentry cmp = localtime_at d (if s then j else i)"
    using findLocaltime_in_force [of cmp d sentry] z by (cases cmp) (simp_all add: zone_years_def)
  with ty show ?thesis by (cases s) (auto simp: has_type_def)
qed

lemma toLocalTime_at:
  assumes "zone_years std dst table limit d" "in_years std dst table limit True t"
  shows "toLocalTime (Some d) t = Inr (local_at std dst table t)"
  using find_in_years [OF assms(1), of True "\<lparr>gmttime = t, localtime = 0, localtimeIdx = 0\<rparr>"] assms(2)
  by (auto simp: trans_key_def toLocalTime_def local_at_def Let_def)

lemma fromLocalTime_at:
  assumes z: "zone_years std dst table limit d" and s: "in_years std dst table limit False (timegm l)"
    and t: "in_years std dst table limit True (timegm l - fst (if dst_at std dst table False (timegm l) then dst else std))"
  shows "fromLocalTime (Some d) l = Inr (from_at std dst table l)"
proof -
  from find_in_years [OF z, of False "\<lparr>gmttime = 0, localtime = timegm l, localtimeIdx = 0\<rparr>"] s obtain k where
    "findLocaltime d \<lparr>gmttime = 0, localtime = timegm l, localtimeIdx = 0\<rparr> False
       = Inr \<lparr>gmtOffset = fst (if dst_at std dst table False (timegm l) then dst else std), isDst = dst_at std dst table False (timegm l), arrbIdx = k\<rparr>"
    by (auto simp: trans_key_def)
  then show ?thesis using toLocalTime_at [OF z t] by (simp add: fromLocalTime_def from_at_def Let_def)
qed

definition passed :: "test_case list \<Rightarrow> string" where
  "passed cases = concat (map (\<lambda>tc. tc_gmt tc @ '' -> '' @ tc_local tc @ newline) cases)"

lemma test_zone_passes:
  assumes z: "zone_years std dst table limit d" and "case_ok std dst table limit tc"
  shows "test_zone (Some d) tc = Inr (passed [tc])"
proof -
  let ?l = "(getTm_str (tc_local tc))\<lparr>tm_isdst := of_bool (tc_isdst tc)\<rparr>"
  have c: "in_years std dst table limit True (getGmt_str (tc_gmt tc))" "in_years std dst table limit False (timegm ?l)"
    "in_years std dst table limit True (timegm ?l - fst (if dst_at std dst table False (timegm ?l) then dst else std))"
    "strftime_local (local_at std dst table (getGmt_str (tc_gmt tc))) = Inr (tc_local tc)"
    "tm_isdst (local_at std dst table (getGmt_str (tc_gmt tc))) = of_bool (tc_isdst tc)" "from_at std dst table ?l = getGmt_str (tc_gmt tc)"
    using assms(2) by (simp_all only: case_ok_def Let_def)
  show ?thesis
    using toLocalTime_at [OF z c(1)] fromLocalTime_at [OF z c(2,3)] c(4-6)
    by (simp add: test_zone_def test_to_local_def test_from_local_def passed_def)
qed

lemma test_zones_passes:
  assumes "TimeZone_new zonefile = Inr (Some d)" and "zone_years std dst table limit d" and "list_all (case_ok std dst table limit) cases"
  shows "test_zones cases zonefile = Inr (passed cases)"
proof -
  have "foldR (\<lambda>tc out. bindR (test_zone (Some d) tc) (\<lambda>o1. Inr (out @ o1))) cases out = Inr (out @ passed cases)" for out
    using assms(3) by (induction cases arbitrary: out) (simp_all add: test_zone_passes [OF assms(2)] passed_def)
  then show ?thesis using assms(1) by (simp add: test_zones_def)
qed

text \<open>The switches of the four zones in the years of the test, from the tz database of its time.\<close>

definition new_york_switches :: "(int \<times> bool) list" where
  "new_york_switches =
     [(getGmt 2005 10 30 6 0 0, False), (getGmt 2006 4 2 7 0 0, True), (getGmt 2006 10 29 6 0 0, False), (getGmt 2007 3 11 7 0 0, True),
      (getGmt 2007 11 4 6 0 0, False), (getGmt 2008 3 9 7 0 0, True), (getGmt 2008 11 2 6 0 0, False), (getGmt 2009 3 8 7 0 0, True),
      (getGmt 2009 11 1 6 0 0, False), (getGmt 2010 3 14 7 0 0, True), (getGmt 2010 11 7 6 0 0, False), (getGmt 2011 3 13 7 0 0, True),
      (getGmt 2011 11 6 6 0 0, False)]"

definition london_switches :: "(int \<times> bool) list" where
  "london_switches =
     [(getGmt 2010 10 31 1 0 0, False), (getGmt 2011 3 27 1 0 0, True), (getGmt 2011 10 30 1 0 0, False), (getGmt 2012 3 25 1 0 0, True),
      (getGmt 2012 10 28 1 0 0, False)]"

definition sydney_switches :: "(int \<times> bool) list" where
  "sydney_switches = [(getGmt 2010 10 2 16 0 0, True), (getGmt 2011 4 2 16 0 0, False), (getGmt 2011 10 1 16 0 0, True)]"

definition hong_kong_switches :: "(int \<times> bool) list" where
  "hong_kong_switches = [(getGmt 1979 10 20 18 30 0, False)]"

lemma digit_chars:
  "digit_char 0 = CHR ''0''" "digit_char (Suc 0) = CHR ''1''" "digit_char 2 = CHR ''2''" "digit_char 3 = CHR ''3''" "digit_char 4 = CHR ''4''"
  "digit_char 5 = CHR ''5''" "digit_char 6 = CHR ''6''" "digit_char 7 = CHR ''7''" "digit_char 8 = CHR ''8''" "digit_char 9 = CHR ''9''"
  by code_simp+

lemma zeros_3: "replicate 3 c = [c, c, c]"
  by (simp add: numeral_eq_Suc)

lemma digit_tests:
  "is_digit (CHR ''0'')" "is_digit (CHR ''1'')" "is_digit (CHR ''2'')" "is_digit (CHR ''3'')" "is_digit (CHR ''4'')"
  "is_digit (CHR ''5'')" "is_digit (CHR ''6'')" "is_digit (CHR ''7'')" "is_digit (CHR ''8'')" "is_digit (CHR ''9'')"
  "\<not> is_digit (CHR ''-'')" "\<not> is_digit (CHR '':'')" "\<not> is_digit (CHR '' '')" "\<not> is_digit (CHR ''+'')" "\<not> is_digit (CHR ''('')"
  by (simp_all add: is_digit_def)

lemma digit_vals:
  "digit_val (CHR ''0'') = 0" "digit_val (CHR ''1'') = Suc 0" "digit_val (CHR ''2'') = 2" "digit_val (CHR ''3'') = 3" "digit_val (CHR ''4'') = 4"
  "digit_val (CHR ''5'') = 5" "digit_val (CHR ''6'') = 6" "digit_val (CHR ''7'') = 7" "digit_val (CHR ''8'') = 8" "digit_val (CHR ''9'') = 9"
  by (simp_all add: digit_val_def)

text \<open>What the test looks at in a local time.\<close>

definition ymd_text :: "YearMonthDay \<Rightarrow> string" where
  "ymd_text d = fmt_0d 4 (ymd_year d) @ ''-'' @ fmt_0d 2 (ymd_month d) @ ''-'' @ fmt_0d 2 (ymd_day d)"

definition hms_text :: "int \<Rightarrow> string" where
  "hms_text r = fmt_0d 2 (r div 3600) @ '':'' @ fmt_0d 2 (r div 60 mod 60) @ '':'' @ fmt_0d 2 (r mod 60)"

definition zone_text :: "zone_type \<Rightarrow> string" where
  "zone_text ty = (let m = \<bar>fst ty\<bar> div 60 in (if fst ty < 0 then ''-'' else ''+'') @ fmt_0d 4 (m div 60 * 100 + m mod 60)) @ ''('' @ snd ty @ '')''"

definition local_text :: "zone_type \<Rightarrow> int \<Rightarrow> string" where
  "local_text ty t = ymd_text (getYearMonthDay (t div 86400 + 2440588)) @ '' '' @ hms_text (t mod 86400) @ zone_text ty"

definition zone_at :: "zone_type \<Rightarrow> zone_type \<Rightarrow> (int \<times> bool) list \<Rightarrow> int \<Rightarrow> zone_type" where
  "zone_at std dst table t = (if dst_at std dst table True t then dst else std)"

lemma local_at_sel:
  "tm_isdst (local_at std dst table t) = (if dst_at std dst table True t then 1 else 0)"
  "tm_hour (local_at std dst table t) = (t + fst (zone_at std dst table t)) mod 86400 div 3600"
  "tm_min (local_at std dst table t) = (t + fst (zone_at std dst table t)) mod 86400 div 60 mod 60"
  "strftime_local (local_at std dst table t) = strftime_buf 256 (local_text (zone_at std dst table t) (t + fst (zone_at std dst table t)))"
proof -
  have k: "kJulianDayOf1970_01_01 = 2440588" by (simp add: kJulianDayOf1970_01_01_def getJulianDayNumber_def)
  show "tm_isdst (local_at std dst table t) = (if dst_at std dst table True t then 1 else 0)"
    "tm_hour (local_at std dst table t) = (t + fst (zone_at std dst table t)) mod 86400 div 3600"
    "tm_min (local_at std dst table t) = (t + fst (zone_at std dst table t)) mod 86400 div 60 mod 60"
    "strftime_local (local_at std dst table t) = strftime_buf 256 (local_text (zone_at std dst table t) (t + fst (zone_at std dst table t)))"
    by (simp_all add: local_at_def gmtime_r_def zone_at_def Let_def strftime_local_def strftime_FT_def strftime_z_def local_text_def ymd_text_def hms_text_def
        zone_text_def k)
qed

definition back_at :: "zone_type \<Rightarrow> zone_type \<Rightarrow> (int \<times> bool) list \<Rightarrow> int \<Rightarrow> int \<Rightarrow> int \<Rightarrow> int \<Rightarrow> int \<Rightarrow> int" where
  "back_at std dst table isdst hour minute secs off =
     (if isdst \<noteq> 0 \<and> \<not> dst_at std dst table True (secs - off) \<and> (secs - off + fst std) mod 86400 div 3600 = hour
         \<and> (secs - off + fst std) mod 86400 div 60 mod 60 = minute then secs - 3600 else secs) - off"

lemma from_at_back:
  "from_at std dst table l = back_at std dst table (tm_isdst l) (tm_hour l) (tm_min l) (timegm l)
     (fst (if dst_at std dst table False (timegm l) then dst else std))"
proof -
  define off where "off = fst (if dst_at std dst table False (timegm l) then dst else std)"
  have "from_at std dst table l = back_at std dst table (tm_isdst l) (tm_hour l) (tm_min l) (timegm l) off"
    unfolding from_at_def Let_def off_def [symmetric] back_at_def local_at_sel zone_at_def
    by (cases "dst_at std dst table True (timegm l - off)") (simp_all only: if_True if_False simp_thms one_neq_zero)
  then show ?thesis by (simp only: off_def)
qed

lemma sdiv_1_10: "(1::int) sdiv 10 = 0"
  by (simp add: sdiv_nonneg)

lemmas switch_simps = getGmt_def getTm_def tm_zero_def timegm_def getJulianDayNumber_def kJulianDayOf1970_01_01_def

text \<open>The steps of \<open>case_ok\<close> in the order of their evaluation.\<close>

definition case_local :: "zone_type \<Rightarrow> zone_type \<Rightarrow> (int \<times> bool) list \<Rightarrow> int \<Rightarrow> int \<Rightarrow> int \<Rightarrow> int \<Rightarrow> bool \<Rightarrow> int \<Rightarrow> int \<Rightarrow> bool" where
  "case_local std dst table limit t hour minute isdst secs off \<longleftrightarrow> in_years std dst table limit True (secs - off)
     \<and> back_at std dst table (of_bool isdst) hour minute secs off = t"

definition case_at :: "zone_type \<Rightarrow> zone_type \<Rightarrow> (int \<times> bool) list \<Rightarrow> int \<Rightarrow> string \<Rightarrow> bool \<Rightarrow> int \<Rightarrow> zone_type \<Rightarrow> int \<Rightarrow> int \<Rightarrow> int \<Rightarrow> bool" where
  "case_at std dst table limit txt isdst t ty hour minute secs \<longleftrightarrow>
     in_years std dst table limit True t \<and> in_years std dst table limit False secs
     \<and> strftime_buf 256 (local_text ty (t + fst ty)) = Inr txt \<and> dst_at std dst table True t = isdst
     \<and> case_local std dst table limit t hour minute isdst secs (fst (if dst_at std dst table False secs then dst else std))"

definition case_tm :: "zone_type \<Rightarrow> zone_type \<Rightarrow> (int \<times> bool) list \<Rightarrow> int \<Rightarrow> string \<Rightarrow> bool \<Rightarrow> int \<Rightarrow> tm \<Rightarrow> bool" where
  "case_tm std dst table limit txt isdst t l \<longleftrightarrow>
     case_at std dst table limit txt isdst t (zone_at std dst table t) (tm_hour l) (tm_min l) (timegm l)"

lemma case_ok_now:
  "case_ok std dst table limit (TestCase gmt txt isdst) \<longleftrightarrow> case_tm std dst table limit txt isdst (getGmt_str gmt) (getTm_str txt)"
proof -
  have t: "timegm (u\<lparr>tm_isdst := x\<rparr>) = timegm u" for u x by (simp add: timegm_def)
  have b: "((if P then 1 else 0) = (of_bool Q :: int)) \<longleftrightarrow> P = Q" for P Q by simp
  have s: "tm_isdst (u\<lparr>tm_isdst := x\<rparr>) = x" "tm_hour (u\<lparr>tm_isdst := x\<rparr>) = tm_hour u" "tm_min (u\<lparr>tm_isdst := x\<rparr>) = tm_min u" for u :: tm and x
    by simp_all
  show ?thesis
    unfolding case_ok_def case_tm_def case_at_def case_local_def Let_def local_at_sel from_at_back t b s test_case.sel zone_at_def by blast
qed

lemmas case_simps = case_ok_now case_tm_def case_at_def case_local_def in_years_def getGmt_str_def getTm_str_def strptime_FT_def read_number_def digit_tests
  val_nat_def digit_vals tm_zero_def timegm_def getJulianDayNumber_def kJulianDayOf1970_01_01_def switch_key_def dst_at_def back_at_def zone_at_def local_text_def
  ymd_text_def hms_text_def zone_text_def getYearMonthDay_def strftime_buf_def fmt_0d_def dec_nat.simps digit_chars zeros_3 sdiv_1_10

lemma new_york_num: "new_york_switches = [(1130652000, False), (1143961200, True), (1162101600, False), (1173596400, True), (1194156000, False), (1205046000, True), (1225605600, False), (1236495600, True), (1257055200, False), (1268550000, True), (1289109600, False), (1299999600, True), (1320559200, False)]"
    "getGmt 2012 1 2 0 0 0 = 1325462400"
  by (simp_all add: new_york_switches_def switch_simps)

text \<open>In three parts, which are checked in parallel.\<close>

lemma new_york_ok_1: "list_all (case_ok (- 18000, ''EST'') (- 14400, ''EDT'') new_york_switches (getGmt 2012 1 2 0 0 0)) (take 18 new_york_cases)"
  unfolding new_york_num new_york_cases_def by (simp add: case_simps)

lemma new_york_ok_2: "list_all (case_ok (- 18000, ''EST'') (- 14400, ''EDT'') new_york_switches (getGmt 2012 1 2 0 0 0)) (take 18 (drop 18 new_york_cases))"
  unfolding new_york_num new_york_cases_def by (simp add: case_simps)

lemma new_york_ok_3: "list_all (case_ok (- 18000, ''EST'') (- 14400, ''EDT'') new_york_switches (getGmt 2012 1 2 0 0 0)) (drop 36 new_york_cases)"
  unfolding new_york_num new_york_cases_def by (simp add: case_simps)

lemma new_york_ok: "list_all (case_ok (- 18000, ''EST'') (- 14400, ''EDT'') new_york_switches (getGmt 2012 1 2 0 0 0)) new_york_cases"
proof -
  have "new_york_cases = take 18 new_york_cases @ take 18 (drop 18 new_york_cases) @ drop 36 new_york_cases"
    using append_take_drop_id [of 18 "drop 18 new_york_cases"] by simp
  then show ?thesis using new_york_ok_1 new_york_ok_2 new_york_ok_3 by (metis list_all_append)
qed

lemma london_num: "london_switches = [(1288486800, False), (1301187600, True), (1319936400, False), (1332637200, True), (1351386000, False)]"
    "getGmt 2013 1 2 0 0 0 = 1357084800"
  by (simp_all add: london_switches_def switch_simps)

lemma london_ok: "list_all (case_ok (0, ''GMT'') (3600, ''BST'') london_switches (getGmt 2013 1 2 0 0 0)) london_cases"
  unfolding london_num london_cases_def by (simp add: case_simps)

lemma sydney_num: "sydney_switches = [(1286035200, True), (1301760000, False), (1317484800, True)]"
    "getGmt 2012 1 2 0 0 0 = 1325462400"
  by (simp_all add: sydney_switches_def switch_simps)

lemma sydney_ok: "list_all (case_ok (36000, ''EST'') (39600, ''EST'') sydney_switches (getGmt 2012 1 2 0 0 0)) sydney_cases"
  unfolding sydney_num sydney_cases_def by (simp add: case_simps)

lemma hong_kong_num: "hong_kong_switches = [(309292200, False)]"
    "getGmt 2012 1 1 0 0 0 = 1325376000"
  by (simp_all add: hong_kong_switches_def switch_simps)

lemma hong_kong_ok: "list_all (case_ok (28800, ''HKT'') (32400, ''HKST'') hong_kong_switches (getGmt 2012 1 1 0 0 0)) hong_kong_cases"
  unfolding hong_kong_num hong_kong_cases_def by (simp add: case_simps)

section \<open>Properties\<close>

text \<open>A file in the format of \<^verbatim>\<open>tzfile(5)\<close> that holds these switches.\<close>

definition zone_in_file :: "zone_type \<Rightarrow> zone_type \<Rightarrow> (int \<times> bool) list \<Rightarrow> int \<Rightarrow> string option \<Rightarrow> bool" where
  "zone_in_file std dst table limit file \<longleftrightarrow> (\<exists>d leaps rest. file = Some (zone_file d leaps @ rest) \<and> zone_wf d
     \<and> (\<forall>p \<in> set leaps. is_int32 (fst p) \<and> is_int32 (snd p)) \<and> length leaps < 2 ^ 31 \<and> zone_years std dst table limit d)"

lemma zone_file_passes:
  assumes "zone_in_file std dst table limit file" and "list_all (case_ok std dst table limit) cases"
  shows "test_zones cases file = Inr (passed cases)"
proof -
  from assms(1) obtain d leaps rest where f: "file = Some (zone_file d leaps @ rest)" "zone_wf d" "\<forall>p \<in> set leaps. is_int32 (fst p) \<and> is_int32 (snd p)"
    "length leaps < 2 ^ 31" "zone_years std dst table limit d" unfolding zone_in_file_def by blast
  have "TimeZone_new file = Inr (Some d)" using readZone_file [OF f(2-4), of rest] by (simp add: f(1) TimeZone_new_def readTimeZoneFile_def)
  from test_zones_passes [OF this f(5) assms(2)] show ?thesis .
qed


text \<open>The model's own \<open>gmtime_r\<close> keeps to POSIX, and files with nothing but the switches are enough.\<close>

lemma ymd_year_bound:
  assumes "0 \<le> jdn"
  shows "- 4799 \<le> ymd_year (getYearMonthDay jdn)"
proof -
  have "0 \<le> jdn + 32044" using assms by simp
  from march_decomposition [OF this] obtain b d e where a: "jdn + 32044 = (146097 * b) div 4 + (1461 * d) div 4 + e"
    and r: "0 \<le> b" "0 \<le> d" "d < 100" "0 \<le> e" "e \<le> 365" "e = 365 \<longrightarrow> d mod 4 = 3 \<and> (d = 99 \<longrightarrow> b mod 4 = 3)" .
  define m where "m = (5 * e + 2) div 153"
  have jdn: "jdn = march_jdn b d e" using a by (simp add: march_jdn_def)
  have y: "ymd_year (getYearMonthDay jdn) = b * 100 + d - 4800 + m div 10"
    unfolding jdn getYearMonthDay_march [OF r m_def] by simp
  have "0 \<le> m" using month_index_range [OF r(4,5) m_def] by simp
  then have "0 \<le> m div 10" by (simp add: pos_imp_zdiv_nonneg_iff)
  moreover have "b \<noteq> 0 \<or> d \<noteq> 0" using a r(5) assms by auto
  ultimately show ?thesis unfolding y using r(1,2) by auto
qed

lemma gmtime_r_posix:
  assumes "- 2440588 \<le> t div 86400"
  shows "posix_tm t (gmtime_r t)"
proof -
  define q r where "q = t div 86400" and "r = t mod 86400"
  have k: "kJulianDayOf1970_01_01 = 2440588" by (simp add: kJulianDayOf1970_01_01_def getJulianDayNumber_def)
  define ymd where "ymd = getYearMonthDay (q + kJulianDayOf1970_01_01)"
  have j: "- 32044 \<le> q + kJulianDayOf1970_01_01" "0 \<le> q + kJulianDayOf1970_01_01" using assms by (simp_all add: k q_def)
  note jd = jdn_of_ymd [OF j(1), folded ymd_def]
  have m: "1 \<le> ymd_month ymd" "ymd_month ymd \<le> 12" using jd(2) by (simp_all add: calendar_date_def)
  have y: "- 4799 \<le> ymd_year ymd" using ymd_year_bound [OF j(2)] by (simp add: ymd_def)
  have r: "0 \<le> r" "r < 86400" by (simp_all add: r_def)
  define h n c where "h = r div 3600" and "n = r div 60 mod 60" and "c = r mod 60"
  have "r div 3600 = r div 60 div 60" by (simp add: zdiv_zmult2_eq [symmetric])
  then have hms: "h * 3600 + n * 60 + c = r" "0 \<le> h" "h < 24" "0 \<le> n" "n < 60" "0 \<le> c" "c < 60"
    using hms_sum [of r] hms_range [OF r] by (simp_all add: h_def n_def c_def)
  have yday: "q + 2440588 - getJulianDayNumber (ymd_year ymd) 1 1 = days_before (ymd_year ymd) (ymd_month ymd) + ymd_day ymd - 1"
    using jd(1) jdn_days_before [OF y m, of "ymd_day ymd"] by (simp add: k)
  have g: "gmtime_r t = \<lparr>tm_sec = c, tm_min = n, tm_hour = h, tm_mday = ymd_day ymd, tm_mon = ymd_month ymd - 1, tm_year = ymd_year ymd - 1900,
      tm_wday = (q + 4) mod 7, tm_yday = days_before (ymd_year ymd) (ymd_month ymd) + ymd_day ymd - 1, tm_isdst = 0, tm_gmtoff = 0, tm_zone = ''GMT''\<rparr>"
    unfolding gmtime_r_def Let_def q_def [symmetric] r_def [symmetric] ymd_def [symmetric] h_def [symmetric] n_def [symmetric] c_def [symmetric]
    using yday by (simp add: k)
  have t: "t = 86400 * q + r" by (simp add: q_def r_def)
  have y2: "ymd_year ymd - 1900 - 69 = ymd_year ymd - 1969" "ymd_year ymd - 1900 - 1 = ymd_year ymd - 1901" "ymd_year ymd - 1900 + 299 = ymd_year ymd - 1601" by simp_all
  obtain a b d where abd: "(ymd_year ymd - 1969) div 4 = a" "(ymd_year ymd - 1901) div 100 = b" "(ymd_year ymd - 1601) div 400 = d" by blast
  have "posix_seconds (gmtime_r t) = 86400 * q + r"
    using yday jdn_year_start [OF y] hms(1) unfolding g posix_seconds_def tm.simps y2 abd by simp
  then have "posix_seconds (gmtime_r t) = t" using t by simp
  then show ?thesis using jd(2) hms(2-7) unfolding g posix_tm_def by (simp add: q_def)
qed

definition zone_of :: "zone_type \<Rightarrow> zone_type \<Rightarrow> (int \<times> bool) list \<Rightarrow> tz_data" where
  "zone_of std dst table =
     \<lparr>transitions = map (\<lambda>(t, s). \<lparr>gmttime = t, localtime = t + fst (if s then dst else std), localtimeIdx = (if s then 1 else 0)\<rparr>) table,
      localtimes = [\<lparr>gmtOffset = fst std, isDst = False, arrbIdx = 0\<rparr>, \<lparr>gmtOffset = fst dst, isDst = True, arrbIdx = int (length (snd std)) + 1\<rparr>],
      tz_names = [], tz_abbreviation = snd std @ [CHR 0x00] @ snd dst @ [CHR 0x00]\<rparr>"

lemma zone_of_in_file:
  assumes t: "sorted_wrt (<) (map fst table)" "sorted_wrt (<) (map (switch_key std dst False) table)" "\<forall>p \<in> set table. is_int32 (fst p)" "length table < 2 ^ 31"
    and ty: "is_int32 (fst std)" "is_int32 (fst dst)" "length (snd std) < 100" "length (snd dst) < 100" "CHR 0x00 \<notin> set (snd std)" "CHR 0x00 \<notin> set (snd dst)"
  shows "zone_in_file std dst table limit (Some (zone_file (zone_of std dst table) []))"
proof -
  let ?d = "zone_of std dst table"
  have c: "takeWhile (\<lambda>c. c \<noteq> CHR 0x00) (s @ CHR 0x00 # r) = s" if "CHR 0x00 \<notin> set s" for s r using that by (induction s) auto
  have ht: "has_type ?d 0 False std" "has_type ?d 1 True dst"
    using ty(5,6) by (simp_all add: has_type_def localtime_at_def zone_of_def cstring_at_def c nat_add_distrib)
  have sk: "switch_key std dst False = (\<lambda>x. fst x + fst (if snd x then dst else std))" by (simp add: switch_key_def fun_eq_iff)
  have "zone_sorted True ?d" "zone_sorted False ?d"
    using t(1) t(2) [unfolded sk] by (simp_all add: zone_sorted_def zone_of_def trans_key_def o_def case_prod_unfold)
  moreover have "transitions ?d = [] @ map (\<lambda>(t, s). \<lparr>gmttime = t, localtime = t + fst (if s then dst else std), localtimeIdx = (if s then 1 else 0)\<rparr>) table @ []"
    by (simp add: zone_of_def)
  ultimately have "zone_years std dst table limit ?d"
    unfolding zone_years_def using ht
    by (intro conjI, simp_all only:) (rule exI [of _ "[]"], rule exI [of _ "[]"], rule exI [of _ 0], rule exI [of _ 1], simp)
  moreover have "is_int32 (gmttime tr) \<and> 0 \<le> localtimeIdx tr \<and> localtimeIdx tr < 256 \<and> nat (localtimeIdx tr) < length (localtimes ?d)
      \<and> localtime tr = gmttime tr + gmtOffset (localtimes ?d ! nat (localtimeIdx tr))" if tr: "tr \<in> set (transitions ?d)" for tr
  proof -
    from tr obtain p where "p \<in> set table" "tr = \<lparr>gmttime = fst p, localtime = fst p + fst (if snd p then dst else std), localtimeIdx = (if snd p then 1 else 0)\<rparr>"
      by (auto simp: zone_of_def case_prod_unfold)
    then show ?thesis using t(3) by (simp add: zone_of_def)
  qed
  moreover have "length (transitions ?d) < 2 ^ 31" "length (localtimes ?d) < 2 ^ 31" "length (tz_abbreviation ?d) < 2 ^ 31" "tz_names ?d = []"
    "\<forall>l \<in> set (localtimes ?d). is_int32 (gmtOffset l) \<and> 0 \<le> arrbIdx l \<and> arrbIdx l < 256"
    using t(4) ty(1-4) by (simp_all add: zone_of_def)
  ultimately have "zone_wf ?d" "zone_years std dst table limit ?d" unfolding zone_wf_def by blast+
  then show ?thesis unfolding zone_in_file_def by (intro exI [of _ ?d] exI [of _ "[]"]) simp
qed


end
