(* ===== verification/TimestampTest.thy ===== *)
theory TimestampTest
  imports TimeZone
begin

text \<open>
  \<^verbatim>\<open>muduo/datetime/Timestamp_unittest.cc\<close>: the program that reads the clock a million times and counts how often it moved on by
  each number of microseconds below a hundred. The readings are an argument, and so are the \<open>%f\<close> format and the rounding of a \<open>double\<close>.
\<close>

section \<open>The program\<close>

definition kNumber :: nat where
  "kNumber = 1000 * 1000"

text \<open>The variables of the second loop: \<open>start\<close>, the array \<open>increments\<close>, and what has been printed.\<close>

record bench =
  bm_start :: int
  bm_increments :: "int list"
  bm_printed :: "string list"

text \<open>One round. The difference of two \<open>int64_t\<close> is converted to \<open>int\<close>.\<close>

definition bench_step :: "timestamp \<Rightarrow> bench \<Rightarrow> bench result" where
  "bench_step stamp s =
     (let next = microSecondsSinceEpoch stamp; inc = int32_wrap (next - bm_start s); s1 = s\<lparr>bm_start := next\<rparr> in
      if inc < 0 then Inr (s1\<lparr>bm_printed := bm_printed s1 @ [''reverse!'']\<rparr>)
      else if inc < 100 then
        (if nat inc < length (bm_increments s1)
         then Inr (s1\<lparr>bm_increments := (bm_increments s1)[nat inc := bm_increments s1 ! nat inc + 1]\<rparr>) else Inl OutOfBounds)
      else Inr (s1\<lparr>bm_printed := bm_printed s1 @ [''big gap '' @ dec_int inc]\<rparr>))"

definition increment_lines :: "int list \<Rightarrow> string list" where
  "increment_lines incs = map (\<lambda>i. fmt_d 2 (int i) @ '': '' @ dec_int (incs ! i)) [0..<100]"

definition benchmark :: "(double \<Rightarrow> string) \<Rightarrow> (rat \<Rightarrow> double) \<Rightarrow> timestamp list \<Rightarrow> string list result" where
  "benchmark fmt_f rnd stamps =
     (if stamps = [] then Inl OutOfBounds
      else bindR (foldR bench_step (tl stamps) \<lparr>bm_start = microSecondsSinceEpoch (hd stamps), bm_increments = replicate 100 0, bm_printed = []\<rparr>) (\<lambda>s.
        Inr ([Timestamp_toString (hd stamps), Timestamp_toString (last stamps), fmt_f (timeDifference rnd (last stamps) (hd stamps))]
             @ bm_printed s @ increment_lines (bm_increments s))))"

text \<open>\<open>tvs\<close> are the answers of \<open>gettimeofday\<close>, one for \<open>main\<close> and \<open>kNumber\<close> for the benchmark.\<close>

definition Timestamp_unittest_main :: "(double \<Rightarrow> string) \<Rightarrow> (rat \<Rightarrow> double) \<Rightarrow> (nat \<Rightarrow> int \<times> int) \<Rightarrow> string list result" where
  "Timestamp_unittest_main fmt_f rnd tvs =
     bindR (benchmark fmt_f rnd (map (\<lambda>i. Timestamp_now (tvs (Suc i))) [0..<kNumber]))
       (\<lambda>out. Inr (Timestamp_toString (Timestamp_now (tvs 0)) # out))"

section \<open>The counts\<close>

text \<open>The increments between consecutive readings, as \<open>int\<close> values.\<close>

fun increments_of :: "int \<Rightarrow> timestamp list \<Rightarrow> int list" where
  "increments_of start [] = []"
| "increments_of start (t # ts) = int32_wrap (microSecondsSinceEpoch t - start) # increments_of (microSecondsSinceEpoch t) ts"

lemma bench_step_ok:
  fixes t :: timestamp
  assumes "length (bm_increments s) = 100"
  defines "inc \<equiv> int32_wrap (microSecondsSinceEpoch t - bm_start s)"
  shows "\<exists>s1. bench_step t s = Inr s1 \<and> length (bm_increments s1) = 100 \<and> bm_start s1 = microSecondsSinceEpoch t
     \<and> (\<forall>i < 100. bm_increments s1 ! i = bm_increments s ! i + (if inc = int i then 1 else 0))
     \<and> length (bm_printed s1) = length (bm_printed s) + (if inc < 0 \<or> 100 \<le> inc then 1 else 0)"
proof (cases "0 \<le> inc \<and> inc < 100")
  case True
  then obtain k where k: "inc = int k" "k < 100" by (cases inc) auto
  then have "bench_step t s = Inr (s\<lparr>bm_start := microSecondsSinceEpoch t, bm_increments := (bm_increments s)[k := bm_increments s ! k + 1]\<rparr>)"
    using assms(1) by (simp add: bench_step_def inc_def [symmetric] Let_def)
  with k assms(1) show ?thesis by (simp add: nth_list_update)
next
  case False
  then show ?thesis using assms(1) by (cases "inc < 0") (auto simp: bench_step_def inc_def [symmetric] Let_def)
qed

lemma bench_run:
  assumes "length (bm_increments s) = 100"
  shows "\<exists>s'. foldR bench_step ts s = Inr s' \<and> length (bm_increments s') = 100
     \<and> (\<forall>i < 100. bm_increments s' ! i = bm_increments s ! i + int (count_list (increments_of (bm_start s) ts) (int i)))
     \<and> length (bm_printed s') = length (bm_printed s) + length (filter (\<lambda>x. x < 0 \<or> 100 \<le> x) (increments_of (bm_start s) ts))"
  using assms
proof (induction ts arbitrary: s)
  case (Cons t ts)
  let ?next = "microSecondsSinceEpoch t"
  let ?inc = "int32_wrap (?next - bm_start s)"
  obtain s1 where s1: "bench_step t s = Inr s1" "length (bm_increments s1) = 100" "bm_start s1 = ?next"
    "\<forall>i < 100. bm_increments s1 ! i = bm_increments s ! i + (if ?inc = int i then 1 else 0)"
    "length (bm_printed s1) = length (bm_printed s) + (if ?inc < 0 \<or> 100 \<le> ?inc then 1 else 0)"
    using bench_step_ok [OF Cons.prems, of t] by blast
  from Cons.IH [OF s1(2)] obtain s2 where "foldR bench_step ts s1 = Inr s2" "length (bm_increments s2) = 100"
    "\<forall>i < 100. bm_increments s2 ! i = bm_increments s1 ! i + int (count_list (increments_of (bm_start s1) ts) (int i))"
    "length (bm_printed s2) = length (bm_printed s1) + length (filter (\<lambda>x. x < 0 \<or> 100 \<le> x) (increments_of (bm_start s1) ts))" by blast
  then show ?case using s1 by (intro exI [of _ s2]) auto
qed simp

section \<open>Properties\<close>

text \<open>
  The benchmark never leaves its array, whatever the clock does, and its table is right: line \<open>i\<close> shows how often the clock
  moved on by \<open>i\<close> microseconds, and every other increment has a line of its own.
\<close>

theorem Timestamp_benchmark_counts:
  assumes "stamps \<noteq> []"
  defines "incs \<equiv> increments_of (microSecondsSinceEpoch (hd stamps)) (tl stamps)"
  shows "\<exists>msgs. benchmark fmt_f rnd stamps = Inr ([Timestamp_toString (hd stamps), Timestamp_toString (last stamps),
        fmt_f (timeDifference rnd (last stamps) (hd stamps))] @ msgs @ increment_lines (map (\<lambda>i. int (count_list incs (int i))) [0..<100]))
     \<and> length msgs = length (filter (\<lambda>x. x < 0 \<or> 100 \<le> x) incs)"
proof -
  let ?s = "\<lparr>bm_start = microSecondsSinceEpoch (hd stamps), bm_increments = replicate 100 0, bm_printed = []\<rparr>"
  from bench_run [of ?s "tl stamps"] obtain s' where s': "foldR bench_step (tl stamps) ?s = Inr s'" "length (bm_increments s') = 100"
    "\<forall>i < 100. bm_increments s' ! i = int (count_list incs (int i))" "length (bm_printed s') = length (filter (\<lambda>x. x < 0 \<or> 100 \<le> x) incs)"
    by (auto simp: incs_def)
  have "bm_increments s' = map (\<lambda>i. int (count_list incs (int i))) [0..<100]" using s'(2,3) by (intro nth_equalityI) simp_all
  then show ?thesis using s'(1,4) assms(1) by (auto simp: benchmark_def)
qed

theorem Timestamp_benchmark_counts_witness:
  "\<exists>out. benchmark (\<lambda>_. ''0'') (\<lambda>x. x) [Timestamp 5, Timestamp 7, Timestamp 9, Timestamp 8, Timestamp 508] = Inr out \<and> length out = 105"
proof -
  have "increments_of 5 [Timestamp 7, Timestamp 9, Timestamp 8, Timestamp 508] = [2, 2, -1, 500]" by (simp add: int32_wrap_def)
  then show ?thesis
    using Timestamp_benchmark_counts [of "[Timestamp 5, Timestamp 7, Timestamp 9, Timestamp 8, Timestamp 508]" "\<lambda>_. ''0''" "\<lambda>x. x"]
    by (auto simp: increment_lines_def)
qed

end
