(* ===== verification/LogStream.thy ===== *)
theory LogStream
  imports Timestamp
begin

text \<open>
  \<^verbatim>\<open>muduo/logging/LogStream.h\<close> and \<^verbatim>\<open>LogStream.cc\<close>: the fixed buffer and the formatting stream of the
  logging library. The buffer is its array of bytes with a write position; a store outside the array is the
  failure \<open>OutOfBounds\<close>. Arguments of the \<open>operator<<\<close> overloads are words of their width. The text that the
  C library prints for a \<open>double\<close> or for a \<open>Fmt\<close> is an argument.
\<close>

section \<open>Integer to string\<close>

definition digits :: string where "digits = ''9876543210123456789''"

text \<open>\<open>zero\<close> points to the middle of \<open>digits\<close>, so that it can be indexed by a negative remainder.\<close>

definition zero_at :: "int \<Rightarrow> char" where
  "zero_at lsd = digits ! nat (9 + lsd)"

definition digitsHex :: string where "digitsHex = ''0123456789abcdef''"

lemma sdiv10_smaller: "(i::int) sdiv 10 \<noteq> 0 \<Longrightarrow> nat \<bar>i sdiv 10\<bar> < nat \<bar>i\<bar>"
  by (cases "0 \<le> i") (auto simp: sdiv_nonneg sdiv_neg)

function convert_loop :: "int \<Rightarrow> string" where
  "convert_loop i =
     (let lsd = i smod 10; i' = i sdiv 10
      in zero_at lsd # (if i' \<noteq> 0 then convert_loop i' else []))"
  by pat_completeness auto
termination
  by (relation "measure (\<lambda>i. nat \<bar>i\<bar>)") (use sdiv10_smaller in auto)

declare convert_loop.simps [simp del]

definition convert_text :: "int \<Rightarrow> string" where
  "convert_text value = rev (convert_loop value @ (if value < 0 then ''-'' else ''''))"

text \<open>\<open>convert\<close> stores the text and a null character from position \<open>p\<close> and returns the length.\<close>

definition NUL :: char where "NUL = CHR 0x00"

definition convert :: "string \<Rightarrow> nat \<Rightarrow> int \<Rightarrow> (string \<times> nat) result" where
  "convert buf p value =
     (let t = convert_text value in bindR (write_range buf p (t @ [NUL])) (\<lambda>buf'. Inr (buf', length t)))"

fun convertHex_loop :: "nat \<Rightarrow> string" where
  "convertHex_loop i =
     (let lsd = i mod 16; i' = i div 16
      in digitsHex ! lsd # (if i' \<noteq> 0 then convertHex_loop i' else []))"

declare convertHex_loop.simps [simp del]

definition convertHex :: "string \<Rightarrow> nat \<Rightarrow> nat \<Rightarrow> (string \<times> nat) result" where
  "convertHex buf p value =
     (let t = rev (convertHex_loop value) in bindR (write_range buf p (t @ [NUL])) (\<lambda>buf'. Inr (buf', length t)))"

section \<open>FixedBuffer\<close>

definition kSmallBuffer :: nat where "kSmallBuffer = 4000"

definition kLargeBuffer :: nat where "kLargeBuffer = 4000 * 1000"

datatype cookie = cookieStart | cookieEnd

record fixed_buffer =
  fb_cookie :: cookie
  fb_data :: string
  fb_cur :: nat

text \<open>\<open>garbage\<close> is what the array holds before anything is written to it.\<close>

definition FixedBuffer_new :: "string \<Rightarrow> fixed_buffer" where
  "FixedBuffer_new garbage = \<lparr>fb_cookie = cookieStart, fb_data = garbage, fb_cur = 0\<rparr>"

definition setCookie :: "cookie \<Rightarrow> fixed_buffer \<Rightarrow> fixed_buffer" where
  "setCookie k b = b\<lparr>fb_cookie := k\<rparr>"

definition FixedBuffer_delete :: "fixed_buffer \<Rightarrow> fixed_buffer" where
  "FixedBuffer_delete b = setCookie cookieEnd b"

definition avail :: "fixed_buffer \<Rightarrow> int" where
  "avail b = int (length (fb_data b)) - int (fb_cur b)"

definition fb_length :: "fixed_buffer \<Rightarrow> int" where
  "fb_length b = int (fb_cur b)"

text \<open>A negative \<open>len\<close> becomes a huge \<open>size_t\<close> in \<open>memcpy\<close>.\<close>

definition FixedBuffer_append :: "string \<Rightarrow> int \<Rightarrow> fixed_buffer \<Rightarrow> fixed_buffer result" where
  "FixedBuffer_append buf len b =
     (if avail b > len then
        if len < 0 then Inl OutOfBounds
        else bindR (read_range buf 0 (nat len)) (\<lambda>bytes.
               bindR (write_range (fb_data b) (fb_cur b) bytes) (\<lambda>d.
                 Inr (b\<lparr>fb_data := d, fb_cur := fb_cur b + nat len\<rparr>)))
      else Inr b)"

definition fb_add :: "nat \<Rightarrow> fixed_buffer \<Rightarrow> fixed_buffer" where
  "fb_add len b = b\<lparr>fb_cur := fb_cur b + len\<rparr>"

definition fb_reset :: "fixed_buffer \<Rightarrow> fixed_buffer" where
  "fb_reset b = b\<lparr>fb_cur := 0\<rparr>"

definition fb_bzero :: "fixed_buffer \<Rightarrow> fixed_buffer" where
  "fb_bzero b = b\<lparr>fb_data := replicate (length (fb_data b)) NUL\<rparr>"

definition asString :: "fixed_buffer \<Rightarrow> string result" where
  "asString b = read_range (fb_data b) 0 (fb_cur b)"

definition debugString :: "fixed_buffer \<Rightarrow> fixed_buffer result" where
  "debugString b = bindR (write_range (fb_data b) (fb_cur b) [NUL]) (\<lambda>d. Inr (b\<lparr>fb_data := d\<rparr>))"

section \<open>LogStream\<close>

definition kMaxNumericSize :: int where "kMaxNumericSize = 32"

text \<open>The stream is its buffer \<open>buffer_\<close>, a \<open>FixedBuffer\<open><kSmallBuffer>\<close>\<close>.\<close>

definition formatInteger :: "int \<Rightarrow> fixed_buffer \<Rightarrow> fixed_buffer result" where
  "formatInteger v b =
     (if avail b \<ge> kMaxNumericSize
      then bindR (convert (fb_data b) (fb_cur b) v) (\<lambda>(d, len). Inr (fb_add len (b\<lparr>fb_data := d\<rparr>)))
      else Inr b)"

definition put_bool :: "bool \<Rightarrow> fixed_buffer \<Rightarrow> fixed_buffer result" where
  "put_bool v b = FixedBuffer_append (if v then ''1'' else ''0'') 1 b"

definition put_int :: "32 word \<Rightarrow> fixed_buffer \<Rightarrow> fixed_buffer result" where
  "put_int v b = formatInteger (sint v) b"

definition put_uint :: "32 word \<Rightarrow> fixed_buffer \<Rightarrow> fixed_buffer result" where
  "put_uint v b = formatInteger (uint v) b"

definition put_short :: "16 word \<Rightarrow> fixed_buffer \<Rightarrow> fixed_buffer result" where
  "put_short v b = put_int (scast v) b"

definition put_ushort :: "16 word \<Rightarrow> fixed_buffer \<Rightarrow> fixed_buffer result" where
  "put_ushort v b = put_uint (ucast v) b"

definition put_long :: "64 word \<Rightarrow> fixed_buffer \<Rightarrow> fixed_buffer result" where
  "put_long v b = formatInteger (sint v) b"

definition put_ulong :: "64 word \<Rightarrow> fixed_buffer \<Rightarrow> fixed_buffer result" where
  "put_ulong v b = formatInteger (uint v) b"

definition put_longlong :: "64 word \<Rightarrow> fixed_buffer \<Rightarrow> fixed_buffer result" where
  "put_longlong v b = formatInteger (sint v) b"

definition put_ulonglong :: "64 word \<Rightarrow> fixed_buffer \<Rightarrow> fixed_buffer result" where
  "put_ulonglong v b = formatInteger (uint v) b"

definition put_pointer :: "64 word \<Rightarrow> fixed_buffer \<Rightarrow> fixed_buffer result" where
  "put_pointer p b =
     (let v = unat p in
      if avail b \<ge> kMaxNumericSize then
        bindR (write_range (fb_data b) (fb_cur b) ''0x'') (\<lambda>d.
          bindR (convertHex d (fb_cur b + 2) v) (\<lambda>(d', len).
            Inr (fb_add (len + 2) (b\<lparr>fb_data := d'\<rparr>))))
      else Inr b)"

text \<open>\<open>fmt12g\<close> is the C library's \<open>%.12g\<close>.\<close>

definition put_double :: "(double \<Rightarrow> string) \<Rightarrow> double \<Rightarrow> fixed_buffer \<Rightarrow> fixed_buffer result" where
  "put_double fmt12g v b =
     (if avail b \<ge> kMaxNumericSize then
        (let (stored, len) = snprintf (nat kMaxNumericSize) (fmt12g v) in
         bindR (write_range (fb_data b) (fb_cur b) (stored @ [NUL])) (\<lambda>d. Inr (fb_add len (b\<lparr>fb_data := d\<rparr>))))
      else Inr b)"

text \<open>Every \<open>float\<close> is a \<open>double\<close>.\<close>

definition put_float :: "(double \<Rightarrow> string) \<Rightarrow> double \<Rightarrow> fixed_buffer \<Rightarrow> fixed_buffer result" where
  "put_float fmt12g v b = put_double fmt12g v b"

definition put_char :: "char \<Rightarrow> fixed_buffer \<Rightarrow> fixed_buffer result" where
  "put_char v b = FixedBuffer_append [v] 1 b"

text \<open>A conversion from \<open>size_t\<close> to \<open>int\<close>.\<close>

definition to_int32 :: "nat \<Rightarrow> int" where
  "to_int32 n = sint (word_of_nat n :: 32 word)"

definition put_cstr :: "string \<Rightarrow> fixed_buffer \<Rightarrow> fixed_buffer result" where
  "put_cstr v b = FixedBuffer_append v (to_int32 (length v)) b"

text \<open>\<open>T\<close> carries a literal with its length, which the constructor compares.\<close>

definition T_new :: "string \<Rightarrow> int \<Rightarrow> (string \<times> nat) result" where
  "T_new str len = assertR (int (length str) = len) (Inr (str, nat len))"

definition put_T :: "string \<times> nat \<Rightarrow> fixed_buffer \<Rightarrow> fixed_buffer result" where
  "put_T v b = FixedBuffer_append (fst v) (to_int32 (snd v)) b"

definition put_string :: "string \<Rightarrow> fixed_buffer \<Rightarrow> fixed_buffer result" where
  "put_string v b = FixedBuffer_append v (to_int32 (length v)) b"

definition LogStream_append :: "string \<Rightarrow> int \<Rightarrow> fixed_buffer \<Rightarrow> fixed_buffer result" where
  "LogStream_append data len b = FixedBuffer_append data len b"

definition resetBuffer :: "fixed_buffer \<Rightarrow> fixed_buffer" where
  "resetBuffer b = fb_reset b"

text \<open>\<open>Fmt\<close>: \<open>t\<close> is the text that the format and the value describe.\<close>

datatype fmt = Fmt (fmt_buf: string) (fmt_length: int)

definition Fmt_new :: "string \<Rightarrow> fmt result" where
  "Fmt_new t = (let (stored, len) = snprintf 32 t in assertR (len < 32) (Inr (Fmt stored (int len))))"

definition put_Fmt :: "fmt \<Rightarrow> fixed_buffer \<Rightarrow> fixed_buffer result" where
  "put_Fmt f b = LogStream_append (fmt_buf f) (fmt_length f) b"

section \<open>The conversions are exact\<close>

lemma zero_at_pos: "0 \<le> d \<Longrightarrow> d < 10 \<Longrightarrow> zero_at d = digit_char (nat d)"
proof -
  assume "0 \<le> d" "d < 10"
  then have "d \<in> {0, 1, 2, 3, 4, 5, 6, 7, 8, 9}" by (simp only: insert_iff empty_iff) presburger
  then show ?thesis by (auto simp: zero_at_def digits_def digit_char_def char_of_def bit_Suc_0_iff)
qed

lemma zero_at_minus: "0 \<le> d \<Longrightarrow> d < 10 \<Longrightarrow> zero_at (- d) = zero_at d"
proof -
  assume "0 \<le> d" "d < 10"
  then have "d \<in> {0, 1, 2, 3, 4, 5, 6, 7, 8, 9}" by (simp only: insert_iff empty_iff) presburger
  then show ?thesis by (auto simp: zero_at_def digits_def)
qed

lemma convert_loop_nonneg: "rev (convert_loop (int n)) = dec_nat n"
proof (induction n rule: dec_nat.induct)
  case (1 n)
  have d: "int n smod 10 = int (n mod 10)" "int n sdiv 10 = int (n div 10)"
    by (simp_all add: smod_nonneg sdiv_nonneg zmod_int zdiv_int)
  have z: "zero_at (int (n mod 10)) = digit_char (n mod 10)" by (subst zero_at_pos) simp_all
  show ?case
  proof (cases "n < 10")
    case True
    then show ?thesis by (subst convert_loop.simps, subst dec_nat.simps) (use z in \<open>simp add: d Let_def\<close>)
  next
    case False
    then have "int (n div 10) \<noteq> 0" by auto
    with False "1.IH" show ?thesis
      by (subst convert_loop.simps, subst dec_nat.simps) (use z in \<open>simp add: d Let_def\<close>)
  qed
qed

lemma convert_loop_minus: "0 \<le> i \<Longrightarrow> convert_loop (- i) = convert_loop i"
proof (induction i rule: convert_loop.induct)
  case (1 i)
  have d: "(- i) smod 10 = - (i smod 10)" "(- i) sdiv 10 = - (i sdiv 10)"
    using "1.prems" by (simp_all add: smod_nonneg sdiv_nonneg smod_neg sdiv_neg)
  have "zero_at (- (i smod 10)) = zero_at (i smod 10)"
    using "1.prems" by (intro zero_at_minus) (simp_all add: smod_nonneg)
  moreover have "0 \<le> i sdiv 10" using "1.prems" by (simp add: sdiv_nonneg)
  ultimately show ?case
    using "1.IH" by (subst convert_loop.simps, subst (2) convert_loop.simps) (simp add: d Let_def)
qed

lemma convert_text_dec: "convert_text v = dec_int v"
proof (cases "v < 0")
  case True
  then show ?thesis
    using convert_loop_minus [of "- v"] convert_loop_nonneg [of "nat (- v)"]
    by (simp add: convert_text_def dec_int_def)
next
  case False
  then show ?thesis using convert_loop_nonneg [of "nat v"] by (simp add: convert_text_def dec_int_def)
qed

text \<open>Reading a hexadecimal number.\<close>

definition hex_val :: "char \<Rightarrow> nat" where
  "hex_val c = (if is_digit c then of_char c - 48 else of_char c - 87)"

definition val_hex :: "string \<Rightarrow> nat" where
  "val_hex s = foldl (\<lambda>a c. 16 * a + hex_val c) 0 s"

lemma hex_val_digit: "d < 16 \<Longrightarrow> hex_val (digitsHex ! d) = d"
proof -
  assume "d < 16"
  then have "d \<in> {0, 1, 2, 3, 4, 5, 6, 7, 8, 9, 10, 11, 12, 13, 14, 15}" by (simp only: insert_iff empty_iff) presburger
  then show ?thesis by (auto simp: digitsHex_def hex_val_def is_digit_def)
qed

lemma val_hex_loop: "val_hex (rev (convertHex_loop n)) = n"
proof (induction n rule: convertHex_loop.induct)
  case (1 n)
  have "val_hex (s @ [c]) = 16 * val_hex s + hex_val c" for s c by (simp add: val_hex_def)
  then show ?case using "1.IH" hex_val_digit [of "n mod 16"]
    by (subst convertHex_loop.simps) (auto simp: Let_def val_hex_def)
qed

lemma length_hex_loop: "n < 16 ^ k \<Longrightarrow> 0 < k \<Longrightarrow> length (convertHex_loop n) \<le> k"
proof (induction n arbitrary: k rule: convertHex_loop.induct)
  case (1 n)
  from "1.prems"(2) obtain k' where k: "k = Suc k'" by (cases k) auto
  show ?case
  proof (cases "n div 16 = 0")
    case True
    then show ?thesis using k by (subst convertHex_loop.simps) (simp add: Let_def)
  next
    case False
    then have "k' \<noteq> 0" using "1.prems"(1) k by (intro notI) simp
    moreover have "n div 16 < 16 ^ k'" using "1.prems"(1) k by (simp add: less_mult_imp_div_less mult.commute)
    ultimately show ?thesis using "1.IH" False k by (subst convertHex_loop.simps) (simp add: Let_def)
  qed
qed

section \<open>The stream as text\<close>

text \<open>The position stays inside the array: there is always room for the final null character.\<close>

definition fb_inv :: "fixed_buffer \<Rightarrow> bool" where
  "fb_inv b \<longleftrightarrow> fb_cur b < length (fb_data b)"

definition fb_text :: "fixed_buffer \<Rightarrow> string" where
  "fb_text b = take (fb_cur b) (fb_data b)"

lemma asString_text: "fb_inv b \<Longrightarrow> asString b = Inr (fb_text b)"
  by (simp add: asString_def fb_inv_def fb_text_def)

lemma length_fb_text: "fb_inv b \<Longrightarrow> length (fb_text b) = fb_cur b"
  by (simp add: fb_text_def fb_inv_def)

text \<open>What all operations do: store a text, and perhaps some bytes after it.\<close>

lemma store_text:
  assumes "fb_inv b" and "fb_cur b + length t + length r \<le> length (fb_data b)"
    and "fb_cur b + length t < length (fb_data b)"
    and "d = take (fb_cur b) (fb_data b) @ t @ r @ drop (fb_cur b + length t + length r) (fb_data b)"
  shows "fb_inv (b\<lparr>fb_data := d, fb_cur := fb_cur b + length t\<rparr>)"
    "fb_text (b\<lparr>fb_data := d, fb_cur := fb_cur b + length t\<rparr>) = fb_text b @ t" "length d = length (fb_data b)"
  using assms by (simp_all add: fb_inv_def fb_text_def)

definition stores :: "fixed_buffer result \<Rightarrow> fixed_buffer \<Rightarrow> bool \<Rightarrow> string \<Rightarrow> bool" where
  "stores r b fits t \<longleftrightarrow> (\<exists>b'. r = Inr b' \<and> fb_inv b' \<and> length (fb_data b') = length (fb_data b)
     \<and> fb_text b' = (if fits then fb_text b @ t else fb_text b))"

lemma append_stores:
  assumes "fb_inv b"
  shows "stores (FixedBuffer_append t (int (length t)) b) b (avail b > int (length t)) t"
proof (cases "avail b > int (length t)")
  case True
  then have r: "fb_cur b + length t < length (fb_data b)" by (simp add: avail_def)
  then have "FixedBuffer_append t (int (length t)) b =
      Inr (b\<lparr>fb_data := take (fb_cur b) (fb_data b) @ t @ [] @ drop (fb_cur b + length t + length []) (fb_data b),
             fb_cur := fb_cur b + length t\<rparr>)"
    using True by (simp add: FixedBuffer_append_def write_range_ok)
  then show ?thesis unfolding stores_def using True r store_text [OF assms _ r refl, of "[]"] by auto
qed (use assms in \<open>simp add: stores_def FixedBuffer_append_def\<close>)

lemma to_int32_small: "n < 2 ^ 31 \<Longrightarrow> to_int32 n = int n"
  unfolding to_int32_def by (simp add: signed_of_nat signed_take_bit_int_eq_self)

lemma numeric_stores:
  assumes "fb_inv b" and "avail b \<ge> kMaxNumericSize" and "length t < 32"
  shows "stores (bindR (write_range (fb_data b) (fb_cur b) (t @ [NUL])) (\<lambda>d. Inr (fb_add (length t) (b\<lparr>fb_data := d\<rparr>)))) b True t"
proof -
  have r: "fb_cur b + length t < length (fb_data b)" using assms(2,3) by (simp add: avail_def kMaxNumericSize_def)
  then have "write_range (fb_data b) (fb_cur b) (t @ [NUL]) =
      Inr (take (fb_cur b) (fb_data b) @ t @ [NUL] @ drop (fb_cur b + length t + length [NUL]) (fb_data b))"
    by (simp add: write_range_ok)
  then show ?thesis unfolding stores_def using r store_text [OF assms(1) _ r refl, of "[NUL]"] by (simp add: fb_add_def)
qed

lemma length_dec_int64: "- (2 ^ 64) < v \<Longrightarrow> v < 2 ^ 64 \<Longrightarrow> length (dec_int v) < 32"
proof -
  assume "- (2 ^ 64) < v" "v < 2 ^ 64"
  then have "nat v < 10 ^ 20" "nat (- v) < 10 ^ 20" by simp_all
  from this [THEN length_dec_nat_le] show ?thesis by (simp add: dec_int_def)
qed

lemma formatInteger_stores:
  assumes "fb_inv b" and "- (2 ^ 64) < v" and "v < 2 ^ 64"
  shows "stores (formatInteger v b) b (avail b \<ge> kMaxNumericSize) (dec_int v)"
proof (cases "avail b \<ge> kMaxNumericSize")
  case True
  from numeric_stores [OF assms(1) True length_dec_int64 [OF assms(2,3)]] True show ?thesis
    by (simp add: formatInteger_def convert_def convert_text_dec Let_def bindR_assoc)
qed (use assms in \<open>simp add: stores_def formatInteger_def\<close>)

lemma pointer_stores:
  assumes "fb_inv b"
  shows "stores (put_pointer p b) b (avail b \<ge> kMaxNumericSize) (''0x'' @ rev (convertHex_loop (unat p)))"
proof (cases "avail b \<ge> kMaxNumericSize")
  case True
  let ?h = "rev (convertHex_loop (unat p))"
  have "unat p < 16 ^ 16" using unsigned_less [of p] by simp
  then have l: "length ?h \<le> 16" using length_hex_loop by simp
  have r: "fb_cur b + 19 \<le> length (fb_data b)" using True by (simp add: avail_def kMaxNumericSize_def)
  with l have r2: "Suc (fb_cur b + length (convertHex_loop (unat p))) \<le> length (fb_data b) - Suc (Suc 0)" by simp
  have "put_pointer p b = bindR (write_range (fb_data b) (fb_cur b) ((''0x'' @ ?h) @ [NUL]))
      (\<lambda>d. Inr (fb_add (length (''0x'' @ ?h)) (b\<lparr>fb_data := d\<rparr>)))"
    using True l r r2 by (simp add: put_pointer_def convertHex_def write_range_def Let_def min_def drop_Cons' numeral_2_eq_2 add.commute)
  with numeric_stores [OF assms True, of "''0x'' @ ?h"] l show ?thesis using True by simp
qed (use assms in \<open>simp add: stores_def put_pointer_def\<close>)

text \<open>The operands of the insertion operators, what each prints, and when it is printed at all.\<close>

datatype log_item =
    BoolItem bool | ShortItem "16 word" | UShortItem "16 word" | IntItem "32 word" | UIntItem "32 word"
  | LongItem "64 word" | ULongItem "64 word" | LongLongItem "64 word" | ULongLongItem "64 word"
  | PointerItem "64 word" | FloatItem double | DoubleItem double | CharItem char | CStrItem string
  | TItem "string \<times> nat" | StringItem string | FmtItem fmt

fun put_item :: "(double \<Rightarrow> string) \<Rightarrow> log_item \<Rightarrow> fixed_buffer \<Rightarrow> fixed_buffer result" where
  "put_item g (BoolItem v) = put_bool v"
| "put_item g (ShortItem v) = put_short v"
| "put_item g (UShortItem v) = put_ushort v"
| "put_item g (IntItem v) = put_int v"
| "put_item g (UIntItem v) = put_uint v"
| "put_item g (LongItem v) = put_long v"
| "put_item g (ULongItem v) = put_ulong v"
| "put_item g (LongLongItem v) = put_longlong v"
| "put_item g (ULongLongItem v) = put_ulonglong v"
| "put_item g (PointerItem v) = put_pointer v"
| "put_item g (FloatItem v) = put_float g v"
| "put_item g (DoubleItem v) = put_double g v"
| "put_item g (CharItem v) = put_char v"
| "put_item g (CStrItem v) = put_cstr v"
| "put_item g (TItem v) = put_T v"
| "put_item g (StringItem v) = put_string v"
| "put_item g (FmtItem v) = put_Fmt v"

fun item_text :: "(double \<Rightarrow> string) \<Rightarrow> log_item \<Rightarrow> string" where
  "item_text g (BoolItem v) = (if v then ''1'' else ''0'')"
| "item_text g (ShortItem v) = dec_int (sint v)"
| "item_text g (UShortItem v) = dec_int (uint v)"
| "item_text g (IntItem v) = dec_int (sint v)"
| "item_text g (UIntItem v) = dec_int (uint v)"
| "item_text g (LongItem v) = dec_int (sint v)"
| "item_text g (ULongItem v) = dec_int (uint v)"
| "item_text g (LongLongItem v) = dec_int (sint v)"
| "item_text g (ULongLongItem v) = dec_int (uint v)"
| "item_text g (PointerItem v) = ''0x'' @ rev (convertHex_loop (unat v))"
| "item_text g (FloatItem v) = g v"
| "item_text g (DoubleItem v) = g v"
| "item_text g (CharItem v) = [v]"
| "item_text g (CStrItem v) = v"
| "item_text g (TItem v) = fst v"
| "item_text g (StringItem v) = v"
| "item_text g (FmtItem v) = fmt_buf v"

fun is_numeric :: "log_item \<Rightarrow> bool" where
  "is_numeric (BoolItem v) = False"
| "is_numeric (CharItem v) = False"
| "is_numeric (CStrItem v) = False"
| "is_numeric (TItem v) = False"
| "is_numeric (StringItem v) = False"
| "is_numeric (FmtItem v) = False"
| "is_numeric _ = True"

text \<open>
  Strings are shorter than \<open>2 ^ 31\<close>, \<open>T\<close> and \<open>Fmt\<close> objects are as their constructors make them, and the C
  library's text of a number is shorter than 32 characters (\<open>%.12g\<close> prints at most 19).
\<close>

fun item_ok :: "(double \<Rightarrow> string) \<Rightarrow> log_item \<Rightarrow> bool" where
  "item_ok g (FloatItem v) \<longleftrightarrow> length (g v) < 32"
| "item_ok g (DoubleItem v) \<longleftrightarrow> length (g v) < 32"
| "item_ok g (CStrItem v) \<longleftrightarrow> length v < 2 ^ 31"
| "item_ok g (TItem v) \<longleftrightarrow> length (fst v) < 2 ^ 31 \<and> T_new (fst v) (int (snd v)) = Inr v"
| "item_ok g (StringItem v) \<longleftrightarrow> length v < 2 ^ 31"
| "item_ok g (FmtItem v) \<longleftrightarrow> Fmt_new (fmt_buf v) = Inr v"
| "item_ok g _ \<longleftrightarrow> True"

text \<open>The specification: in a buffer of \<open>n\<close> bytes a text is printed as a whole or not at all.\<close>

definition spec_put :: "(double \<Rightarrow> string) \<Rightarrow> nat \<Rightarrow> log_item \<Rightarrow> string \<Rightarrow> string" where
  "spec_put g n i t =
     (let room = n - length t in
      if (if is_numeric i then 32 \<le> room else length (item_text g i) < room) then t @ item_text g i else t)"

lemma double_stores:
  assumes "fb_inv b" and "length (g v) < 32"
  shows "stores (put_double g v b) b (avail b \<ge> kMaxNumericSize) (g v)"
proof (cases "avail b \<ge> kMaxNumericSize")
  case True
  from assms(2) have "snprintf (nat kMaxNumericSize) (g v) = (g v, length (g v))"
    by (simp add: snprintf_def kMaxNumericSize_def)
  with numeric_stores [OF assms(1) True assms(2)] True show ?thesis by (simp add: put_double_def)
qed (use assms in \<open>simp add: stores_def put_double_def\<close>)

lemma word_bounds:
  "- (2 ^ 64) < sint (a::32 word)" "sint (a::32 word) < 2 ^ 64" "- (2 ^ 64) < uint (a::32 word)" "uint (a::32 word) < 2 ^ 64"
  "- (2 ^ 64) < sint (c::64 word)" "sint (c::64 word) < 2 ^ 64" "- (2 ^ 64) < uint (c::64 word)" "uint (c::64 word) < 2 ^ 64"
  using sint_range_size [of a] sint_range_size [of c] unsigned_less [of a, where 'a = int] unsigned_less [of c, where 'a = int]
    order_less_le_trans [OF _ unsigned_greater_eq [of a, where 'a = int], of "- (2 ^ 64)"]
    order_less_le_trans [OF _ unsigned_greater_eq [of c, where 'a = int], of "- (2 ^ 64)"]
  by (simp_all add: word_size)

lemma put_stores:
  assumes "fb_inv b" and "item_ok g i"
  shows "stores (put_item g i b) b (if is_numeric i then avail b \<ge> kMaxNumericSize else avail b > int (length (item_text g i))) (item_text g i)"
proof (cases i)
  case (ShortItem v)
  have "sint (scast v :: 32 word) = sint v" by (simp add: sint_up_scast is_up)
  with ShortItem formatInteger_stores [OF assms(1) word_bounds(1,2), of "scast v"] show ?thesis
    by (simp add: put_short_def put_int_def)
next
  case (UShortItem v)
  have "uint (ucast v :: 32 word) = uint v" by (simp add: uint_up_ucast is_up)
  with UShortItem formatInteger_stores [OF assms(1) word_bounds(3,4), of "ucast v"] show ?thesis
    by (simp add: put_ushort_def put_uint_def)
next
  case (TItem v)
  with assms(2) have "snd v = length (fst v)" "length (fst v) < 2 ^ 31" by (auto simp: T_new_def split: if_splits)
  with TItem append_stores [OF assms(1)] show ?thesis by (simp add: put_T_def to_int32_small)
next
  case (FmtItem v)
  with assms(2) have "fmt_length v = int (length (fmt_buf v))" by (cases v) (auto simp: Fmt_new_def snprintf_def split: if_splits)
  with FmtItem append_stores [OF assms(1)] show ?thesis by (simp add: put_Fmt_def LogStream_append_def)
next
  case (BoolItem v)
  with append_stores [OF assms(1), of "if v then ''1'' else ''0''"] show ?thesis by (simp add: put_bool_def split: if_splits)
next
  case (CharItem v)
  with append_stores [OF assms(1), of "[v]"] show ?thesis by (simp add: put_char_def)
qed (use assms append_stores [OF assms(1)] double_stores [OF assms(1)] pointer_stores [OF assms(1)]
       formatInteger_stores [OF assms(1) word_bounds(1,2)] formatInteger_stores [OF assms(1) word_bounds(3,4)]
       formatInteger_stores [OF assms(1) word_bounds(5,6)] formatInteger_stores [OF assms(1) word_bounds(7,8)]
     in \<open>simp_all add: put_int_def put_uint_def put_long_def put_ulong_def put_longlong_def put_ulonglong_def
       put_cstr_def put_string_def put_float_def to_int32_small\<close>)

lemma put_refines:
  assumes "fb_inv b" and "item_ok g i"
  shows "\<exists>b'. put_item g i b = Inr b' \<and> fb_inv b' \<and> length (fb_data b') = length (fb_data b)
           \<and> fb_text b' = spec_put g (length (fb_data b)) i (fb_text b)"
proof -
  have "(if is_numeric i then avail b \<ge> kMaxNumericSize else avail b > int (length (item_text g i)))
      = (let room = length (fb_data b) - length (fb_text b) in
         if is_numeric i then 32 \<le> room else length (item_text g i) < room)"
    using assms(1) by (auto simp: length_fb_text avail_def kMaxNumericSize_def fb_inv_def)
  with put_stores [OF assms] show ?thesis by (simp add: stores_def spec_put_def Let_def)
qed

lemma put_all_refines:
  assumes "fb_inv b" and "list_all (item_ok g) items"
  shows "\<exists>b'. foldR (put_item g) items b = Inr b' \<and> fb_inv b' \<and> length (fb_data b') = length (fb_data b)
           \<and> fb_text b' = fold (spec_put g (length (fb_data b))) items (fb_text b)"
  using assms
proof (induction items arbitrary: b)
  case (Cons i items)
  from put_refines [of b g i] Cons.prems obtain b1 where b1: "put_item g i b = Inr b1" "fb_inv b1"
    "length (fb_data b1) = length (fb_data b)" "fb_text b1 = spec_put g (length (fb_data b)) i (fb_text b)" by auto
  from Cons.IH [OF b1(2)] Cons.prems b1 show ?case by auto
qed simp

section \<open>Properties\<close>

text \<open>
  \<open>convert\<close>, the division loop with its table indexed by positive and negative remainders, prints every
  integer as its decimal numeral, the most negative one of any width included, and stores it
  with a null character when the array has room for both.
\<close>

theorem convert_decimal:
  assumes "p + length (dec_int v) < length buf"
  shows "convert buf p v = Inr (take p buf @ dec_int v @ [NUL] @ drop (p + length (dec_int v) + 1) buf, length (dec_int v))
           \<and> val_int (dec_int v) = v"
  using assms by (simp_all add: convert_def convert_text_dec write_range_ok Let_def)

theorem convert_decimal_witness:
  "convert (replicate 14 CHR ''x'') 1 (- 2147483648) = Inr (''x-2147483648'' @ [NUL] @ ''x'', 11)"
proof -
  have "dec_int (- 2147483648) = ''-2147483648''"
    by (simp add: dec_int_def dec_nat.simps digit_char_def char_of_def bit_Suc_0_iff)
  then show ?thesis using convert_decimal [of 1 "- 2147483648" "replicate 14 CHR ''x''"]
    by (simp add: numeral_eq_Suc)
qed



text \<open>
  A pointer is printed as \<open>0x\<close> and hexadecimal digits whose value is the address.
\<close>

theorem pointer_hex:
  assumes "fb_inv b" and "avail b \<ge> kMaxNumericSize"
  shows "\<exists>b' h. put_pointer p b = Inr b' \<and> asString b' = Inr (fb_text b @ ''0x'' @ h) \<and> val_hex h = unat p \<and> length h \<le> 16"
proof -
  have "unat p < 16 ^ 16" using unsigned_less [of p] by simp
  then have "length (rev (convertHex_loop (unat p))) \<le> 16" using length_hex_loop by simp
  moreover from pointer_stores [OF assms(1), of p] assms(2) obtain b' where "put_pointer p b = Inr b'" "fb_inv b'"
    "fb_text b' = fb_text b @ ''0x'' @ rev (convertHex_loop (unat p))" by (auto simp: stores_def)
  ultimately show ?thesis
    using val_hex_loop [of "unat p"] by (intro exI [of _ b'] exI [of _ "rev (convertHex_loop (unat p))"]) (simp add: asString_text)
qed

theorem pointer_hex_witness:
  "\<exists>b' h. put_pointer 0xff (FixedBuffer_new (replicate 40 CHR ''?'')) = Inr b' \<and> asString b' = Inr (''0x'' @ h) \<and> val_hex h = 255"
  using pointer_hex [of "FixedBuffer_new (replicate 40 CHR ''?'')" "0xff"]
  by (auto simp: fb_inv_def FixedBuffer_new_def avail_def kMaxNumericSize_def fb_text_def)

end
