(* ===== verification/LogFile.thy ===== *)
theory LogFile
  imports Timestamp
begin

text \<open>
  \<^verbatim>\<open>muduo/logging/LogFile.h\<close> and \<^verbatim>\<open>LogFile.cc\<close>: log files that are rolled by size and by day. A file is
  the bytes handed to the C library and how many of them have been flushed; the files that were
  closed are kept as history. The readings of \<open>time(2)\<close>, the success of \<open>fopen\<close> and the answers of
  \<open>fwrite_unlocked\<close> are arguments.
\<close>

section \<open>LogFile::File\<close>

record stdio_file =
  f_name :: string
  f_content :: string
  f_flushed :: nat
  writtenBytes :: nat

text \<open>\<open>setbuffer\<close> on the null pointer of a failed \<open>fopen\<close> is an access to no object.\<close>

definition File_new :: "bool \<Rightarrow> string \<Rightarrow> stdio_file result" where
  "File_new opens name =
     (if opens then Inr \<lparr>f_name = name, f_content = [], f_flushed = 0, writtenBytes = 0\<rparr> else Inl DanglingPointer)"

definition File_flush :: "stdio_file \<Rightarrow> stdio_file" where
  "File_flush f = f\<lparr>f_flushed := length (f_content f)\<rparr>"

text \<open>\<open>fclose\<close> flushes.\<close>

definition File_delete :: "stdio_file \<Rightarrow> stdio_file" where
  "File_delete f = File_flush f"

text \<open>
  \<open>fwrite_unlocked\<close> takes some of the bytes, at most all: \<open>ans k\<close> is the answer to the \<open>k\<close>-th call.
\<close>

definition File_write :: "nat \<Rightarrow> string \<Rightarrow> stdio_file \<Rightarrow> nat \<times> stdio_file" where
  "File_write a bytes f =
     (let x = min a (length bytes) in (x, f\<lparr>f_content := f_content f @ take x bytes\<rparr>))"

function File_append_loop :: "(nat \<Rightarrow> nat) \<Rightarrow> nat \<Rightarrow> string \<Rightarrow> stdio_file \<Rightarrow> stdio_file" where
  "File_append_loop ans k rest f =
     (if 0 < length rest then
        (let (x, f1) = File_write (ans k) rest f in
         if x = 0 then f1 else File_append_loop ans (Suc k) (drop x rest) f1)
      else f)"
  by pat_completeness auto
termination
  by (relation "measure (\<lambda>(ans, k, rest, f). length rest)") (auto simp: File_write_def Let_def)

declare File_append_loop.simps [simp del]

definition File_append :: "(nat \<Rightarrow> nat) \<Rightarrow> string \<Rightarrow> stdio_file \<Rightarrow> stdio_file" where
  "File_append ans logline f =
     (let (n, f1) = File_write (ans 0) logline f;
          f2 = File_append_loop ans 1 (drop n logline) f1
      in f2\<lparr>writtenBytes := size_add (writtenBytes f2) (length logline)\<rparr>)"

section \<open>LogFile\<close>

record log_file =
  lf_basename :: string
  rollSize :: nat
  flushInterval :: int
  lf_count :: int
  hasMutex :: bool
  startOfPeriod :: int
  lastRoll :: int
  lastFlush :: int
  lf_file :: "stdio_file option"
  closedFiles :: "stdio_file list"

definition kCheckTimeRoll :: int where "kCheckTimeRoll = 1024"

definition kRollPerSeconds :: int where "kRollPerSeconds = 60 * 60 * 24"

text \<open>\<open>strftime\<close> with the format \<open>.%Y%m%d-%H%M%S\<close>.\<close>

definition strftime_name :: "tm \<Rightarrow> string" where
  "strftime_name t = ''.'' @ dec_int (tm_year t + 1900) @ fmt_0d 2 (tm_mon t + 1) @ fmt_0d 2 (tm_mday t) @ ''-''
     @ fmt_0d 2 (tm_hour t) @ fmt_0d 2 (tm_min t) @ fmt_0d 2 (tm_sec t)"

definition getLogFileName :: "int \<Rightarrow> int \<Rightarrow> string \<Rightarrow> string" where
  "getLogFileName pid now basename =
     basename @ strftime_name (gmtime_r now) @ fst (snprintf 32 (''.'' @ dec_int pid)) @ ''.log''"

definition start_of_period :: "int \<Rightarrow> int" where
  "start_of_period now = now sdiv kRollPerSeconds * kRollPerSeconds"

definition rollFile :: "int \<Rightarrow> bool \<Rightarrow> int \<Rightarrow> log_file \<Rightarrow> log_file result" where
  "rollFile pid opens now s =
     (let filename = getLogFileName pid now (lf_basename s); start = start_of_period now in
      if now > lastRoll s then
        bindR (File_new opens filename) (\<lambda>f.
          Inr (s\<lparr>lastRoll := now, lastFlush := now, startOfPeriod := start, lf_file := Some f,
                 closedFiles := closedFiles s @ map File_delete (case lf_file s of None \<Rightarrow> [] | Some g \<Rightarrow> [g])\<rparr>))
      else Inr s)"

definition LogFile_new :: "int \<Rightarrow> bool \<Rightarrow> int \<Rightarrow> string \<Rightarrow> nat \<Rightarrow> bool \<Rightarrow> int \<Rightarrow> log_file result" where
  "LogFile_new pid opens now basename rs threadSafe fi =
     assertR (CHR ''/'' \<notin> set basename)
       (rollFile pid opens now
         \<lparr>lf_basename = basename, rollSize = rs, flushInterval = fi, lf_count = 0, hasMutex = threadSafe,
          startOfPeriod = 0, lastRoll = 0, lastFlush = 0, lf_file = None, closedFiles = []\<rparr>)"

text \<open>
  One append: the answers of \<open>fwrite_unlocked\<close>, the reading of the clock in the check of the period, and for a new
  file the reading of the clock and the success of \<open>fopen\<close>.
\<close>

record append_io =
  io_write :: "nat \<Rightarrow> nat"
  io_now :: int
  io_roll_now :: int
  io_opens :: bool

definition append_unlocked :: "int \<Rightarrow> append_io \<Rightarrow> string \<Rightarrow> log_file \<Rightarrow> log_file result" where
  "append_unlocked pid io logline s =
     (case lf_file s of
        None \<Rightarrow> Inl DanglingPointer
      | Some f0 \<Rightarrow>
          let f = File_append (io_write io) logline f0; s1 = s\<lparr>lf_file := Some f\<rparr> in
          if writtenBytes f > rollSize s1 then rollFile pid (io_opens io) (io_roll_now io) s1
          else if lf_count s1 > kCheckTimeRoll then
            (let s2 = s1\<lparr>lf_count := 0\<rparr>; now = io_now io; thisPeriod = start_of_period now in
             if thisPeriod \<noteq> startOfPeriod s2 then rollFile pid (io_opens io) (io_roll_now io) s2
             else if now - lastFlush s2 > flushInterval s2 then Inr (s2\<lparr>lastFlush := now, lf_file := Some (File_flush f)\<rparr>)
             else Inr s2)
          else Inr (s1\<lparr>lf_count := lf_count s1 + 1\<rparr>))"

text \<open>With or without the mutex the calls are the same; the mutex makes them atomic.\<close>

definition LogFile_append :: "int \<Rightarrow> append_io \<Rightarrow> string \<Rightarrow> log_file \<Rightarrow> log_file result" where
  "LogFile_append pid io logline s =
     (if hasMutex s then append_unlocked pid io logline s else append_unlocked pid io logline s)"

definition LogFile_flush :: "log_file \<Rightarrow> log_file result" where
  "LogFile_flush s =
     (case lf_file s of None \<Rightarrow> Inl DanglingPointer | Some f \<Rightarrow> Inr (s\<lparr>lf_file := Some (File_flush f)\<rparr>))"

text \<open>\<open>LogFile::~LogFile\<close> destroys the \<open>File\<close>.\<close>

definition LogFile_delete :: "log_file \<Rightarrow> log_file" where
  "LogFile_delete s = s\<lparr>lf_file := None,
     closedFiles := closedFiles s @ map File_delete (case lf_file s of None \<Rightarrow> [] | Some g \<Rightarrow> [g])\<rparr>"

section \<open>Facts\<close>

definition all_files :: "log_file \<Rightarrow> stdio_file list" where
  "all_files s = closedFiles s @ (case lf_file s of None \<Rightarrow> [] | Some f \<Rightarrow> [f])"

definition contents :: "log_file \<Rightarrow> string list" where
  "contents s = map f_content (all_files s)"

definition names :: "log_file \<Rightarrow> string list" where
  "names s = map f_name (all_files s)"

text \<open>
  There is a current file; the closed files are flushed to the end, the size that decides on the next roll
  is that of the current file, the period and the counter are consistent.
\<close>

definition log_file_inv :: "log_file \<Rightarrow> bool" where
  "log_file_inv s \<longleftrightarrow> (\<exists>f. lf_file s = Some f \<and> writtenBytes f = length (f_content f) \<and> f_flushed f \<le> length (f_content f))
     \<and> (\<forall>f \<in> set (closedFiles s). f_flushed f = length (f_content f))
     \<and> 0 \<le> lf_count s \<and> lf_count s \<le> kCheckTimeRoll + 1 \<and> startOfPeriod s = start_of_period (lastRoll s)"

lemma File_append_loop_all:
  assumes "\<forall>k. 0 < ans k"
  shows "File_append_loop ans k rest f = f\<lparr>f_content := f_content f @ rest\<rparr>"
  using assms
proof (induction ans k rest f rule: File_append_loop.induct)
  case (1 ans k rest f)
  show ?case
  proof (cases rest)
    case Nil
    then show ?thesis by (subst File_append_loop.simps) simp
  next
    case (Cons c cs)
    let ?x = "min (ans k) (length rest)"
    have x: "?x \<noteq> 0" using "1.prems" Cons by (simp add: min_def)
    have w: "File_write (ans k) rest f = (?x, f\<lparr>f_content := f_content f @ take ?x rest\<rparr>)"
      by (simp add: File_write_def Let_def)
    from "1.IH" [OF _ w [symmetric] refl x "1.prems"] Cons x w show ?thesis
      by (subst File_append_loop.simps) (simp del: take_append)
  qed
qed

lemma File_append_all:
  assumes "\<forall>k. 0 < ans k" and "writtenBytes f + length t < 2 ^ 64"
  shows "File_append ans t f = f\<lparr>f_content := f_content f @ t, writtenBytes := writtenBytes f + length t\<rparr>"
  using assms by (simp add: File_append_def File_write_def File_append_loop_all size_add_small Let_def)

text \<open>Whatever the answers are, the bytes taken of a line are a prefix of it.\<close>

lemma File_append_loop_prefix: "\<exists>n. File_append_loop ans k rest f = f\<lparr>f_content := f_content f @ take n rest\<rparr>"
proof (induction ans k rest f rule: File_append_loop.induct)
  case (1 ans k rest f)
  define x where "x = min (ans k) (length rest)"
  have w: "File_write (ans k) rest f = (x, f\<lparr>f_content := f_content f @ take x rest\<rparr>)" by (simp add: File_write_def Let_def x_def)
  show ?case
  proof (cases "0 < length rest \<and> x \<noteq> 0")
    case True
    then have x: "x \<noteq> 0" and r: "0 < length rest" by blast+
    from "1.IH" [OF r w [symmetric] refl x] obtain n where
      "File_append_loop ans (Suc k) (drop x rest) (f\<lparr>f_content := f_content f @ take x rest\<rparr>)
       = f\<lparr>f_content := (f_content f @ take x rest) @ take n (drop x rest)\<rparr>" by auto
    then have "File_append_loop ans k rest f = f\<lparr>f_content := f_content f @ take (x + n) rest\<rparr>"
      using x r w by (subst File_append_loop.simps) (simp add: take_add del: take_append)
    then show ?thesis by blast
  next
    case False
    then have "File_append_loop ans k rest f = f\<lparr>f_content := f_content f @ take 0 rest\<rparr>"
      using w by (subst File_append_loop.simps) auto
    then show ?thesis by blast
  qed
qed

lemma rollFile_cases:
  assumes "lf_file s = Some f"
  shows "rollFile pid True now s = Inr (if now > lastRoll s
     then s\<lparr>lastRoll := now, lastFlush := now, startOfPeriod := start_of_period now,
       lf_file := Some \<lparr>f_name = getLogFileName pid now (lf_basename s), f_content = [], f_flushed = 0, writtenBytes = 0\<rparr>,
       closedFiles := closedFiles s @ [File_flush f]\<rparr> else s)"
  using assms by (simp add: rollFile_def File_new_def File_delete_def Let_def)

text \<open>One append, when \<open>fopen\<close> succeeds and \<open>fwrite\<close> makes progress: the line goes to the current file, which may be closed after it.\<close>

definition same_file :: "string \<Rightarrow> log_file \<Rightarrow> log_file \<Rightarrow> bool" where
  "same_file t s s' \<longleftrightarrow> contents s' = butlast (contents s) @ [last (contents s) @ t] \<and> names s' = names s
     \<and> lastRoll s' = lastRoll s"

definition new_file :: "int \<Rightarrow> int \<Rightarrow> string \<Rightarrow> log_file \<Rightarrow> log_file \<Rightarrow> bool" where
  "new_file pid now t s s' \<longleftrightarrow> contents s' = butlast (contents s) @ [last (contents s) @ t, []]
     \<and> names s' = names s @ [getLogFileName pid now (lf_basename s)] \<and> lastRoll s < now \<and> lastRoll s' = now"

definition good_io :: "append_io \<Rightarrow> bool" where
  "good_io io \<longleftrightarrow> (\<forall>k. 0 < io_write io k) \<and> io_opens io"

lemma roll_step:
  assumes "lf_file s = Some f" and "lf_file u = Some (f\<lparr>f_content := f_content f @ t, writtenBytes := w\<rparr>)"
    and "closedFiles u = closedFiles s" "lastRoll u = lastRoll s" "lf_basename u = lf_basename s" and "log_file_inv u"
  shows "\<exists>s'. rollFile pid True now u = Inr s' \<and> log_file_inv s' \<and> lf_basename s' = lf_basename s \<and> rollSize s' = rollSize u
           \<and> (if now > lastRoll s then new_file pid now t s s' else same_file t s s')"
  using assms rollFile_cases [OF assms(2), of pid now]
  by (auto simp: log_file_inv_def new_file_def same_file_def contents_def names_def all_files_def File_flush_def kCheckTimeRoll_def)

lemma append_step:
  assumes inv: "log_file_inv s" and io: "good_io io" and f: "lf_file s = Some f" and sz: "length (f_content f) + length t < 2 ^ 64"
  shows "\<exists>s'. LogFile_append pid io t s = Inr s' \<and> log_file_inv s' \<and> lf_basename s' = lf_basename s \<and> rollSize s' = rollSize s
           \<and> (same_file t s s' \<or> new_file pid (io_roll_now io) t s s')
           \<and> (rollSize s < length (last (contents s')) \<longrightarrow> io_roll_now io \<le> lastRoll s)"
proof -
  let ?f = "f\<lparr>f_content := f_content f @ t, writtenBytes := writtenBytes f + length t\<rparr>"
  let ?s1 = "s\<lparr>lf_file := Some ?f\<rparr>"
  have fi: "writtenBytes f = length (f_content f)" "f_flushed f \<le> length (f_content f)" using inv f by (auto simp: log_file_inv_def)
  have fa: "File_append (io_write io) t f = ?f" using io sz fi by (intro File_append_all) (auto simp: good_io_def)
  have i1: "log_file_inv ?s1" "log_file_inv (?s1\<lparr>lf_count := 0\<rparr>)"
    using inv fi by (auto simp: log_file_inv_def kCheckTimeRoll_def)
  note r1 = roll_step [where s = s and f = f and t = t and u = ?s1 and w = "writtenBytes f + length t" and pid = pid and now = "io_roll_now io"]
  note r2 = roll_step [where s = s and f = f and t = t and u = "?s1\<lparr>lf_count := 0\<rparr>" and w = "writtenBytes f + length t" and pid = pid and now = "io_roll_now io"]
  have op: "io_opens io" using io by (simp add: good_io_def)
  have run: "LogFile_append pid io t s = (let s2 = ?s1\<lparr>lf_count := 0\<rparr>; now = io_now io in
      if writtenBytes ?f > rollSize s then rollFile pid True (io_roll_now io) ?s1
      else if lf_count s > kCheckTimeRoll then
        if start_of_period now \<noteq> startOfPeriod s then rollFile pid True (io_roll_now io) s2
        else if now - lastFlush s > flushInterval s then Inr (s2\<lparr>lastFlush := now, lf_file := Some (File_flush ?f)\<rparr>) else Inr s2
      else Inr (?s1\<lparr>lf_count := lf_count s + 1\<rparr>))"
    using f op by (simp add: LogFile_append_def append_unlocked_def fa Let_def)
  have len: "length (last (contents s')) \<le> (if same_file t s s' then length (f_content f) + length t else 0)"
    if "same_file t s s' \<or> new_file pid now t s s'" for s' now
    using that f by (auto simp: same_file_def new_file_def contents_def all_files_def)
  have nn: "\<not> same_file t s s'" if "new_file pid now t s s'" for s' now
    using that by (auto simp: same_file_def new_file_def)
  show ?thesis
  proof (cases "writtenBytes ?f > rollSize s")
    case True
    with run r1 f i1(1) obtain s' where s': "LogFile_append pid io t s = Inr s'" "log_file_inv s'" "lf_basename s' = lf_basename s"
      "rollSize s' = rollSize s" "if io_roll_now io > lastRoll s then new_file pid (io_roll_now io) t s s' else same_file t s s'"
      by (auto simp: Let_def)
    then show ?thesis using len [of s' "io_roll_now io"] nn [of "io_roll_now io" s'] by (auto split: if_splits)
  next
    case False
    then have small: "length (f_content f) + length t \<le> rollSize s" using fi by simp
    have same: "same_file t s s' \<Longrightarrow> \<not> rollSize s < length (last (contents s'))" for s' using len [of s'] small by auto
    consider (roll) "lf_count s > kCheckTimeRoll" "start_of_period (io_now io) \<noteq> startOfPeriod s"
      | (flush) "lf_count s > kCheckTimeRoll" "start_of_period (io_now io) = startOfPeriod s" "io_now io - lastFlush s > flushInterval s"
      | (zero) "lf_count s > kCheckTimeRoll" "start_of_period (io_now io) = startOfPeriod s" "\<not> io_now io - lastFlush s > flushInterval s"
      | (count) "\<not> lf_count s > kCheckTimeRoll" by blast
    then show ?thesis
    proof cases
      case roll
      with run False r2 f i1(2) obtain s' where s': "LogFile_append pid io t s = Inr s'" "log_file_inv s'" "lf_basename s' = lf_basename s"
        "rollSize s' = rollSize s" "if io_roll_now io > lastRoll s then new_file pid (io_roll_now io) t s s' else same_file t s s'"
        by (auto simp: Let_def)
      then show ?thesis using len [of s' "io_roll_now io"] nn [of "io_roll_now io" s'] same [of s'] by (auto split: if_splits)
    qed (use run False inv fi f same in \<open>auto simp: Let_def log_file_inv_def same_file_def contents_def names_def all_files_def
          File_flush_def kCheckTimeRoll_def\<close>)
  qed
qed

section \<open>File names\<close>

text \<open>The clock reads a year of four digits.\<close>

definition year4 :: "int \<Rightarrow> bool" where
  "year4 t \<longleftrightarrow> 0 < t \<and> 1000 \<le> tm_year (gmtime_r t) + 1900 \<and> tm_year (gmtime_r t) + 1900 \<le> 9999"

lemma fmt_0d_inj: "0 \<le> i \<Longrightarrow> 0 \<le> j \<Longrightarrow> fmt_0d w i = fmt_0d w j \<Longrightarrow> i = j"
  by (metis val_nat_fmt_0d eq_nat_nat_iff)

definition day_of :: "int \<Rightarrow> int" where
  "day_of t = t div 86400 + kJulianDayOf1970_01_01"

lemma day_of_range: "0 < t \<Longrightarrow> - 32044 \<le> day_of t"
  using pos_imp_zdiv_nonneg_iff [of 86400 t]
  by (simp add: day_of_def kJulianDayOf1970_01_01_def getJulianDayNumber_def sdiv_nonneg)

lemma gmtime_sel:
  "tm_year (gmtime_r t) = ymd_year (getYearMonthDay (day_of t)) - 1900"
  "tm_mon (gmtime_r t) = ymd_month (getYearMonthDay (day_of t)) - 1"
  "tm_mday (gmtime_r t) = ymd_day (getYearMonthDay (day_of t))"
  "tm_hour (gmtime_r t) = t mod 86400 div 3600" "tm_min (gmtime_r t) = t mod 86400 div 60 mod 60"
  "tm_sec (gmtime_r t) = t mod 86400 mod 60"
  by (simp_all only: gmtime_r_def Let_def day_of_def tm.simps)

lemma gmtime_ranges:
  assumes "0 < t"
  shows "0 \<le> tm_mon (gmtime_r t) + 1" "tm_mon (gmtime_r t) + 1 < 100" "0 \<le> tm_mday (gmtime_r t)" "tm_mday (gmtime_r t) < 100"
    "0 \<le> tm_hour (gmtime_r t)" "tm_hour (gmtime_r t) < 100" "0 \<le> tm_min (gmtime_r t)" "tm_min (gmtime_r t) < 100"
    "0 \<le> tm_sec (gmtime_r t)" "tm_sec (gmtime_r t) < 100"
proof -
  from jdn_of_ymd(2) [OF day_of_range [OF assms]] show "0 \<le> tm_mon (gmtime_r t) + 1" "tm_mon (gmtime_r t) + 1 < 100"
    "0 \<le> tm_mday (gmtime_r t)" "tm_mday (gmtime_r t) < 100"
    unfolding gmtime_sel by (auto simp: calendar_date_def days_in_month_def split: if_splits)
  have "t mod 86400 \<le> 86399" using pos_mod_bound [of 86400 t] by simp
  from zdiv_mono1 [OF this, of 3600] have "t mod 86400 div 3600 < 24" by simp
  then show "0 \<le> tm_hour (gmtime_r t)" "tm_hour (gmtime_r t) < 100" "0 \<le> tm_min (gmtime_r t)" "tm_min (gmtime_r t) < 100"
    "0 \<le> tm_sec (gmtime_r t)" "tm_sec (gmtime_r t) < 100"
    using pos_mod_bound [of 60 "t mod 86400 div 60"] pos_mod_bound [of 60 "t mod 86400"]
    unfolding gmtime_sel by (simp_all add: pos_imp_zdiv_nonneg_iff)
qed

lemma seconds_split: "(r::int) = 3600 * (r div 3600) + 60 * (r div 60 mod 60) + r mod 60"
proof -
  have "r div 3600 = r div 60 div 60" using zdiv_zmult2_eq [of 60 r 60] by simp
  moreover have "r = 60 * (r div 60) + r mod 60" by (rule mult_div_mod_eq [symmetric])
  moreover have "r div 60 = 60 * (r div 60 div 60) + r div 60 mod 60" by (rule mult_div_mod_eq [symmetric])
  ultimately show ?thesis by linarith
qed

lemma gmtime_r_inj:
  assumes "0 < t" "0 < u" and "tm_year (gmtime_r t) = tm_year (gmtime_r u)" "tm_mon (gmtime_r t) = tm_mon (gmtime_r u)"
    "tm_mday (gmtime_r t) = tm_mday (gmtime_r u)" "tm_hour (gmtime_r t) = tm_hour (gmtime_r u)"
    "tm_min (gmtime_r t) = tm_min (gmtime_r u)" "tm_sec (gmtime_r t) = tm_sec (gmtime_r u)"
  shows "t = u"
proof -
  have "ymd_year (getYearMonthDay (day_of t)) = ymd_year (getYearMonthDay (day_of u))"
    "ymd_month (getYearMonthDay (day_of t)) = ymd_month (getYearMonthDay (day_of u))"
    "ymd_day (getYearMonthDay (day_of t)) = ymd_day (getYearMonthDay (day_of u))"
    using assms(3-5) unfolding gmtime_sel by simp_all
  with jdn_of_ymd(1) [OF day_of_range [OF assms(1)]] jdn_of_ymd(1) [OF day_of_range [OF assms(2)]] have "day_of t = day_of u"
    by metis
  then have d: "t div 86400 = u div 86400" by (simp add: day_of_def)
  have "t mod 86400 = u mod 86400"
    using seconds_split [of "t mod 86400"] seconds_split [of "u mod 86400"] assms(6-8) unfolding gmtime_sel by linarith
  with d show ?thesis using mult_div_mod_eq [of 86400 t] mult_div_mod_eq [of 86400 u] by linarith
qed

lemma length_dec_year: "1000 \<le> y \<Longrightarrow> y \<le> 9999 \<Longrightarrow> length (dec_int y) = 4"
proof -
  assume y: "1000 \<le> y" "y \<le> 9999"
  then have "nat y < 10 ^ 4" "10 ^ 3 \<le> nat y" by simp_all
  with length_dec_nat_le [of "nat y" 4] length_dec_nat_ge [of 3 "nat y"] y show ?thesis by (simp add: dec_int_def)
qed

lemma name_parts:
  assumes "year4 t"
  shows "length (dec_int (tm_year (gmtime_r t) + 1900)) = 4" "length (fmt_0d 2 (tm_mon (gmtime_r t) + 1)) = 2"
    "length (fmt_0d 2 (tm_mday (gmtime_r t))) = 2" "length (fmt_0d 2 (tm_hour (gmtime_r t))) = 2"
    "length (fmt_0d 2 (tm_min (gmtime_r t))) = 2" "length (fmt_0d 2 (tm_sec (gmtime_r t))) = 2"
proof -
  have p: "0 < t" using assms by (simp add: year4_def)
  note r = gmtime_ranges [OF p]
  have f: "length (fmt_0d 2 v) = 2" if "0 \<le> v" "v < 100" for v using length_fmt_0d [of v 2] that by simp
  show "length (dec_int (tm_year (gmtime_r t) + 1900)) = 4" using assms length_dec_year by (simp add: year4_def)
  show "length (fmt_0d 2 (tm_mon (gmtime_r t) + 1)) = 2" "length (fmt_0d 2 (tm_mday (gmtime_r t))) = 2"
    "length (fmt_0d 2 (tm_hour (gmtime_r t))) = 2" "length (fmt_0d 2 (tm_min (gmtime_r t))) = 2"
    "length (fmt_0d 2 (tm_sec (gmtime_r t))) = 2"
    using f [OF r(1,2)] f [OF r(3,4)] f [OF r(5,6)] f [OF r(7,8)] f [OF r(9,10)] by blast+
qed

lemma getLogFileName_inj:
  assumes "year4 t" "year4 u" and "getLogFileName pid t b = getLogFileName pid u b"
  shows "t = u"
proof -
  have p: "0 < t" "0 < u" using assms by (simp_all add: year4_def)
  note r = gmtime_ranges [OF p(1)] and r' = gmtime_ranges [OF p(2)]
  have "strftime_name (gmtime_r t) = strftime_name (gmtime_r u)" using assms(3) by (simp add: getLogFileName_def)
  then have "dec_int (tm_year (gmtime_r t) + 1900) = dec_int (tm_year (gmtime_r u) + 1900)"
      and "fmt_0d 2 (tm_mon (gmtime_r t) + 1) = fmt_0d 2 (tm_mon (gmtime_r u) + 1)"
      and "fmt_0d 2 (tm_mday (gmtime_r t)) = fmt_0d 2 (tm_mday (gmtime_r u))"
      and "fmt_0d 2 (tm_hour (gmtime_r t)) = fmt_0d 2 (tm_hour (gmtime_r u))"
      and "fmt_0d 2 (tm_min (gmtime_r t)) = fmt_0d 2 (tm_min (gmtime_r u))"
      and "fmt_0d 2 (tm_sec (gmtime_r t)) = fmt_0d 2 (tm_sec (gmtime_r u))"
    using name_parts [OF assms(1)] name_parts [OF assms(2)] unfolding strftime_name_def by simp_all
  then have "tm_year (gmtime_r t) = tm_year (gmtime_r u)" "tm_mon (gmtime_r t) + 1 = tm_mon (gmtime_r u) + 1"
    "tm_mday (gmtime_r t) = tm_mday (gmtime_r u)" "tm_hour (gmtime_r t) = tm_hour (gmtime_r u)"
    "tm_min (gmtime_r t) = tm_min (gmtime_r u)" "tm_sec (gmtime_r t) = tm_sec (gmtime_r u)"
    using fmt_0d_inj [OF r(1) r'(1)] fmt_0d_inj [OF r(3) r'(3)] fmt_0d_inj [OF r(5) r'(5)] fmt_0d_inj [OF r(7) r'(7)]
      fmt_0d_inj [OF r(9) r'(9)] by (simp_all add: dec_int_inj)
  then show ?thesis by (intro gmtime_r_inj [OF p]) simp_all
qed

section \<open>Runs\<close>

text \<open>The files of a run: the lines of each, and the times in their names.\<close>

definition run_inv :: "int \<Rightarrow> string list list \<Rightarrow> int list \<Rightarrow> log_file \<Rightarrow> bool" where
  "run_inv pid gs ts s \<longleftrightarrow> log_file_inv s \<and> contents s = map concat gs \<and> gs \<noteq> [] \<and> ts \<noteq> []
     \<and> names s = map (\<lambda>t. getLogFileName pid t (lf_basename s)) ts \<and> sorted_wrt (<) ts \<and> last ts = lastRoll s
     \<and> (\<forall>t \<in> set ts. year4 t)"

lemma sorted_snoc: "sorted_wrt (<) (ts :: int list) \<Longrightarrow> ts \<noteq> [] \<Longrightarrow> last ts < t \<Longrightarrow> sorted_wrt (<) (ts @ [t])"
  by (cases ts rule: rev_cases) (auto simp: sorted_wrt_append)

lemma concat_snoc_group: "gs \<noteq> [] \<Longrightarrow> concat (butlast gs @ [last gs @ [t]]) = concat gs @ [t]"
  by (cases gs rule: rev_cases) auto

lemma map_butlast_last: "gs \<noteq> [] \<Longrightarrow> butlast (map concat gs) @ [last (map concat gs) @ t] = map concat (butlast gs @ [last gs @ [t]])"
  by (simp add: map_butlast [symmetric] last_map)

lemma run_step:
  assumes inv: "run_inv pid gs ts s" and io: "good_io io" "year4 (io_roll_now io)"
    and sz: "length (concat (concat gs)) + length t < 2 ^ 64"
  shows "\<exists>gs' ts' s'. LogFile_append pid io t s = Inr s' \<and> run_inv pid gs' ts' s' \<and> concat gs' = concat gs @ [t]"
proof -
  from inv obtain f where f: "lf_file s = Some f" "last (contents s) = f_content f" "gs \<noteq> []"
    by (auto simp: run_inv_def log_file_inv_def contents_def all_files_def)
  have "f_content f = concat (last gs)" using inv f by (simp add: run_inv_def last_map)
  then have "length (f_content f) \<le> length (concat (concat gs))"
    using f(3) by (cases gs rule: rev_cases) (simp_all)
  then have "length (f_content f) + length t < 2 ^ 64" using sz by simp
  from append_step [OF _ io(1) f(1) this, of pid] inv obtain s' where s': "LogFile_append pid io t s = Inr s'" "log_file_inv s'"
    "lf_basename s' = lf_basename s" "same_file t s s' \<or> new_file pid (io_roll_now io) t s s'" by (auto simp: run_inv_def)
  let ?gs = "butlast gs @ [last gs @ [t]]"
  from s'(4) show ?thesis
  proof
    assume "same_file t s s'"
    then have "run_inv pid ?gs ts s'" using inv s' f(3) map_butlast_last [of gs t] by (simp add: run_inv_def same_file_def)
    then show ?thesis using s'(1) concat_snoc_group [OF f(3)] by blast
  next
    assume n: "new_file pid (io_roll_now io) t s s'"
    have "map concat (?gs @ [[]]) = butlast (contents s) @ [last (contents s) @ t, []]"
      using inv map_butlast_last [OF f(3), of t] by (simp add: run_inv_def)
    then have "run_inv pid (?gs @ [[]]) (ts @ [io_roll_now io]) s'"
      using inv s' io(2) n sorted_snoc by (auto simp: run_inv_def new_file_def)
    then show ?thesis using s'(1) concat_snoc_group [OF f(3)] by (intro exI conjI) auto
  qed
qed

lemma run_all:
  assumes "run_inv pid gs ts s" and "\<forall>(io, t) \<in> set xs. good_io io \<and> year4 (io_roll_now io)"
    and "length (concat (concat gs)) + length (concat (map snd xs)) < 2 ^ 64"
  shows "\<exists>gs' ts' s'. foldR (\<lambda>(io, t). LogFile_append pid io t) xs s = Inr s' \<and> run_inv pid gs' ts' s' \<and> concat gs' = concat gs @ map snd xs"
  using assms
proof (induction xs arbitrary: gs ts s)
  case (Cons x xs)
  obtain io t where x: "x = (io, t)" by (cases x)
  from run_step [OF Cons.prems(1), of io t] Cons.prems(2,3) x obtain gs1 ts1 s1
    where s1: "LogFile_append pid io t s = Inr s1" "run_inv pid gs1 ts1 s1" "concat gs1 = concat gs @ [t]" by auto
  have "length (concat (concat gs1)) + length (concat (map snd xs)) < 2 ^ 64" using Cons.prems(3) s1(3) x by simp
  from Cons.IH [OF s1(2) _ this] Cons.prems(2) s1 x show ?case by auto
qed auto

lemma LogFile_new_run:
  assumes "CHR ''/'' \<notin> set b" and "year4 now"
  shows "\<exists>s. LogFile_new pid True now b rs safe fi = Inr s \<and> run_inv pid [[]] [now] s"
  using assms by (auto simp: LogFile_new_def rollFile_def File_new_def Let_def run_inv_def log_file_inv_def contents_def
      names_def all_files_def kCheckTimeRoll_def year4_def)

section \<open>Properties\<close>

text \<open>
  C22. A log file whose writes make progress keeps every line: over any run of appends, whenever the file is
  rolled, the files in order hold all lines in order, no line is split over two files, the files
  have different names, and all but the current one are flushed to the end.
\<close>

theorem LogFile_keeps_lines:
  assumes "CHR ''/'' \<notin> set b" and "year4 now" and "\<forall>(io, t) \<in> set xs. good_io io \<and> year4 (io_roll_now io)"
    and "length (concat (map snd xs)) < 2 ^ 64"
  shows "\<exists>s s' groups. LogFile_new pid True now b rs safe fi = Inr s
     \<and> foldR (\<lambda>(io, t). LogFile_append pid io t) xs s = Inr s'
     \<and> concat groups = map snd xs \<and> contents s' = map concat groups \<and> distinct (names s')
     \<and> (\<forall>f \<in> set (closedFiles s'). f_flushed f = length (f_content f))"
proof -
  from LogFile_new_run [OF assms(1,2)] obtain s where s: "LogFile_new pid True now b rs safe fi = Inr s" "run_inv pid [[]] [now] s"
    by blast
  from run_all [OF s(2) assms(3)] assms(4) obtain gs ts s' where s': "foldR (\<lambda>(io, t). LogFile_append pid io t) xs s = Inr s'"
    "run_inv pid gs ts s'" "concat gs = map snd xs" by auto
  have "distinct ts" using s'(2) by (simp add: run_inv_def strict_sorted_iff)
  then have "distinct (names s')" using s'(2) getLogFileName_inj by (auto simp: run_inv_def distinct_map inj_on_def)
  with s s' show ?thesis by (auto simp: run_inv_def log_file_inv_def)
qed

theorem LogFile_keeps_lines_witness:
  "\<exists>s s' groups. LogFile_new 7 True 86401 ''log'' 3 False 3 = Inr s
     \<and> foldR (\<lambda>(io, t). LogFile_append 7 io t)
         [(\<lparr>io_write = (\<lambda>_. 2), io_now = 86402, io_roll_now = 86402, io_opens = True\<rparr>, ''abcd''),
          (\<lparr>io_write = (\<lambda>_. 2), io_now = 86402, io_roll_now = 86402, io_opens = True\<rparr>, ''ef'')] s = Inr s'
     \<and> concat groups = [''abcd'', ''ef''] \<and> contents s' = map concat groups \<and> distinct (names s')"
proof -
  let ?xs = "[(\<lparr>io_write = (\<lambda>_. 2), io_now = 86402, io_roll_now = 86402, io_opens = True\<rparr>, ''abcd''),
    (\<lparr>io_write = (\<lambda>_. 2), io_now = 86402, io_roll_now = 86402, io_opens = True\<rparr>, ''ef'')]"
  have y: "year4 86401" "year4 86402"
    by code_simp+
  have "\<forall>(io, t) \<in> set ?xs. good_io io \<and> year4 (io_roll_now io)" by (simp add: good_io_def y)
  moreover have "CHR ''/'' \<notin> set ''log''" "length (concat (map snd ?xs)) < 2 ^ 64" by simp_all
  ultimately obtain s s' groups where "LogFile_new 7 True 86401 ''log'' 3 False 3 = Inr s"
    "foldR (\<lambda>(io, t). LogFile_append 7 io t) ?xs s = Inr s'" "concat groups = map snd ?xs" "contents s' = map concat groups"
    "distinct (names s')" using LogFile_keeps_lines [of "''log''" 86401 ?xs 7 3 False 3] y(1) by blast
  then show ?thesis by (intro exI [of _ s] exI [of _ s'] exI [of _ groups]) simp
qed

text \<open>
  The current file exceeds the roll size after an append only when the clock has not moved past the second
  of the last roll.
\<close>

theorem LogFile_rolls:
  assumes "log_file_inv s" and "good_io io" and "lf_file s = Some f" and "length (f_content f) + length t < 2 ^ 64"
    and "lastRoll s < io_roll_now io"
  shows "\<exists>s' f'. LogFile_append pid io t s = Inr s' \<and> log_file_inv s' \<and> lf_file s' = Some f' \<and> writtenBytes f' \<le> rollSize s"
proof -
  from append_step [OF assms(1-4), of pid] assms(5) obtain s' where s': "LogFile_append pid io t s = Inr s'" "log_file_inv s'"
    "length (last (contents s')) \<le> rollSize s" by (auto simp: not_less)
  then show ?thesis by (auto simp: log_file_inv_def contents_def all_files_def)
qed

theorem LogFile_rolls_witness:
  "\<exists>s' f'. LogFile_append 7 \<lparr>io_write = (\<lambda>_. 9), io_now = 5, io_roll_now = 5, io_opens = True\<rparr> ''abcd''
       \<lparr>lf_basename = ''log'', rollSize = 3, flushInterval = 3, lf_count = 0, hasMutex = False, startOfPeriod = 0,
        lastRoll = 4, lastFlush = 4, lf_file = Some \<lparr>f_name = ''x'', f_content = [], f_flushed = 0, writtenBytes = 0\<rparr>,
        closedFiles = []\<rparr> = Inr s' \<and> lf_file s' = Some f' \<and> writtenBytes f' \<le> 3"
  using LogFile_rolls [of "\<lparr>lf_basename = ''log'', rollSize = 3, flushInterval = 3, lf_count = 0, hasMutex = False, startOfPeriod = 0,
        lastRoll = 4, lastFlush = 4, lf_file = Some \<lparr>f_name = ''x'', f_content = [], f_flushed = 0, writtenBytes = 0\<rparr>,
        closedFiles = []\<rparr>" "\<lparr>io_write = (\<lambda>_. 9), io_now = 5, io_roll_now = 5, io_opens = True\<rparr>" _ "''abcd''" 7]
  by (auto simp: log_file_inv_def good_io_def kCheckTimeRoll_def start_of_period_def kRollPerSeconds_def sdiv_nonneg)

end
