(* ===== verification/Logging.thy ===== *)
theory Logging
  imports LogStream LogFile
begin

text \<open>
  \<^verbatim>\<open>muduo/logging/Logging.h\<close> and \<^verbatim>\<open>Logging.cc\<close>: the front end of the logging library, one \<open>Logger\<close> object
  per log statement. The thread-local cache of the formatted second and the global level and output
  functions are the state; the calls of the output functions are recorded. The clock, the thread
  number, \<open>errno\<close> and the texts of the C library are arguments.
\<close>

section \<open>Levels and global state\<close>

datatype LogLevel = TRACE | DEBUG | INFO | WARN | ERROR | FATAL

fun level_number :: "LogLevel \<Rightarrow> nat" where
  "level_number TRACE = 0"
| "level_number DEBUG = 1"
| "level_number INFO = 2"
| "level_number WARN = 3"
| "level_number ERROR = 4"
| "level_number FATAL = 5"

fun LogLevelName :: "LogLevel \<Rightarrow> string" where
  "LogLevelName TRACE = ''TRACE ''"
| "LogLevelName DEBUG = ''DEBUG ''"
| "LogLevelName INFO = ''INFO  ''"
| "LogLevelName WARN = ''WARN  ''"
| "LogLevelName ERROR = ''ERROR ''"
| "LogLevelName FATAL = ''FATAL ''"

datatype log_call = OutputCall nat string | FlushCall nat

record log_state =
  t_time :: string
  t_lastSecond :: int
  g_logLevel :: LogLevel
  g_output :: nat
  g_flush :: nat
  calls :: "log_call list"

text \<open>The function number 0 is \<open>defaultOutput\<close> and \<open>defaultFlush\<close>.\<close>

definition initLogLevel :: "bool \<Rightarrow> LogLevel" where
  "initLogLevel traceSet = (if traceSet then TRACE else DEBUG)"

definition log_init :: "bool \<Rightarrow> log_state" where
  "log_init traceSet = \<lparr>t_time = [], t_lastSecond = 0, g_logLevel = initLogLevel traceSet, g_output = 0, g_flush = 0, calls = []\<rparr>"

definition setLogLevel :: "LogLevel \<Rightarrow> log_state \<Rightarrow> log_state" where
  "setLogLevel l s = s\<lparr>g_logLevel := l\<rparr>"

definition setOutput :: "nat \<Rightarrow> log_state \<Rightarrow> log_state" where
  "setOutput f s = s\<lparr>g_output := f\<rparr>"

definition setFlush :: "nat \<Rightarrow> log_state \<Rightarrow> log_state" where
  "setFlush f s = s\<lparr>g_flush := f\<rparr>"

section \<open>Logger\<close>

record logger =
  lg_time :: timestamp
  lg_stream :: fixed_buffer
  lg_level :: LogLevel
  lg_line :: "32 word"
  lg_fullname :: string
  lg_basename :: string

text \<open>The part after the last slash, as \<open>strrchr\<close> finds it.\<close>

definition basename_of :: "string \<Rightarrow> string" where
  "basename_of file = rev (takeWhile (\<lambda>c. c \<noteq> CHR ''/'') (rev file))"

definition second_text :: "int \<Rightarrow> string" where
  "second_text secs =
     (let t = gmtime_r secs in
      fmt_d 4 (tm_year t + 1900) @ fmt_0d 2 (tm_mon t + 1) @ fmt_0d 2 (tm_mday t) @ '' ''
      @ fmt_0d 2 (tm_hour t) @ '':'' @ fmt_0d 2 (tm_min t) @ '':'' @ fmt_0d 2 (tm_sec t))"

definition formatTime :: "logger \<Rightarrow> log_state \<Rightarrow> (logger \<times> log_state) result" where
  "formatTime l s =
     (let us = microSecondsSinceEpoch (lg_time l); seconds = us sdiv 1000000; microseconds = us smod 1000000 in
      bindR (if seconds \<noteq> t_lastSecond s then
               (let (stored, len) = snprintf 32 (second_text seconds) in
                assertR (len = 17) (Inr (s\<lparr>t_lastSecond := seconds, t_time := stored\<rparr>)))
             else Inr s) (\<lambda>s1.
        bindR (Fmt_new (''.'' @ fmt_0d 6 microseconds @ ''Z '')) (\<lambda>f.
          assertR (fmt_length f = 9)
            (bindR (T_new (t_time s1) 17) (\<lambda>t1.
              bindR (put_T t1 (lg_stream l)) (\<lambda>b1.
                bindR (T_new (fmt_buf f) 9) (\<lambda>t2.
                  bindR (put_T t2 b1) (\<lambda>b2. Inr (l\<lparr>lg_stream := b2\<rparr>, s1)))))))))"

text \<open>
  \<open>Logger::Impl::Impl\<close>. \<open>garbage\<close> is the memory of the new stream's buffer, \<open>strerr\<close> the text of the error
  number.
\<close>

definition Impl_new :: "string \<Rightarrow> timestamp \<Rightarrow> int \<Rightarrow> (int \<Rightarrow> string) \<Rightarrow> LogLevel \<Rightarrow> 32 word \<Rightarrow> string \<Rightarrow> 32 word
    \<Rightarrow> log_state \<Rightarrow> (logger \<times> log_state) result" where
  "Impl_new garbage now tid strerr level savedErrno file line s =
     bindR (formatTime \<lparr>lg_time = now, lg_stream = FixedBuffer_new garbage, lg_level = level, lg_line = line,
                       lg_fullname = file, lg_basename = basename_of file\<rparr> s) (\<lambda>(l, s1).
       bindR (Fmt_new (fmt_d 5 tid @ '' '')) (\<lambda>f.
         assertR (fmt_length f = 6)
           (bindR (T_new (fmt_buf f) 6) (\<lambda>t1.
             bindR (put_T t1 (lg_stream l)) (\<lambda>b1.
               bindR (T_new (LogLevelName level) 6) (\<lambda>t2.
                 bindR (put_T t2 b1) (\<lambda>b2.
                   bindR (if savedErrno \<noteq> 0 then
                            bindR (put_cstr (strerr (sint savedErrno)) b2) (\<lambda>b3.
                              bindR (put_cstr '' (errno='' b3) (\<lambda>b4.
                                bindR (put_int savedErrno b4) (put_cstr '') '')))
                          else Inr b2)
                     (\<lambda>b5. Inr (l\<lparr>lg_stream := b5\<rparr>, s1)))))))))"

text \<open>The four constructors of \<open>Logger\<close>.\<close>

definition Logger_info :: "string \<Rightarrow> timestamp \<Rightarrow> int \<Rightarrow> string \<Rightarrow> 32 word \<Rightarrow> log_state \<Rightarrow> (logger \<times> log_state) result" where
  "Logger_info garbage now tid file line s = Impl_new garbage now tid (\<lambda>_. []) INFO 0 file line s"

definition Logger_level :: "string \<Rightarrow> timestamp \<Rightarrow> int \<Rightarrow> string \<Rightarrow> 32 word \<Rightarrow> LogLevel \<Rightarrow> log_state
    \<Rightarrow> (logger \<times> log_state) result" where
  "Logger_level garbage now tid file line level s = Impl_new garbage now tid (\<lambda>_. []) level 0 file line s"

definition Logger_func :: "string \<Rightarrow> timestamp \<Rightarrow> int \<Rightarrow> string \<Rightarrow> 32 word \<Rightarrow> LogLevel \<Rightarrow> string \<Rightarrow> log_state
    \<Rightarrow> (logger \<times> log_state) result" where
  "Logger_func garbage now tid file line level func s =
     bindR (Impl_new garbage now tid (\<lambda>_. []) level 0 file line s) (\<lambda>(l, s1).
       bindR (put_cstr func (lg_stream l)) (\<lambda>b1.
         bindR (put_char (CHR '' '') b1) (\<lambda>b2. Inr (l\<lparr>lg_stream := b2\<rparr>, s1))))"

definition Logger_sys :: "string \<Rightarrow> timestamp \<Rightarrow> int \<Rightarrow> (int \<Rightarrow> string) \<Rightarrow> 32 word \<Rightarrow> string \<Rightarrow> 32 word \<Rightarrow> bool \<Rightarrow> log_state
    \<Rightarrow> (logger \<times> log_state) result" where
  "Logger_sys garbage now tid strerr errno file line toAbort s =
     Impl_new garbage now tid strerr (if toAbort then FATAL else ERROR) errno file line s"

definition Impl_finish :: "logger \<Rightarrow> logger result" where
  "Impl_finish l =
     bindR (put_cstr '' - '' (lg_stream l)) (\<lambda>b1.
       bindR (put_cstr (lg_basename l) b1) (\<lambda>b2.
         bindR (put_char (CHR '':'') b2) (\<lambda>b3.
           bindR (put_int (lg_line l) b3) (\<lambda>b4.
             bindR (put_char (CHR 0x0A) b4) (\<lambda>b5. Inr (l\<lparr>lg_stream := b5\<rparr>))))))"

text \<open>The destructor; the flag of the result is whether it calls \<open>abort()\<close>.\<close>

definition Logger_delete :: "logger \<Rightarrow> log_state \<Rightarrow> (bool \<times> log_state) result" where
  "Logger_delete l s =
     bindR (Impl_finish l) (\<lambda>l1.
       bindR (asString (lg_stream l1)) (\<lambda>msg.
         let s1 = s\<lparr>calls := calls s @ [OutputCall (g_output s) msg]\<rparr> in
         Inr (if lg_level l1 = FATAL then (True, s1\<lparr>calls := calls s1 @ [FlushCall (g_flush s1)]\<rparr>) else (False, s1))))"

text \<open>
  The logging macros: which constructor each calls, and whether it does. A whole statement constructs the
  logger, inserts the operands and destroys the logger.
\<close>

datatype log_macro = LOG_TRACE | LOG_DEBUG | LOG_INFO | LOG_WARN | LOG_ERROR | LOG_FATAL | LOG_SYSERR | LOG_SYSFATAL

fun macro_enabled :: "log_macro \<Rightarrow> log_state \<Rightarrow> bool" where
  "macro_enabled LOG_TRACE s = (level_number (g_logLevel s) \<le> level_number TRACE)"
| "macro_enabled LOG_DEBUG s = (level_number (g_logLevel s) \<le> level_number DEBUG)"
| "macro_enabled LOG_INFO s = (level_number (g_logLevel s) \<le> level_number INFO)"
| "macro_enabled _ s = True"

record log_site =
  ls_garbage :: string
  ls_now :: timestamp
  ls_tid :: int
  ls_strerr :: "int \<Rightarrow> string"
  ls_errno :: "32 word"
  ls_file :: string
  ls_line :: "32 word"
  ls_func :: string

fun macro_logger :: "log_site \<Rightarrow> log_macro \<Rightarrow> log_state \<Rightarrow> (logger \<times> log_state) result" where
  "macro_logger x LOG_TRACE = Logger_func (ls_garbage x) (ls_now x) (ls_tid x) (ls_file x) (ls_line x) TRACE (ls_func x)"
| "macro_logger x LOG_DEBUG = Logger_func (ls_garbage x) (ls_now x) (ls_tid x) (ls_file x) (ls_line x) DEBUG (ls_func x)"
| "macro_logger x LOG_INFO = Logger_info (ls_garbage x) (ls_now x) (ls_tid x) (ls_file x) (ls_line x)"
| "macro_logger x LOG_WARN = Logger_level (ls_garbage x) (ls_now x) (ls_tid x) (ls_file x) (ls_line x) WARN"
| "macro_logger x LOG_ERROR = Logger_level (ls_garbage x) (ls_now x) (ls_tid x) (ls_file x) (ls_line x) ERROR"
| "macro_logger x LOG_FATAL = Logger_level (ls_garbage x) (ls_now x) (ls_tid x) (ls_file x) (ls_line x) FATAL"
| "macro_logger x LOG_SYSERR = Logger_sys (ls_garbage x) (ls_now x) (ls_tid x) (ls_strerr x) (ls_errno x) (ls_file x) (ls_line x) False"
| "macro_logger x LOG_SYSFATAL = Logger_sys (ls_garbage x) (ls_now x) (ls_tid x) (ls_strerr x) (ls_errno x) (ls_file x) (ls_line x) True"

definition log_statement :: "(double \<Rightarrow> string) \<Rightarrow> log_site \<Rightarrow> log_macro \<Rightarrow> log_item list \<Rightarrow> log_state \<Rightarrow> (bool \<times> log_state) result" where
  "log_statement g x m items s =
     (if macro_enabled m s then
        bindR (macro_logger x m s) (\<lambda>(l, s1).
          bindR (foldR (put_item g) items (lg_stream l)) (\<lambda>b. Logger_delete (l\<lparr>lg_stream := b\<rparr>) s1))
      else Inr (False, s))"

text \<open>\<open>CHECK_NOTNULL\<close>: a null pointer is a fatal log statement.\<close>

definition CheckNotNull :: "'a option \<Rightarrow> 'a result" where
  "CheckNotNull ptr = (case ptr of None \<Rightarrow> Inl FatalLogged | Some p \<Rightarrow> Inr p)"

section \<open>The line of a log statement\<close>

definition us_text :: "int \<Rightarrow> string" where
  "us_text us = ''.'' @ fmt_0d 6 us @ ''Z ''"

definition tid_text :: "int \<Rightarrow> string" where
  "tid_text tid = fmt_d 5 tid @ '' ''"

fun macro_level :: "log_macro \<Rightarrow> LogLevel" where
  "macro_level LOG_TRACE = TRACE"
| "macro_level LOG_DEBUG = DEBUG"
| "macro_level LOG_INFO = INFO"
| "macro_level LOG_WARN = WARN"
| "macro_level LOG_ERROR = ERROR"
| "macro_level LOG_FATAL = FATAL"
| "macro_level LOG_SYSERR = ERROR"
| "macro_level LOG_SYSFATAL = FATAL"

definition errno_items :: "(int \<Rightarrow> string) \<Rightarrow> 32 word \<Rightarrow> log_item list" where
  "errno_items strerr e =
     (if e \<noteq> 0 then [CStrItem (strerr (sint e)), CStrItem '' (errno='', IntItem e, CStrItem '') ''] else [])"

fun macro_items :: "log_site \<Rightarrow> log_macro \<Rightarrow> log_item list" where
  "macro_items x LOG_TRACE = [CStrItem (ls_func x), CharItem (CHR '' '')]"
| "macro_items x LOG_DEBUG = [CStrItem (ls_func x), CharItem (CHR '' '')]"
| "macro_items x LOG_SYSERR = errno_items (ls_strerr x) (ls_errno x)"
| "macro_items x LOG_SYSFATAL = errno_items (ls_strerr x) (ls_errno x)"
| "macro_items x _ = []"

definition header_items :: "timestamp \<Rightarrow> int \<Rightarrow> LogLevel \<Rightarrow> log_item list" where
  "header_items now tid level =
     (let us = microSecondsSinceEpoch now in
      [TItem (second_text (us div 1000000), 17), TItem (us_text (us mod 1000000), 9), TItem (tid_text tid, 6),
       TItem (LogLevelName level, 6)])"

definition trailer_items :: "string \<Rightarrow> 32 word \<Rightarrow> log_item list" where
  "trailer_items file line =
     [CStrItem '' - '', CStrItem (basename_of file), CharItem (CHR '':''), IntItem line, CharItem (CHR 0x0A)]"

definition line_items :: "log_site \<Rightarrow> log_macro \<Rightarrow> log_item list \<Rightarrow> log_item list" where
  "line_items x m items = header_items (ls_now x) (ls_tid x) (macro_level m) @ macro_items x m @ items
     @ trailer_items (ls_file x) (ls_line x)"

text \<open>The cached text is that of the last second, unless nothing was logged yet.\<close>

definition tls_ok :: "log_state \<Rightarrow> bool" where
  "tls_ok s \<longleftrightarrow> t_lastSecond s = 0 \<or> t_time s = second_text (t_lastSecond s)"

definition clock_ok :: "timestamp \<Rightarrow> bool" where
  "clock_ok now \<longleftrightarrow> year4 (microSecondsSinceEpoch now div 1000000)"

definition cached :: "timestamp \<Rightarrow> log_state \<Rightarrow> log_state" where
  "cached now s = (let secs = microSecondsSinceEpoch now div 1000000 in s\<lparr>t_lastSecond := secs, t_time := second_text secs\<rparr>)"

lemma length_second_text: "year4 t \<Longrightarrow> length (second_text t) = 17"
  using name_parts [of t] length_fmt_d [of "tm_year (gmtime_r t) + 1900" 4]
  by (simp add: second_text_def Let_def year4_def)

lemma length_us_text: "length (us_text (u mod 1000000)) = 9"
  using length_fmt_0d [of "u mod 1000000" 6] by (simp add: us_text_def)

lemma length_tid_text: "0 \<le> tid \<Longrightarrow> tid < 100000 \<Longrightarrow> length (tid_text tid) = 6"
  using length_fmt_d [of tid 5] by (simp add: tid_text_def)

lemma T_new_ok: "length t = n \<Longrightarrow> T_new t (int n) = Inr (t, n)"
  by (simp add: T_new_def)

lemma Fmt_new_ok: "length t < 32 \<Longrightarrow> Fmt_new t = Inr (Fmt t (int (length t)))"
  by (simp add: Fmt_new_def snprintf_def)

lemma formatTime_items:
  assumes "tls_ok s" and "clock_ok (lg_time l)"
  defines "us \<equiv> microSecondsSinceEpoch (lg_time l)"
  shows "formatTime l s = bindR (foldR (put_item g) [TItem (second_text (us div 1000000), 17), TItem (us_text (us mod 1000000), 9)] (lg_stream l))
     (\<lambda>b. Inr (l\<lparr>lg_stream := b\<rparr>, cached (lg_time l) s))"
proof -
  let ?secs = "us div 1000000"
  have y: "year4 ?secs" "0 < ?secs" using assms(2) by (simp_all add: clock_ok_def us_def year4_def)
  have "0 \<le> us" using y(2) pos_imp_zdiv_neg_iff [of 1000000 us] by linarith
  then have d: "us sdiv 1000000 = ?secs" "us smod 1000000 = us mod 1000000" by (simp_all add: sdiv_nonneg smod_nonneg)
  have l: "length (second_text ?secs) = 17" by (rule length_second_text [OF y(1)])
  have c: "(if ?secs \<noteq> t_lastSecond s then
               (case snprintf 32 (second_text ?secs) of (stored, len) \<Rightarrow>
                assertR (len = 17) (Inr (s\<lparr>t_lastSecond := ?secs, t_time := stored\<rparr>)))
             else Inr s) = Inr (cached (lg_time l) s)"
    using assms(1) l y(2) by (auto simp: snprintf_def cached_def Let_def tls_ok_def us_def [symmetric])
  have t: "t_time (cached (lg_time l) s) = second_text ?secs" by (simp add: cached_def us_def Let_def)
  note T = T_new_ok [OF l] T_new_ok [OF length_us_text [of us]]
  show ?thesis
    unfolding formatTime_def Let_def us_def [symmetric] d c us_text_def [symmetric]
    using l T length_us_text [of us] Fmt_new_ok [of "us_text (us mod 1000000)"] by (simp add: t bindR_assoc)
qed

lemma Impl_new_items:
  assumes "tls_ok s" and "clock_ok now" and "0 \<le> tid" "tid < 100000"
  shows "Impl_new garbage now tid strerr level e file line s =
     bindR (foldR (put_item g) (header_items now tid level @ errno_items strerr e) (FixedBuffer_new garbage))
       (\<lambda>b. Inr (\<lparr>lg_time = now, lg_stream = b, lg_level = level, lg_line = line, lg_fullname = file,
                  lg_basename = basename_of file\<rparr>, cached now s))"
proof -
  have t: "T_new (LogLevelName level) 6 = Inr (LogLevelName level, 6)" by (cases level) (simp_all add: T_new_def)
  note f = Fmt_new_ok [of "tid_text tid", unfolded length_tid_text [OF assms(3,4)]]
  note T = T_new_ok [OF length_tid_text [OF assms(3,4)]]
  show ?thesis
    unfolding Impl_new_def tid_text_def [symmetric] using assms(2) f T length_tid_text [OF assms(3,4)]
    by (simp add: formatTime_items [OF assms(1), where g = g] header_items_def errno_items_def Let_def t bindR_assoc)
qed

lemma macro_logger_items:
  assumes "tls_ok s" and "clock_ok (ls_now x)" and "0 \<le> ls_tid x" "ls_tid x < 100000"
  shows "macro_logger x m s =
     bindR (foldR (put_item g) (header_items (ls_now x) (ls_tid x) (macro_level m) @ macro_items x m) (FixedBuffer_new (ls_garbage x)))
       (\<lambda>b. Inr (\<lparr>lg_time = ls_now x, lg_stream = b, lg_level = macro_level m, lg_line = ls_line x, lg_fullname = ls_file x,
                  lg_basename = basename_of (ls_file x)\<rparr>, cached (ls_now x) s))"
  by (cases m) (simp_all add: Logger_func_def Logger_info_def Logger_level_def Logger_sys_def
      Impl_new_items [OF assms, where g = g] foldR_append bindR_assoc errno_items_def)

lemma Impl_finish_items:
  "Impl_finish l = bindR (foldR (put_item g) [CStrItem '' - '', CStrItem (lg_basename l), CharItem (CHR '':''), IntItem (lg_line l), CharItem (CHR 0x0A)] (lg_stream l))
     (\<lambda>b. Inr (l\<lparr>lg_stream := b\<rparr>))"
  by (simp add: Impl_finish_def bindR_assoc)

text \<open>A statement is the insertion of all items of its line and one call of the output function.\<close>

lemma log_statement_items:
  assumes "tls_ok s" and "clock_ok (ls_now x)" and "0 \<le> ls_tid x" "ls_tid x < 100000" and "macro_enabled m s"
  shows "log_statement g x m items s =
     bindR (foldR (put_item g) (line_items x m items) (FixedBuffer_new (ls_garbage x))) (\<lambda>b.
       bindR (asString b) (\<lambda>msg.
         Inr (macro_level m = FATAL, (cached (ls_now x) s)\<lparr>calls := calls s @ OutputCall (g_output s) msg
           # (if macro_level m = FATAL then [FlushCall (g_flush s)] else [])\<rparr>)))"
  unfolding log_statement_def macro_logger_items [OF assms(1-4), where g = g] Logger_delete_def Impl_finish_items [where g = g]
    line_items_def trailer_items_def
  using assms(5) by (simp add: bindR_assoc foldR_append Let_def cached_def cong: if_cong)

lemma spec_all_fit:
  "length t + length (concat (map (item_text g) items)) + 32 \<le> n \<Longrightarrow>
   fold (spec_put g n) items t = t @ concat (map (item_text g) items)"
  by (induction items arbitrary: t) (auto simp: spec_put_def Let_def)

lemma header_ok:
  assumes "clock_ok now" and "0 \<le> tid" "tid < 100000"
  shows "list_all (item_ok g) (header_items now tid level)"
proof -
  have "length (second_text (microSecondsSinceEpoch now div 1000000)) = 17" using assms(1) length_second_text by (simp add: clock_ok_def)
  with length_us_text [of "microSecondsSinceEpoch now"] length_tid_text [OF assms(2,3)] show ?thesis
    by (cases level) (simp_all add: header_items_def Let_def T_new_def)
qed

section \<open>Properties\<close>

definition site_ok :: "log_site \<Rightarrow> bool" where
  "site_ok x \<longleftrightarrow> clock_ok (ls_now x) \<and> 0 \<le> ls_tid x \<and> ls_tid x < 100000 \<and> length (ls_garbage x) = kSmallBuffer
     \<and> length (ls_func x) < 2 ^ 31 \<and> length (ls_file x) < 2 ^ 31 \<and> (\<forall>e. length (ls_strerr x e) < 2 ^ 31)"

definition line_text :: "(double \<Rightarrow> string) \<Rightarrow> log_site \<Rightarrow> log_macro \<Rightarrow> log_item list \<Rightarrow> string" where
  "line_text g x m items = concat (map (item_text g) (line_items x m items))"

lemma length_basename_of: "length (basename_of f) \<le> length f"
  unfolding basename_of_def using length_takeWhile_le [of _ "rev f"] by simp

lemma line_items_ok:
  assumes "site_ok x" and "list_all (item_ok g) items"
  shows "list_all (item_ok g) (line_items x m items)"
proof -
  have "list_all (item_ok g) (macro_items x m)" using assms(1) by (cases m) (auto simp: site_ok_def errno_items_def)
  moreover have "length (basename_of (ls_file x)) < 2 ^ 31" using assms(1) length_basename_of [of "ls_file x"] by (simp add: site_ok_def)
  ultimately show ?thesis using assms header_ok [of "ls_now x" "ls_tid x"]
    by (simp add: line_items_def trailer_items_def site_ok_def)
qed



text \<open>
  A thread number of six digits fails the assertion on the length of its text, in every log statement.
\<close>

theorem Logger_wide_tid_fails:
  assumes "tls_ok s" and "site_ok x" and "100000 \<le> tid" and "tid < 2 ^ 31" and "macro_enabled m s"
  shows "log_statement g (x\<lparr>ls_tid := tid\<rparr>) m items s = Inl AssertionFailed"
proof -
  have len: "7 \<le> length (tid_text tid)" "length (tid_text tid) < 32"
  proof -
    have "10 ^ 5 \<le> nat tid" "nat tid < 10 ^ 10" using assms(3,4) by simp_all
    with length_dec_nat_ge [of 5 "nat tid"] length_dec_nat_le [of "nat tid" 10] assms(3)
    show "7 \<le> length (tid_text tid)" "length (tid_text tid) < 32" by (auto simp: tid_text_def fmt_d_def dec_int_def Let_def)
  qed
  let ?b = "FixedBuffer_new (ls_garbage x)"
  let ?h = "take 2 (header_items (ls_now x) 0 INFO)"
  have b: "fb_inv ?b" using assms(2) by (simp add: fb_inv_def FixedBuffer_new_def site_ok_def kSmallBuffer_def)
  have h: "list_all (item_ok g) ?h" using header_ok [of "ls_now x" 0 g INFO] assms(2) by (simp add: site_ok_def header_items_def Let_def)
  from put_all_refines [OF b h] obtain b' where b': "foldR (put_item g) ?h ?b = Inr b'" by blast
  have imp: "Impl_new (ls_garbage x) (ls_now x) tid strerr level e fl line s = Inl AssertionFailed" for strerr level e fl line
    unfolding Impl_new_def tid_text_def [symmetric] using assms(1,2) b' len
    by (simp add: formatTime_items [where g = g] site_ok_def header_items_def Let_def Fmt_new_ok)
  show ?thesis using assms(5)
    by (cases m) (simp_all add: log_statement_def Logger_func_def Logger_info_def Logger_level_def Logger_sys_def imp)
qed

theorem Logger_wide_tid_fails_witness:
  "log_statement (\<lambda>_. []) \<lparr>ls_garbage = replicate kSmallBuffer CHR ''?'', ls_now = Timestamp 86401000042, ls_tid = 100000,
       ls_strerr = (\<lambda>_. []), ls_errno = 0, ls_file = ''x.cc'', ls_line = 5, ls_func = ''f''\<rparr> LOG_WARN [] (log_init False)
   = Inl AssertionFailed"
proof -
  have y: "year4 86401" by code_simp
  show ?thesis
    using Logger_wide_tid_fails [of "log_init False" "\<lparr>ls_garbage = replicate kSmallBuffer CHR ''?'', ls_now = Timestamp 86401000042,
       ls_tid = 1, ls_strerr = (\<lambda>_. []), ls_errno = 0, ls_file = ''x.cc'', ls_line = 5, ls_func = ''f''\<rparr>" 100000 LOG_WARN "\<lambda>_. []" "[]"]
    by (simp add: site_ok_def clock_ok_def y tls_ok_def log_init_def)
qed

end
