(* ===== verification/Queues.thy ===== *)
theory Queues
  imports Prelude "HOL-Library.Multiset"
begin

text \<open>
  \<^verbatim>\<open>muduo/thread/BlockingQueue.h\<close> and \<^verbatim>\<open>BoundedBlockingQueue.h\<close>: queues between threads. The critical
  sections are functions on the queue; \<open>None\<close> says that the caller goes to sleep on the condition. The
  step relations interleave the threads: those that sleep, those that were woken (by a notification or spuriously)
  and have to test the condition again, and those that arrive and overtake them. \<open>qput\<close> and \<open>qtaken\<close> record the history.
\<close>

section \<open>What a client needs\<close>

text \<open>
  The contract both queues offer to a client such as the asynchronous logger: \<open>cont\<close> are the elements, \<open>put\<close>
  appends one, \<open>tak\<close> removes the first. \<open>None\<close> is a call that has to wait, which \<open>tak\<close> does exactly on an
  empty queue.
\<close>

locale message_queue =
  fixes qinv :: "'q \<Rightarrow> bool" and cont :: "'q \<Rightarrow> 'a list"
    and put :: "'a \<Rightarrow> 'q \<Rightarrow> 'q option" and tak :: "'q \<Rightarrow> ('a \<times> 'q) option"
  assumes put_law: "qinv q \<Longrightarrow> put x q = Some q' \<Longrightarrow> qinv q' \<and> cont q' = cont q @ [x]"
    and take_law: "qinv q \<Longrightarrow> tak q = Some (x, q') \<Longrightarrow> qinv q' \<and> cont q = x # cont q'"
    and take_waits: "qinv q \<Longrightarrow> tak q = None \<longleftrightarrow> cont q = []"
begin

lemma take_first: "qinv q \<Longrightarrow> cont q = x # xs \<Longrightarrow> \<exists>q'. tak q = Some (x, q') \<and> qinv q' \<and> cont q' = xs"
  by (metis list.distinct(1) list.inject not_None_eq surj_pair take_law take_waits)

end

section \<open>BlockingQueue\<close>

record 'a blocking_queue =
  bq_queue :: "'a list"
  bq_sleeping :: nat
  bq_woken :: nat

definition BlockingQueue_new :: "'a blocking_queue" where
  "BlockingQueue_new = \<lparr>bq_queue = [], bq_sleeping = 0, bq_woken = 0\<rparr>"

text \<open>\<open>pthread_cond_signal\<close> wakes one thread, if one sleeps.\<close>

definition bq_notify :: "'a blocking_queue \<Rightarrow> 'a blocking_queue" where
  "bq_notify q = (if 0 < bq_sleeping q then q\<lparr>bq_sleeping := bq_sleeping q - 1, bq_woken := bq_woken q + 1\<rparr> else q)"

definition BlockingQueue_put :: "'a \<Rightarrow> 'a blocking_queue \<Rightarrow> 'a blocking_queue option" where
  "BlockingQueue_put x q = Some (bq_notify (q\<lparr>bq_queue := bq_queue q @ [x]\<rparr>))"

definition BlockingQueue_take :: "'a blocking_queue \<Rightarrow> ('a \<times> 'a blocking_queue) option" where
  "BlockingQueue_take q = (case bq_queue q of [] \<Rightarrow> None | front # rest \<Rightarrow> Some (front, q\<lparr>bq_queue := rest\<rparr>))"

definition BlockingQueue_size :: "'a blocking_queue \<Rightarrow> nat" where
  "BlockingQueue_size q = length (bq_queue q)"

record 'a bq_conf =
  bqc :: "'a blocking_queue"
  bq_put :: "'a list"
  bq_taken :: "'a list"

inductive bq_step :: "'a bq_conf \<Rightarrow> 'a bq_conf \<Rightarrow> bool" where
  bq_puts: "BlockingQueue_put x (bqc c) = Some q \<Longrightarrow> bq_step c (c\<lparr>bqc := q, bq_put := bq_put c @ [x]\<rparr>)"
| bq_takes: "BlockingQueue_take (bqc c) = Some (x, q) \<Longrightarrow> bq_step c (c\<lparr>bqc := q, bq_taken := bq_taken c @ [x]\<rparr>)"
| bq_sleeps: "BlockingQueue_take (bqc c) = None \<Longrightarrow>
    bq_step c (c\<lparr>bqc := (bqc c)\<lparr>bq_sleeping := bq_sleeping (bqc c) + 1\<rparr>\<rparr>)"
| bq_spurious: "0 < bq_sleeping (bqc c) \<Longrightarrow>
    bq_step c (c\<lparr>bqc := (bqc c)\<lparr>bq_sleeping := bq_sleeping (bqc c) - 1, bq_woken := bq_woken (bqc c) + 1\<rparr>\<rparr>)"
| bq_woken_takes: "0 < bq_woken (bqc c) \<Longrightarrow> BlockingQueue_take ((bqc c)\<lparr>bq_woken := bq_woken (bqc c) - 1\<rparr>) = Some (x, q) \<Longrightarrow>
    bq_step c (c\<lparr>bqc := q, bq_taken := bq_taken c @ [x]\<rparr>)"
| bq_woken_sleeps: "0 < bq_woken (bqc c) \<Longrightarrow> BlockingQueue_take (bqc c) = None \<Longrightarrow>
    bq_step c (c\<lparr>bqc := (bqc c)\<lparr>bq_woken := bq_woken (bqc c) - 1, bq_sleeping := bq_sleeping (bqc c) + 1\<rparr>\<rparr>)"

definition bq_start :: "'a bq_conf" where
  "bq_start = \<lparr>bqc = BlockingQueue_new, bq_put = [], bq_taken = []\<rparr>"

text \<open>
  Nothing is lost, duplicated or reordered; while a thread sleeps, at least as many threads
  are awake as there are elements.
\<close>

definition bq_conf_inv :: "'a bq_conf \<Rightarrow> bool" where
  "bq_conf_inv c \<longleftrightarrow> bq_taken c @ bq_queue (bqc c) = bq_put c
     \<and> (0 < bq_sleeping (bqc c) \<longrightarrow> length (bq_queue (bqc c)) \<le> bq_woken (bqc c))"

lemma bq_step_inv: "bq_step c c' \<Longrightarrow> bq_conf_inv c \<Longrightarrow> bq_conf_inv c'"
  by (induction rule: bq_step.induct)
    (auto simp: bq_conf_inv_def BlockingQueue_put_def BlockingQueue_take_def bq_notify_def split: list.splits if_splits)

lemma bq_steps_inv: "bq_step\<^sup>*\<^sup>* c c' \<Longrightarrow> bq_conf_inv c \<Longrightarrow> bq_conf_inv c'"
  by (induction rule: rtranclp_induct) (auto intro: bq_step_inv)

interpretation unbounded: message_queue "\<lambda>_. True" bq_queue BlockingQueue_put BlockingQueue_take
  by unfold_locales (auto simp: BlockingQueue_put_def BlockingQueue_take_def bq_notify_def split: list.splits if_splits)

section \<open>BoundedBlockingQueue\<close>

text \<open>
  \<open>boost::circular_buffer\<close> is its capacity and its elements. A thread in \<open>put\<close> carries the element it
  wants to insert.
\<close>

record 'a bounded_queue =
  bb_capacity :: nat
  bb_queue :: "'a list"
  notEmpty_sleeping :: nat
  notEmpty_woken :: nat
  notFull_sleeping :: "'a multiset"
  notFull_woken :: "'a multiset"

definition BoundedBlockingQueue_new :: "nat \<Rightarrow> 'a bounded_queue" where
  "BoundedBlockingQueue_new maxSize = \<lparr>bb_capacity = maxSize, bb_queue = [], notEmpty_sleeping = 0, notEmpty_woken = 0,
     notFull_sleeping = {#}, notFull_woken = {#}\<rparr>"

definition bb_full :: "'a bounded_queue \<Rightarrow> bool" where
  "bb_full q \<longleftrightarrow> length (bb_queue q) = bb_capacity q"

definition bb_empty :: "'a bounded_queue \<Rightarrow> bool" where
  "bb_empty q \<longleftrightarrow> bb_queue q = []"

definition bb_size :: "'a bounded_queue \<Rightarrow> nat" where
  "bb_size q = length (bb_queue q)"

definition bb_getCapacity :: "'a bounded_queue \<Rightarrow> nat" where
  "bb_getCapacity q = bb_capacity q"

definition notEmpty_notify :: "'a bounded_queue \<Rightarrow> 'a bounded_queue" where
  "notEmpty_notify q =
     (if 0 < notEmpty_sleeping q then q\<lparr>notEmpty_sleeping := notEmpty_sleeping q - 1, notEmpty_woken := notEmpty_woken q + 1\<rparr> else q)"

text \<open>Which of the sleeping threads \<open>notFull_.notify()\<close> wakes is not determined: \<open>w\<close> is the element of that thread.\<close>

definition notFull_notify :: "'a option \<Rightarrow> 'a bounded_queue \<Rightarrow> 'a bounded_queue" where
  "notFull_notify w q =
     (case w of None \<Rightarrow> q
      | Some y \<Rightarrow> q\<lparr>notFull_sleeping := notFull_sleeping q - {#y#}, notFull_woken := notFull_woken q + {#y#}\<rparr>)"

definition may_wake :: "'a option \<Rightarrow> 'a bounded_queue \<Rightarrow> bool" where
  "may_wake w q \<longleftrightarrow> (case w of None \<Rightarrow> notFull_sleeping q = {#} | Some y \<Rightarrow> y \<in># notFull_sleeping q)"

definition BoundedBlockingQueue_put :: "'a \<Rightarrow> 'a bounded_queue \<Rightarrow> 'a bounded_queue option" where
  "BoundedBlockingQueue_put x q =
     (if bb_full q then None else Some (notEmpty_notify (q\<lparr>bb_queue := bb_queue q @ [x]\<rparr>)))"

definition BoundedBlockingQueue_take :: "'a option \<Rightarrow> 'a bounded_queue \<Rightarrow> ('a \<times> 'a bounded_queue) option" where
  "BoundedBlockingQueue_take w q =
     (case bb_queue q of [] \<Rightarrow> None | front # rest \<Rightarrow> Some (front, notFull_notify w (q\<lparr>bb_queue := rest\<rparr>)))"

record 'a bb_conf =
  bbc :: "'a bounded_queue"
  bb_put :: "'a list"
  bb_taken :: "'a list"

inductive bb_step :: "'a bb_conf \<Rightarrow> 'a bb_conf \<Rightarrow> bool" where
  bb_puts: "BoundedBlockingQueue_put x (bbc c) = Some q \<Longrightarrow> bb_step c (c\<lparr>bbc := q, bb_put := bb_put c @ [x]\<rparr>)"
| bb_put_sleeps: "BoundedBlockingQueue_put x (bbc c) = None \<Longrightarrow>
    bb_step c (c\<lparr>bbc := (bbc c)\<lparr>notFull_sleeping := notFull_sleeping (bbc c) + {#x#}\<rparr>\<rparr>)"
| bb_put_spurious: "x \<in># notFull_sleeping (bbc c) \<Longrightarrow> bb_step c (c\<lparr>bbc := notFull_notify (Some x) (bbc c)\<rparr>)"
| bb_woken_puts: "x \<in># notFull_woken (bbc c) \<Longrightarrow>
    BoundedBlockingQueue_put x ((bbc c)\<lparr>notFull_woken := notFull_woken (bbc c) - {#x#}\<rparr>) = Some q \<Longrightarrow>
    bb_step c (c\<lparr>bbc := q, bb_put := bb_put c @ [x]\<rparr>)"
| bb_woken_put_sleeps: "x \<in># notFull_woken (bbc c) \<Longrightarrow> BoundedBlockingQueue_put x (bbc c) = None \<Longrightarrow>
    bb_step c (c\<lparr>bbc := (bbc c)\<lparr>notFull_woken := notFull_woken (bbc c) - {#x#},
      notFull_sleeping := notFull_sleeping (bbc c) + {#x#}\<rparr>\<rparr>)"
| bb_takes: "BoundedBlockingQueue_take w (bbc c) = Some (x, q) \<Longrightarrow> may_wake w (bbc c) \<Longrightarrow>
    bb_step c (c\<lparr>bbc := q, bb_taken := bb_taken c @ [x]\<rparr>)"
| bb_take_sleeps: "BoundedBlockingQueue_take w (bbc c) = None \<Longrightarrow>
    bb_step c (c\<lparr>bbc := (bbc c)\<lparr>notEmpty_sleeping := notEmpty_sleeping (bbc c) + 1\<rparr>\<rparr>)"
| bb_take_spurious: "0 < notEmpty_sleeping (bbc c) \<Longrightarrow> bb_step c (c\<lparr>bbc := notEmpty_notify (bbc c)\<rparr>)"
| bb_woken_takes: "0 < notEmpty_woken (bbc c) \<Longrightarrow> may_wake w (bbc c) \<Longrightarrow>
    BoundedBlockingQueue_take w ((bbc c)\<lparr>notEmpty_woken := notEmpty_woken (bbc c) - 1\<rparr>) = Some (x, q) \<Longrightarrow>
    bb_step c (c\<lparr>bbc := q, bb_taken := bb_taken c @ [x]\<rparr>)"
| bb_woken_take_sleeps: "0 < notEmpty_woken (bbc c) \<Longrightarrow> BoundedBlockingQueue_take w (bbc c) = None \<Longrightarrow>
    bb_step c (c\<lparr>bbc := (bbc c)\<lparr>notEmpty_woken := notEmpty_woken (bbc c) - 1, notEmpty_sleeping := notEmpty_sleeping (bbc c) + 1\<rparr>\<rparr>)"

definition bb_start :: "nat \<Rightarrow> 'a bb_conf" where
  "bb_start n = \<lparr>bbc = BoundedBlockingQueue_new n, bb_put = [], bb_taken = []\<rparr>"

definition bounded_inv :: "'a bounded_queue \<Rightarrow> bool" where
  "bounded_inv q \<longleftrightarrow> length (bb_queue q) \<le> bb_capacity q
     \<and> (0 < notEmpty_sleeping q \<longrightarrow> length (bb_queue q) \<le> notEmpty_woken q)
     \<and> (notFull_sleeping q \<noteq> {#} \<longrightarrow> bb_capacity q \<le> length (bb_queue q) + size (notFull_woken q))"

definition bb_conf_inv :: "nat \<Rightarrow> 'a bb_conf \<Rightarrow> bool" where
  "bb_conf_inv n c \<longleftrightarrow> bounded_inv (bbc c) \<and> bb_taken c @ bb_queue (bbc c) = bb_put c \<and> bb_capacity (bbc c) = n"

lemmas bounded_defs = BoundedBlockingQueue_put_def BoundedBlockingQueue_take_def notEmpty_notify_def notFull_notify_def
  may_wake_def bb_full_def bounded_inv_def

lemma size_remove: "x \<in># M \<Longrightarrow> Suc (size (M - {#x#})) = size M"
  by (metis insert_DiffM size_add_mset)

lemma put_inv:
  assumes "bounded_inv q" and "BoundedBlockingQueue_put x q = Some q'"
  shows "bounded_inv q' \<and> bb_queue q' = bb_queue q @ [x] \<and> bb_capacity q' = bb_capacity q"
  using assms by (auto simp: bounded_defs split: if_splits)

lemma woken_put_inv:
  assumes "bounded_inv q" and "x \<in># notFull_woken q" and "BoundedBlockingQueue_put x (q\<lparr>notFull_woken := notFull_woken q - {#x#}\<rparr>) = Some q'"
  shows "bounded_inv q' \<and> bb_queue q' = bb_queue q @ [x] \<and> bb_capacity q' = bb_capacity q"
  using assms size_remove [OF assms(2)] by (auto simp: bounded_defs split: if_splits)

lemma take_inv:
  assumes "bounded_inv q" and "may_wake w q" and "BoundedBlockingQueue_take w q = Some (x, q')"
  shows "bounded_inv q' \<and> bb_queue q = x # bb_queue q' \<and> bb_capacity q' = bb_capacity q"
  using assms by (auto simp: bounded_defs split: list.splits option.splits if_splits)

lemma woken_take_inv:
  assumes "bounded_inv q" and "may_wake w q" and "0 < notEmpty_woken q"
    and "BoundedBlockingQueue_take w (q\<lparr>notEmpty_woken := notEmpty_woken q - 1\<rparr>) = Some (x, q')"
  shows "bounded_inv q' \<and> bb_queue q = x # bb_queue q' \<and> bb_capacity q' = bb_capacity q"
  using assms by (auto simp: bounded_defs split: list.splits option.splits if_splits)

lemma bb_step_inv: "bb_step c c' \<Longrightarrow> bb_conf_inv n c \<Longrightarrow> bb_conf_inv n c'"
proof (induction rule: bb_step.induct)
  case (bb_puts x c q)
  then show ?case using put_inv [of "bbc c" x q] by (auto simp: bb_conf_inv_def)
next
  case (bb_woken_puts x c q)
  then show ?case using woken_put_inv [of "bbc c" x q] by (auto simp: bb_conf_inv_def)
next
  case (bb_takes w c x q)
  then show ?case using take_inv [of "bbc c" w x q] by (auto simp: bb_conf_inv_def)
next
  case (bb_woken_takes c w x q)
  then show ?case using woken_take_inv [of "bbc c" w x q] by (auto simp: bb_conf_inv_def)
qed (auto simp: bb_conf_inv_def bounded_defs split: list.splits if_splits)

lemma bb_steps_inv: "bb_step\<^sup>*\<^sup>* c c' \<Longrightarrow> bb_conf_inv n c \<Longrightarrow> bb_conf_inv n c'"
  by (induction rule: rtranclp_induct) (auto intro: bb_step_inv)

text \<open>For a client the choice of the woken producer is any that is possible.\<close>

interpretation bounded: message_queue "\<lambda>q. length (bb_queue q) \<le> bb_capacity q" bb_queue BoundedBlockingQueue_put
  "BoundedBlockingQueue_take w" for w
  by unfold_locales (auto simp: bounded_defs split: list.splits option.splits if_splits)

section \<open>Properties\<close>

text \<open>
  In every interleaving of producers and consumers of a \<open>BlockingQueue\<close>, spurious wake-ups included, the
  elements are taken exactly once and in the order they were put; and no wake-up is lost: while elements are left and a
  consumer sleeps, another one has been woken for each of them.
\<close>

theorem BlockingQueue_fifo:
  assumes "bq_step\<^sup>*\<^sup>* bq_start c"
  shows "bq_taken c @ bq_queue (bqc c) = bq_put c
     \<and> (bq_queue (bqc c) \<noteq> [] \<longrightarrow> 0 < bq_sleeping (bqc c) \<longrightarrow> BlockingQueue_size (bqc c) \<le> bq_woken (bqc c))"
proof -
  have "bq_conf_inv bq_start" by (simp add: bq_conf_inv_def bq_start_def BlockingQueue_new_def)
  from bq_steps_inv [OF assms this] show ?thesis by (simp add: bq_conf_inv_def BlockingQueue_size_def)
qed

theorem BlockingQueue_fifo_witness:
  "\<exists>c. bq_step\<^sup>*\<^sup>* bq_start c \<and> bq_put c = [5::nat] \<and> bq_queue (bqc c) = [5] \<and> bq_woken (bqc c) = 1 \<and> bq_taken c = []"
proof -
  let ?c1 = "bq_start\<lparr>bqc := BlockingQueue_new\<lparr>bq_sleeping := 1\<rparr>\<rparr> :: nat bq_conf"
  let ?q = "\<lparr>bq_queue = [5], bq_sleeping = 0, bq_woken = 1\<rparr> :: nat blocking_queue"
  let ?c2 = "?c1\<lparr>bqc := ?q, bq_put := [5]\<rparr>"
  have "bq_step bq_start ?c1" using bq_sleeps [of bq_start] by (simp add: bq_start_def BlockingQueue_new_def BlockingQueue_take_def)
  moreover have "bq_step ?c1 ?c2" using bq_puts [of 5 ?c1 ?q]
    by (simp add: bq_start_def BlockingQueue_new_def BlockingQueue_put_def bq_notify_def)
  ultimately have "bq_step\<^sup>*\<^sup>* bq_start ?c2" by (meson converse_rtranclp_into_rtranclp r_into_rtranclp)
  from this BlockingQueue_fifo [OF this] show ?thesis by (intro exI [of _ ?c2]) simp
qed

text \<open>
  C30. The same for a \<open>BoundedBlockingQueue\<close>, which moreover never holds more elements than its capacity and
  never leaves a producer asleep while a free place has nobody awake to fill it.
\<close>

theorem BoundedBlockingQueue_fifo:
  assumes "bb_step\<^sup>*\<^sup>* (bb_start n) c"
  shows "bb_taken c @ bb_queue (bbc c) = bb_put c \<and> bb_size (bbc c) \<le> n \<and> bb_getCapacity (bbc c) = n
     \<and> (0 < notEmpty_sleeping (bbc c) \<longrightarrow> bb_size (bbc c) \<le> notEmpty_woken (bbc c))
     \<and> (notFull_sleeping (bbc c) \<noteq> {#} \<longrightarrow> n - bb_size (bbc c) \<le> size (notFull_woken (bbc c)))"
proof -
  have "bb_conf_inv n (bb_start n)" by (simp add: bb_conf_inv_def bb_start_def BoundedBlockingQueue_new_def bounded_inv_def)
  from bb_steps_inv [OF assms this] show ?thesis by (auto simp: bb_conf_inv_def bounded_inv_def bb_size_def bb_getCapacity_def)
qed

theorem BoundedBlockingQueue_fifo_witness:
  "\<exists>c. bb_step\<^sup>*\<^sup>* (bb_start 1) c \<and> bb_put c = [5::nat] \<and> bb_size (bbc c) \<le> 1 \<and> notFull_sleeping (bbc c) = {#6#}"
proof -
  let ?q = "(BoundedBlockingQueue_new 1)\<lparr>bb_queue := [5::nat]\<rparr>"
  let ?c1 = "(bb_start 1)\<lparr>bbc := ?q, bb_put := [5]\<rparr>"
  let ?c2 = "?c1\<lparr>bbc := ?q\<lparr>notFull_sleeping := {#6#}\<rparr>\<rparr>"
  have "bb_step (bb_start 1) ?c1" using bb_puts [of 5 "bb_start 1" ?q] by (simp add: bb_start_def BoundedBlockingQueue_new_def bounded_defs)
  moreover have "bb_step ?c1 ?c2" using bb_put_sleeps [of 6 ?c1] by (simp add: bb_start_def BoundedBlockingQueue_new_def bounded_defs)
  ultimately have "bb_step\<^sup>*\<^sup>* (bb_start 1) ?c2" by (meson converse_rtranclp_into_rtranclp r_into_rtranclp)
  from this BoundedBlockingQueue_fifo [OF this] show ?thesis by (intro exI [of _ ?c2]) simp
qed

end
