(* ===== verification/AsyncLogging.thy ===== *)
theory AsyncLogging
  imports LogStream LogFile Queues
begin

text \<open>
  \<^verbatim>\<open>muduo/logging/AsyncLoggingQueue.h\<close> and \<^verbatim>\<open>AsyncLoggingDoubleBuffering.h\<close>: logging through a thread of its
  own. The front ends (any number of threads) and the back end are interleaved; each step is a critical section or
  the work between two of them. The steps of the log file may fail; a step of the relations exists only
  where they succeed.
\<close>

section \<open>AsyncLoggingT\<close>

text \<open>
  The class is a template over the queue, here the arguments \<open>put\<close> and \<open>tak\<close>. A message is its bytes. \<open>al_before\<close>
  collects the messages appended before \<open>stop()\<close>, \<open>al_log\<close> those handed to the log file.
\<close>

datatype backend_pc = NotStarted | Begins | InLoop | Ended

record 'q async_log =
  al_running :: bool
  al_queue :: 'q
  al_output :: "log_file option"
  al_backend :: backend_pc
  al_marker :: bool
  al_before :: "string list"
  al_log :: "(append_io \<times> string) list"
  al_first :: "log_file option"

definition AsyncLogging_new :: "'q \<Rightarrow> 'q async_log" where
  "AsyncLogging_new q = \<lparr>al_running = False, al_queue = q, al_output = None, al_backend = NotStarted, al_marker = False,
     al_before = [], al_log = [], al_first = None\<rparr>"

definition AsyncLogging_append :: "(string \<Rightarrow> 'q \<Rightarrow> 'q option) \<Rightarrow> string \<Rightarrow> 'q async_log \<Rightarrow> 'q async_log option" where
  "AsyncLogging_append put logline s =
     map_option (\<lambda>q. s\<lparr>al_queue := q, al_before := (if al_marker s then al_before s else al_before s @ [logline])\<rparr>)
       (put logline (al_queue s))"

definition AsyncLogging_start :: "'q async_log \<Rightarrow> 'q async_log" where
  "AsyncLogging_start s = s\<lparr>al_running := True, al_backend := Begins\<rparr>"

text \<open>\<open>stop()\<close> up to the join: an empty message marks the end.\<close>

definition AsyncLogging_stop :: "(string \<Rightarrow> 'q \<Rightarrow> 'q option) \<Rightarrow> 'q async_log \<Rightarrow> 'q async_log option" where
  "AsyncLogging_stop put s =
     map_option (\<lambda>q. s\<lparr>al_running := False, al_queue := q, al_marker := True\<rparr>) (put [] (al_queue s))"

text \<open>The back end thread: its beginning, and one iteration of its loop (\<open>None\<close>: it waits for a message).\<close>

definition threadFunc_begin :: "log_file result \<Rightarrow> 'q async_log \<Rightarrow> 'q async_log result" where
  "threadFunc_begin newFile s =
     assertR (al_running s) (bindR newFile (\<lambda>f. Inr (s\<lparr>al_output := Some f, al_first := Some f, al_backend := InLoop\<rparr>)))"

definition threadFunc_iter :: "('q \<Rightarrow> (string \<times> 'q) option) \<Rightarrow> int \<Rightarrow> append_io \<Rightarrow> 'q async_log \<Rightarrow> 'q async_log result option" where
  "threadFunc_iter tak pid io s =
     (case tak (al_queue s) of
        None \<Rightarrow> None
      | Some (msg, q) \<Rightarrow> Some (
          let s1 = s\<lparr>al_queue := q\<rparr> in
          case al_output s1 of
            None \<Rightarrow> Inl DanglingPointer
          | Some f \<Rightarrow>
              if msg = [] then
                assertR (\<not> al_running s1)
                  (bindR (LogFile_flush f) (\<lambda>f1. Inr (s1\<lparr>al_output := Some f1, al_backend := Ended\<rparr>)))
              else bindR (LogFile_append pid io msg f) (\<lambda>f1. Inr (s1\<lparr>al_output := Some f1, al_log := al_log s1 @ [(io, msg)]\<rparr>))))"

inductive al_step :: "(string \<Rightarrow> 'q \<Rightarrow> 'q option) \<Rightarrow> ('q \<Rightarrow> (string \<times> 'q) option) \<Rightarrow> int \<Rightarrow> 'q async_log \<Rightarrow> 'q async_log \<Rightarrow> bool"
  for put tak pid where
  al_starts: "al_backend s = NotStarted \<Longrightarrow> al_step put tak pid s (AsyncLogging_start s)"
| al_appends: "m \<noteq> [] \<Longrightarrow> AsyncLogging_append put m s = Some s' \<Longrightarrow> al_step put tak pid s s'"
| al_stops: "al_backend s = InLoop \<Longrightarrow> \<not> al_marker s \<Longrightarrow> AsyncLogging_stop put s = Some s' \<Longrightarrow> al_step put tak pid s s'"
| al_begins: "al_backend s = Begins \<Longrightarrow> threadFunc_begin newFile s = Inr s' \<Longrightarrow> al_step put tak pid s s'"
| al_iterates: "al_backend s = InLoop \<Longrightarrow> threadFunc_iter tak pid io s = Some (Inr s') \<Longrightarrow> al_step put tak pid s s'"

text \<open>What is in the queue before the first empty message.\<close>

definition pending_msgs :: "string list \<Rightarrow> string list" where
  "pending_msgs ms = takeWhile (\<lambda>m. m \<noteq> []) ms"

definition file_of :: "int \<Rightarrow> 'q async_log \<Rightarrow> bool" where
  "file_of pid s \<longleftrightarrow> (case al_first s of None \<Rightarrow> al_output s = None \<and> al_log s = []
     | Some f0 \<Rightarrow> \<exists>f. foldR (\<lambda>(io, t). LogFile_append pid io t) (al_log s) f0 = Inr f
         \<and> (if al_backend s = Ended then \<exists>f1. al_output s = Some f1 \<and> LogFile_flush f = Inr f1 else al_output s = Some f))"

lemma file_of_upd [simp]:
  "file_of pid (s\<lparr>al_queue := q\<rparr>) = file_of pid s" "file_of pid (s\<lparr>al_before := b\<rparr>) = file_of pid s"
  "file_of pid (s\<lparr>al_running := r\<rparr>) = file_of pid s" "file_of pid (s\<lparr>al_marker := m\<rparr>) = file_of pid s"
  by (simp_all add: file_of_def split: option.split)

definition al_inv :: "('q \<Rightarrow> bool) \<Rightarrow> ('q \<Rightarrow> string list) \<Rightarrow> int \<Rightarrow> 'q async_log \<Rightarrow> bool" where
  "al_inv qinv cont pid s \<longleftrightarrow> qinv (al_queue s) \<and> file_of pid s
     \<and> (al_backend s \<noteq> Ended \<longrightarrow> map snd (al_log s) @ pending_msgs (cont (al_queue s)) = al_before s
         \<and> (al_marker s \<longleftrightarrow> [] \<in> set (cont (al_queue s))))
     \<and> (al_backend s = Ended \<longrightarrow> map snd (al_log s) = al_before s \<and> al_marker s)
     \<and> (al_marker s \<longrightarrow> al_backend s \<in> {InLoop, Ended} \<and> \<not> al_running s)
     \<and> (al_backend s \<in> {Begins, InLoop} \<and> \<not> al_marker s \<longrightarrow> al_running s)
     \<and> (al_backend s \<in> {NotStarted, Begins} \<longrightarrow> al_output s = None \<and> al_first s = None \<and> al_log s = [])
     \<and> (al_backend s \<in> {InLoop, Ended} \<longrightarrow> al_output s \<noteq> None \<and> al_first s \<noteq> None)"

lemma pending_snoc: "pending_msgs (ms @ [m]) = (if [] \<in> set ms then pending_msgs ms else ms @ takeWhile (\<lambda>m. m \<noteq> []) [m])"
  by (induction ms) (auto simp: pending_msgs_def)

lemma pending_all: "[] \<notin> set ms \<Longrightarrow> pending_msgs ms = ms"
  by (induction ms) (auto simp: pending_msgs_def)

text \<open>The loop of the back end over what the outside answers at each iteration; \<open>None\<close> when it waits.\<close>

fun backend_run :: "('q \<Rightarrow> (string \<times> 'q) option) \<Rightarrow> int \<Rightarrow> append_io list \<Rightarrow> 'q async_log \<Rightarrow> 'q async_log result option" where
  "backend_run tak pid [] s = Some (Inr s)"
| "backend_run tak pid (io # ios) s =
     (if al_backend s = Ended then Some (Inr s)
      else (case threadFunc_iter tak pid io s of
              None \<Rightarrow> None
            | Some (Inl e) \<Rightarrow> Some (Inl e)
            | Some (Inr s') \<Rightarrow> backend_run tak pid ios s'))"

definition file_room :: "log_file \<Rightarrow> nat \<Rightarrow> bool" where
  "file_room f n \<longleftrightarrow> log_file_inv f \<and> (\<forall>x. lf_file f = Some x \<longrightarrow> length (f_content x) + n < 2 ^ 64)"

lemma file_room_append:
  assumes "file_room f (length m + n)" and "good_io io"
  shows "\<exists>f'. LogFile_append pid io m f = Inr f' \<and> file_room f' n"
proof -
  obtain x where x: "lf_file f = Some x" using assms(1) by (auto simp: file_room_def log_file_inv_def)
  have i: "log_file_inv f" "length (f_content x) + length m < 2 ^ 64" "length (f_content x) + length m + n < 2 ^ 64"
    using assms(1) x by (auto simp: file_room_def)
  obtain f' where f': "LogFile_append pid io m f = Inr f'" "log_file_inv f'" "same_file m f f' \<or> new_file pid (io_roll_now io) m f f'"
    using append_step [OF i(1) assms(2) x i(2)] by blast
  have "length (last (contents f')) \<le> length (f_content x) + length m"
    using f'(3) x by (auto simp: same_file_def new_file_def contents_def all_files_def)
  moreover have "last (contents f') = f_content y" if "lf_file f' = Some y" for y
    using that by (simp add: contents_def all_files_def)
  ultimately show ?thesis using f'(1,2) i(3) by (fastforce simp: file_room_def)
qed

text \<open>A queue of strings, as the logger instantiates it.\<close>

locale logger_queue = message_queue qinv cont put tak
  for qinv :: "'q \<Rightarrow> bool" and cont :: "'q \<Rightarrow> string list" and put :: "string \<Rightarrow> 'q \<Rightarrow> 'q option"
    and tak :: "'q \<Rightarrow> (string \<times> 'q) option"
begin

lemma append_inv:
  assumes "al_inv qinv cont pid s" and "m \<noteq> []" and "AsyncLogging_append put m s = Some s'" and "al_backend s = Ended \<longrightarrow> al_marker s"
  shows "al_inv qinv cont pid s'"
proof -
  from assms(3) obtain q where q: "put m (al_queue s) = Some q"
    "s' = s\<lparr>al_queue := q, al_before := (if al_marker s then al_before s else al_before s @ [m])\<rparr>"
    by (auto simp: AsyncLogging_append_def)
  have c: "qinv q" "cont q = cont (al_queue s) @ [m]" using put_law q(1) assms(1) by (auto simp: al_inv_def)
  show ?thesis
  proof (cases "al_backend s = Ended")
    case True
    then show ?thesis using assms(1,2) q(2) c by (simp add: al_inv_def)
  next
    case False
    then have i: "map snd (al_log s) @ pending_msgs (cont (al_queue s)) = al_before s" "al_marker s \<longleftrightarrow> [] \<in> set (cont (al_queue s))"
      using assms(1) by (simp_all add: al_inv_def)
    then have "map snd (al_log s) @ pending_msgs (cont q) = (if al_marker s then al_before s else al_before s @ [m])"
      using assms(2) pending_all [of "cont (al_queue s)"] by (auto simp: c(2) pending_snoc)
    then show ?thesis using assms(1,2) q(2) c i(2) False by (simp add: al_inv_def)
  qed
qed

lemma stop_inv:
  assumes "al_inv qinv cont pid s" and "al_backend s = InLoop" and "\<not> al_marker s" and "AsyncLogging_stop put s = Some s'"
  shows "al_inv qinv cont pid s'"
proof -
  from assms(4) obtain q where q: "put [] (al_queue s) = Some q" "s' = s\<lparr>al_running := False, al_queue := q, al_marker := True\<rparr>"
    by (auto simp: AsyncLogging_stop_def)
  have "qinv q" "cont q = cont (al_queue s) @ [[]]" using put_law q(1) assms(1) by (auto simp: al_inv_def)
  then show ?thesis using assms q(2) pending_all [of "cont (al_queue s)"] by (auto simp: al_inv_def pending_snoc)
qed

text \<open>An iteration never fails an assertion of its own: a failure is one of the log file.\<close>

lemma iter_fails:
  assumes inv: "al_inv qinv cont pid s" and pc: "al_backend s = InLoop" and bad: "threadFunc_iter tak pid io s = Some (Inl e)"
  shows "\<exists>f m. al_output s = Some f \<and> (LogFile_append pid io m f = Inl e \<or> LogFile_flush f = Inl e)"
proof -
  from bad obtain m q where t: "tak (al_queue s) = Some (m, q)" by (auto simp: threadFunc_iter_def split: option.splits)
  have c: "cont (al_queue s) = m # cont q" using take_law t inv by (auto simp: al_inv_def)
  obtain f where f: "al_output s = Some f" using inv pc by (auto simp: al_inv_def)
  have "\<not> al_running s" if "m = []" using inv pc c that by (auto simp: al_inv_def)
  then show ?thesis using bad t f by (auto simp: threadFunc_iter_def bindR_def Let_def split: sum.splits if_splits)
qed

lemma iter_inv:
  assumes inv: "al_inv qinv cont pid s" and pc: "al_backend s = InLoop" and run: "threadFunc_iter tak pid io s = Some (Inr s')"
  shows "al_inv qinv cont pid s'"
proof -
  obtain f0 f where f: "al_first s = Some f0" "al_output s = Some f" "foldR (\<lambda>(io, t). LogFile_append pid io t) (al_log s) f0 = Inr f"
    using inv pc by (auto simp: al_inv_def file_of_def split: option.splits)
  from run obtain m q where t: "tak (al_queue s) = Some (m, q)" by (auto simp: threadFunc_iter_def split: option.splits)
  have c: "qinv q" "cont (al_queue s) = m # cont q" using take_law t inv by (auto simp: al_inv_def)
  show ?thesis
  proof (cases "m = []")
    case True
    with run t f obtain f1 where "\<not> al_running s" "LogFile_flush f = Inr f1" "s' = s\<lparr>al_queue := q, al_output := Some f1, al_backend := Ended\<rparr>"
      by (auto simp: threadFunc_iter_def bindR_def Let_def split: sum.splits if_splits)
    then show ?thesis using inv pc c f True by (auto simp: al_inv_def file_of_def pending_msgs_def)
  next
    case False
    with run t f obtain f1 where "LogFile_append pid io m f = Inr f1" "s' = s\<lparr>al_queue := q, al_output := Some f1, al_log := al_log s @ [(io, m)]\<rparr>"
      by (auto simp: threadFunc_iter_def bindR_def Let_def split: sum.splits)
    then show ?thesis using inv pc c f False by (auto simp: al_inv_def file_of_def pending_msgs_def foldR_append)
  qed
qed

lemma begin_inv:
  assumes "al_inv qinv cont pid s" and "al_backend s = Begins" and "threadFunc_begin newFile s = Inr s'"
  shows "al_inv qinv cont pid s'"
proof -
  from assms(3) obtain f where "s' = s\<lparr>al_output := Some f, al_first := Some f, al_backend := InLoop\<rparr>"
    by (cases newFile) (auto simp: threadFunc_begin_def split: if_splits)
  with assms(1,2) show ?thesis by (clarsimp simp: al_inv_def file_of_def)
qed

lemma al_step_inv: "al_step put tak pid s s' \<Longrightarrow> al_inv qinv cont pid s \<Longrightarrow> al_inv qinv cont pid s'"
proof (induction rule: al_step.induct)
  case (al_appends m s s')
  have "al_backend s = Ended \<longrightarrow> al_marker s" using al_appends.prems by (simp add: al_inv_def)
  from append_inv [OF al_appends.prems al_appends.hyps this] show ?case .
next
  case (al_stops s s')
  from stop_inv [OF al_stops.prems al_stops.hyps] show ?case .
next
  case (al_iterates s io s')
  from iter_inv [OF al_iterates.prems al_iterates.hyps] show ?case .
next
  case (al_begins s newFile s')
  from begin_inv [OF al_begins.prems al_begins.hyps] show ?case .
next
  case (al_starts s)
  then have "al_inv qinv cont pid s" "al_backend s = NotStarted" by blast+
  then show ?case unfolding AsyncLogging_start_def by (clarsimp simp: al_inv_def file_of_def)
qed

lemma al_steps_inv: "(al_step put tak pid)\<^sup>*\<^sup>* s s' \<Longrightarrow> al_inv qinv cont pid s \<Longrightarrow> al_inv qinv cont pid s'"
  by (induction rule: rtranclp_induct) (auto intro: al_step_inv)

lemma al_new_inv: "qinv q \<Longrightarrow> cont q = [] \<Longrightarrow> al_inv qinv cont pid (AsyncLogging_new q)"
  by (simp add: al_inv_def AsyncLogging_new_def file_of_def pending_msgs_def)

text \<open>After \<open>stop()\<close> the back end ends: it needs one iteration for each message before the marker and one for the marker.\<close>

lemma backend_ends:
  assumes "al_inv qinv cont pid s" and "al_backend s = InLoop" and "cont (al_queue s) = ms @ [] # rest" and "[] \<notin> set ms"
    and "al_output s = Some f" and "file_room f (length (concat ms))" and "\<forall>io \<in> set ios. good_io io" and "length ms < length ios"
    and "al_marker s"
  shows "\<exists>s'. backend_run tak pid ios s = Some (Inr s') \<and> al_backend s' = Ended \<and> al_before s' = al_before s \<and> al_inv qinv cont pid s'"
  using assms
proof (induction ms arbitrary: s f ios)
  case Nil
  then obtain io ios' where ios: "ios = io # ios'" by (cases ios) auto
  from take_first [of "al_queue s" "[]" rest] Nil obtain q where q: "tak (al_queue s) = Some ([], q)" by (auto simp: al_inv_def)
  obtain f' where "LogFile_flush f = Inr f'" using Nil.prems(6) by (auto simp: LogFile_flush_def file_room_def log_file_inv_def)
  moreover have "\<not> al_running s" using Nil.prems by (simp add: al_inv_def)
  ultimately have r: "threadFunc_iter tak pid io s = Some (Inr (s\<lparr>al_queue := q, al_output := Some f', al_backend := Ended\<rparr>))"
    using q Nil.prems(5) by (simp add: threadFunc_iter_def Let_def)
  from iter_inv [OF Nil.prems(1,2) r] r Nil.prems(2) ios show ?case by (cases ios') simp_all
next
  case (Cons m ms)
  then obtain io ios' where ios: "ios = io # ios'" by (cases ios) auto
  from take_first [of "al_queue s" m "ms @ [] # rest"] Cons.prems obtain q where
    q: "tak (al_queue s) = Some (m, q)" "cont q = ms @ [] # rest" by (auto simp: al_inv_def)
  have "file_room f (length m + length (concat ms))" using Cons.prems(6) by simp
  from file_room_append [OF this, of io pid] Cons.prems(7) ios obtain f' where
    f': "LogFile_append pid io m f = Inr f'" "file_room f' (length (concat ms))" by auto
  let ?s = "s\<lparr>al_queue := q, al_output := Some f', al_log := al_log s @ [(io, m)]\<rparr>"
  have "m \<noteq> []" using Cons.prems(4) by auto
  then have r: "threadFunc_iter tak pid io s = Some (Inr ?s)"
    using q Cons.prems(5) f' by (simp add: threadFunc_iter_def Let_def)
  have "\<exists>s'. backend_run tak pid ios' ?s = Some (Inr s') \<and> al_backend s' = Ended \<and> al_before s' = al_before ?s \<and> al_inv qinv cont pid s'"
    using iter_inv [OF Cons.prems(1,2) r] Cons.prems q(2) f'(2) ios by (intro Cons.IH) auto
  then show ?case using ios r Cons.prems(2) by simp
qed

text \<open>The contract of the asynchronous logger, for every queue.\<close>

lemma logs_everything:
  assumes "qinv q" and "cont q = []" and "(al_step put tak pid)\<^sup>*\<^sup>* (AsyncLogging_new q) s"
  shows "(\<exists>rest. map snd (al_log s) @ rest = al_before s)
     \<and> (al_backend s = Ended \<longrightarrow> map snd (al_log s) = al_before s \<and> (\<exists>f0 f f1. al_first s = Some f0
       \<and> foldR (\<lambda>(io, t). LogFile_append pid io t) (al_log s) f0 = Inr f \<and> LogFile_flush f = Inr f1 \<and> al_output s = Some f1))
     \<and> (al_backend s = Begins \<longrightarrow> al_running s)"
proof -
  have i: "al_inv qinv cont pid s" using al_steps_inv [OF assms(3) al_new_inv [OF assms(1,2)]] .
  then have "\<exists>rest. map snd (al_log s) @ rest = al_before s" by (cases "al_backend s = Ended") (auto simp: al_inv_def)
  with i show ?thesis by (auto simp: al_inv_def file_of_def split: option.splits)
qed

end

interpretation unbounded_log: logger_queue "\<lambda>_. True" bq_queue BlockingQueue_put BlockingQueue_take
  by unfold_locales

text \<open>A producer that finds the queue full takes no step here, so that nobody sleeps on the other condition.\<close>

interpretation bounded_log: logger_queue "\<lambda>q. length (bb_queue q) \<le> bb_capacity q" bb_queue BoundedBlockingQueue_put
  "BoundedBlockingQueue_take None"
  by unfold_locales

section \<open>LogMessage\<close>

text \<open>The fixed-size message of the second pair of instances: its array and its length.\<close>

record log_message =
  lm_data :: string
  lm_length :: nat

definition kMessageSize :: nat where "kMessageSize = 4000"

definition LogMessage_empty :: "string \<Rightarrow> log_message" where
  "LogMessage_empty garbage = \<lparr>lm_data = garbage, lm_length = 0\<rparr>"

definition LogMessage_of :: "string \<Rightarrow> string \<Rightarrow> log_message result" where
  "LogMessage_of garbage msg =
     assertR (length msg \<le> kMessageSize)
       (bindR (write_range garbage 0 msg) (\<lambda>d. Inr \<lparr>lm_data = d, lm_length = length msg\<rparr>))"

definition LogMessage_copy :: "string \<Rightarrow> log_message \<Rightarrow> log_message result" where
  "LogMessage_copy garbage rhs =
     assertR (lm_length rhs \<le> kMessageSize)
       (bindR (read_range (lm_data rhs) 0 (lm_length rhs)) (\<lambda>bytes.
          bindR (write_range garbage 0 bytes) (\<lambda>d. Inr \<lparr>lm_data = d, lm_length = lm_length rhs\<rparr>)))"

definition lm_text :: "log_message \<Rightarrow> string" where
  "lm_text m = take (lm_length m) (lm_data m)"

lemma LogMessage_copy_text:
  assumes "length garbage = kMessageSize" and "length g2 = kMessageSize" and "length msg \<le> kMessageSize"
  shows "\<exists>m c. LogMessage_of garbage msg = Inr m \<and> lm_text m = msg \<and> LogMessage_copy g2 m = Inr c \<and> lm_text c = msg"
  using assms by (simp add: LogMessage_of_def LogMessage_copy_def write_range_ok lm_text_def)

section \<open>Properties\<close>

text \<open>
  What the log file got is a prefix of what was appended before \<open>stop()\<close>, and once the thread has ended it is all of it:
  the file is the result of appending those messages one by one, in order, and flushing.
\<close>

definition logged_in_order :: "int \<Rightarrow> 'q async_log \<Rightarrow> bool" where
  "logged_in_order pid s \<longleftrightarrow>
     (\<exists>rest. map snd (al_log s) @ rest = al_before s)
     \<and> (al_backend s = Ended \<longrightarrow> map snd (al_log s) = al_before s \<and> (\<exists>f0 f f1. al_first s = Some f0
          \<and> foldR (\<lambda>(io, t). LogFile_append pid io t) (al_log s) f0 = Inr f \<and> LogFile_flush f = Inr f1 \<and> al_output s = Some f1))"

text \<open>
  C17. With either queue, in every interleaving of the threads that log, of \<open>start()\<close> and \<open>stop()\<close> and of the back end,
  non-empty messages reach the log file in the order in which they were appended, and when the back end thread has
  ended every message appended before \<open>stop()\<close> is in the file, which has been flushed.
\<close>

theorem AsyncLogging_logs_everything:
  "((al_step BlockingQueue_put BlockingQueue_take pid)\<^sup>*\<^sup>* (AsyncLogging_new BlockingQueue_new) s \<longrightarrow> logged_in_order pid s)
   \<and> ((al_step BoundedBlockingQueue_put (BoundedBlockingQueue_take None) pid)\<^sup>*\<^sup>* (AsyncLogging_new (BoundedBlockingQueue_new n)) s2
       \<longrightarrow> logged_in_order pid s2)"
  using unbounded_log.logs_everything [of BlockingQueue_new pid s] bounded_log.logs_everything [of "BoundedBlockingQueue_new n" pid s2]
  by (simp add: BlockingQueue_new_def BoundedBlockingQueue_new_def logged_in_order_def)

theorem AsyncLogging_logs_everything_witness:
  "\<exists>s. (al_step BlockingQueue_put BlockingQueue_take 7)\<^sup>*\<^sup>* (AsyncLogging_new BlockingQueue_new) s \<and> al_before s = [''one'', ''two'']
     \<and> logged_in_order 7 s"
proof -
  let ?step = "al_step BlockingQueue_put BlockingQueue_take 7"
  define s1 where "s1 = the (AsyncLogging_append BlockingQueue_put ''one'' (AsyncLogging_new BlockingQueue_new))"
  define s2 where "s2 = the (AsyncLogging_append BlockingQueue_put ''two'' s1)"
  have b: "al_before s2 = [''one'', ''two'']"
    by (simp add: s1_def s2_def AsyncLogging_append_def BlockingQueue_put_def AsyncLogging_new_def)
  have "?step (AsyncLogging_new BlockingQueue_new) s1"
    by (rule al_appends [of "''one''"]) (simp_all add: s1_def AsyncLogging_append_def BlockingQueue_put_def)
  moreover have "?step s1 s2"
    by (rule al_appends [of "''two''"]) (simp_all add: s2_def AsyncLogging_append_def BlockingQueue_put_def)
  ultimately have r: "?step\<^sup>*\<^sup>* (AsyncLogging_new BlockingQueue_new) s2" by simp
  then have "logged_in_order 7 s2" using AsyncLogging_logs_everything by blast
  with r b show ?thesis by blast
qed

text \<open>
  Logging an empty line while the logger runs ends the program: the back end takes the empty message for the
  end marker of \<open>stop()\<close> and its assertion that the logger has been stopped fails.
\<close>

theorem AsyncLogging_empty_line_fails:
  assumes "al_running s" and "bq_queue (al_queue s) = []" and "al_output s = Some f"
    and "AsyncLogging_append BlockingQueue_put [] s = Some s'"
  shows "threadFunc_iter BlockingQueue_take pid io s' = Some (Inl AssertionFailed)"
proof -
  have "al_running s' \<and> al_output s' = Some f \<and> bq_queue (al_queue s') = [[]]"
    using assms by (auto simp: AsyncLogging_append_def BlockingQueue_put_def bq_notify_def)
  then show ?thesis by (simp add: threadFunc_iter_def BlockingQueue_take_def Let_def)
qed

text \<open>
  C18. Stopping the logger terminates its thread: whatever the threads did before, once \<open>stop()\<close> has put its marker into
  the queue and provided that the log file can be opened and written, the back end reaches its end after as many iterations as there are
  messages before the marker, and one more; the file then holds every message appended before \<open>stop()\<close>.
\<close>

theorem AsyncLogging_stop_terminates:
  assumes "(al_step BlockingQueue_put BlockingQueue_take pid)\<^sup>*\<^sup>* (AsyncLogging_new BlockingQueue_new) s"
    and "al_backend s = InLoop" and "al_marker s" and "bq_queue (al_queue s) = ms @ [] # rest" and "[] \<notin> set ms"
    and "al_output s = Some f" and "file_room f (length (concat ms))" and "\<forall>io \<in> set ios. good_io io" and "length ms < length ios"
  shows "\<exists>s'. backend_run BlockingQueue_take pid ios s = Some (Inr s') \<and> al_backend s' = Ended \<and> map snd (al_log s') = al_before s"
proof -
  have "al_inv (\<lambda>_. True) bq_queue pid (AsyncLogging_new BlockingQueue_new)"
    by (rule unbounded_log.al_new_inv) (simp_all add: BlockingQueue_new_def)
  from unbounded_log.al_steps_inv [OF assms(1) this] have inv: "al_inv (\<lambda>_. True) bq_queue pid s" .
  from unbounded_log.backend_ends [OF inv assms(2,4-9,3)] show ?thesis by (auto simp: al_inv_def)
qed

text \<open>A run of the logger up to \<open>stop()\<close>.\<close>

definition log_sample :: log_file where
  "log_sample = \<lparr>lf_basename = ''log'', rollSize = 100, flushInterval = 3, lf_count = 0, hasMutex = False, startOfPeriod = 0,
     lastRoll = 4, lastFlush = 4, lf_file = Some \<lparr>f_name = ''x'', f_content = [], f_flushed = 0, writtenBytes = 0\<rparr>, closedFiles = []\<rparr>"

definition stopped_sample :: "string blocking_queue async_log" where
  "stopped_sample = \<lparr>al_running = False, al_queue = \<lparr>bq_queue = [''one'', []], bq_sleeping = 0, bq_woken = 0\<rparr>, al_output = Some log_sample,
     al_backend = InLoop, al_marker = True, al_before = [''one''], al_log = [], al_first = Some log_sample\<rparr>"

lemma stopped_sample_reached:
  "(al_step BlockingQueue_put BlockingQueue_take 7)\<^sup>*\<^sup>* (AsyncLogging_new BlockingQueue_new) stopped_sample"
proof -
  let ?step = "al_step BlockingQueue_put BlockingQueue_take 7" and ?n = "AsyncLogging_new BlockingQueue_new"
  define a where "a = the (AsyncLogging_append BlockingQueue_put ''one'' ?n)"
  define b where "b = (AsyncLogging_start a)\<lparr>al_output := Some log_sample, al_first := Some log_sample, al_backend := InLoop\<rparr>"
  note defs = AsyncLogging_append_def BlockingQueue_put_def bq_notify_def AsyncLogging_new_def BlockingQueue_new_def AsyncLogging_start_def
  have "?step ?n a" by (rule al_appends [of "''one''"]) (simp_all add: a_def defs)
  moreover have "?step a (AsyncLogging_start a)" by (rule al_starts) (simp add: a_def defs)
  moreover have "?step (AsyncLogging_start a) b"
    by (rule al_begins [where newFile = "Inr log_sample"]) (simp_all add: threadFunc_begin_def b_def AsyncLogging_start_def)
  moreover have "?step b stopped_sample"
    by (rule al_stops) (simp_all add: b_def a_def stopped_sample_def AsyncLogging_stop_def defs)
  ultimately show ?thesis by (meson rtranclp.rtrancl_into_rtrancl rtranclp.rtrancl_refl)
qed

theorem AsyncLogging_stop_terminates_witness:
  "\<exists>s'. backend_run BlockingQueue_take 7 (replicate 2 \<lparr>io_write = (\<lambda>_. 9), io_now = 5, io_roll_now = 5, io_opens = True\<rparr>) stopped_sample = Some (Inr s')
     \<and> al_backend s' = Ended \<and> map snd (al_log s') = [''one'']"
proof -
  have f: "file_room log_sample (length (concat [''one'']))"
    by (simp add: file_room_def log_sample_def log_file_inv_def kCheckTimeRoll_def start_of_period_def kRollPerSeconds_def sdiv_nonneg)
  have s: "al_backend stopped_sample = InLoop" "al_marker stopped_sample" "bq_queue (al_queue stopped_sample) = [''one''] @ [] # []"
    "al_output stopped_sample = Some log_sample" "al_before stopped_sample = [''one'']"
    by (simp_all add: stopped_sample_def)
  let ?ios = "replicate 2 \<lparr>io_write = (\<lambda>_. 9), io_now = 5, io_roll_now = 5, io_opens = True\<rparr>"
  have "\<forall>io \<in> set ?ios. good_io io" "length [''one''] < length ?ios" by (simp_all add: good_io_def)
  from AsyncLogging_stop_terminates [OF stopped_sample_reached s(1-3) _ s(4) f this] show ?thesis by (simp add: s(5))
qed

end
