(* ===== verification/DoubleBuffer.thy ===== *)
theory DoubleBuffer
  imports LogStream LogFile
begin

text \<open>
  \<^verbatim>\<open>muduo/logging/AsyncLoggingDoubleBuffering.h\<close>: front ends fill a current buffer under a mutex, the back
  end exchanges it for an empty one and writes the full buffers to the log file. The steps are the
  critical sections and the work of the back end between them. \<open>db_appended\<close> collects the text
  accepted from the front ends, \<open>db_hist\<close> the buffers that left the logger, each written or dropped.
\<close>

section \<open>The class\<close>

datatype db_pc = DbNotStarted | DbBegins | DbAtLoop | DbSwapped | DbEnded

record double_buffer =
  db_running :: bool
  currentBuffer :: fixed_buffer
  nextBuffer :: "fixed_buffer option"
  db_buffers :: "fixed_buffer list"
  newBuffer1 :: "fixed_buffer option"
  newBuffer2 :: "fixed_buffer option"
  buffersToWrite :: "fixed_buffer list"
  db_output :: "log_file option"
  db_at :: db_pc
  db_appended :: string
  db_hist :: "(bool \<times> string) list"

text \<open>A new buffer: \<open>g\<close> is the memory it gets.\<close>

definition Buffer_fresh :: "string \<Rightarrow> fixed_buffer" where
  "Buffer_fresh g = fb_bzero (FixedBuffer_new g)"

definition DoubleBuffering_new :: "string \<Rightarrow> string \<Rightarrow> double_buffer" where
  "DoubleBuffering_new g1 g2 = \<lparr>db_running = False, currentBuffer = Buffer_fresh g1, nextBuffer = Some (Buffer_fresh g2),
     db_buffers = [], newBuffer1 = None, newBuffer2 = None, buffersToWrite = [], db_output = None, db_at = DbNotStarted,
     db_appended = [], db_hist = []\<rparr>"

definition appended_part :: "fixed_buffer \<Rightarrow> string \<Rightarrow> string" where
  "appended_part b t = (if avail b > int (length t) then t else [])"

definition DoubleBuffering_append :: "string \<Rightarrow> string \<Rightarrow> double_buffer \<Rightarrow> double_buffer result" where
  "DoubleBuffering_append g logline s =
     (let len = int (length logline) in
      if avail (currentBuffer s) > len then
        bindR (FixedBuffer_append logline len (currentBuffer s)) (\<lambda>b.
          Inr (s\<lparr>currentBuffer := b, db_appended := db_appended s @ appended_part (currentBuffer s) logline\<rparr>))
      else
        (let s1 = s\<lparr>db_buffers := db_buffers s @ [currentBuffer s]\<rparr>;
             s2 = (case nextBuffer s1 of
                     Some b \<Rightarrow> s1\<lparr>currentBuffer := b, nextBuffer := None\<rparr>
                   | None \<Rightarrow> s1\<lparr>currentBuffer := FixedBuffer_new g\<rparr>)
         in bindR (FixedBuffer_append logline len (currentBuffer s2)) (\<lambda>b.
              Inr (s2\<lparr>currentBuffer := b, db_appended := db_appended s2 @ appended_part (currentBuffer s2) logline\<rparr>))))"

definition DoubleBuffering_start :: "double_buffer \<Rightarrow> double_buffer" where
  "DoubleBuffering_start s = s\<lparr>db_running := True, db_at := DbBegins\<rparr>"

definition DoubleBuffering_stop :: "double_buffer \<Rightarrow> double_buffer" where
  "DoubleBuffering_stop s = s\<lparr>db_running := False\<rparr>"

text \<open>\<open>threadFunc\<close>: before the loop, the exchange of buffers under the mutex, the rest of an iteration, the end.\<close>

definition db_begin :: "log_file result \<Rightarrow> string \<Rightarrow> string \<Rightarrow> double_buffer \<Rightarrow> double_buffer result" where
  "db_begin newFile g1 g2 s =
     assertR (db_running s)
       (bindR newFile (\<lambda>f. Inr (s\<lparr>db_output := Some f, newBuffer1 := Some (Buffer_fresh g1), newBuffer2 := Some (Buffer_fresh g2),
          buffersToWrite := [], db_at := DbAtLoop\<rparr>)))"

definition emptied :: "fixed_buffer option \<Rightarrow> bool" where
  "emptied b \<longleftrightarrow> (case b of None \<Rightarrow> False | Some x \<Rightarrow> fb_length x = 0)"

definition db_swap :: "double_buffer \<Rightarrow> double_buffer result" where
  "db_swap s =
     assertR (emptied (newBuffer1 s))
       (assertR (emptied (newBuffer2 s))
         (assertR (buffersToWrite s = [])
           (case newBuffer1 s of
              None \<Rightarrow> Inl DanglingPointer
            | Some b1 \<Rightarrow>
                let s1 = s\<lparr>db_buffers := db_buffers s @ [currentBuffer s], currentBuffer := b1, newBuffer1 := None\<rparr>;
                    s2 = s1\<lparr>buffersToWrite := db_buffers s1, db_buffers := buffersToWrite s1\<rparr>;
                    s3 = (if nextBuffer s2 = None then s2\<lparr>nextBuffer := newBuffer2 s2, newBuffer2 := None\<rparr> else s2)
                in assertR (buffersToWrite s3 \<noteq> []) (Inr (s3\<lparr>db_at := DbSwapped\<rparr>)))))"

definition dropMsg :: string where
  "dropMsg = ''Dropped log messages'' @ [CHR 0x0A]"

definition write_texts :: "int \<Rightarrow> (nat \<Rightarrow> append_io) \<Rightarrow> string list \<Rightarrow> log_file \<Rightarrow> log_file result" where
  "write_texts pid ios ts f = foldR (\<lambda>(io, t). LogFile_append pid io t) (zip (map ios [0..<length ts]) ts) f"

text \<open>A buffer taken back from the written ones, when one was given away.\<close>

definition reclaim :: "fixed_buffer option \<Rightarrow> fixed_buffer list \<Rightarrow> (fixed_buffer option \<times> fixed_buffer list) result" where
  "reclaim nb bs =
     (case nb of
        Some b \<Rightarrow> Inr (Some b, bs)
      | None \<Rightarrow> assertR (bs \<noteq> []) (Inr (Some (fb_reset (last bs)), butlast bs)))"

definition db_write :: "int \<Rightarrow> (nat \<Rightarrow> append_io) \<Rightarrow> double_buffer \<Rightarrow> double_buffer result" where
  "db_write pid ios s =
     (case db_output s of
        None \<Rightarrow> Inl DanglingPointer
      | Some f \<Rightarrow>
          let bs = buffersToWrite s;
              overflow = 25 < length bs;
              dropped = (if overflow then take (length bs - 2) bs else []);
              kept = (if overflow then drop (length bs - 2) bs else bs);
              texts = (if overflow then [dropMsg] else []) @ map fb_text kept
          in bindR (write_texts pid ios texts f) (\<lambda>f1.
               let bs1 = (if 2 < length kept then take 2 kept else kept) in
               bindR (reclaim (newBuffer1 s) bs1) (\<lambda>(nb1, bs2).
                 bindR (reclaim (newBuffer2 s) bs2) (\<lambda>(nb2, bs3).
                   bindR (LogFile_flush f1) (\<lambda>f2.
                     Inr (s\<lparr>newBuffer1 := nb1, newBuffer2 := nb2, buffersToWrite := [], db_output := Some f2, db_at := DbAtLoop,
                            db_hist := db_hist s @ map (\<lambda>b. (False, fb_text b)) dropped @ map (\<lambda>b. (True, fb_text b)) kept\<rparr>))))))"

definition db_end :: "double_buffer \<Rightarrow> double_buffer result" where
  "db_end s =
     (case db_output s of
        None \<Rightarrow> Inl DanglingPointer
      | Some f \<Rightarrow> bindR (LogFile_flush f) (\<lambda>f1. Inr (s\<lparr>db_output := Some f1, db_at := DbEnded\<rparr>)))"

inductive db_step :: "nat \<Rightarrow> int \<Rightarrow> double_buffer \<Rightarrow> double_buffer \<Rightarrow> bool" for n pid where
  db_appends: "length g = n \<Longrightarrow> DoubleBuffering_append g t s = Inr s' \<Longrightarrow> db_step n pid s s'"
| db_starts: "db_at s = DbNotStarted \<Longrightarrow> db_step n pid s (DoubleBuffering_start s)"
| db_stops: "db_at s \<in> {DbAtLoop, DbSwapped} \<Longrightarrow> db_step n pid s (DoubleBuffering_stop s)"
| db_begins: "db_at s = DbBegins \<Longrightarrow> length g1 = n \<Longrightarrow> length g2 = n \<Longrightarrow> db_begin newFile g1 g2 s = Inr s' \<Longrightarrow> db_step n pid s s'"
| db_swaps: "db_at s = DbAtLoop \<Longrightarrow> db_running s \<Longrightarrow> db_swap s = Inr s' \<Longrightarrow> db_step n pid s s'"
| db_writes: "db_at s = DbSwapped \<Longrightarrow> db_write pid ios s = Inr s' \<Longrightarrow> db_step n pid s s'"
| db_ends: "db_at s = DbAtLoop \<Longrightarrow> \<not> db_running s \<Longrightarrow> db_end s = Inr s' \<Longrightarrow> db_step n pid s s'"

section \<open>Invariant\<close>

definition buf_ok :: "nat \<Rightarrow> fixed_buffer \<Rightarrow> bool" where
  "buf_ok n b \<longleftrightarrow> fb_inv b \<and> length (fb_data b) = n"

definition clean :: "nat \<Rightarrow> fixed_buffer option \<Rightarrow> bool" where
  "clean n nb \<longleftrightarrow> (\<exists>b. nb = Some b \<and> buf_ok n b \<and> fb_cur b = 0)"

definition waiting_text :: "double_buffer \<Rightarrow> string" where
  "waiting_text s = concat (map fb_text (buffersToWrite s)) @ concat (map fb_text (db_buffers s)) @ fb_text (currentBuffer s)"

definition front_inv :: "nat \<Rightarrow> double_buffer \<Rightarrow> bool" where
  "front_inv n s \<longleftrightarrow> buf_ok n (currentBuffer s) \<and> (\<forall>b \<in> set (db_buffers s). buf_ok n b)
     \<and> (nextBuffer s \<noteq> None \<longrightarrow> clean n (nextBuffer s)) \<and> (nextBuffer s = None \<longrightarrow> db_buffers s \<noteq> [])"

definition back_inv :: "nat \<Rightarrow> double_buffer \<Rightarrow> bool" where
  "back_inv n s \<longleftrightarrow> (\<forall>b \<in> set (buffersToWrite s). buf_ok n b)
     \<and> (db_at s \<in> {DbNotStarted, DbBegins, DbAtLoop} \<longrightarrow> buffersToWrite s = [])
     \<and> (db_at s = DbAtLoop \<longrightarrow> clean n (newBuffer1 s) \<and> clean n (newBuffer2 s))
     \<and> (db_at s = DbSwapped \<longrightarrow> newBuffer1 s = None \<and> buffersToWrite s \<noteq> []
         \<and> (if newBuffer2 s = None then 2 \<le> length (buffersToWrite s) else clean n (newBuffer2 s)))
     \<and> (db_at s \<in> {DbAtLoop, DbSwapped} \<longrightarrow> db_output s \<noteq> None) \<and> (db_at s = DbBegins \<longrightarrow> db_running s)"

definition text_inv :: "double_buffer \<Rightarrow> bool" where
  "text_inv s \<longleftrightarrow> concat (map snd (db_hist s)) @ waiting_text s = db_appended s"

definition db_inv :: "nat \<Rightarrow> double_buffer \<Rightarrow> bool" where
  "db_inv n s \<longleftrightarrow> 0 < n \<and> front_inv n s \<and> back_inv n s \<and> text_inv s"

lemma fresh_clean: "0 < length g \<Longrightarrow> clean (length g) (Some (Buffer_fresh g))" "0 < length g \<Longrightarrow> buf_ok (length g) (FixedBuffer_new g)"
  "fb_text (FixedBuffer_new g) = []" "fb_text (Buffer_fresh g) = []"
  by (simp_all add: clean_def buf_ok_def fb_inv_def Buffer_fresh_def fb_bzero_def FixedBuffer_new_def fb_text_def)

lemma clean_text: "clean n (Some b) \<Longrightarrow> fb_text b = []"
  by (simp add: clean_def fb_text_def)

lemma append_buf:
  assumes "buf_ok n b"
  shows "\<exists>b'. FixedBuffer_append t (int (length t)) b = Inr b' \<and> buf_ok n b' \<and> fb_text b' = fb_text b @ appended_part b t"
  using append_stores [of b t] assms by (auto simp: stores_def buf_ok_def appended_part_def)

lemma append_ok:
  assumes inv: "db_inv n s" and g: "length g = n"
  shows "\<exists>s'. DoubleBuffering_append g t s = Inr s' \<and> db_inv n s' \<and> db_at s' = db_at s
     \<and> (length t < n \<longrightarrow> db_appended s' = db_appended s @ t)"
proof (cases "avail (currentBuffer s) > int (length t)")
  case True
  have cur: "buf_ok n (currentBuffer s)" using inv by (simp add: db_inv_def front_inv_def)
  from append_buf [OF cur] obtain b' where b': "FixedBuffer_append t (int (length t)) (currentBuffer s) = Inr b'" "buf_ok n b'"
    "fb_text b' = fb_text (currentBuffer s) @ appended_part (currentBuffer s) t" by blast
  then have "DoubleBuffering_append g t s =
      Inr (s\<lparr>currentBuffer := b', db_appended := db_appended s @ appended_part (currentBuffer s) t\<rparr>)"
    using True by (simp add: DoubleBuffering_append_def)
  then show ?thesis using inv b' True
    by (auto simp: db_inv_def front_inv_def back_inv_def text_inv_def waiting_text_def appended_part_def)
next
  case False
  define b0 where "b0 = (case nextBuffer s of Some b \<Rightarrow> b | None \<Rightarrow> FixedBuffer_new g)"
  define s2 where "s2 = s\<lparr>db_buffers := db_buffers s @ [currentBuffer s], currentBuffer := b0, nextBuffer := None\<rparr>"
  have b0: "buf_ok n b0" "fb_text b0 = []" "fb_cur b0 = 0"
    using inv g fresh_clean [of g] clean_text
    by (auto simp: b0_def db_inv_def front_inv_def clean_def FixedBuffer_new_def split: option.splits)
  from append_buf [OF b0(1)] obtain b' where b': "FixedBuffer_append t (int (length t)) b0 = Inr b'" "buf_ok n b'"
    "fb_text b' = appended_part b0 t" using b0(2) by auto
  have "DoubleBuffering_append g t s = Inr (s2\<lparr>currentBuffer := b', db_appended := db_appended s @ appended_part b0 t\<rparr>)"
    using False b'(1) by (cases "nextBuffer s") (simp_all add: DoubleBuffering_append_def Let_def s2_def b0_def)
  moreover have "appended_part b0 t = t" if "length t < n" using b0 that by (simp add: appended_part_def avail_def buf_ok_def)
  ultimately show ?thesis using inv b'
    by (auto simp: db_inv_def front_inv_def back_inv_def text_inv_def waiting_text_def s2_def)
qed

lemma swap_ok:
  assumes inv: "db_inv n s" and pc: "db_at s = DbAtLoop"
  shows "\<exists>s'. db_swap s = Inr s' \<and> db_inv n s' \<and> db_at s' = DbSwapped"
proof -
  from inv pc obtain b1 b2 where b: "newBuffer1 s = Some b1" "buf_ok n b1" "fb_cur b1 = 0" "newBuffer2 s = Some b2" "buf_ok n b2" "fb_cur b2 = 0"
    "buffersToWrite s = []" by (auto simp: db_inv_def back_inv_def clean_def)
  have "fb_text b1 = []" using b by (simp add: fb_text_def)
  then show ?thesis using inv pc b
    by (cases "nextBuffer s") (auto simp: db_swap_def emptied_def fb_length_def Let_def db_inv_def front_inv_def back_inv_def text_inv_def
        waiting_text_def clean_def Suc_le_eq)
qed

lemma reclaim_ok:
  assumes "\<forall>b \<in> set bs. buf_ok n b" and "nb = None \<longrightarrow> bs \<noteq> []" and "nb \<noteq> None \<longrightarrow> clean n nb"
  shows "\<exists>nb'. reclaim nb bs = Inr (nb', if nb = None then butlast bs else bs) \<and> clean n nb'"
proof (cases nb)
  case None
  then have "buf_ok n (last bs)" using assms(1,2) by simp
  then have "clean n (Some (fb_reset (last bs)))" by (auto simp: clean_def fb_reset_def buf_ok_def fb_inv_def)
  then show ?thesis using None assms(2) by (simp add: reclaim_def)
qed (use assms(3) in \<open>simp add: reclaim_def\<close>)

text \<open>The buffers a round drops, keeps and has left for reuse.\<close>

lemma kept_buffers:
  fixes bs :: "fixed_buffer list"
  defines "dr \<equiv> (if 25 < length bs then take (length bs - 2) bs else [])"
    and "kp \<equiv> (if 25 < length bs then drop (length bs - 2) bs else bs)"
  defines "b1 \<equiv> (if 2 < length kp then take 2 kp else kp)"
  shows "bs = dr @ kp" "length b1 = min 2 (length bs)" "set b1 \<subseteq> set bs"
  using set_take_subset [of 2 bs] set_drop_subset [of "length bs - 2" bs] by (auto simp: dr_def kp_def b1_def)

text \<open>What an iteration comes to: only the log file can fail.\<close>

definition written :: "fixed_buffer option \<Rightarrow> fixed_buffer option \<Rightarrow> (bool \<times> string) list \<Rightarrow> log_file \<Rightarrow> double_buffer \<Rightarrow> double_buffer" where
  "written nb1 nb2 h f s = s\<lparr>newBuffer1 := nb1, newBuffer2 := nb2, buffersToWrite := [], db_output := Some f, db_at := DbAtLoop,
     db_hist := db_hist s @ h\<rparr>"

lemma write_run:
  assumes inv: "db_inv n s" and pc: "db_at s = DbSwapped" and out: "db_output s = Some f"
  obtains nb1 nb2 h ts where "clean n nb1" "clean n nb2" "concat (map fb_text (buffersToWrite s)) = concat (map snd h)"
    "length (buffersToWrite s) \<le> 25 \<longrightarrow> (\<forall>x \<in> set h. fst x) \<and> ts = map snd h"
    "db_write pid ios s = bindR (write_texts pid ios ts f) (\<lambda>f1. bindR (LogFile_flush f1) (\<lambda>f2. Inr (written nb1 nb2 h f2 s)))"
proof -
  define bs where "bs = buffersToWrite s"
  define dr where "dr = (if 25 < length bs then take (length bs - 2) bs else [])"
  define kp where "kp = (if 25 < length bs then drop (length bs - 2) bs else bs)"
  define b1 where "b1 = (if 2 < length kp then take 2 kp else kp)"
  define ts where "ts = (if 25 < length bs then [dropMsg] else []) @ map fb_text kp"
  note k = kept_buffers [of bs, folded dr_def kp_def, folded b1_def]
  have b: "newBuffer1 s = None" "bs \<noteq> []" "\<forall>b \<in> set bs. buf_ok n b" "newBuffer2 s = None \<longrightarrow> 2 \<le> length bs"
    "newBuffer2 s \<noteq> None \<longrightarrow> clean n (newBuffer2 s)"
    using inv pc by (auto simp: db_inv_def back_inv_def bs_def split: if_splits)
  have ok1: "\<forall>b \<in> set b1. buf_ok n b" using b(3) k(3) by blast
  have "0 < length b1" using b(2) k(2) by simp
  then have ne: "None = None \<longrightarrow> b1 \<noteq> []" by simp
  from reclaim_ok [OF ok1 ne] obtain nb1 where nb1: "reclaim None b1 = Inr (nb1, butlast b1)" "clean n nb1" by auto
  have ok2: "\<forall>b \<in> set (butlast b1). buf_ok n b" using ok1 in_set_butlastD by fast
  have "newBuffer2 s = None \<longrightarrow> 0 < length (butlast b1)" using b(4) k(2) by simp
  then have "newBuffer2 s = None \<longrightarrow> butlast b1 \<noteq> []" by (metis length_greater_0_conv)
  from reclaim_ok [OF ok2 this b(5)] obtain nb2 bs3 where nb2: "reclaim (newBuffer2 s) (butlast b1) = Inr (nb2, bs3)" "clean n nb2" by blast
  define h where "h = map (\<lambda>b. (False, fb_text b)) dr @ map (\<lambda>b. (True, fb_text b)) kp"
  have run: "db_write pid ios s = bindR (write_texts pid ios ts f) (\<lambda>f1. bindR (LogFile_flush f1) (\<lambda>f2. Inr (written nb1 nb2 h f2 s)))"
    unfolding db_write_def Let_def out option.case b(1) bs_def [symmetric] dr_def [symmetric] kp_def [symmetric]
      b1_def [symmetric] ts_def [symmetric] nb1(1) bindR_Inr prod.case nb2(1) h_def [symmetric] written_def ..
  have "concat (map fb_text bs) = concat (map snd h)" by (subst k(1)) (simp add: h_def o_def)
  moreover have "length bs \<le> 25 \<longrightarrow> (\<forall>x \<in> set h. fst x) \<and> ts = map snd h" by (simp add: h_def dr_def kp_def ts_def o_def)
  ultimately show thesis using that [OF nb1(2) nb2(2) _ _ run] by (simp add: bs_def)
qed

lemma written_inv:
  assumes "db_inv n s" and "clean n nb1" "clean n nb2" and "concat (map fb_text (buffersToWrite s)) = concat (map snd h)"
  shows "db_inv n (written nb1 nb2 h f s)"
  using assms by (simp add: written_def db_inv_def front_inv_def back_inv_def text_inv_def waiting_text_def)

lemma write_inv:
  assumes inv: "db_inv n s" and pc: "db_at s = DbSwapped" and run: "db_write pid ios s = Inr s'"
  shows "db_inv n s'"
proof -
  obtain f where f: "db_output s = Some f" using inv pc by (auto simp: db_inv_def back_inv_def)
  obtain nb1 nb2 h ts where w: "clean n nb1" "clean n nb2" "concat (map fb_text (buffersToWrite s)) = concat (map snd h)"
    "db_write pid ios s = bindR (write_texts pid ios ts f) (\<lambda>f1. bindR (LogFile_flush f1) (\<lambda>f2. Inr (written nb1 nb2 h f2 s)))"
    by (rule write_run [OF inv pc f])
  from w(4) run obtain f2 where "s' = written nb1 nb2 h f2 s" by (auto simp: bindR_def split: sum.splits)
  with written_inv [OF inv w(1-3)] show ?thesis by simp
qed

lemma db_inv_cong:
  assumes "db_inv n s" and "back_inv n s'" and "front_inv n s' = front_inv n s" and "waiting_text s' = waiting_text s"
    and "db_hist s' = db_hist s" and "db_appended s' = db_appended s"
  shows "db_inv n s'"
  using assms by (simp add: db_inv_def text_inv_def)

lemma db_begin_inv:
  assumes inv: "db_inv n s" and pc: "db_at s = DbBegins" and g: "length g1 = n" "length g2 = n" and run: "db_begin newFile g1 g2 s = Inr s'"
  shows "db_inv n s'"
proof -
  from run obtain f where s': "s' = s\<lparr>db_output := Some f, newBuffer1 := Some (Buffer_fresh g1), newBuffer2 := Some (Buffer_fresh g2),
      buffersToWrite := [], db_at := DbAtLoop\<rparr>" by (cases newFile) (auto simp: db_begin_def split: if_splits)
  have "buffersToWrite s = []" "0 < n" using inv pc by (simp_all add: db_inv_def back_inv_def)
  moreover have "clean n (Some (Buffer_fresh g1))" "clean n (Some (Buffer_fresh g2))"
    using fresh_clean(1) [of g1] fresh_clean(1) [of g2] g \<open>0 < n\<close> by simp_all
  ultimately show ?thesis unfolding s' by (intro db_inv_cong [OF inv]) (simp_all add: back_inv_def front_inv_def waiting_text_def)
qed

lemma db_end_inv:
  assumes inv: "db_inv n s" and pc: "db_at s = DbAtLoop" and run: "db_end s = Inr s'"
  shows "db_inv n s'"
proof -
  from run obtain f where s': "s' = s\<lparr>db_output := Some f, db_at := DbEnded\<rparr>"
    by (auto simp: db_end_def bindR_def split: option.splits sum.splits)
  have "buffersToWrite s = []" using inv pc by (simp add: db_inv_def back_inv_def)
  then show ?thesis unfolding s' by (intro db_inv_cong [OF inv]) (simp_all add: back_inv_def front_inv_def waiting_text_def)
qed

lemma db_step_inv: "db_step n pid s s' \<Longrightarrow> db_inv n s \<Longrightarrow> db_inv n s'"
proof (induction rule: db_step.induct)
  case (db_appends g t s s')
  then show ?case using append_ok [of n s g t] by auto
next
  case (db_swaps s s')
  then show ?case using swap_ok [of n s] by auto
next
  case (db_writes s ios s')
  from write_inv [OF db_writes.prems db_writes.hyps] show ?case .
next
  case (db_begins s g1 g2 newFile s')
  from db_begin_inv [OF db_begins.prems db_begins.hyps] show ?case .
next
  case (db_ends s s')
  from db_end_inv [OF db_ends.prems db_ends.hyps(1,3)] show ?case .
next
  case (db_starts s)
  have "back_inv n s" using db_starts.prems by (simp add: db_inv_def)
  then have "back_inv n (DoubleBuffering_start s)" using db_starts.hyps by (simp add: back_inv_def DoubleBuffering_start_def)
  then show ?case by (rule db_inv_cong [OF db_starts.prems]) (simp_all add: front_inv_def waiting_text_def DoubleBuffering_start_def)
next
  case (db_stops s)
  have "back_inv n s" using db_stops.prems by (simp add: db_inv_def)
  then have "back_inv n (DoubleBuffering_stop s)" using db_stops.hyps by (auto simp: back_inv_def DoubleBuffering_stop_def)
  then show ?case by (rule db_inv_cong [OF db_stops.prems]) (simp_all add: front_inv_def waiting_text_def DoubleBuffering_stop_def)
qed

lemma db_steps_inv: "(db_step n pid)\<^sup>*\<^sup>* s s' \<Longrightarrow> db_inv n s \<Longrightarrow> db_inv n s'"
  by (induction rule: rtranclp_induct) (auto intro: db_step_inv)

lemma db_new_inv: "0 < length g1 \<Longrightarrow> length g2 = length g1 \<Longrightarrow> db_inv (length g1) (DoubleBuffering_new g1 g2)"
  using fresh_clean [of g1] fresh_clean [of g2]
  by (auto simp: db_inv_def front_inv_def back_inv_def text_inv_def waiting_text_def DoubleBuffering_new_def clean_def)

section \<open>Properties\<close>



text \<open>
  \<open>stop()\<close> loses what was appended after the last exchange: once the flag is cleared the back end ends
  without another exchange, and the text that waits in the buffers is never written.
\<close>

theorem DoubleBuffering_stop_loses:
  assumes "db_inv n s" and "db_at s = DbAtLoop" and "db_output s = Some f" and "lf_file f \<noteq> None"
  shows "\<exists>s'. db_end (DoubleBuffering_stop s) = Inr s' \<and> db_at s' = DbEnded \<and> waiting_text s' = waiting_text s
     \<and> concat (map snd (db_hist s')) @ waiting_text s = db_appended s'"
proof -
  from assms(4) obtain x where "LogFile_flush f = Inr x" by (auto simp: LogFile_flush_def)
  then have "db_end (DoubleBuffering_stop s) = Inr (s\<lparr>db_running := False, db_output := Some x, db_at := DbEnded\<rparr>)"
    using assms(3) by (simp add: db_end_def DoubleBuffering_stop_def)
  then show ?thesis using assms(1) by (simp add: waiting_text_def db_inv_def text_inv_def)
qed

end
