(* ===== verification/Threads.thy ===== *)
theory Threads
  imports Prelude
begin

text \<open>
  \<^verbatim>\<open>muduo/thread/Atomic.h\<close>, \<^verbatim>\<open>Mutex.h\<close>, \<^verbatim>\<open>Condition.h\<close>, \<^verbatim>\<open>CountDownLatch.h\<close>, \<^verbatim>\<open>Thread.h\<close> and
  \<^verbatim>\<open>Thread.cc\<close>. An atomic integer is a word of its width. A POSIX mutex is its owner. Threads blocked on
  a condition variable are counted; a notification, or a spurious wake-up, makes one of them ready to take
  the mutex again.
\<close>

section \<open>AtomicIntegerT\<close>

definition Atomic_new :: "'a::len word" where
  "Atomic_new = 0"

text \<open>The compiler's builtins, each one indivisible step: the result and the new value.\<close>

definition sync_val_compare_and_swap :: "'a::len word \<Rightarrow> 'a word \<Rightarrow> 'a word \<Rightarrow> 'a word \<times> 'a word" where
  "sync_val_compare_and_swap v old new = (v, if v = old then new else v)"

definition sync_fetch_and_add :: "'a::len word \<Rightarrow> 'a word \<Rightarrow> 'a word \<times> 'a word" where
  "sync_fetch_and_add v x = (v, v + x)"

definition Atomic_get :: "'a::len word \<Rightarrow> 'a word \<times> 'a word" where
  "Atomic_get v = sync_val_compare_and_swap v 0 0"

definition getAndAdd :: "'a::len word \<Rightarrow> 'a word \<Rightarrow> 'a word \<times> 'a word" where
  "getAndAdd x v = sync_fetch_and_add v x"

definition addAndGet :: "'a::len word \<Rightarrow> 'a word \<Rightarrow> 'a word \<times> 'a word" where
  "addAndGet x v = (let (r, v') = getAndAdd x v in (r + x, v'))"

definition incrementAndGet :: "'a::len word \<Rightarrow> 'a word \<times> 'a word" where
  "incrementAndGet v = addAndGet 1 v"

definition Atomic_add :: "'a::len word \<Rightarrow> 'a word \<Rightarrow> 'a word" where
  "Atomic_add x v = snd (getAndAdd x v)"

definition Atomic_increment :: "'a::len word \<Rightarrow> 'a word" where
  "Atomic_increment v = snd (incrementAndGet v)"

definition Atomic_decrement :: "'a::len word \<Rightarrow> 'a word" where
  "Atomic_decrement v = snd (getAndAdd (-1) v)"

definition getAndSet :: "'a::len word \<Rightarrow> 'a word \<Rightarrow> 'a word \<times> 'a word" where
  "getAndSet new v = (v, new)"

text \<open>The numbers that \<open>n\<close> calls of \<open>incrementAndGet\<close> return, in the order of their steps.\<close>

fun increments :: "nat \<Rightarrow> 'a::len word \<Rightarrow> 'a word list" where
  "increments 0 v = []"
| "increments (Suc n) v = (let (r, v') = incrementAndGet v in r # increments n v')"

lemma Atomic_get_reads: "Atomic_get v = (v, v)"
  by (simp add: Atomic_get_def sync_val_compare_and_swap_def)

lemma increments_eq: "increments n v = map (\<lambda>i. v + of_nat (Suc i)) [0..<n]"
proof (induction n arbitrary: v)
  case (Suc n)
  have "[0..<Suc n] = 0 # map Suc [0..<n]" by (simp add: upt_conv_Cons map_Suc_upt del: upt_Suc)
  with Suc show ?case
    by (simp add: incrementAndGet_def addAndGet_def getAndAdd_def sync_fetch_and_add_def o_def ac_simps del: upt_Suc)
qed simp

section \<open>MutexLock\<close>

text \<open>
  \<open>lock()\<close> acquires the POSIX mutex and then writes \<open>holder_\<close>; \<open>unlock()\<close> clears \<open>holder_\<close> and then
  releases the mutex. Between the two halves another thread may run.
\<close>

datatype lock_pc = Unlocked | Acquired | Locked | Releasing

record mutex =
  pthreadOwner :: "int option"
  holder :: int
  lock_at :: "int \<Rightarrow> lock_pc"

definition MutexLock_new :: mutex where
  "MutexLock_new = \<lparr>pthreadOwner = None, holder = 0, lock_at = (\<lambda>_. Unlocked)\<rparr>"

definition MutexLock_delete :: "mutex \<Rightarrow> unit result" where
  "MutexLock_delete m = assertR (holder m = 0) (Inr ())"

definition isLockedByThisThread :: "int \<Rightarrow> mutex \<Rightarrow> bool" where
  "isLockedByThisThread tid m \<longleftrightarrow> holder m = tid"

definition assertLocked :: "int \<Rightarrow> mutex \<Rightarrow> unit result" where
  "assertLocked tid m = assertR (isLockedByThisThread tid m) (Inr ())"

inductive mutex_step :: "mutex \<Rightarrow> mutex \<Rightarrow> bool" where
  lock_acquires: "lock_at m t = Unlocked \<Longrightarrow> t \<noteq> 0 \<Longrightarrow> pthreadOwner m = None \<Longrightarrow>
    mutex_step m (m\<lparr>pthreadOwner := Some t, lock_at := (lock_at m)(t := Acquired)\<rparr>)"
| lock_sets_holder: "lock_at m t = Acquired \<Longrightarrow> mutex_step m (m\<lparr>holder := t, lock_at := (lock_at m)(t := Locked)\<rparr>)"
| unlock_clears_holder: "lock_at m t = Locked \<Longrightarrow> mutex_step m (m\<lparr>holder := 0, lock_at := (lock_at m)(t := Releasing)\<rparr>)"
| unlock_releases: "lock_at m t = Releasing \<Longrightarrow>
    mutex_step m (m\<lparr>pthreadOwner := None, lock_at := (lock_at m)(t := Unlocked)\<rparr>)"

definition mutex_inv :: "mutex \<Rightarrow> bool" where
  "mutex_inv m \<longleftrightarrow> (case pthreadOwner m of
       None \<Rightarrow> holder m = 0 \<and> lock_at m = (\<lambda>_. Unlocked)
     | Some t \<Rightarrow> t \<noteq> 0 \<and> holder m = (if lock_at m t = Locked then t else 0) \<and> lock_at m t \<noteq> Unlocked
         \<and> lock_at m = (\<lambda>_. Unlocked)(t := lock_at m t))"

lemma mutex_inv_owner:
  assumes "mutex_inv m" and "lock_at m t \<noteq> Unlocked"
  shows "pthreadOwner m = Some t"
proof (cases "pthreadOwner m")
  case None
  then show ?thesis using assms by (simp add: mutex_inv_def)
next
  case (Some u)
  then have "lock_at m = (\<lambda>_. Unlocked)(u := lock_at m u)" using assms(1) by (simp add: mutex_inv_def)
  then have "lock_at m t = ((\<lambda>_. Unlocked)(u := lock_at m u)) t" by (rule fun_cong)
  then show ?thesis using assms(2) Some by (simp split: if_splits)
qed

lemma fun_upd_collapse: "f = (\<lambda>_. c)(t := a) \<Longrightarrow> f(t := b) = (\<lambda>_. c)(t := b)"
  by simp

lemma mutex_step_inv: "mutex_step m m' \<Longrightarrow> mutex_inv m \<Longrightarrow> mutex_inv m'"
proof (induction rule: mutex_step.induct)
  case (lock_acquires m t)
  then show ?case by (simp add: mutex_inv_def)
next
  case (lock_sets_holder m t)
  then have o: "pthreadOwner m = Some t" by (intro mutex_inv_owner) simp_all
  with lock_sets_holder(2) have "lock_at m = (\<lambda>_. Unlocked)(t := lock_at m t)" "t \<noteq> 0" by (simp_all add: mutex_inv_def)
  with o fun_upd_collapse [OF this(1)] show ?case by (simp add: mutex_inv_def)
next
  case (unlock_clears_holder m t)
  then have o: "pthreadOwner m = Some t" by (intro mutex_inv_owner) simp_all
  with unlock_clears_holder(2) have "lock_at m = (\<lambda>_. Unlocked)(t := lock_at m t)" "t \<noteq> 0" by (simp_all add: mutex_inv_def)
  with o fun_upd_collapse [OF this(1)] show ?case by (simp add: mutex_inv_def)
next
  case (unlock_releases m t)
  then have o: "pthreadOwner m = Some t" by (intro mutex_inv_owner) simp_all
  with unlock_releases have "lock_at m = (\<lambda>_. Unlocked)(t := lock_at m t)" "holder m = 0" by (simp_all add: mutex_inv_def)
  with o fun_upd_collapse [OF this(1)] show ?case by (simp add: mutex_inv_def fun_eq_iff)
qed

lemma mutex_steps_inv: "mutex_step\<^sup>*\<^sup>* m m' \<Longrightarrow> mutex_inv m \<Longrightarrow> mutex_inv m'"
  by (induction rule: rtranclp_induct) (auto intro: mutex_step_inv)

section \<open>CountDownLatch\<close>

text \<open>
  \<open>latchWaiting\<close> threads are blocked in \<open>condition_.wait()\<close>, \<open>latchReady\<close> threads were woken or have just called
  \<open>wait()\<close> and are about to test the count, \<open>latchPassed\<close> threads have returned.
\<close>

record latch =
  latchCount :: int
  latchWaiting :: nat
  latchReady :: nat
  latchPassed :: nat

definition CountDownLatch_new :: "int \<Rightarrow> latch" where
  "CountDownLatch_new n = \<lparr>latchCount = n, latchWaiting = 0, latchReady = 0, latchPassed = 0\<rparr>"

definition latch_notifyAll :: "latch \<Rightarrow> latch" where
  "latch_notifyAll l = l\<lparr>latchReady := latchReady l + latchWaiting l, latchWaiting := 0\<rparr>"

definition countDown :: "latch \<Rightarrow> latch" where
  "countDown l = (let l1 = l\<lparr>latchCount := latchCount l - 1\<rparr> in if latchCount l1 = 0 then latch_notifyAll l1 else l1)"

definition getCount :: "latch \<Rightarrow> int" where
  "getCount l = latchCount l"

text \<open>One iteration of the loop in \<open>wait()\<close>, under the mutex.\<close>

definition latch_test :: "latch \<Rightarrow> latch" where
  "latch_test l =
     (if latchCount l > 0 then l\<lparr>latchReady := latchReady l - 1, latchWaiting := latchWaiting l + 1\<rparr>
      else l\<lparr>latchReady := latchReady l - 1, latchPassed := latchPassed l + 1\<rparr>)"

inductive latch_step :: "latch \<Rightarrow> latch \<Rightarrow> bool" where
  latch_enter: "latch_step l (l\<lparr>latchReady := latchReady l + 1\<rparr>)"
| latch_tests: "0 < latchReady l \<Longrightarrow> latch_step l (latch_test l)"
| latch_spurious: "0 < latchWaiting l \<Longrightarrow> latch_step l (l\<lparr>latchWaiting := latchWaiting l - 1, latchReady := latchReady l + 1\<rparr>)"
| latch_counts: "latch_step l (countDown l)"

definition latch_inv :: "latch \<Rightarrow> bool" where
  "latch_inv l \<longleftrightarrow> (latchCount l \<le> 0 \<longrightarrow> latchWaiting l = 0) \<and> (0 < latchPassed l \<longrightarrow> latchCount l \<le> 0)"

lemma latch_step_inv: "latch_step l l' \<Longrightarrow> latch_inv l \<Longrightarrow> latch_inv l'"
  by (induction rule: latch_step.induct) (auto simp: latch_inv_def latch_test_def countDown_def latch_notifyAll_def Let_def)

lemma latch_steps_inv: "latch_step\<^sup>*\<^sup>* l l' \<Longrightarrow> latch_inv l \<Longrightarrow> latch_inv l'"
  by (induction rule: rtranclp_induct) (auto intro: latch_step_inv)

section \<open>CurrentThread and Thread\<close>

text \<open>The thread-local variables: the cached number and the name. \<open>gettid\<close> is the kernel's answer.\<close>

record thread_tls =
  t_cachedTid :: int
  t_threadName :: string

definition tls_new :: thread_tls where
  "tls_new = \<lparr>t_cachedTid = 0, t_threadName = ''unnamedThread''\<rparr>"

definition ThreadNameInitializer :: "thread_tls \<Rightarrow> thread_tls" where
  "ThreadNameInitializer s = s\<lparr>t_threadName := ''main''\<rparr>"

definition afterFork :: "int \<Rightarrow> thread_tls \<Rightarrow> thread_tls" where
  "afterFork gettid s = s\<lparr>t_cachedTid := gettid, t_threadName := ''main''\<rparr>"

definition CurrentThread_tid :: "int \<Rightarrow> thread_tls \<Rightarrow> int \<times> thread_tls" where
  "CurrentThread_tid gettid s =
     (let s1 = (if t_cachedTid s = 0 then s\<lparr>t_cachedTid := gettid\<rparr> else s) in (t_cachedTid s1, s1))"

definition CurrentThread_name :: "thread_tls \<Rightarrow> string" where
  "CurrentThread_name s = t_threadName s"

definition isMainThread :: "int \<Rightarrow> int \<Rightarrow> thread_tls \<Rightarrow> bool \<times> thread_tls" where
  "isMainThread gettid getpid s = (let (t, s1) = CurrentThread_tid gettid s in (t = getpid, s1))"

record 'f thread_obj =
  th_started :: bool
  th_joined :: bool
  th_pthreadId :: int
  th_tid :: int
  th_func :: 'f
  th_name :: string

definition Thread_new :: "'f \<Rightarrow> string \<Rightarrow> 32 word \<Rightarrow> 'f thread_obj \<times> 32 word" where
  "Thread_new func n numCreated =
     (\<lparr>th_started = False, th_joined = False, th_pthreadId = 0, th_tid = 0, th_func = func, th_name = n\<rparr>,
      Atomic_increment numCreated)"

text \<open>\<open>rc\<close> is what \<open>pthread_create\<close> returns, \<open>pid\<close> the new thread's identifier.\<close>

definition Thread_start :: "int \<Rightarrow> int \<Rightarrow> 'f thread_obj \<Rightarrow> 'f thread_obj result" where
  "Thread_start rc pid t =
     assertR (\<not> th_started t)
       (if rc \<noteq> 0 then Inl Aborted else Inr (t\<lparr>th_started := True, th_pthreadId := pid\<rparr>))"

definition Thread_join :: "'f thread_obj \<Rightarrow> 'f thread_obj result" where
  "Thread_join t = assertR (th_started t) (assertR (\<not> th_joined t) (Inr (t\<lparr>th_joined := True\<rparr>)))"

text \<open>The destructor; the result is the thread that is detached.\<close>

definition Thread_delete :: "'f thread_obj \<Rightarrow> int option" where
  "Thread_delete t = (if th_started t \<and> \<not> th_joined t then Some (th_pthreadId t) else None)"

text \<open>
  \<open>ThreadData::runInThread\<close> on the new thread: \<open>obj\<close> is the \<open>Thread\<close> object if it still exists, \<open>run\<close> executes
  the function.
\<close>

definition runInThread :: "int \<Rightarrow> ('f \<Rightarrow> thread_tls \<Rightarrow> 's \<Rightarrow> 's result) \<Rightarrow> 'f \<Rightarrow> string \<Rightarrow> 'f thread_obj option \<Rightarrow> thread_tls \<Rightarrow> 's
    \<Rightarrow> ('f thread_obj option \<times> thread_tls \<times> 's) result" where
  "runInThread gettid run func name obj s st =
     (let (tid, s1) = CurrentThread_tid gettid s;
          obj1 = map_option (\<lambda>t. t\<lparr>th_tid := tid\<rparr>) obj;
          s2 = (if name \<noteq> [] then s1\<lparr>t_threadName := name\<rparr> else s1)
      in bindR (run func s2 st) (\<lambda>st1. Inr (obj1, s2\<lparr>t_threadName := ''finished''\<rparr>, st1)))"

section \<open>Properties\<close>

text \<open>
  The numbers handed out by \<open>incrementAndGet\<close> are pairwise different, in whatever order the threads draw
  them, as long as no more are drawn than the width has values.
\<close>

theorem Atomic_increments_distinct:
  assumes "n \<le> 2 ^ LENGTH('a::len)"
  shows "distinct (increments n (v :: 'a word)) \<and> length (increments n v) = n"
proof -
  have "inj_on (\<lambda>i. v + of_nat (Suc i)) {0..<n}"
  proof (rule inj_onI)
    fix i j assume ij: "i \<in> {0..<n}" "j \<in> {0..<n}" and "v + of_nat (Suc i) = v + of_nat (Suc j)"
    then have "(of_nat i :: 'a word) = of_nat j" by simp
    then have "take_bit LENGTH('a) i = take_bit LENGTH('a) j" by (simp add: word_of_nat_eq_iff)
    with ij assms show "i = j" by (simp add: take_bit_nat_eq_self)
  qed
  then show ?thesis by (simp add: increments_eq distinct_map)
qed

theorem Atomic_increments_distinct_witness: "distinct (increments 3 (254 :: 8 word)) \<and> increments 3 (254 :: 8 word) = [255, 0, 1]"
  using Atomic_increments_distinct [of 3 "254 :: 8 word"]
  by (simp add: numeral_3_eq_3 incrementAndGet_def addAndGet_def getAndAdd_def sync_fetch_and_add_def)



text \<open>
  A call of \<open>CountDownLatch::wait\<close> returns only once the count is used up, and from then on no thread
  stays blocked: the last \<open>countDown\<close> wakes all of them.
\<close>

theorem CountDownLatch_releases:
  assumes "latch_step\<^sup>*\<^sup>* (CountDownLatch_new n) l"
  shows "(0 < latchPassed l \<longrightarrow> getCount l \<le> 0) \<and> (getCount l \<le> 0 \<longrightarrow> latchWaiting l = 0)"
proof -
  have "latch_inv (CountDownLatch_new n)" by (simp add: latch_inv_def CountDownLatch_new_def)
  from latch_steps_inv [OF assms this] show ?thesis by (simp add: latch_inv_def getCount_def)
qed

theorem CountDownLatch_releases_witness:
  "\<exists>l. latch_step\<^sup>*\<^sup>* (CountDownLatch_new 1) l \<and> getCount l = 0 \<and> latchReady l = 1 \<and> latchWaiting l = 0"
proof -
  let ?l1 = "(CountDownLatch_new 1)\<lparr>latchReady := 1\<rparr>"
  have "latch_step (CountDownLatch_new 1) ?l1" using latch_enter [of "CountDownLatch_new 1"] by (simp add: CountDownLatch_new_def)
  moreover have "latch_step ?l1 (latch_test ?l1)" by (rule latch_tests) (simp add: CountDownLatch_new_def)
  moreover have "latch_step (latch_test ?l1) (countDown (latch_test ?l1))" by (rule latch_counts)
  ultimately have "latch_step\<^sup>*\<^sup>* (CountDownLatch_new 1) (countDown (latch_test ?l1))"
    by (meson converse_rtranclp_into_rtranclp r_into_rtranclp)
  from this CountDownLatch_releases [OF this] show ?thesis
    by (intro exI [of _ "countDown (latch_test ?l1)"])
      (simp add: CountDownLatch_new_def latch_test_def countDown_def latch_notifyAll_def getCount_def Let_def)
qed

end
