(* ===== verification/Conditions.thy ===== *)
theory Conditions
  imports Threads
begin

text \<open>
  \<^verbatim>\<open>muduo/thread/Condition.h\<close> together with \<^verbatim>\<open>Mutex.h\<close>: threads that lock a \<open>MutexLock\<close>, wait on a \<open>Condition\<close> of it and are woken.
  \<open>pthread_cond_wait\<close> works on the POSIX mutex inside the \<open>MutexLock\<close>: it releases it and takes it again, and \<open>holder_\<close> is not
  told.
\<close>

section \<open>Condition\<close>

datatype cond_pc = CIdle | CAcquired | CLocked | CReleasing | CBlocked | CWoken

record cond_lock =
  cl_owner :: "int option"
  cl_holder :: int
  cl_at :: "int \<Rightarrow> cond_pc"

definition Condition_new :: cond_lock where
  "Condition_new = \<lparr>cl_owner = None, cl_holder = 0, cl_at = (\<lambda>_. CIdle)\<rparr>"

definition cl_move :: "int \<Rightarrow> cond_pc \<Rightarrow> cond_lock \<Rightarrow> cond_lock" where
  "cl_move t p m = m\<lparr>cl_at := (cl_at m)(t := p)\<rparr>"

text \<open>The two halves of \<open>wait()\<close>: the mutex is released and the thread blocks; once woken it takes the mutex again.\<close>

definition Condition_wait_begin :: "int \<Rightarrow> cond_lock \<Rightarrow> cond_lock" where
  "Condition_wait_begin t m = cl_move t CBlocked (m\<lparr>cl_owner := None\<rparr>)"

definition Condition_wait_end :: "int \<Rightarrow> cond_lock \<Rightarrow> cond_lock" where
  "Condition_wait_end t m = cl_move t CLocked (m\<lparr>cl_owner := Some t\<rparr>)"

text \<open>\<open>notify()\<close> and the end of a timed wait wake one blocked thread, \<open>notifyAll()\<close> all of them; a thread may also wake by itself.\<close>

definition Condition_notify :: "int \<Rightarrow> cond_lock \<Rightarrow> cond_lock" where
  "Condition_notify t m = cl_move t CWoken m"

definition Condition_notifyAll :: "cond_lock \<Rightarrow> cond_lock" where
  "Condition_notifyAll m = m\<lparr>cl_at := (\<lambda>t. if cl_at m t = CBlocked then CWoken else cl_at m t)\<rparr>"

inductive cond_step :: "cond_lock \<Rightarrow> cond_lock \<Rightarrow> bool" where
  c_acquires: "cl_at m t = CIdle \<Longrightarrow> t \<noteq> 0 \<Longrightarrow> cl_owner m = None \<Longrightarrow> cond_step m (cl_move t CAcquired (m\<lparr>cl_owner := Some t\<rparr>))"
| c_sets_holder: "cl_at m t = CAcquired \<Longrightarrow> cond_step m (cl_move t CLocked (m\<lparr>cl_holder := t\<rparr>))"
| c_clears_holder: "cl_at m t = CLocked \<Longrightarrow> cond_step m (cl_move t CReleasing (m\<lparr>cl_holder := 0\<rparr>))"
| c_releases: "cl_at m t = CReleasing \<Longrightarrow> cond_step m (cl_move t CIdle (m\<lparr>cl_owner := None\<rparr>))"
| c_waits: "cl_at m t = CLocked \<Longrightarrow> cond_step m (Condition_wait_begin t m)"
| c_wakes: "cl_at m t = CBlocked \<Longrightarrow> cond_step m (Condition_notify t m)"
| c_wakes_all: "cond_step m (Condition_notifyAll m)"
| c_returns: "cl_at m t = CWoken \<Longrightarrow> cl_owner m = None \<Longrightarrow> cond_step m (Condition_wait_end t m)"

definition inside :: "cond_pc \<Rightarrow> bool" where
  "inside p \<longleftrightarrow> p \<in> {CAcquired, CLocked, CReleasing}"

text \<open>The owner of the POSIX mutex is the one thread inside, and \<open>holder_\<close> names a thread that has locked and not unlocked since.\<close>

definition cond_inv :: "cond_lock \<Rightarrow> bool" where
  "cond_inv m \<longleftrightarrow> (\<forall>t. inside (cl_at m t) \<longleftrightarrow> cl_owner m = Some t) \<and> (cl_holder m \<noteq> 0 \<longrightarrow> cl_at m (cl_holder m) \<in> {CLocked, CBlocked, CWoken})
     \<and> cl_at m 0 = CIdle"

lemmas cond_defs = cl_move_def Condition_wait_begin_def Condition_wait_end_def Condition_notify_def Condition_notifyAll_def

lemma cond_invD:
  assumes "cond_inv m"
  shows "inside (cl_at m t) \<longleftrightarrow> cl_owner m = Some t" "cl_holder m \<noteq> 0 \<Longrightarrow> cl_at m (cl_holder m) \<in> {CLocked, CBlocked, CWoken}" "cl_at m 0 = CIdle"
  using assms unfolding cond_inv_def by blast+

text \<open>A thread moves: its place and the owner agree afterwards, and \<open>holder_\<close> still names a thread that has not unlocked.\<close>

lemma cond_move_inv:
  assumes inv: "cond_inv m" and t: "t \<noteq> 0" and own: "cl_owner m = None \<or> cl_owner m = Some t"
    and m': "cl_at m' = (cl_at m)(t := p)" "cl_owner m' = (if inside p then Some t else if cl_owner m = Some t then None else cl_owner m)"
    and h: "cl_holder m' = 0 \<or> cl_holder m' = cl_holder m \<and> cl_holder m \<noteq> t \<or> cl_holder m' \<in> {cl_holder m, t} \<and> p \<in> {CLocked, CBlocked, CWoken}"
  shows "cond_inv m'"
  unfolding cond_inv_def
proof (intro conjI allI impI)
  fix u
  show "inside (cl_at m' u) \<longleftrightarrow> cl_owner m' = Some u"
    using cond_invD(1) [OF inv, of u] own m' by (cases "u = t") auto
next
  assume "cl_holder m' \<noteq> 0"
  then show "cl_at m' (cl_holder m') \<in> {CLocked, CBlocked, CWoken}"
    using cond_invD(2) [OF inv] h m'(1) by (cases "cl_holder m' = t") auto
next
  show "cl_at m' 0 = CIdle" using cond_invD(3) [OF inv] t m'(1) by simp
qed

lemma cond_thread: "cond_inv m \<Longrightarrow> cl_at m t \<noteq> CIdle \<Longrightarrow> t \<noteq> 0"
  using cond_invD(3) by blast

lemma cond_owner: "cond_inv m \<Longrightarrow> inside (cl_at m t) \<Longrightarrow> cl_owner m = Some t"
  using cond_invD(1) by blast

lemma cond_step_inv: "cond_step m m' \<Longrightarrow> cond_inv m \<Longrightarrow> cond_inv m'"
proof (induction rule: cond_step.induct)
  case (c_acquires m t)
  moreover have "cl_holder m = 0 \<or> cl_holder m \<noteq> t" using cond_invD(2) [OF c_acquires(4)] c_acquires(1) by force
  ultimately show ?case by - (rule cond_move_inv [of m t _ CAcquired], auto simp: cond_defs inside_def)
next
  case (c_sets_holder m t)
  then show ?case using cond_thread [of m t] cond_owner [of m t] by - (rule cond_move_inv [of m t _ CLocked], auto simp: cond_defs inside_def)
next
  case (c_clears_holder m t)
  then show ?case using cond_thread [of m t] cond_owner [of m t] by - (rule cond_move_inv [of m t _ CReleasing], auto simp: cond_defs inside_def)
next
  case (c_releases m t)
  moreover have "cl_holder m = 0 \<or> cl_holder m \<noteq> t" using cond_invD(2) [OF c_releases(2)] c_releases(1) by force
  ultimately show ?case using cond_thread [of m t] cond_owner [of m t] by - (rule cond_move_inv [of m t _ CIdle], auto simp: cond_defs inside_def)
next
  case (c_waits m t)
  then show ?case using cond_thread [of m t] cond_owner [of m t] by - (rule cond_move_inv [of m t _ CBlocked], auto simp: cond_defs inside_def)
next
  case (c_wakes m t)
  show ?case unfolding cond_inv_def
  proof (intro conjI allI impI)
    fix u
    show "inside (cl_at (Condition_notify t m) u) \<longleftrightarrow> cl_owner (Condition_notify t m) = Some u"
      using cond_invD(1) [OF c_wakes(2), of u] c_wakes(1) by (cases "u = t") (auto simp: cond_defs inside_def)
  qed (use cond_invD(2,3) [OF c_wakes(2)] c_wakes(1) in \<open>auto simp: cond_defs\<close>)
next
  case (c_wakes_all m)
  show ?case unfolding cond_inv_def
  proof (intro conjI allI impI)
    fix u
    show "inside (cl_at (Condition_notifyAll m) u) \<longleftrightarrow> cl_owner (Condition_notifyAll m) = Some u"
      using cond_invD(1) [OF c_wakes_all, of u] by (auto simp: cond_defs inside_def)
  qed (use cond_invD(2,3) [OF c_wakes_all] in \<open>auto simp: cond_defs\<close>)
next
  case (c_returns m t)
  then show ?case using cond_thread [of m t] by - (rule cond_move_inv [of m t _ CLocked], auto simp: cond_defs inside_def)
qed

lemma cond_steps_inv: "cond_step\<^sup>*\<^sup>* m m' \<Longrightarrow> cond_inv m \<Longrightarrow> cond_inv m'"
  by (induction rule: rtranclp_induct) (auto intro: cond_step_inv)

section \<open>Properties\<close>

text \<open>
  Waiting on a condition keeps mutual exclusion and blinds the mutex: in every interleaving of locking, unlocking, waiting and
  waking at most one thread is inside, and a thread outside is never told by \<open>isLockedByThisThread\<close> that it holds the mutex; but
  whenever another thread has locked and unlocked the mutex while a thread waited, that thread comes back from \<open>wait()\<close> with the
  mutex held and \<open>assertLocked\<close> failing.
\<close>

theorem Condition_blinds_mutex:
  assumes "cond_step\<^sup>*\<^sup>* Condition_new m"
  shows "(inside (cl_at m t) \<longrightarrow> inside (cl_at m u) \<longrightarrow> t = u) \<and> (t \<noteq> 0 \<longrightarrow> cl_holder m = t \<longrightarrow> cl_at m t \<noteq> CIdle)
     \<and> (cl_at m t = CWoken \<and> cl_holder m = 0 \<and> cl_owner m = None \<and> t \<noteq> 0 \<longrightarrow>
          (\<exists>m'. cond_step m m' \<and> cl_at m' t = CLocked \<and> cl_owner m' = Some t \<and> cl_holder m' \<noteq> t))"
proof -
  have "cond_inv Condition_new" by (simp add: cond_inv_def Condition_new_def inside_def)
  from cond_steps_inv [OF assms this] have i: "cond_inv m" .
  have "t = u" if "inside (cl_at m t)" "inside (cl_at m u)"
    using i that by (metis cond_inv_def option.inject)
  moreover have "cl_at m t \<noteq> CIdle" if "t \<noteq> 0" "cl_holder m = t" using i that by (auto simp: cond_inv_def)
  moreover have "\<exists>m'. cond_step m m' \<and> cl_at m' t = CLocked \<and> cl_owner m' = Some t \<and> cl_holder m' \<noteq> t"
    if "cl_at m t = CWoken" "cl_holder m = 0" "cl_owner m = None" "t \<noteq> 0"
    using c_returns [OF that(1,3)] that(2,4) by (intro exI [of _ "Condition_wait_end t m"]) (simp add: cond_defs)
  ultimately show ?thesis by blast
qed

text \<open>Thread 7 waits; thread 8 locks, notifies and unlocks; thread 7 wakes.\<close>

theorem Condition_blinds_mutex_witness:
  "\<exists>m m'. cond_step\<^sup>*\<^sup>* Condition_new m \<and> cond_step m m' \<and> cl_at m' 7 = CLocked \<and> cl_owner m' = Some 7 \<and> cl_holder m' = 0"
proof -
  let ?m1 = "cl_move 7 CAcquired (Condition_new\<lparr>cl_owner := Some 7\<rparr>)"
  let ?m2 = "cl_move 7 CLocked (?m1\<lparr>cl_holder := 7\<rparr>)"
  let ?m3 = "Condition_wait_begin 7 ?m2"
  let ?m4 = "cl_move 8 CAcquired (?m3\<lparr>cl_owner := Some 8\<rparr>)"
  let ?m5 = "cl_move 8 CLocked (?m4\<lparr>cl_holder := 8\<rparr>)"
  let ?m6 = "Condition_notify 7 ?m5"
  let ?m7 = "cl_move 8 CReleasing (?m6\<lparr>cl_holder := 0\<rparr>)"
  let ?m8 = "cl_move 8 CIdle (?m7\<lparr>cl_owner := None\<rparr>)"
  have "cond_step Condition_new ?m1" by (rule c_acquires) (simp_all add: Condition_new_def)
  moreover have "cond_step ?m1 ?m2" by (rule c_sets_holder) (simp add: cond_defs)
  moreover have "cond_step ?m2 ?m3" by (rule c_waits) (simp add: cond_defs)
  moreover have "cond_step ?m3 ?m4" by (rule c_acquires) (simp_all add: cond_defs Condition_new_def)
  moreover have "cond_step ?m4 ?m5" by (rule c_sets_holder) (simp add: cond_defs)
  moreover have "cond_step ?m5 ?m6" by (rule c_wakes) (simp add: cond_defs)
  moreover have "cond_step ?m6 ?m7" by (rule c_clears_holder) (simp add: cond_defs)
  moreover have "cond_step ?m7 ?m8" by (rule c_releases) (simp add: cond_defs)
  ultimately have r: "cond_step\<^sup>*\<^sup>* Condition_new ?m8" by (meson converse_rtranclp_into_rtranclp rtranclp.rtrancl_refl)
  have "cl_at ?m8 7 = CWoken \<and> cl_holder ?m8 = 0 \<and> cl_owner ?m8 = None" by (simp add: cond_defs)
  moreover have "cl_holder (Condition_wait_end 7 ?m8) = 0" by (simp add: cond_defs)
  ultimately show ?thesis using Condition_blinds_mutex [OF r, of 7 7] r c_returns [of ?m8 7]
    by (intro exI [of _ ?m8] exI [of _ "Condition_wait_end 7 ?m8"]) (simp add: cond_defs)
qed

end
