(* ===== verification/ThreadPool.thy ===== *)
theory ThreadPool
  imports Prelude "HOL-Library.Multiset"
begin

text \<open>
  \<^verbatim>\<open>muduo/thread/ThreadPool.h\<close> and \<^verbatim>\<open>ThreadPool.cc\<close>: worker threads that take tasks from a queue. The
  workers, the threads that submit tasks and the thread that stops the pool are interleaved; \<open>stop()\<close> does not take
  the mutex. A task is a value of \<open>'f\<close>; an exception that leaves a task aborts the program, so a task that
  is modelled as executed has returned.
\<close>

section \<open>The pool\<close>

text \<open>
  Where a worker is: at the test \<open>while (running_)\<close>, before taking the mutex in \<open>take()\<close>, decided to wait (the mutex
  is held), blocked in \<open>cond_.wait()\<close>, woken and about to take the mutex again, executing a task, returned.
\<close>

datatype 'f worker_pc = AtTest | AtTake | ToWait | Asleep | Woken | Runs 'f | Exited

datatype stop_pc = NotStopping | FlagCleared | Notified | Joined

record 'f pool_conf =
  tp_queue :: "'f list"
  tp_running :: bool
  tp_threads :: nat
  workers :: "nat \<Rightarrow> 'f worker_pc"
  stopper :: stop_pc
  submitted :: "'f list"
  begun :: "'f list"
  finished :: "'f list"

definition ThreadPool_new :: "'f pool_conf" where
  "ThreadPool_new = \<lparr>tp_queue = [], tp_running = False, tp_threads = 0, workers = (\<lambda>_. Exited), stopper = NotStopping,
     submitted = [], begun = [], finished = []\<rparr>"

definition ThreadPool_start :: "nat \<Rightarrow> 'f pool_conf \<Rightarrow> 'f pool_conf result" where
  "ThreadPool_start numThreads p =
     assertR (tp_threads p = 0)
       (Inr (p\<lparr>tp_running := True, tp_threads := numThreads, workers := (\<lambda>i. if i < numThreads then AtTest else Exited)\<rparr>))"

definition mutex_free :: "'f pool_conf \<Rightarrow> bool" where
  "mutex_free p \<longleftrightarrow> (\<forall>i < tp_threads p. workers p i \<noteq> ToWait)"

definition set_worker :: "nat \<Rightarrow> 'f worker_pc \<Rightarrow> 'f pool_conf \<Rightarrow> 'f pool_conf" where
  "set_worker i w p = p\<lparr>workers := (workers p)(i := w)\<rparr>"

text \<open>\<open>take()\<close> up to the wait: the next place of the worker and the task it takes, if any.\<close>

definition pool_take :: "nat \<Rightarrow> 'f pool_conf \<Rightarrow> 'f pool_conf" where
  "pool_take i p =
     (case tp_queue p of
        task # rest \<Rightarrow> set_worker i (Runs task) (p\<lparr>tp_queue := rest, begun := begun p @ [task]\<rparr>)
      | [] \<Rightarrow> if tp_running p then set_worker i ToWait p else set_worker i AtTest p)"

text \<open>\<open>run()\<close> without threads executes the task at once; otherwise it queues the task and wakes worker \<open>w\<close>.\<close>

definition pool_run :: "nat option \<Rightarrow> 'f \<Rightarrow> 'f pool_conf \<Rightarrow> 'f pool_conf" where
  "pool_run w task p =
     (let p0 = p\<lparr>submitted := submitted p @ [task]\<rparr> in
      if tp_threads p = 0 then p0\<lparr>begun := begun p @ [task], finished := finished p @ [task]\<rparr>
      else (let p1 = p0\<lparr>tp_queue := tp_queue p @ [task]\<rparr> in
            case w of None \<Rightarrow> p1 | Some i \<Rightarrow> set_worker i Woken p1))"

definition may_notify :: "nat option \<Rightarrow> 'f pool_conf \<Rightarrow> bool" where
  "may_notify w p \<longleftrightarrow>
     (case w of None \<Rightarrow> \<forall>i < tp_threads p. workers p i \<noteq> Asleep | Some i \<Rightarrow> i < tp_threads p \<and> workers p i = Asleep)"

definition pool_notifyAll :: "'f pool_conf \<Rightarrow> 'f pool_conf" where
  "pool_notifyAll p = p\<lparr>workers := (\<lambda>i. if workers p i = Asleep then Woken else workers p i)\<rparr>"

datatype 'f pool_label = Work nat | Spurious nat | Submit 'f | Stop

inductive tp_step :: "'f pool_conf \<Rightarrow> 'f pool_label \<Rightarrow> 'f pool_conf \<Rightarrow> bool" where
  loop_again: "i < tp_threads p \<Longrightarrow> workers p i = AtTest \<Longrightarrow> tp_running p \<Longrightarrow> tp_step p (Work i) (set_worker i AtTake p)"
| loop_exit: "i < tp_threads p \<Longrightarrow> workers p i = AtTest \<Longrightarrow> \<not> tp_running p \<Longrightarrow> tp_step p (Work i) (set_worker i Exited p)"
| takes: "i < tp_threads p \<Longrightarrow> workers p i \<in> {AtTake, Woken} \<Longrightarrow> mutex_free p \<Longrightarrow> tp_step p (Work i) (pool_take i p)"
| waits: "i < tp_threads p \<Longrightarrow> workers p i = ToWait \<Longrightarrow> tp_step p (Work i) (set_worker i Asleep p)"
| executes: "i < tp_threads p \<Longrightarrow> workers p i = Runs task \<Longrightarrow>
    tp_step p (Work i) (set_worker i AtTest (p\<lparr>finished := finished p @ [task]\<rparr>))"
| spurious: "i < tp_threads p \<Longrightarrow> workers p i = Asleep \<Longrightarrow> tp_step p (Spurious i) (set_worker i Woken p)"
| submits: "mutex_free p \<Longrightarrow> may_notify w p \<Longrightarrow> tp_step p (Submit task) (pool_run w task p)"
| stop_flag: "stopper p = NotStopping \<Longrightarrow> tp_step p Stop (p\<lparr>tp_running := False, stopper := FlagCleared\<rparr>)"
| stop_notify: "stopper p = FlagCleared \<Longrightarrow> tp_step p Stop (pool_notifyAll (p\<lparr>stopper := Notified\<rparr>))"
| stop_join: "stopper p = Notified \<Longrightarrow> \<forall>i < tp_threads p. workers p i = Exited \<Longrightarrow> tp_step p Stop (p\<lparr>stopper := Joined\<rparr>)"

inductive tp_reach :: "'f pool_conf \<Rightarrow> 'f pool_conf \<Rightarrow> bool" where
  tp_refl: "tp_reach p p"
| tp_trans: "tp_reach p q \<Longrightarrow> tp_step q l r \<Longrightarrow> tp_reach p r"

inductive_cases tp_stepE: "tp_step p l q"

section \<open>Invariant\<close>

definition asleep :: "'f pool_conf \<Rightarrow> nat set" where
  "asleep p = {i. i < tp_threads p \<and> workers p i = Asleep}"

definition awake :: "'f pool_conf \<Rightarrow> nat set" where
  "awake p = {i. i < tp_threads p \<and> workers p i = Woken}"

fun task_of :: "'f worker_pc \<Rightarrow> 'f multiset" where
  "task_of (Runs t) = {#t#}"
| "task_of _ = {#}"

definition in_work :: "'f pool_conf \<Rightarrow> 'f multiset" where
  "in_work p = (\<Sum>i < tp_threads p. task_of (workers p i))"

definition tasks_inv :: "'f pool_conf \<Rightarrow> bool" where
  "tasks_inv p \<longleftrightarrow> begun p @ tp_queue p = submitted p \<and> mset (begun p) = mset (finished p) + in_work p
     \<and> (asleep p \<noteq> {} \<longrightarrow> length (tp_queue p) \<le> card (awake p))
     \<and> (\<forall>i < tp_threads p. workers p i = ToWait \<longrightarrow> tp_queue p = []) \<and> (tp_threads p = 0 \<longrightarrow> tp_queue p = [])"

lemma finite_awake [simp]: "finite (awake p)"
  by (simp add: awake_def)

lemma set_worker_sel [simp]:
  "tp_queue (set_worker i w p) = tp_queue p" "tp_running (set_worker i w p) = tp_running p" "tp_threads (set_worker i w p) = tp_threads p"
  "submitted (set_worker i w p) = submitted p" "begun (set_worker i w p) = begun p" "finished (set_worker i w p) = finished p"
  "stopper (set_worker i w p) = stopper p" "workers (set_worker i w p) = (workers p)(i := w)"
  by (simp_all add: set_worker_def)

lemma in_work_set:
  assumes "i < tp_threads p"
  shows "in_work (set_worker i w p) + task_of (workers p i) = in_work p + task_of w"
proof -
  have "in_work p = task_of (workers p i) + (\<Sum>j \<in> {..<tp_threads p} - {i}. task_of (workers p j))"
    unfolding in_work_def using assms by (subst sum.remove [of _ i]) auto
  moreover have "in_work (set_worker i w p) = task_of w + (\<Sum>j \<in> {..<tp_threads p} - {i}. task_of (workers p j))"
    unfolding in_work_def using assms by (subst sum.remove [of _ i]) auto
  ultimately show ?thesis by simp
qed

lemma asleep_set: "asleep (set_worker i w p) = (if w = Asleep \<and> i < tp_threads p then insert i (asleep p) else asleep p - {i})"
  by (auto simp: asleep_def)

lemma awake_set: "awake (set_worker i w p) = (if w = Woken \<and> i < tp_threads p then insert i (awake p) else awake p - {i})"
  by (auto simp: awake_def)

lemma sets_update [simp]:
  "asleep (p\<lparr>tp_queue := q\<rparr>) = asleep p" "asleep (p\<lparr>begun := b\<rparr>) = asleep p" "asleep (p\<lparr>finished := b\<rparr>) = asleep p"
  "asleep (p\<lparr>submitted := b\<rparr>) = asleep p" "asleep (p\<lparr>tp_running := r\<rparr>) = asleep p" "asleep (p\<lparr>stopper := s\<rparr>) = asleep p"
  "awake (p\<lparr>tp_queue := q\<rparr>) = awake p" "awake (p\<lparr>begun := b\<rparr>) = awake p" "awake (p\<lparr>finished := b\<rparr>) = awake p"
  "awake (p\<lparr>submitted := b\<rparr>) = awake p" "awake (p\<lparr>tp_running := r\<rparr>) = awake p" "awake (p\<lparr>stopper := s\<rparr>) = awake p"
  "in_work (p\<lparr>tp_queue := q\<rparr>) = in_work p" "in_work (p\<lparr>begun := b\<rparr>) = in_work p" "in_work (p\<lparr>finished := b\<rparr>) = in_work p"
  "in_work (p\<lparr>submitted := b\<rparr>) = in_work p" "in_work (p\<lparr>tp_running := r\<rparr>) = in_work p" "in_work (p\<lparr>stopper := s\<rparr>) = in_work p"
  by (simp_all add: asleep_def awake_def in_work_def)

text \<open>A worker that moves between places where it holds no task, without touching the queue.\<close>

lemma move_inv:
  assumes inv: "tasks_inv p" and i: "i < tp_threads p" and t: "task_of (workers p i) = {#}" "task_of w = {#}"
    and a: "workers p i = Woken \<longrightarrow> w = Woken \<or> tp_queue p = []" and s: "w = Asleep \<or> w = ToWait \<longrightarrow> tp_queue p = []"
  shows "tasks_inv (set_worker i w p)"
proof -
  have "in_work (set_worker i w p) = in_work p" using in_work_set [OF i, of w] t by simp
  moreover have "length (tp_queue p) \<le> card (awake (set_worker i w p))" if "asleep (set_worker i w p) \<noteq> {}"
  proof (cases "tp_queue p = []")
    case False
    then have "asleep p \<noteq> {}" using that s by (auto simp: asleep_set split: if_splits)
    then have "length (tp_queue p) \<le> card (awake p)" using inv by (simp add: tasks_inv_def)
    moreover have "awake p \<subseteq> awake (set_worker i w p)" using False a by (auto simp: awake_def)
    ultimately show ?thesis using card_mono [OF finite_awake] by (meson le_trans)
  qed simp
  ultimately show ?thesis using inv s by (auto simp: tasks_inv_def)
qed

lemma take_task_inv:
  assumes inv: "tasks_inv p" and i: "i < tp_threads p" "workers p i \<in> {AtTake, Woken}" and q: "tp_queue p = t # rest"
  shows "tasks_inv (set_worker i (Runs t) (p\<lparr>tp_queue := rest, begun := begun p @ [t]\<rparr>))"
proof -
  let ?p = "p\<lparr>tp_queue := rest, begun := begun p @ [t]\<rparr>"
  have "task_of (workers p i) = {#}" using i(2) by auto
  then have w: "in_work (set_worker i (Runs t) ?p) = in_work p + {#t#}" using in_work_set [of i ?p "Runs t"] i(1) by simp
  have "length rest \<le> card (awake p - {i})" if "asleep p - {i} \<noteq> {}"
  proof -
    have "asleep p \<noteq> {}" using that by blast
    then have "Suc (length rest) \<le> card (awake p)" using inv q by (simp add: tasks_inv_def)
    then show ?thesis by (auto simp: card_Diff_singleton_if)
  qed
  then show ?thesis using inv q w by (auto simp: tasks_inv_def asleep_set awake_set)
qed

lemma pool_run_inv:
  assumes inv: "tasks_inv p" and free: "mutex_free p" and w: "may_notify w p"
  shows "tasks_inv (pool_run w task p)"
proof (cases "tp_threads p = 0")
  case True
  then show ?thesis using inv by (auto simp: tasks_inv_def pool_run_def asleep_def awake_def in_work_def)
next
  case False
  let ?p = "p\<lparr>submitted := submitted p @ [task], tp_queue := tp_queue p @ [task]\<rparr>"
  have run: "pool_run w task p = (case w of None \<Rightarrow> ?p | Some i \<Rightarrow> set_worker i Woken ?p)"
    using False by (simp add: pool_run_def Let_def)
  show ?thesis
  proof (cases w)
    case None
    then have "asleep p = {}" using w by (auto simp: may_notify_def asleep_def)
    then show ?thesis using inv free run None False by (auto simp: tasks_inv_def mutex_free_def)
  next
    case (Some i)
    then have i: "i < tp_threads p" "workers p i = Asleep" using w by (simp_all add: may_notify_def)
    then have "i \<in> asleep p" "i \<notin> awake p" by (auto simp: asleep_def awake_def)
    then have "length (tp_queue p) < card (insert i (awake p))" using inv by (auto simp: tasks_inv_def card_insert_if)
    moreover have "in_work (set_worker i Woken ?p) = in_work p" using in_work_set [of i ?p Woken] i by simp
    ultimately show ?thesis using inv free run Some i by (auto simp: tasks_inv_def asleep_set awake_set mutex_free_def)
  qed
qed

lemma notifyAll_inv:
  assumes "tasks_inv p"
  shows "tasks_inv (pool_notifyAll p)"
proof -
  have "asleep (pool_notifyAll p) = {}" by (auto simp: asleep_def pool_notifyAll_def)
  moreover have "task_of (workers (pool_notifyAll p) i) = task_of (workers p i)" for i by (simp add: pool_notifyAll_def)
  then have "in_work (pool_notifyAll p) = in_work p" by (simp add: in_work_def pool_notifyAll_def)
  ultimately show ?thesis using assms by (auto simp: tasks_inv_def) (auto simp: pool_notifyAll_def split: if_splits)
qed

lemma tp_step_inv: "tp_step p l q \<Longrightarrow> tasks_inv p \<Longrightarrow> tasks_inv q"
proof (induction rule: tp_step.induct)
  case (takes i p)
  show ?case
  proof (cases "tp_queue p")
    case Nil
    then show ?thesis using takes move_inv [of p i ToWait] move_inv [of p i AtTest] by (auto simp: pool_take_def)
  next
    case (Cons t rest)
    then show ?thesis using take_task_inv [OF takes.prems takes.hyps(1,2) Cons] by (simp add: pool_take_def)
  qed
next
  case (executes i p task)
  let ?p = "p\<lparr>finished := finished p @ [task]\<rparr>"
  have "in_work (set_worker i AtTest ?p) + {#task#} = in_work p" using in_work_set [of i ?p AtTest] executes by simp
  moreover have "asleep (set_worker i AtTest ?p) = asleep p" "awake (set_worker i AtTest ?p) = awake p"
    using executes by (auto simp: asleep_def awake_def)
  ultimately show ?case using executes by (auto simp: tasks_inv_def)
next
  case (submits p w task)
  then show ?case by (intro pool_run_inv)
next
  case (stop_notify p)
  have "tasks_inv (p\<lparr>stopper := Notified\<rparr>)" using stop_notify by (simp add: tasks_inv_def)
  then show ?case by (rule notifyAll_inv)
next
  case (loop_again i p)
  then show ?case by (intro move_inv) simp_all
next
  case (loop_exit i p)
  then show ?case by (intro move_inv) simp_all
next
  case (waits i p)
  then show ?case by (intro move_inv) (auto simp: tasks_inv_def)
next
  case (spurious i p)
  then show ?case by (intro move_inv) simp_all
qed (simp_all add: tasks_inv_def)

lemma tp_reach_inv: "tp_reach p q \<Longrightarrow> tasks_inv p \<Longrightarrow> tasks_inv q"
  by (induction rule: tp_reach.induct) (auto intro: tp_step_inv)

lemma tasks_start_inv: "ThreadPool_start n ThreadPool_new = Inr p \<Longrightarrow> tasks_inv p"
  by (auto simp: ThreadPool_start_def ThreadPool_new_def tasks_inv_def asleep_def in_work_def)

section \<open>Properties\<close>


definition pool_sample :: "nat pool_conf" where
  "pool_sample = ThreadPool_new\<lparr>tp_running := True, tp_threads := 1, workers := (\<lambda>i. if i = 0 then AtTest else Exited)\<rparr>"

lemma pool_sample_start: "ThreadPool_start 1 ThreadPool_new = Inr pool_sample"
  by (simp add: ThreadPool_start_def pool_sample_def ThreadPool_new_def)

lemma pool_sample_sel [simp]:
  "tp_threads pool_sample = 1" "tp_running pool_sample" "tp_queue pool_sample = []" "stopper pool_sample = NotStopping"
  by (simp_all add: pool_sample_def ThreadPool_new_def)


text \<open>The pool of the example after \<open>stop()\<close> has notified, with its worker asleep.\<close>

definition stuck_pool :: "nat pool_conf" where
  "stuck_pool = pool_sample\<lparr>tp_running := False, stopper := Notified, workers := (\<lambda>i. if i = 0 then Asleep else Exited)\<rparr>"

text \<open>
  C39. \<open>stop()\<close> clears the flag without the mutex, so it can fall between a worker's test of the flag and its
  wait: then the notification is lost, the worker sleeps although the pool is stopped, and
  without another task or a spurious wake-up nothing can happen any more; \<open>stop()\<close> waits for the thread forever.
\<close>

theorem ThreadPool_stop_lost_wakeup:
  "tp_reach pool_sample stuck_pool \<and> stopper stuck_pool = Notified \<and> workers stuck_pool 0 = Asleep
   \<and> \<not> tp_step stuck_pool (Work i) q \<and> \<not> tp_step stuck_pool Stop q"
proof -
  let ?w = "\<lambda>w. (\<lambda>i. if i = 0 then w else Exited) :: nat \<Rightarrow> nat worker_pc"
  have up: "set_worker 0 w (p\<lparr>workers := ?w v\<rparr>) = p\<lparr>workers := ?w w\<rparr>" for w v and p :: "nat pool_conf"
    by (simp add: set_worker_def fun_eq_iff)
  let ?p = "\<lambda>w. pool_sample\<lparr>workers := ?w w\<rparr>"
  have s0: "?p AtTest = pool_sample" by (simp add: pool_sample_def)
  have s1: "tp_step (?p AtTest) (Work 0) (?p AtTake)"
    using loop_again [of 0 "?p AtTest"] by (simp add: up)
  have "pool_take 0 (?p AtTake) = ?p ToWait" using up [where w = ToWait and v = AtTake and p = pool_sample] by (simp add: pool_take_def)
  then have s2: "tp_step (?p AtTake) (Work 0) (?p ToWait)"
    using takes [of 0 "?p AtTake"] by (simp add: mutex_free_def)
  have s3: "tp_step (?p ToWait) Stop ((?p ToWait)\<lparr>tp_running := False, stopper := FlagCleared\<rparr>)"
    by (rule stop_flag) simp
  let ?n = "pool_sample\<lparr>tp_running := False, stopper := Notified, workers := ?w ToWait\<rparr>"
  have na: "pool_notifyAll (((?p ToWait)\<lparr>tp_running := False, stopper := FlagCleared\<rparr>)\<lparr>stopper := Notified\<rparr>) = ?n"
    by (rule pool_conf.equality) (simp_all add: pool_notifyAll_def fun_eq_iff)
  have s4: "tp_step ((?p ToWait)\<lparr>tp_running := False, stopper := FlagCleared\<rparr>) Stop ?n"
    using stop_notify [of "(?p ToWait)\<lparr>tp_running := False, stopper := FlagCleared\<rparr>"]
    unfolding na by simp
  have s5: "tp_step ?n (Work 0) stuck_pool"
    using waits [of 0 ?n] up [where w = Asleep and v = ToWait and p = "pool_sample\<lparr>tp_running := False, stopper := Notified\<rparr>"]
    by (simp add: stuck_pool_def)
  have "tp_reach pool_sample stuck_pool"
    using tp_trans [OF tp_trans [OF tp_trans [OF tp_trans [OF tp_trans [OF tp_refl s1] s2] s3] s4] s5] s0 by simp
  moreover have "\<not> tp_step stuck_pool (Work i) q" "\<not> tp_step stuck_pool Stop q"
    by (auto elim!: tp_stepE simp: stuck_pool_def)
  ultimately show ?thesis by (simp add: stuck_pool_def)
qed

end
