(* ===== verification/Signals.thy ===== *)
theory Signals
  imports Prelude "HOL-Library.Multiset" "HOL-Library.Sublist"
begin

text \<open>
  \<^verbatim>\<open>muduo/thread/SignalSlot.h\<close>: signals with thread-safe connection, disconnection and calls. A \<open>SlotImpl\<close> lives as long as
  handles to it do, and its destructor cleans the signal's list of slots; a call iterates over the list that was
  current when it began, and the list is copied before it is changed while a call uses it. \<open>shared_ptr\<close> is a
  count of its owners, \<open>weak_ptr\<close> an identifier that may no longer be in the store. Also \<^verbatim>\<open>SignalSlotTrivial.h\<close> and
  \<^verbatim>\<open>WeakCallback.h\<close>.
\<close>

section \<open>SignalImpl, SlotImpl and Signal\<close>

text \<open>\<open>sl_tie\<close> is \<open>tie_\<close> of a tied slot; \<open>sl_uses\<close> counts the handles and the calls that hold the slot.\<close>

record 'cb slot_impl =
  sl_cb :: 'cb
  sl_tie :: "nat option"
  sl_uses :: nat

text \<open>
  A call in progress: the list it iterates over, the position, the slot whose callback it is executing. \<open>sc_snap\<close> records the
  list as it was when the call began, and \<open>sc_log\<close> the slots it has called.
\<close>

record sig_call =
  sc_list :: nat
  sc_pos :: nat
  sc_held :: "nat option"
  sc_snap :: "nat list"
  sc_log :: "nat list"

text \<open>
  \<open>sg_lists\<close> holds the \<open>SlotList\<close> objects with their numbers of owners, \<open>sg_slots\<close> is the address in \<open>slots_\<close>, \<open>sg_ties\<close> are
  the live objects slots are tied to, \<open>sg_cleans\<close> the destructors that have not reached \<open>clean()\<close> yet; \<open>sg_history\<close> records all
  slots ever connected.
\<close>

record 'cb signal =
  sg_slots :: nat
  sg_lists :: "nat \<Rightarrow> (nat list \<times> nat) option"
  sg_objs :: "nat \<Rightarrow> 'cb slot_impl option"
  sg_ties :: "nat set"
  sg_calls :: "sig_call multiset"
  sg_cleans :: nat
  sg_history :: "nat list"

definition Signal_new :: "nat set \<Rightarrow> 'cb signal" where
  "Signal_new ties = \<lparr>sg_slots = 0, sg_lists = [0 \<mapsto> ([], 1)], sg_objs = Map.empty, sg_ties = ties, sg_calls = {#},
     sg_cleans = 0, sg_history = []\<rparr>"

text \<open>The list object the signal points to, with its number of owners; \<open>a\<close> is the address of a new object.\<close>

definition set_list :: "nat list \<Rightarrow> 'cb signal \<Rightarrow> 'cb signal" where
  "set_list xs s = s\<lparr>sg_lists := (sg_lists s)(sg_slots s := map_option (\<lambda>(_, n). (xs, n)) (sg_lists s (sg_slots s)))\<rparr>"

definition copyOnWrite :: "nat \<Rightarrow> 'cb signal \<Rightarrow> (nat list \<times> 'cb signal) result" where
  "copyOnWrite a s =
     bindR (derefR (sg_lists s) (sg_slots s)) (\<lambda>(xs, n).
       let s1 = (if n \<noteq> 1
                 then s\<lparr>sg_lists := (sg_lists s)(sg_slots s \<mapsto> (xs, n - 1), a \<mapsto> (xs, 1)), sg_slots := a\<rparr>
                 else s)
       in bindR (derefR (sg_lists s1) (sg_slots s1)) (\<lambda>(ys, m). assertR (m = 1) (Inr (ys, s1))))"

definition sl_expired :: "'cb signal \<Rightarrow> nat \<Rightarrow> bool" where
  "sl_expired s i \<longleftrightarrow> sg_objs s i = None"

fun erase_expired :: "(nat \<Rightarrow> bool) \<Rightarrow> nat list \<Rightarrow> nat list" where
  "erase_expired e [] = []"
| "erase_expired e (it # rest) = (if e it then erase_expired e rest else it # erase_expired e rest)"

definition SignalImpl_clean :: "nat \<Rightarrow> 'cb signal \<Rightarrow> 'cb signal result" where
  "SignalImpl_clean a s = bindR (copyOnWrite a s) (\<lambda>(xs, s1). Inr (set_list (erase_expired (sl_expired s1) xs) s1))"

definition Signal_add :: "nat \<Rightarrow> nat \<Rightarrow> 'cb signal \<Rightarrow> 'cb signal result" where
  "Signal_add a i s = bindR (copyOnWrite a s) (\<lambda>(xs, s1). Inr (set_list (xs @ [i]) s1))"

definition Signal_connect :: "nat \<Rightarrow> nat \<Rightarrow> 'cb \<Rightarrow> nat option \<Rightarrow> 'cb signal \<Rightarrow> 'cb signal result" where
  "Signal_connect a i cb tie s =
     Signal_add a i (s\<lparr>sg_objs := (sg_objs s)(i \<mapsto> \<lparr>sl_cb = cb, sl_tie = tie, sl_uses = 1\<rparr>), sg_history := sg_history s @ [i]\<rparr>)"

text \<open>An owner of a slot goes away; the last one destroys it, and the destructor is on its way to \<open>clean()\<close>.\<close>

definition slot_release :: "nat \<Rightarrow> 'cb signal \<Rightarrow> 'cb signal" where
  "slot_release i s =
     (case sg_objs s i of
        None \<Rightarrow> s
      | Some sl \<Rightarrow>
          if sl_uses sl = 1 then s\<lparr>sg_objs := (sg_objs s)(i := None), sg_cleans := sg_cleans s + 1\<rparr>
          else s\<lparr>sg_objs := (sg_objs s)(i \<mapsto> sl\<lparr>sl_uses := sl_uses sl - 1\<rparr>)\<rparr>)"

definition slot_acquire :: "nat \<Rightarrow> 'cb signal \<Rightarrow> 'cb signal" where
  "slot_acquire i s = s\<lparr>sg_objs := (sg_objs s)(i := map_option (\<lambda>sl. sl\<lparr>sl_uses := sl_uses sl + 1\<rparr>) (sg_objs s i))\<rparr>"

definition list_release :: "nat \<Rightarrow> 'cb signal \<Rightarrow> 'cb signal" where
  "list_release a s =
     s\<lparr>sg_lists := (sg_lists s)(a := (case sg_lists s a of
         None \<Rightarrow> None | Some (xs, n) \<Rightarrow> if n = 1 then None else Some (xs, n - 1)))\<rparr>"

text \<open>
  \<open>Signal::call\<close>, in the steps between which other threads run: taking a share of the list under the mutex; locking the next
  slot and, if it and the object it is tied to are alive, calling it; returning from the callback; leaving the loop.
\<close>

definition call_begin :: "'cb signal \<Rightarrow> 'cb signal result" where
  "call_begin s =
     bindR (derefR (sg_lists s) (sg_slots s)) (\<lambda>(xs, n).
       Inr (s\<lparr>sg_lists := (sg_lists s)(sg_slots s \<mapsto> (xs, n + 1)),
             sg_calls := add_mset \<lparr>sc_list = sg_slots s, sc_pos = 0, sc_held = None, sc_snap = xs, sc_log = []\<rparr> (sg_calls s)\<rparr>))"

definition call_next :: "sig_call \<Rightarrow> 'cb signal \<Rightarrow> (sig_call \<times> 'cb signal) result" where
  "call_next c s =
     bindR (derefR (sg_lists s) (sc_list c)) (\<lambda>(xs, _).
       let i = xs ! sc_pos c in
       case sg_objs s i of
         None \<Rightarrow> Inr (c\<lparr>sc_pos := sc_pos c + 1\<rparr>, s)
       | Some sl \<Rightarrow>
           if (case sl_tie sl of None \<Rightarrow> True | Some x \<Rightarrow> x \<in> sg_ties s)
           then Inr (c\<lparr>sc_held := Some i, sc_log := sc_log c @ [i]\<rparr>, slot_acquire i s)
           else Inr (c\<lparr>sc_pos := sc_pos c + 1\<rparr>, s))"

definition holders :: "nat \<Rightarrow> sig_call multiset \<Rightarrow> nat" where
  "holders i M = size (filter_mset (\<lambda>c. sc_held c = Some i) M)"

definition users :: "nat \<Rightarrow> sig_call multiset \<Rightarrow> nat" where
  "users a M = size (filter_mset (\<lambda>c. sc_list c = a) M)"

inductive sig_step :: "'cb signal \<Rightarrow> 'cb signal \<Rightarrow> bool" where
  connects: "sg_lists s a = None \<Longrightarrow> i \<notin> set (sg_history s) \<Longrightarrow> Signal_connect a i cb tie s = Inr s' \<Longrightarrow> sig_step s s'"
| copies_handle: "sg_objs s i \<noteq> None \<Longrightarrow> sig_step s (slot_acquire i s)"
| drops_handle: "sg_objs s i = Some sl \<Longrightarrow> holders i (sg_calls s) < sl_uses sl \<Longrightarrow> sig_step s (slot_release i s)"
| cleans: "0 < sg_cleans s \<Longrightarrow> sg_lists s a = None \<Longrightarrow> SignalImpl_clean a s = Inr s' \<Longrightarrow>
    sig_step s (s'\<lparr>sg_cleans := sg_cleans s' - 1\<rparr>)"
| begins: "call_begin s = Inr s' \<Longrightarrow> sig_step s s'"
| nexts: "sg_calls s = add_mset c M \<Longrightarrow> sc_held c = None \<Longrightarrow> sc_pos c < length (sc_snap c) \<Longrightarrow> call_next c s = Inr (c', s') \<Longrightarrow>
    sig_step s (s'\<lparr>sg_calls := add_mset c' M\<rparr>)"
| returns: "sg_calls s = add_mset c M \<Longrightarrow> sc_held c = Some i \<Longrightarrow>
    sig_step s ((slot_release i s)\<lparr>sg_calls := add_mset (c\<lparr>sc_held := None, sc_pos := sc_pos c + 1\<rparr>) M\<rparr>)"
| ends: "sg_calls s = add_mset c M \<Longrightarrow> sc_held c = None \<Longrightarrow> sc_pos c = length (sc_snap c) \<Longrightarrow>
    sig_step s ((list_release (sc_list c) s)\<lparr>sg_calls := M\<rparr>)"
| tie_dies: "x \<in> sg_ties s \<Longrightarrow> sig_step s (s\<lparr>sg_ties := sg_ties s - {x}\<rparr>)"

section \<open>Invariant\<close>

definition lists_inv :: "'cb signal \<Rightarrow> bool" where
  "lists_inv s \<longleftrightarrow> (\<exists>xs. sg_lists s (sg_slots s) = Some (xs, Suc (users (sg_slots s) (sg_calls s))))
     \<and> (\<forall>a xs n. sg_lists s a = Some (xs, n) \<longrightarrow> a \<noteq> sg_slots s \<longrightarrow> n = users a (sg_calls s) \<and> 0 < n)
     \<and> (\<forall>c \<in># sg_calls s. sg_lists s (sc_list c) \<noteq> None)"

definition untied_live :: "'cb signal \<Rightarrow> nat \<Rightarrow> bool" where
  "untied_live s i \<longleftrightarrow> (\<exists>sl. sg_objs s i = Some sl \<and> sl_tie sl = None)"

definition call_inv :: "'cb signal \<Rightarrow> sig_call \<Rightarrow> bool" where
  "call_inv s c \<longleftrightarrow> (\<exists>n. sg_lists s (sc_list c) = Some (sc_snap c, n)) \<and> distinct (sc_snap c) \<and> set (sc_snap c) \<subseteq> set (sg_history s)
     \<and> (case sc_held c of
          None \<Rightarrow> sc_pos c \<le> length (sc_snap c) \<and> subseq (sc_log c) (take (sc_pos c) (sc_snap c))
        | Some i \<Rightarrow> sc_pos c < length (sc_snap c) \<and> sc_snap c ! sc_pos c = i \<and> sg_objs s i \<noteq> None
            \<and> (\<exists>l. sc_log c = l @ [i] \<and> subseq l (take (sc_pos c) (sc_snap c))))
     \<and> (\<forall>i \<in> set (take (sc_pos c) (sc_snap c)). untied_live s i \<longrightarrow> i \<in> set (sc_log c))"

definition slots_inv :: "'cb signal \<Rightarrow> bool" where
  "slots_inv s \<longleftrightarrow> (\<exists>xs n. sg_lists s (sg_slots s) = Some (xs, n) \<and> subseq xs (sg_history s)
       \<and> (\<forall>i. sg_objs s i \<noteq> None \<longrightarrow> i \<in> set xs) \<and> (sg_cleans s = 0 \<longrightarrow> (\<forall>i \<in> set xs. sg_objs s i \<noteq> None)))
     \<and> distinct (sg_history s)
     \<and> (\<forall>i sl. sg_objs s i = Some sl \<longrightarrow> 0 < sl_uses sl \<and> holders i (sg_calls s) \<le> sl_uses sl)"

definition sig_inv :: "'cb signal \<Rightarrow> bool" where
  "sig_inv s \<longleftrightarrow> lists_inv s \<and> slots_inv s \<and> (\<forall>c \<in># sg_calls s. call_inv s c)"

lemma lists_invI:
  assumes "sg_lists s (sg_slots s) = Some (xs, Suc (users (sg_slots s) (sg_calls s)))"
    and "\<And>a ys n. sg_lists s a = Some (ys, n) \<Longrightarrow> a \<noteq> sg_slots s \<Longrightarrow> n = users a (sg_calls s) \<and> 0 < n"
    and "\<And>c. c \<in># sg_calls s \<Longrightarrow> sg_lists s (sc_list c) \<noteq> None"
  shows "lists_inv s"
  unfolding lists_inv_def using assms by blast

lemma lists_inv_other: "lists_inv s \<Longrightarrow> sg_lists s a = Some (xs, n) \<Longrightarrow> a \<noteq> sg_slots s \<Longrightarrow> n = users a (sg_calls s) \<and> 0 < n"
  unfolding lists_inv_def by blast

lemma lists_inv_call: "lists_inv s \<Longrightarrow> c \<in># sg_calls s \<Longrightarrow> sg_lists s (sc_list c) \<noteq> None"
  unfolding lists_inv_def by blast

lemma users_add [simp]: "users a (add_mset c M) = (if sc_list c = a then 1 else 0) + users a M"
  by (simp add: users_def)

lemma holders_add [simp]: "holders i (add_mset c M) = (if sc_held c = Some i then 1 else 0) + holders i M"
  by (simp add: holders_def)

lemma users_pos: "c \<in># M \<Longrightarrow> 0 < users (sc_list c) M"
  by (auto simp: users_def dest: multi_member_split)

lemma subseq_sets:
  assumes "subseq xs ys"
  shows "set xs \<subseteq> set ys" "distinct ys \<Longrightarrow> distinct xs"
  using assms by (auto simp: subseq_conv_nths dest: in_set_nthsD)

lemma subseq_filter_set: "subseq xs ys \<Longrightarrow> distinct ys \<Longrightarrow> xs = filter (\<lambda>i. i \<in> set xs) ys"
proof (induction rule: list_emb.induct)
  case (list_emb_Nil ys)
  then show ?case by simp
next
  case (list_emb_Cons xs ys y)
  then have "y \<notin> set xs" using subseq_sets(1) by fastforce
  with list_emb_Cons show ?case by simp
next
  case (list_emb_Cons2 x y xs ys)
  then have "filter (\<lambda>i. i \<in> set (x # xs)) ys = filter (\<lambda>i. i \<in> set xs) ys" by (intro filter_cong) auto
  with list_emb_Cons2 show ?case by simp
qed

lemma erase_expired_filter: "erase_expired e xs = filter (\<lambda>i. \<not> e i) xs"
  by (induction xs) simp_all

text \<open>Before the list is changed: its content is the same, it has one owner, and the lists of the calls in progress are untouched.\<close>

lemma copyOnWrite_ok:
  assumes "lists_inv s" and "sg_lists s (sg_slots s) = Some (xs, n)" and "sg_lists s a = None"
  shows "\<exists>s1. copyOnWrite a s = Inr (xs, s1) \<and> lists_inv s1 \<and> sg_lists s1 (sg_slots s1) = Some (xs, 1) \<and> users (sg_slots s1) (sg_calls s1) = 0
     \<and> (\<forall>b \<noteq> sg_slots s1. map_option fst (sg_lists s b) = map_option fst (sg_lists s1 b))
     \<and> sg_objs s1 = sg_objs s \<and> sg_calls s1 = sg_calls s \<and> sg_cleans s1 = sg_cleans s \<and> sg_history s1 = sg_history s \<and> sg_ties s1 = sg_ties s"
proof -
  have n: "n = Suc (users (sg_slots s) (sg_calls s))" using assms(1,2) by (auto simp: lists_inv_def)
  have ne: "a \<noteq> sg_slots s" using assms(2,3) by auto
  show ?thesis
  proof (cases "n = 1")
    case True
    then show ?thesis using assms n by (simp add: copyOnWrite_def)
  next
    case False
    let ?s = "s\<lparr>sg_lists := (sg_lists s)(sg_slots s \<mapsto> (xs, n - 1), a \<mapsto> (xs, 1)), sg_slots := a\<rparr>"
    have u: "users a (sg_calls s) = 0" using assms(1,3) by (auto simp: lists_inv_def users_def)
    have "copyOnWrite a s = Inr (xs, ?s)" using assms(2) False ne by (simp add: copyOnWrite_def Let_def)
    moreover have "lists_inv ?s" using assms ne n False u unfolding lists_inv_def by auto
    ultimately show ?thesis using ne assms(2,3) u by auto
  qed
qed

lemma set_list_sel:
  assumes "sg_lists s (sg_slots s) = Some (xs, n)"
  shows "sg_lists (set_list ys s) = (sg_lists s)(sg_slots s \<mapsto> (ys, n))" "sg_slots (set_list ys s) = sg_slots s" "sg_objs (set_list ys s) = sg_objs s"
    "sg_calls (set_list ys s) = sg_calls s" "sg_cleans (set_list ys s) = sg_cleans s" "sg_history (set_list ys s) = sg_history s"
    "sg_ties (set_list ys s) = sg_ties s"
  using assms by (simp_all add: set_list_def)

lemma call_inv_mono:
  assumes "call_inv s c" and "map_option fst (sg_lists s' (sc_list c)) = map_option fst (sg_lists s (sc_list c))"
    and "set (sg_history s) \<subseteq> set (sg_history s')" and "\<And>i. sc_held c = Some i \<Longrightarrow> sg_objs s i \<noteq> None \<Longrightarrow> sg_objs s' i \<noteq> None"
    and "\<And>i. i \<in> set (sg_history s) \<Longrightarrow> untied_live s' i \<Longrightarrow> untied_live s i"
  shows "call_inv s' c"
proof -
  from assms(1) obtain n where "sg_lists s (sc_list c) = Some (sc_snap c, n)" by (auto simp: call_inv_def)
  then have "\<exists>m. sg_lists s' (sc_list c) = Some (sc_snap c, m)" using assms(2) by auto
  moreover have "i \<in> set (sg_history s)" if "i \<in> set (take (sc_pos c) (sc_snap c))" for i
    using assms(1) that set_take_subset [of "sc_pos c" "sc_snap c"] by (auto simp: call_inv_def)
  ultimately show ?thesis using assms(1,3,4,5) unfolding call_inv_def by (auto split: option.splits)
qed

text \<open>A change of the list under the mutex: no assertion fails, and every call in progress keeps its own list.\<close>

lemma change_list:
  assumes inv: "lists_inv s" and l: "sg_lists s (sg_slots s) = Some (xs, n)" and a: "sg_lists s a = None"
  shows "\<exists>s1. copyOnWrite a s = Inr (xs, s1) \<and> lists_inv (set_list ys s1) \<and> sg_lists (set_list ys s1) (sg_slots (set_list ys s1)) = Some (ys, 1)
     \<and> (\<forall>c \<in># sg_calls s. map_option fst (sg_lists (set_list ys s1) (sc_list c)) = map_option fst (sg_lists s (sc_list c)))
     \<and> sg_objs s1 = sg_objs s \<and> sg_objs (set_list ys s1) = sg_objs s \<and> sg_calls (set_list ys s1) = sg_calls s
     \<and> sg_cleans (set_list ys s1) = sg_cleans s \<and> sg_history (set_list ys s1) = sg_history s"
proof -
  obtain s1 where s1: "copyOnWrite a s = Inr (xs, s1)" "lists_inv s1" "sg_lists s1 (sg_slots s1) = Some (xs, 1)" "users (sg_slots s1) (sg_calls s1) = 0"
    "\<forall>b \<noteq> sg_slots s1. map_option fst (sg_lists s b) = map_option fst (sg_lists s1 b)" "sg_objs s1 = sg_objs s" "sg_calls s1 = sg_calls s"
    "sg_cleans s1 = sg_cleans s" "sg_history s1 = sg_history s" using copyOnWrite_ok [OF assms] by blast
  note f = set_list_sel [OF s1(3), of ys]
  have ne: "sc_list c \<noteq> sg_slots s1" if "c \<in># sg_calls s" for c using users_pos [OF that] s1(4,7) by auto
  have "lists_inv (set_list ys s1)" using s1(2,3) unfolding lists_inv_def f by auto
  with s1 ne show ?thesis by (auto simp: f)
qed

lemma sig_inv_list:
  assumes "sig_inv s"
  obtains xs n where "sg_lists s (sg_slots s) = Some (xs, n)" "subseq xs (sg_history s)"
    "\<forall>j. sg_objs s j \<noteq> None \<longrightarrow> j \<in> set xs" "sg_cleans s = 0 \<longrightarrow> (\<forall>j \<in> set xs. sg_objs s j \<noteq> None)" "distinct (sg_history s)"
    "\<forall>j sl. sg_objs s j = Some sl \<longrightarrow> 0 < sl_uses sl \<and> holders j (sg_calls s) \<le> sl_uses sl"
  using assms unfolding sig_inv_def slots_inv_def by (elim conjE exE) (rule that, assumption+)

lemma connect_inv:
  assumes inv: "sig_inv s" and a: "sg_lists s a = None" and i: "i \<notin> set (sg_history s)"
  shows "\<exists>s'. Signal_connect a i cb tie s = Inr s' \<and> sig_inv s'"
proof -
  let ?s = "s\<lparr>sg_objs := (sg_objs s)(i \<mapsto> \<lparr>sl_cb = cb, sl_tie = tie, sl_uses = 1\<rparr>), sg_history := sg_history s @ [i]\<rparr>"
  from inv obtain xs n where l: "sg_lists s (sg_slots s) = Some (xs, n)" "subseq xs (sg_history s)"
    "\<forall>j. sg_objs s j \<noteq> None \<longrightarrow> j \<in> set xs" "sg_cleans s = 0 \<longrightarrow> (\<forall>j \<in> set xs. sg_objs s j \<noteq> None)" "distinct (sg_history s)"
    "\<forall>j sl. sg_objs s j = Some sl \<longrightarrow> 0 < sl_uses sl \<and> holders j (sg_calls s) \<le> sl_uses sl" by (rule sig_inv_list)
  have "lists_inv ?s" using inv by (simp add: sig_inv_def lists_inv_def)
  from change_list [OF this, of xs n a "xs @ [i]"] l(1) a obtain s1 where s1: "copyOnWrite a ?s = Inr (xs, s1)"
    "lists_inv (set_list (xs @ [i]) s1)" "sg_lists (set_list (xs @ [i]) s1) (sg_slots (set_list (xs @ [i]) s1)) = Some (xs @ [i], 1)"
    "\<forall>c \<in># sg_calls s. map_option fst (sg_lists (set_list (xs @ [i]) s1) (sc_list c)) = map_option fst (sg_lists s (sc_list c))"
    "sg_objs (set_list (xs @ [i]) s1) = (sg_objs s)(i \<mapsto> \<lparr>sl_cb = cb, sl_tie = tie, sl_uses = 1\<rparr>)"
    "sg_calls (set_list (xs @ [i]) s1) = sg_calls s" "sg_cleans (set_list (xs @ [i]) s1) = sg_cleans s"
    "sg_history (set_list (xs @ [i]) s1) = sg_history s @ [i]" by auto
  let ?s' = "set_list (xs @ [i]) s1"
  have sub: "set xs \<subseteq> set (sg_history s)" by (rule subseq_sets(1) [OF l(2)])
  have "holders i (sg_calls s) = 0"
  proof -
    have "sc_held c \<noteq> Some i" if "c \<in># sg_calls s" for c
      using inv that i l(3) sub by (fastforce simp: sig_inv_def call_inv_def)
    then show ?thesis by (auto simp: holders_def)
  qed
  then have "slots_inv ?s'" unfolding slots_inv_def s1(3,5-8) using l i by (auto intro: list_emb_append_mono)
  moreover have "call_inv ?s' c" if "c \<in># sg_calls s" for c
  proof (rule call_inv_mono [of s])
    show "call_inv s c" using inv that by (simp add: sig_inv_def)
  qed (use s1 that i in \<open>auto simp: untied_live_def split: if_splits\<close>)
  ultimately show ?thesis using s1 by (auto simp: Signal_connect_def Signal_add_def sig_inv_def)
qed

lemma clean_inv:
  assumes inv: "sig_inv s" and a: "sg_lists s a = None"
  shows "\<exists>s'. SignalImpl_clean a s = Inr s' \<and> sig_inv (s'\<lparr>sg_cleans := sg_cleans s' - 1\<rparr>)"
proof -
  from inv obtain xs n where l: "sg_lists s (sg_slots s) = Some (xs, n)" "subseq xs (sg_history s)"
    "\<forall>j. sg_objs s j \<noteq> None \<longrightarrow> j \<in> set xs" "distinct (sg_history s)"
    "\<forall>j sl. sg_objs s j = Some sl \<longrightarrow> 0 < sl_uses sl \<and> holders j (sg_calls s) \<le> sl_uses sl" by (rule sig_inv_list)
  define ys where "ys = erase_expired (sl_expired s) xs"
  have ys: "ys = filter (\<lambda>i. sg_objs s i \<noteq> None) xs" by (simp add: ys_def erase_expired_filter sl_expired_def)
  obtain s1 where s1: "copyOnWrite a s = Inr (xs, s1)" "lists_inv (set_list ys s1)"
    "sg_lists (set_list ys s1) (sg_slots (set_list ys s1)) = Some (ys, 1)"
    "\<forall>c \<in># sg_calls s. map_option fst (sg_lists (set_list ys s1) (sc_list c)) = map_option fst (sg_lists s (sc_list c))"
    "sg_objs s1 = sg_objs s" "sg_objs (set_list ys s1) = sg_objs s"
    "sg_calls (set_list ys s1) = sg_calls s" "sg_cleans (set_list ys s1) = sg_cleans s" "sg_history (set_list ys s1) = sg_history s"
    using change_list [of s xs n a ys] inv l(1) a by (auto simp: sig_inv_def)
  let ?s' = "(set_list ys s1)\<lparr>sg_cleans := sg_cleans (set_list ys s1) - 1\<rparr>"
  have run: "SignalImpl_clean a s = Inr (set_list ys s1)"
    using s1(1,5) by (simp add: SignalImpl_clean_def ys_def sl_expired_def [abs_def])
  have "subseq ys (sg_history s)" unfolding ys using l(2) subseq_filter_left subseq_order.trans by blast
  then have "slots_inv ?s'" using l s1(3,6-9) by (auto simp: slots_inv_def ys)
  moreover have "lists_inv ?s'" using s1(2) by (simp add: lists_inv_def)
  moreover have "call_inv ?s' c" if "c \<in># sg_calls s" for c
  proof (rule call_inv_mono [of s])
    show "call_inv s c" using inv that by (simp add: sig_inv_def)
  qed (use s1 that in \<open>auto simp: untied_live_def\<close>)
  ultimately show ?thesis using run s1(7) by (auto simp: sig_inv_def)
qed

lemma holders_zero: "holders i M = 0 \<Longrightarrow> c \<in># M \<Longrightarrow> sc_held c \<noteq> Some i"
  by (auto simp: holders_def)

lemma acquire_sel:
  "sg_lists (slot_acquire i s) = sg_lists s" "sg_slots (slot_acquire i s) = sg_slots s" "sg_calls (slot_acquire i s) = sg_calls s"
  "sg_cleans (slot_acquire i s) = sg_cleans s" "sg_history (slot_acquire i s) = sg_history s"
  "sg_objs (slot_acquire i s) j = None \<longleftrightarrow> sg_objs s j = None" "untied_live (slot_acquire i s) j = untied_live s j"
  by (auto simp: slot_acquire_def untied_live_def)

lemma release_sel:
  "sg_lists (slot_release i s) = sg_lists s" "sg_slots (slot_release i s) = sg_slots s" "sg_calls (slot_release i s) = sg_calls s"
  "sg_history (slot_release i s) = sg_history s" "j \<noteq> i \<Longrightarrow> sg_objs (slot_release i s) j = sg_objs s j"
  "untied_live (slot_release i s) j \<Longrightarrow> untied_live s j" "sg_objs s j = None \<Longrightarrow> sg_objs (slot_release i s) j = None"
  by (auto simp: slot_release_def untied_live_def split: option.splits if_splits)

text \<open>Taking a share of a live slot, by a handle or by a call that begins to execute it.\<close>

lemma acquire_slots_inv:
  assumes "slots_inv s" and "sg_objs s i \<noteq> None" and "\<And>j. holders j M \<le> (if j = i then 1 else 0) + holders j (sg_calls s)"
  shows "slots_inv ((slot_acquire i s)\<lparr>sg_calls := M\<rparr>)"
proof -
  have "0 < sl_uses sl \<and> holders j M \<le> sl_uses sl" if o: "sg_objs (slot_acquire i s) j = Some sl" for j sl
  proof -
    obtain sl0 where sl0: "sg_objs s j = Some sl0" "sl_uses sl = sl_uses sl0 + (if j = i then 1 else 0)"
      using o by (cases "sg_objs s j"; cases "j = i") (auto simp: slot_acquire_def)
    then have "holders j (sg_calls s) \<le> sl_uses sl0" "0 < sl_uses sl0" using assms(1) by (auto simp: slots_inv_def)
    with sl0(2) assms(3) [of j] show ?thesis by auto
  qed
  with assms(1) show ?thesis unfolding slots_inv_def by (auto simp: acquire_sel)
qed

text \<open>The parts of \<open>slots_inv\<close>.\<close>

lemma slots_invI:
  assumes "sg_lists s (sg_slots s) = Some (xs, n)" and "subseq xs (sg_history s)" and "\<forall>j. sg_objs s j \<noteq> None \<longrightarrow> j \<in> set xs"
    and "sg_cleans s = 0 \<longrightarrow> (\<forall>j \<in> set xs. sg_objs s j \<noteq> None)" and "distinct (sg_history s)"
    and "\<forall>j sl. sg_objs s j = Some sl \<longrightarrow> 0 < sl_uses sl \<and> holders j (sg_calls s) \<le> sl_uses sl"
  shows "slots_inv s"
  unfolding slots_inv_def by (intro conjI exI [of _ xs] exI [of _ n]) (fact assms)+

lemma slots_invE:
  assumes "slots_inv s"
  obtains xs n where "sg_lists s (sg_slots s) = Some (xs, n)" "subseq xs (sg_history s)"
    "\<forall>j. sg_objs s j \<noteq> None \<longrightarrow> j \<in> set xs" "sg_cleans s = 0 \<longrightarrow> (\<forall>j \<in> set xs. sg_objs s j \<noteq> None)" "distinct (sg_history s)"
    "\<forall>j sl. sg_objs s j = Some sl \<longrightarrow> 0 < sl_uses sl \<and> holders j (sg_calls s) \<le> sl_uses sl"
  using assms unfolding slots_inv_def by (elim conjE exE) (rule that, assumption+)

text \<open>Giving a share back: nobody who still holds the slot loses it.\<close>

lemma release_slots_inv:
  assumes inv: "slots_inv s" and sl: "sg_objs s i = Some sl" and h: "holders i M < sl_uses sl" "\<And>j. j \<noteq> i \<Longrightarrow> holders j M \<le> holders j (sg_calls s)"
  shows "slots_inv ((slot_release i s)\<lparr>sg_calls := M\<rparr>)"
proof -
  let ?s = "slot_release i s"
  from inv obtain xs n where f: "sg_lists s (sg_slots s) = Some (xs, n)" "subseq xs (sg_history s)"
    "\<forall>j. sg_objs s j \<noteq> None \<longrightarrow> j \<in> set xs" "sg_cleans s = 0 \<longrightarrow> (\<forall>j \<in> set xs. sg_objs s j \<noteq> None)" "distinct (sg_history s)"
    "\<forall>j sl. sg_objs s j = Some sl \<longrightarrow> 0 < sl_uses sl \<and> holders j (sg_calls s) \<le> sl_uses sl" by (rule slots_invE)
  have o: "sg_objs ?s = (sg_objs s)(i := (if sl_uses sl = 1 then None else Some (sl\<lparr>sl_uses := sl_uses sl - 1\<rparr>)))"
    "sg_cleans ?s = (if sl_uses sl = 1 then sg_cleans s + 1 else sg_cleans s)"
    using sl by (simp_all add: slot_release_def)
  have i: "i \<in> set xs" using f(3) sl by simp
  show ?thesis
  proof (rule slots_invI)
    show "\<forall>j. sg_objs (?s\<lparr>sg_calls := M\<rparr>) j \<noteq> None \<longrightarrow> j \<in> set xs" using f(3) i by (simp add: o)
    show "sg_cleans (?s\<lparr>sg_calls := M\<rparr>) = 0 \<longrightarrow> (\<forall>j \<in> set xs. sg_objs (?s\<lparr>sg_calls := M\<rparr>) j \<noteq> None)"
      using f(4) by (simp add: o)
    show "\<forall>j sx. sg_objs (?s\<lparr>sg_calls := M\<rparr>) j = Some sx \<longrightarrow> 0 < sl_uses sx \<and> holders j (sg_calls (?s\<lparr>sg_calls := M\<rparr>)) \<le> sl_uses sx"
    proof (intro allI impI)
      fix j sx assume j: "sg_objs (?s\<lparr>sg_calls := M\<rparr>) j = Some sx"
      show "0 < sl_uses sx \<and> holders j (sg_calls (?s\<lparr>sg_calls := M\<rparr>)) \<le> sl_uses sx"
      proof (cases "j = i")
        case True
        then have "sx = sl\<lparr>sl_uses := sl_uses sl - 1\<rparr>" "sl_uses sl \<noteq> 1" using j by (simp_all add: o split: if_splits)
        then show ?thesis using True h(1) by simp
      next
        case False
        then have "sg_objs s j = Some sx" using j by (simp add: o)
        then have "0 < sl_uses sx" "holders j (sg_calls s) \<le> sl_uses sx" using f(6) by blast+
        then show ?thesis using h(2) [OF False] by simp
      qed
    qed
  qed (simp_all add: release_sel(1-4) f(1,2,5))
qed

lemma release_held:
  assumes "sg_objs s i = Some sl" and "holders i M < sl_uses sl" and "c \<in># M" and "sc_held c = Some i"
  shows "sg_objs (slot_release i s) i \<noteq> None"
proof -
  have "c \<in># filter_mset (\<lambda>c. sc_held c = Some i) M" using assms(3,4) by simp
  then have "0 < holders i M" unfolding holders_def by (metis empty_not_add_mset gr0I insert_DiffM size_eq_0_iff_empty)
  with assms(1,2) show ?thesis by (simp add: slot_release_def)
qed

lemma lists_inv_calls:
  assumes "lists_inv s" and "sg_lists s' = sg_lists s" "sg_slots s' = sg_slots s" "\<And>a. users a (sg_calls s') = users a (sg_calls s)"
    and "\<forall>c \<in># sg_calls s'. \<exists>d \<in># sg_calls s. sc_list c = sc_list d"
  shows "lists_inv s'"
  using assms unfolding lists_inv_def by auto

lemma call_begin_inv:
  assumes inv: "sig_inv s"
  shows "\<exists>s'. call_begin s = Inr s' \<and> sig_inv s'"
proof -
  from inv obtain xs n where l: "sg_lists s (sg_slots s) = Some (xs, n)" "subseq xs (sg_history s)"
    "\<forall>j. sg_objs s j \<noteq> None \<longrightarrow> j \<in> set xs" "sg_cleans s = 0 \<longrightarrow> (\<forall>j \<in> set xs. sg_objs s j \<noteq> None)" "distinct (sg_history s)"
    "\<forall>j sl. sg_objs s j = Some sl \<longrightarrow> 0 < sl_uses sl \<and> holders j (sg_calls s) \<le> sl_uses sl" by (rule sig_inv_list)
  define c where "c = \<lparr>sc_list = sg_slots s, sc_pos = 0, sc_held = None, sc_snap = xs, sc_log = []\<rparr>"
  define s' where "s' = s\<lparr>sg_lists := (sg_lists s)(sg_slots s \<mapsto> (xs, n + 1)), sg_calls := add_mset c (sg_calls s)\<rparr>"
  have f: "sg_lists s' = (sg_lists s)(sg_slots s \<mapsto> (xs, n + 1))" "sg_slots s' = sg_slots s" "sg_calls s' = add_mset c (sg_calls s)"
    "sg_objs s' = sg_objs s" "sg_cleans s' = sg_cleans s" "sg_history s' = sg_history s" "sc_list c = sg_slots s" "sc_held c = None"
    by (simp_all add: s'_def c_def)
  have run: "call_begin s = Inr s'" using l(1) by (simp add: call_begin_def c_def s'_def)
  have li: "lists_inv s" using inv by (simp add: sig_inv_def)
  then have n: "n = Suc (users (sg_slots s) (sg_calls s))" using l(1) by (simp add: lists_inv_def)
  have "lists_inv s'"
  proof (rule lists_invI [where xs = xs])
    show "sg_lists s' (sg_slots s') = Some (xs, Suc (users (sg_slots s') (sg_calls s')))" by (simp add: f n)
    show "m = users a (sg_calls s') \<and> 0 < m" if "sg_lists s' a = Some (ys, m)" "a \<noteq> sg_slots s'" for a ys m
      using that lists_inv_other [OF li, of a ys m] by (simp add: f)
    show "sg_lists s' (sc_list d) \<noteq> None" if "d \<in># sg_calls s'" for d
      using that lists_inv_call [OF li, of d] by (cases "d = c") (simp_all add: f)
  qed
  moreover have "slots_inv s'" by (rule slots_invI [where xs = xs and n = "n + 1"]) (simp_all add: f l(2-6))
  moreover have "call_inv s' c" using l(5) subseq_sets [OF l(2)] by (simp add: call_inv_def f(1,6,7)) (simp add: c_def)
  moreover have "call_inv s' d" if d: "d \<in># sg_calls s" for d
  proof (rule call_inv_mono [of s])
    show "call_inv s d" using inv d by (simp add: sig_inv_def)
  qed (simp_all add: f l(1) untied_live_def)
  ultimately have "sig_inv s'" unfolding sig_inv_def f(3) by (auto simp del: fun_upd_apply)
  with run show ?thesis by blast
qed

lemma sig_invI:
  assumes "lists_inv s" and "slots_inv s" and "\<And>c. c \<in># sg_calls s \<Longrightarrow> call_inv s c"
  shows "sig_inv s"
  using assms by (simp add: sig_inv_def)

lemma sig_invD:
  assumes "sig_inv s"
  shows "lists_inv s" "slots_inv s" "c \<in># sg_calls s \<Longrightarrow> call_inv s c"
  using assms by (simp_all add: sig_inv_def)

lemma acquire_inv:
  assumes "sig_inv s" and "sg_objs s i \<noteq> None"
  shows "sig_inv (slot_acquire i s)"
proof (rule sig_invI)
  show "lists_inv (slot_acquire i s)"
    by (rule lists_inv_calls [OF sig_invD(1) [OF assms(1)]]) (auto simp: acquire_sel)
  show "slots_inv (slot_acquire i s)"
    using acquire_slots_inv [OF sig_invD(2) [OF assms(1)] assms(2), of "sg_calls s"] by (simp add: slot_acquire_def)
  show "call_inv (slot_acquire i s) c" if "c \<in># sg_calls (slot_acquire i s)" for c
    by (rule call_inv_mono [OF sig_invD(3) [OF assms(1)]]) (use that in \<open>auto simp: acquire_sel\<close>)
qed

lemma drop_inv:
  assumes inv: "sig_inv s" and sl: "sg_objs s i = Some sl" "holders i (sg_calls s) < sl_uses sl"
  shows "sig_inv (slot_release i s)"
proof (rule sig_invI)
  have eq: "(slot_release i s)\<lparr>sg_calls := sg_calls s\<rparr> = slot_release i s" by (simp add: slot_release_def split: option.splits)
  show "lists_inv (slot_release i s)"
    by (rule lists_inv_calls [OF sig_invD(1) [OF inv]]) (auto simp: release_sel)
  show "slots_inv (slot_release i s)"
    using release_slots_inv [OF sig_invD(2) [OF inv] sl order_refl] unfolding eq .
  show "call_inv (slot_release i s) c" if c: "c \<in># sg_calls (slot_release i s)" for c
  proof (rule call_inv_mono [OF sig_invD(3) [OF inv]])
    show c': "c \<in># sg_calls s" using c by (simp add: release_sel)
    show "sg_objs (slot_release i s) j \<noteq> None" if "sc_held c = Some j" "sg_objs s j \<noteq> None" for j
      using release_held [OF sl c'] that release_sel(5) [of j i s] by (cases "j = i") simp_all
  qed (simp_all add: release_sel(1-4) release_sel(6))
qed

lemma take_step: "k < length xs \<Longrightarrow> take (Suc k) xs = take k xs @ [xs ! k]"
  by (rule take_Suc_conv_app_nth)

text \<open>A call moves on: past a slot that is gone, or into one that is alive.\<close>

lemma call_inv_skip:
  assumes "call_inv s c" and "sc_held c = None" and "sc_pos c < length (sc_snap c)" and "\<not> untied_live s (sc_snap c ! sc_pos c)"
  shows "call_inv s (c\<lparr>sc_pos := sc_pos c + 1\<rparr>)"
  using assms by (auto simp: call_inv_def take_step subseq_order.trans [OF _ list_emb_append2] intro: list_emb_append2)

lemma call_inv_enter:
  assumes "call_inv s c" and "sc_held c = None" and "sc_pos c < length (sc_snap c)" and "sc_snap c ! sc_pos c = i" and "sg_objs s i \<noteq> None"
  shows "call_inv s (c\<lparr>sc_held := Some i, sc_log := sc_log c @ [i]\<rparr>)"
  using assms by (auto simp: call_inv_def)

lemma call_inv_leave:
  assumes "call_inv s c" and "sc_held c = Some i"
  shows "call_inv s (c\<lparr>sc_held := None, sc_pos := sc_pos c + 1\<rparr>)"
  using assms by (auto simp: call_inv_def take_step intro: list_emb_append_mono)

lemma next_inv:
  assumes inv: "sig_inv s" and c: "sg_calls s = add_mset c M" "sc_held c = None" "sc_pos c < length (sc_snap c)"
  shows "\<exists>c' s'. call_next c s = Inr (c', s') \<and> sig_inv (s'\<lparr>sg_calls := add_mset c' M\<rparr>)"
proof -
  define i where "i = sc_snap c ! sc_pos c"
  have ci: "call_inv s c" using sig_invD(3) [OF inv] c(1) by simp
  then obtain n where l: "sg_lists s (sc_list c) = Some (sc_snap c, n)" by (auto simp: call_inv_def)
  let ?skip = "c\<lparr>sc_pos := sc_pos c + 1\<rparr>" and ?in = "c\<lparr>sc_held := Some i, sc_log := sc_log c @ [i]\<rparr>"
  have skip: "sig_inv (s\<lparr>sg_calls := add_mset ?skip M\<rparr>)" if dead: "\<not> untied_live s i"
  proof (rule sig_invI)
    show "lists_inv (s\<lparr>sg_calls := add_mset ?skip M\<rparr>)"
      by (rule lists_inv_calls [OF sig_invD(1) [OF inv]]) (auto simp: c)
    show "slots_inv (s\<lparr>sg_calls := add_mset ?skip M\<rparr>)"
      by (rule slots_invE [OF sig_invD(2) [OF inv]], rule slots_invI) (simp_all add: c(1,2))
    have k: "call_inv (s\<lparr>sg_calls := add_mset ?skip M\<rparr>) d" if "call_inv s d" for d
      by (rule call_inv_mono [OF that]) (simp_all add: untied_live_def)
    show "call_inv (s\<lparr>sg_calls := add_mset ?skip M\<rparr>) d" if "d \<in># sg_calls (s\<lparr>sg_calls := add_mset ?skip M\<rparr>)" for d
      using that k call_inv_skip [OF ci c(2,3)] dead sig_invD(3) [OF inv, of d] by (auto simp: i_def c(1))
  qed
  have enter: "sig_inv ((slot_acquire i s)\<lparr>sg_calls := add_mset ?in M\<rparr>)" if live: "sg_objs s i \<noteq> None"
  proof (rule sig_invI)
    show "lists_inv ((slot_acquire i s)\<lparr>sg_calls := add_mset ?in M\<rparr>)"
      by (rule lists_inv_calls [OF sig_invD(1) [OF inv]]) (auto simp: c acquire_sel)
    show "slots_inv ((slot_acquire i s)\<lparr>sg_calls := add_mset ?in M\<rparr>)"
      by (rule acquire_slots_inv [OF sig_invD(2) [OF inv] live]) (simp add: c)
    have k: "call_inv ((slot_acquire i s)\<lparr>sg_calls := add_mset ?in M\<rparr>) d" if "call_inv s d" for d
    proof (rule call_inv_mono [OF that])
      show "untied_live s j" if "untied_live ((slot_acquire i s)\<lparr>sg_calls := add_mset ?in M\<rparr>) j" for j
        using that acquire_sel(7) [of i s j] by (simp add: untied_live_def)
    qed (simp_all add: acquire_sel)
    show "call_inv ((slot_acquire i s)\<lparr>sg_calls := add_mset ?in M\<rparr>) d" if "d \<in># sg_calls ((slot_acquire i s)\<lparr>sg_calls := add_mset ?in M\<rparr>)" for d
      using that k call_inv_enter [OF ci c(2,3) _ live] sig_invD(3) [OF inv, of d] by (auto simp: i_def c(1))
  qed
  show ?thesis
  proof (cases "sg_objs s i")
    case None
    then show ?thesis using skip l by (simp add: call_next_def i_def untied_live_def)
  next
    case (Some sl)
    then have "\<not> untied_live s i" if "\<not> (case sl_tie sl of None \<Rightarrow> True | Some x \<Rightarrow> x \<in> sg_ties s)"
      using that by (simp add: untied_live_def split: option.splits)
    with skip enter Some l show ?thesis by (simp add: call_next_def i_def [symmetric] Let_def)
  qed
qed

lemma return_inv:
  assumes inv: "sig_inv s" and c: "sg_calls s = add_mset c M" "sc_held c = Some i"
  shows "sig_inv ((slot_release i s)\<lparr>sg_calls := add_mset (c\<lparr>sc_held := None, sc_pos := sc_pos c + 1\<rparr>) M\<rparr>)"
proof -
  let ?c = "c\<lparr>sc_held := None, sc_pos := sc_pos c + 1\<rparr>"
  let ?s = "(slot_release i s)\<lparr>sg_calls := add_mset ?c M\<rparr>"
  have ci: "call_inv s c" using sig_invD(3) [OF inv] c(1) by simp
  then obtain sl where sl: "sg_objs s i = Some sl" using c(2) by (auto simp: call_inv_def)
  have "holders i (sg_calls s) \<le> sl_uses sl" using sig_invD(2) [OF inv] sl by (auto simp: slots_inv_def)
  then have h: "holders i (add_mset ?c M) < sl_uses sl" by (simp add: c)
  show ?thesis
  proof (rule sig_invI)
    show "lists_inv ?s" by (rule lists_inv_calls [OF sig_invD(1) [OF inv]]) (auto simp: c release_sel)
    show "slots_inv ?s" by (rule release_slots_inv [OF sig_invD(2) [OF inv] sl h]) (simp add: c)
    have k: "call_inv ?s d" if d: "call_inv s d" "d \<in># add_mset ?c M" for d
    proof (rule call_inv_mono [OF d(1)])
      show "sg_objs ?s j \<noteq> None" if "sc_held d = Some j" "sg_objs s j \<noteq> None" for j
        using release_held [OF sl h d(2)] that release_sel(5) [of j i s] by (cases "j = i") simp_all
      show "untied_live s j" if "untied_live ?s j" for j
        using that release_sel(6) [of i s j] by (simp add: untied_live_def)
    qed (simp_all add: release_sel(1-4))
    show "call_inv ?s d" if d: "d \<in># sg_calls ?s" for d
    proof (cases "d = ?c")
      case True
      then show ?thesis using k [OF call_inv_leave [OF ci c(2)]] by simp
    next
      case False
      then have "d \<in># sg_calls s" using d by (simp add: c(1))
      then show ?thesis using k [OF sig_invD(3) [OF inv]] d by simp
    qed
  qed
qed

lemma end_inv:
  assumes inv: "sig_inv s" and c: "sg_calls s = add_mset c M" "sc_held c = None"
  shows "sig_inv ((list_release (sc_list c) s)\<lparr>sg_calls := M\<rparr>)"
proof -
  let ?s = "(list_release (sc_list c) s)\<lparr>sg_calls := M\<rparr>" and ?a = "sc_list c"
  have li: "lists_inv s" by (rule sig_invD(1) [OF inv])
  have ci: "call_inv s c" using sig_invD(3) [OF inv] c(1) by simp
  then obtain n where n: "sg_lists s ?a = Some (sc_snap c, n)" by (auto simp: call_inv_def)
  have nn: "n = (if ?a = sg_slots s then 1 else 0) + Suc (users ?a M)"
  proof (cases "?a = sg_slots s")
    case True
    then show ?thesis using li n c by (simp add: lists_inv_def)
  next
    case False
    then show ?thesis using lists_inv_other [OF li n] c by simp
  qed
  have f: "sg_lists ?s = (sg_lists s)(?a := (if n = 1 then None else Some (sc_snap c, n - 1)))" "sg_slots ?s = sg_slots s" "sg_calls ?s = M"
    "sg_objs ?s = sg_objs s" "sg_cleans ?s = sg_cleans s" "sg_history ?s = sg_history s"
    using n by (simp_all add: list_release_def)
  have keep: "map_option fst (sg_lists ?s b) = map_option fst (sg_lists s b)" if "b = sg_slots s \<or> 0 < users b M" for b
    using that n nn by (cases "b = ?a") (auto simp: f)
  from inv obtain xs m where l: "sg_lists s (sg_slots s) = Some (xs, m)" "subseq xs (sg_history s)"
    "\<forall>j. sg_objs s j \<noteq> None \<longrightarrow> j \<in> set xs" "sg_cleans s = 0 \<longrightarrow> (\<forall>j \<in> set xs. sg_objs s j \<noteq> None)" "distinct (sg_history s)"
    "\<forall>j sl. sg_objs s j = Some sl \<longrightarrow> 0 < sl_uses sl \<and> holders j (sg_calls s) \<le> sl_uses sl" by (rule sig_inv_list)
  have m: "m = Suc (users (sg_slots s) (sg_calls s))" using li l(1) by (simp add: lists_inv_def)
  show ?thesis
  proof (rule sig_invI)
    show "lists_inv ?s"
    proof (rule lists_invI [where xs = xs])
      show "sg_lists ?s (sg_slots ?s) = Some (xs, Suc (users (sg_slots ?s) (sg_calls ?s)))"
        unfolding f using l(1) n nn m by (auto simp: c(1))
      show "k = users b (sg_calls ?s) \<and> 0 < k" if "sg_lists ?s b = Some (ys, k)" "b \<noteq> sg_slots ?s" for b ys k
        using that lists_inv_other [OF li, of b ys k] nn unfolding f by (cases "b = ?a") (simp_all add: c(1) split: if_splits)
      show "sg_lists ?s (sc_list d) \<noteq> None" if "d \<in># sg_calls ?s" for d
        using that users_pos [of d M] lists_inv_call [OF li, of d] nn unfolding f by (auto simp: c(1))
    qed
    obtain k where "sg_lists ?s (sg_slots ?s) = Some (xs, k)" using keep [of "sg_slots s"] l(1) f(2) by auto
    then show "slots_inv ?s"
      using l(2-6) by (intro slots_invI [where xs = xs and n = k]) (simp_all add: f(3-6) c)
    show "call_inv ?s d" if d: "d \<in># sg_calls ?s" for d
    proof (rule call_inv_mono [OF sig_invD(3) [OF inv]])
      show "d \<in># sg_calls s" using d by (simp add: c(1))
      show "map_option fst (sg_lists ?s (sc_list d)) = map_option fst (sg_lists s (sc_list d))"
        using keep users_pos [of d M] d by simp
    qed (simp_all add: f(4,6) untied_live_def)
  qed
qed

lemma sig_step_inv: "sig_step s s' \<Longrightarrow> sig_inv s \<Longrightarrow> sig_inv s'"
proof (induction rule: sig_step.induct)
  case (connects s a i cb tie s')
  then show ?case using connect_inv [of s a i cb tie] by auto
next
  case (cleans s a s')
  then show ?case using clean_inv [of s a] by auto
next
  case (begins s s')
  then show ?case using call_begin_inv [of s] by auto
next
  case (nexts s c M c' s')
  then show ?case using next_inv [of s c M] by auto
next
  case (returns s c M i)
  then show ?case using return_inv [of s c M i] by simp
next
  case (tie_dies x s)
  then have "call_inv (s\<lparr>sg_ties := sg_ties s - {x}\<rparr>) c = call_inv s c" for c
    by (simp add: call_inv_def untied_live_def cong: option.case_cong)
  with tie_dies show ?case by (simp add: sig_inv_def lists_inv_def slots_inv_def)
qed (auto intro: acquire_inv drop_inv end_inv)

lemma sig_steps_inv: "sig_step\<^sup>*\<^sup>* s s' \<Longrightarrow> sig_inv s \<Longrightarrow> sig_inv s'"
  by (induction rule: rtranclp_induct) (auto intro: sig_step_inv)

lemma Signal_new_inv: "sig_inv (Signal_new ties)"
  by (simp add: sig_inv_def lists_inv_def slots_inv_def Signal_new_def users_def)

section \<open>SignalTrivial and WeakCallback\<close>

text \<open>
  \<open>SignalTrivial\<close> keeps its functors for ever and calls them in order. \<open>call\<close> compares its iterator with \<open>end()\<close> of a
  vector that a functor must not change.
\<close>

definition SignalTrivial_connect :: "'f \<Rightarrow> 'f list \<Rightarrow> 'f list" where
  "SignalTrivial_connect f functors = functors @ [f]"

definition SignalTrivial_call :: "('f \<Rightarrow> 's \<Rightarrow> 's result) \<Rightarrow> 'f list \<Rightarrow> 's \<Rightarrow> 's result" where
  "SignalTrivial_call run functors s = foldR run functors s"

text \<open>A callback bound to an object that may be gone: \<open>alive\<close> is the store of live objects.\<close>

record ('c, 'a, 's) weak_callback =
  wc_object :: nat
  wc_function :: "'c \<Rightarrow> 'a \<Rightarrow> 's \<Rightarrow> 's result"

definition makeWeakCallback :: "nat \<Rightarrow> ('c \<Rightarrow> 'a \<Rightarrow> 's \<Rightarrow> 's result) \<Rightarrow> ('c, 'a, 's) weak_callback" where
  "makeWeakCallback object function = \<lparr>wc_object = object, wc_function = function\<rparr>"

definition WeakCallback_call :: "('s \<Rightarrow> nat \<Rightarrow> 'c option) \<Rightarrow> ('c, 'a, 's) weak_callback \<Rightarrow> 'a \<Rightarrow> 's \<Rightarrow> 's result" where
  "WeakCallback_call alive w arg s =
     (case alive s (wc_object w) of None \<Rightarrow> Inr s | Some ptr \<Rightarrow> wc_function w ptr arg s)"

lemma WeakCallback_runs:
  "WeakCallback_call alive (makeWeakCallback ob f) arg s =
     (if alive s ob = None then Inr s else f (the (alive s ob)) arg s)"
  by (simp add: WeakCallback_call_def makeWeakCallback_def split: option.splits)

section \<open>Properties\<close>

text \<open>
  C26. Signals are safe under every interleaving of threads that connect slots, copy and drop their handles, call the
  signal and destroy objects slots are tied to. No operation on the list of slots fails its assertion that the list is
  not shared. A call in progress iterates over exactly the slots that were connected when it began, although others are connected
  and disconnected meanwhile: it calls them in order, each at most once, leaves out none that is still connected and not tied,
  and the slot it is executing is alive. When no destructor is under way, the list is exactly the live slots in the order of
  their connection.
\<close>

theorem Signal_calls_exact:
  assumes "sig_step\<^sup>*\<^sup>* (Signal_new ties) s"
  shows "(\<forall>a i. sg_lists s a = None \<longrightarrow> i \<notin> set (sg_history s) \<longrightarrow> (\<exists>s'. Signal_connect a i cb tie s = Inr s'))
     \<and> (\<forall>a. sg_lists s a = None \<longrightarrow> (\<exists>s'. SignalImpl_clean a s = Inr s'))
     \<and> (\<forall>c \<in># sg_calls s. map_option fst (sg_lists s (sc_list c)) = Some (sc_snap c) \<and> distinct (sc_log c)
          \<and> subseq (sc_log c) (sc_snap c) \<and> (\<forall>i \<in> set (take (sc_pos c) (sc_snap c)). untied_live s i \<longrightarrow> i \<in> set (sc_log c))
          \<and> (\<forall>i. sc_held c = Some i \<longrightarrow> sg_objs s i \<noteq> None))
     \<and> (sg_cleans s = 0 \<longrightarrow> map_option fst (sg_lists s (sg_slots s)) = Some (filter (\<lambda>i. sg_objs s i \<noteq> None) (sg_history s)))"
proof -
  have inv: "sig_inv s" by (rule sig_steps_inv [OF assms Signal_new_inv])
  have "map_option fst (sg_lists s (sc_list c)) = Some (sc_snap c) \<and> distinct (sc_log c) \<and> subseq (sc_log c) (sc_snap c)
      \<and> (\<forall>i \<in> set (take (sc_pos c) (sc_snap c)). untied_live s i \<longrightarrow> i \<in> set (sc_log c))
      \<and> (\<forall>i. sc_held c = Some i \<longrightarrow> sg_objs s i \<noteq> None)" if "c \<in># sg_calls s" for c
  proof -
    have ci: "call_inv s c" by (rule sig_invD(3) [OF inv that])
    have "\<exists>k. subseq (sc_log c) (take k (sc_snap c))"
    proof (cases "sc_held c")
      case None
      then show ?thesis using ci by (auto simp: call_inv_def)
    next
      case (Some i)
      then show ?thesis using ci by (auto simp: call_inv_def take_step intro!: exI [of _ "Suc (sc_pos c)"] list_emb_append_mono)
    qed
    then have "subseq (sc_log c) (sc_snap c)" by (metis append_take_drop_id list_emb_append2 subseq_order.refl subseq_order.trans subseq_rev_drop_many)
    moreover from this have "distinct (sc_log c)" using ci subseq_sets(2) by (auto simp: call_inv_def)
    ultimately show ?thesis using ci by (auto simp: call_inv_def split: option.splits)
  qed
  moreover have "map_option fst (sg_lists s (sg_slots s)) = Some (filter (\<lambda>i. sg_objs s i \<noteq> None) (sg_history s))" if "sg_cleans s = 0"
  proof -
    from inv obtain xs n where l: "sg_lists s (sg_slots s) = Some (xs, n)" "subseq xs (sg_history s)"
      "\<forall>j. sg_objs s j \<noteq> None \<longrightarrow> j \<in> set xs" "sg_cleans s = 0 \<longrightarrow> (\<forall>j \<in> set xs. sg_objs s j \<noteq> None)" "distinct (sg_history s)"
      by (rule sig_inv_list)
    have "set xs = {i. sg_objs s i \<noteq> None}" using l(3,4) that by auto
    moreover have "xs = filter (\<lambda>i. i \<in> set xs) (sg_history s)" by (rule subseq_filter_set [OF l(2,5)])
    ultimately show ?thesis using l(1) by simp
  qed
  moreover have "\<exists>s'. Signal_connect a i cb tie s = Inr s'" if "sg_lists s a = None" "i \<notin> set (sg_history s)" for a i
    using connect_inv [OF inv that] by blast
  moreover have "\<exists>s'. SignalImpl_clean a s = Inr s'" if "sg_lists s a = None" for a
    using clean_inv [OF inv that] by blast
  ultimately show ?thesis by blast
qed

text \<open>A slot is connected while a call is in progress: the call keeps its list, the signal has a new one.\<close>

theorem Signal_calls_exact_witness:
  "\<exists>(s :: unit signal) c. sig_step\<^sup>*\<^sup>* (Signal_new {}) s \<and> c \<in># sg_calls s \<and> map_option fst (sg_lists s (sc_list c)) = Some [7]
     \<and> map_option fst (sg_lists s (sg_slots s)) = Some [7, 8] \<and> (\<exists>s'. SignalImpl_clean 2 s = Inr s')"
proof -
  define s0 :: "unit signal" where "s0 = Signal_new {}"
  define s1 where "s1 = s0\<lparr>sg_lists := [0 \<mapsto> ([7], 1)], sg_objs := [7 \<mapsto> \<lparr>sl_cb = (), sl_tie = None, sl_uses = 1\<rparr>], sg_history := [7]\<rparr>"
  define c where "c = \<lparr>sc_list = 0, sc_pos = 0, sc_held = None, sc_snap = [7], sc_log = []\<rparr>"
  define s2 where "s2 = s1\<lparr>sg_lists := [0 \<mapsto> ([7], 2)], sg_calls := {#c#}\<rparr>"
  define s3 where "s3 = s2\<lparr>sg_lists := [0 \<mapsto> ([7], 1), 1 \<mapsto> ([7, 8], 1)], sg_slots := 1,
    sg_objs := (sg_objs s1)(8 \<mapsto> \<lparr>sl_cb = (), sl_tie = None, sl_uses = 1\<rparr>), sg_history := [7, 8]\<rparr>"
  have "Signal_connect 1 7 () None s0 = Inr s1"
    by (simp add: Signal_connect_def Signal_add_def copyOnWrite_def set_list_def s0_def s1_def Signal_new_def)
  then have 1: "sig_step s0 s1" by (rule connects [rotated 2]) (simp_all add: s0_def Signal_new_def)
  have "call_begin s1 = Inr s2" by (simp add: call_begin_def s0_def s1_def s2_def c_def Signal_new_def numeral_2_eq_2)
  then have 2: "sig_step s1 s2" by (rule begins)
  have "Signal_connect 1 8 () None s2 = Inr s3"
    by (simp add: Signal_connect_def Signal_add_def copyOnWrite_def set_list_def s0_def s1_def s2_def s3_def Signal_new_def fun_upd_twist)
  then have 3: "sig_step s2 s3" by (rule connects [rotated 2]) (simp_all add: s2_def s1_def)
  from 1 2 3 have "sig_step\<^sup>*\<^sup>* (Signal_new {}) s3" unfolding s0_def by (meson converse_rtranclp_into_rtranclp rtranclp.rtrancl_refl)
  moreover from Signal_calls_exact [OF this, of "()" None] have "\<exists>s'. SignalImpl_clean 2 s3 = Inr s'" by (simp add: s3_def)
  moreover have "c \<in># sg_calls s3" "sg_lists s3 (sc_list c) = Some ([7], 1)" "sg_lists s3 (sg_slots s3) = Some ([7, 8], 1)"
    by (simp_all add: s3_def s2_def c_def)
  ultimately show ?thesis by (intro exI [of _ s3] exI [of _ c]) simp
qed

end
