(* ===== verification/Singletons.thy ===== *)
theory Singletons
  imports Prelude
begin

text \<open>
  \<^verbatim>\<open>muduo/thread/Singleton.h\<close>, \<^verbatim>\<open>ThreadLocal.h\<close>, \<^verbatim>\<open>ThreadLocalSingleton.h\<close>, \<^verbatim>\<open>Exception.h\<close> and \<^verbatim>\<open>Exception.cc\<close>. Objects are
  addresses in a set of live objects; the address of a new object is one that no live object has.
\<close>

section \<open>Singleton\<close>

text \<open>
  \<open>pthread_once\<close> runs its routine in the first thread that comes and lets all others wait for its end. A thread is outside
  \<open>instance()\<close>, runs \<open>init\<close>, waits for another thread to do so, or has returned with an object.
\<close>

datatype once_state = NotInit | InInit | DoneInit

datatype once_pc = Outside | RunsInit | WaitsInit | Returned nat

record singleton =
  ponce :: once_state
  sn_value :: "nat option"
  sn_objs :: "nat set"
  sn_created :: "nat list"
  sn_atexit :: bool
  sn_at :: "nat \<Rightarrow> once_pc"

definition Singleton_static :: singleton where
  "Singleton_static = \<lparr>ponce = NotInit, sn_value = None, sn_objs = {}, sn_created = [], sn_atexit = False, sn_at = (\<lambda>_. Outside)\<rparr>"

definition Singleton_init :: "nat \<Rightarrow> singleton \<Rightarrow> singleton" where
  "Singleton_init a s = s\<lparr>sn_value := Some a, sn_objs := insert a (sn_objs s), sn_created := sn_created s @ [a], sn_atexit := True\<rparr>"

text \<open>The exit handler deletes the object and leaves the pointer.\<close>

definition Singleton_destroy :: "singleton \<Rightarrow> singleton" where
  "Singleton_destroy s = s\<lparr>sn_objs := sn_objs s - set_option (sn_value s), sn_atexit := False\<rparr>"

definition instance_enter :: "nat \<Rightarrow> singleton \<Rightarrow> singleton" where
  "instance_enter t s =
     (case ponce s of
        NotInit \<Rightarrow> s\<lparr>ponce := InInit, sn_at := (sn_at s)(t := RunsInit)\<rparr>
      | InInit \<Rightarrow> s\<lparr>sn_at := (sn_at s)(t := WaitsInit)\<rparr>
      | DoneInit \<Rightarrow> s\<lparr>sn_at := (sn_at s)(t := Returned (the (sn_value s)))\<rparr>)"

inductive once_step :: "singleton \<Rightarrow> singleton \<Rightarrow> bool" where
  enters: "(sn_at s t = Outside \<or> (\<exists>a. sn_at s t = Returned a)) \<Longrightarrow> once_step s (instance_enter t s)"
| inits: "sn_at s t = RunsInit \<Longrightarrow> a \<notin> sn_objs s \<Longrightarrow>
    once_step s ((Singleton_init a s)\<lparr>ponce := DoneInit, sn_at := (sn_at s)(t := Returned a)\<rparr>)"
| wakes: "sn_at s t = WaitsInit \<Longrightarrow> ponce s = DoneInit \<Longrightarrow> once_step s (s\<lparr>sn_at := (sn_at s)(t := Returned (the (sn_value s)))\<rparr>)"

definition once_inv :: "singleton \<Rightarrow> bool" where
  "once_inv s \<longleftrightarrow> (case ponce s of
       NotInit \<Rightarrow> sn_value s = None \<and> sn_created s = [] \<and> sn_objs s = {} \<and> (\<forall>t. sn_at s t = Outside)
     | InInit \<Rightarrow> sn_value s = None \<and> sn_created s = [] \<and> sn_objs s = {} \<and> (\<exists>!t. sn_at s t = RunsInit) \<and> (\<forall>t a. sn_at s t \<noteq> Returned a)
     | DoneInit \<Rightarrow> (\<exists>a. sn_value s = Some a \<and> sn_created s = [a] \<and> sn_objs s = {a} \<and> sn_atexit s
         \<and> (\<forall>t. sn_at s t \<noteq> RunsInit \<and> (\<forall>b. sn_at s t = Returned b \<longrightarrow> b = a))))"

lemma once_step_inv: "once_step s s' \<Longrightarrow> once_inv s \<Longrightarrow> once_inv s'"
proof (induction rule: once_step.induct)
  case (enters s t)
  then show ?case
  proof (cases "ponce s")
    case InInit
    then have ex: "\<exists>!u. sn_at s u = RunsInit" and rest: "sn_value s = None" "sn_created s = []" "sn_objs s = {}" "\<forall>u a. sn_at s u \<noteq> Returned a"
      using enters(2) by (simp_all add: once_inv_def)
    from ex obtain u where u: "sn_at s u = RunsInit" "\<And>v. sn_at s v = RunsInit \<Longrightarrow> v = u" by blast
    have "t \<noteq> u" using enters(1) u(1) rest(4) by auto
    then have "\<exists>!v. ((sn_at s)(t := WaitsInit)) v = RunsInit" using u by (metis fun_upd_apply once_pc.distinct)
    with rest InInit show ?thesis by (simp add: once_inv_def instance_enter_def)
  next
    case NotInit
    then have rest: "sn_value s = None" "sn_created s = []" "sn_objs s = {}" "\<And>u. sn_at s u = Outside"
      using enters(2) by (simp_all add: once_inv_def)
    have "\<exists>!v. ((sn_at s)(t := RunsInit)) v = RunsInit" using rest(4) by (intro ex1I [of _ t]) (simp_all split: if_splits)
    with rest NotInit show ?thesis by (simp add: once_inv_def instance_enter_def)
  next
    case DoneInit
    with enters(2) show ?thesis by (simp add: once_inv_def instance_enter_def) force
  qed
next
  case (inits s t a)
  have p: "ponce s = InInit" using inits(1,3) by (cases "ponce s") (simp_all add: once_inv_def, fastforce)
  then have ex: "\<exists>!u. sn_at s u = RunsInit" and rest: "sn_created s = []" "sn_objs s = {}" "\<And>u a. sn_at s u \<noteq> Returned a"
    using inits(3) by (simp_all add: once_inv_def)
  have "\<And>u. u \<noteq> t \<Longrightarrow> sn_at s u \<noteq> RunsInit" using ex inits(1) by blast
  with rest show ?case by (simp add: once_inv_def Singleton_init_def)
next
  case (wakes s t)
  then show ?case by (simp add: once_inv_def) force
qed

lemma once_steps_inv: "once_step\<^sup>*\<^sup>* s s' \<Longrightarrow> once_inv s \<Longrightarrow> once_inv s'"
  by (induction rule: rtranclp_induct) (auto intro: once_step_inv)

section \<open>ThreadLocal and ThreadLocalSingleton\<close>

text \<open>The value of a POSIX key (or of a \<open>__thread\<close> variable) in each thread, and the objects.\<close>

record thread_local =
  tl_key :: bool
  tl_specific :: "nat \<Rightarrow> nat option"
  tl_objs :: "nat set"

definition ThreadLocal_new :: thread_local where
  "ThreadLocal_new = \<lparr>tl_key = True, tl_specific = Map.empty, tl_objs = {}\<rparr>"

definition ThreadLocal_value :: "nat \<Rightarrow> nat \<Rightarrow> thread_local \<Rightarrow> nat \<times> thread_local" where
  "ThreadLocal_value t newObj s =
     (case tl_specific s t of
        Some perThreadValue \<Rightarrow> (perThreadValue, s)
      | None \<Rightarrow> (newObj, s\<lparr>tl_specific := (tl_specific s)(t \<mapsto> newObj), tl_objs := insert newObj (tl_objs s)\<rparr>))"

text \<open>When a thread ends, the system calls \<open>destructor\<close> with its value, if it has one and the key still exists.\<close>

definition ThreadLocal_thread_exit :: "nat \<Rightarrow> thread_local \<Rightarrow> thread_local" where
  "ThreadLocal_thread_exit t s =
     (if tl_key s then s\<lparr>tl_specific := (tl_specific s)(t := None), tl_objs := tl_objs s - set_option (tl_specific s t)\<rparr> else s)"

text \<open>\<open>pthread_key_delete\<close> calls no destructors.\<close>

definition ThreadLocal_delete :: "thread_local \<Rightarrow> thread_local" where
  "ThreadLocal_delete s = s\<lparr>tl_key := False\<rparr>"

definition ThreadLocalSingleton_instance :: "nat \<Rightarrow> nat \<Rightarrow> thread_local \<Rightarrow> nat \<times> thread_local" where
  "ThreadLocalSingleton_instance t newObj s =
     (let s1 = (if tl_specific s t = None
                then s\<lparr>tl_specific := (tl_specific s)(t \<mapsto> newObj), tl_objs := insert newObj (tl_objs s)\<rparr> else s)
      in (the (tl_specific s1 t), s1))"

definition ThreadLocalSingleton_destroy :: "nat \<Rightarrow> thread_local \<Rightarrow> thread_local" where
  "ThreadLocalSingleton_destroy t s = s\<lparr>tl_objs := tl_objs s - set_option (tl_specific s t), tl_specific := (tl_specific s)(t := None)\<rparr>"

datatype tl_op = TlValue nat nat | TlExit nat

fun tl_step :: "tl_op \<Rightarrow> thread_local \<Rightarrow> thread_local" where
  "tl_step (TlValue t a) s = (if a \<in> tl_objs s then s else snd (ThreadLocal_value t a s))"
| "tl_step (TlExit t) s = ThreadLocal_thread_exit t s"

text \<open>Every thread that has asked for its value has a live object of its own, and no other object exists.\<close>

definition tl_inv :: "thread_local \<Rightarrow> bool" where
  "tl_inv s \<longleftrightarrow> tl_key s \<and> tl_objs s = ran (tl_specific s) \<and> inj_on (tl_specific s) (dom (tl_specific s))"

lemma tl_step_inv: "tl_inv s \<Longrightarrow> tl_inv (tl_step op s)"
proof (cases op)
  case (TlValue t a)
  assume inv: "tl_inv s"
  show ?thesis
  proof (cases "a \<in> tl_objs s \<or> tl_specific s t \<noteq> None")
    case False
    then have "ran ((tl_specific s)(t \<mapsto> a)) = insert a (ran (tl_specific s))" by simp
    moreover have "inj_on ((tl_specific s)(t \<mapsto> a)) (dom ((tl_specific s)(t \<mapsto> a)))"
      using inv False by (auto simp: tl_inv_def inj_on_def ran_def dom_def)
    ultimately show ?thesis using inv TlValue False by (simp add: tl_inv_def ThreadLocal_value_def)
  qed (use inv TlValue in \<open>auto simp: ThreadLocal_value_def\<close>)
next
  case (TlExit t)
  assume inv: "tl_inv s"
  then have "ran ((tl_specific s)(t := None)) = ran (tl_specific s) - set_option (tl_specific s t)"
    by (auto simp: tl_inv_def ran_def inj_on_def dom_def)
  with inv TlExit show ?thesis by (auto simp: tl_inv_def ThreadLocal_thread_exit_def inj_on_def)
qed

lemma tl_steps_inv: "tl_inv s \<Longrightarrow> tl_inv (fold tl_step ops s)"
  by (induction ops arbitrary: s) (simp_all add: tl_step_inv)

section \<open>Exception\<close>

text \<open>\<open>strings\<close> is what \<open>backtrace_symbols\<close> returns, \<open>None\<close> for a null pointer.\<close>

record exception =
  ex_message :: string
  ex_stack :: string

definition Exception_new :: "string list option \<Rightarrow> string \<Rightarrow> exception" where
  "Exception_new strings what =
     \<lparr>ex_message = what,
      ex_stack = (case strings of None \<Rightarrow> [] | Some l \<Rightarrow> fold (\<lambda>x acc. acc @ x @ [char_of (10 :: nat)]) l [])\<rparr>"

definition Exception_what :: "exception \<Rightarrow> string" where
  "Exception_what e = ex_message e"

definition stackTrace :: "exception \<Rightarrow> string" where
  "stackTrace e = ex_stack e"

lemma stackTrace_lines: "stackTrace (Exception_new (Some l) w) = concat (map (\<lambda>x. x @ [char_of (10 :: nat)]) l)"
proof -
  have "fold (\<lambda>x acc. acc @ x @ [char_of (10 :: nat)]) l a = a @ concat (map (\<lambda>x. x @ [char_of (10 :: nat)]) l)" for a :: string
    by (induction l arbitrary: a) simp_all
  from this [of "[]"] show ?thesis by (simp add: stackTrace_def Exception_new_def)
qed

section \<open>Properties\<close>

text \<open>
  In every interleaving of threads that call \<open>Singleton::instance\<close>, at most one object is ever created, and every call returns
  that object, alive.
\<close>

theorem Singleton_unique:
  assumes "once_step\<^sup>*\<^sup>* Singleton_static s"
  shows "length (sn_created s) \<le> 1 \<and> (sn_at s t = Returned a \<longrightarrow> sn_created s = [a] \<and> a \<in> sn_objs s)
     \<and> (sn_at s t = Returned a \<longrightarrow> sn_at s u = Returned b \<longrightarrow> a = b)"
proof -
  have "once_inv Singleton_static" by (simp add: once_inv_def Singleton_static_def)
  from once_steps_inv [OF assms this] have "once_inv s" .
  then show ?thesis by (cases "ponce s") (auto simp: once_inv_def)
qed

theorem Singleton_unique_witness:
  "\<exists>s. once_step\<^sup>*\<^sup>* Singleton_static s \<and> sn_at s 1 = Returned 9 \<and> sn_at s 2 = WaitsInit \<and> sn_created s = [9]"
proof -
  let ?s1 = "Singleton_static\<lparr>ponce := InInit, sn_at := (\<lambda>_. Outside)(1 := RunsInit)\<rparr>"
  let ?s2 = "?s1\<lparr>sn_at := ((\<lambda>_. Outside)(1 := RunsInit))(2 := WaitsInit)\<rparr>"
  let ?s3 = "(Singleton_init 9 ?s2)\<lparr>ponce := DoneInit, sn_at := (sn_at ?s2)(1 := Returned 9)\<rparr>"
  have "once_step Singleton_static ?s1" using enters [of Singleton_static 1] by (simp add: instance_enter_def Singleton_static_def)
  moreover have "once_step ?s1 ?s2" using enters [of ?s1 2] by (simp add: instance_enter_def)
  moreover have "once_step ?s2 ?s3" by (rule inits) (simp_all add: Singleton_static_def)
  ultimately have "once_step\<^sup>*\<^sup>* Singleton_static ?s3" by (meson converse_rtranclp_into_rtranclp r_into_rtranclp)
  moreover from Singleton_unique [OF this, of 1 9] have "sn_created ?s3 = [9]" by simp
  ultimately show ?thesis by (intro exI [of _ ?s3]) (simp add: Singleton_init_def)
qed

text \<open>
  Every thread gets an object of its own from a \<open>ThreadLocal\<close>: after any calls and ends of threads, the values of different threads are
  different live objects, asking again gives the same one, and a thread that ends takes exactly its own with it.
\<close>

theorem ThreadLocal_separate:
  assumes "tl_specific (fold tl_step ops ThreadLocal_new) t = Some a"
  defines "s \<equiv> fold tl_step ops ThreadLocal_new"
  shows "a \<in> tl_objs s \<and> ThreadLocal_value t b s = (a, s) \<and> (tl_specific s u = Some a \<longrightarrow> u = t)
     \<and> tl_objs (ThreadLocal_thread_exit t s) = tl_objs s - {a}"
proof -
  have "tl_inv ThreadLocal_new" by (simp add: tl_inv_def ThreadLocal_new_def)
  from tl_steps_inv [OF this, of ops] have inv: "tl_inv s" by (simp add: s_def)
  have a: "tl_specific s t = Some a" using assms(1) by (simp add: s_def)
  have "u = t" if "tl_specific s u = Some a"
    using inv a that by (auto simp: tl_inv_def inj_on_def dom_def)
  with inv a show ?thesis by (auto simp: tl_inv_def ThreadLocal_value_def ThreadLocal_thread_exit_def intro: ranI)
qed

text \<open>The exit handler leaves a dangling pointer: \<open>instance()\<close> still returns the address, and the object is gone.\<close>

lemma Singleton_after_exit:
  assumes "once_inv s" and "ponce s = DoneInit"
  shows "sn_at (instance_enter t (Singleton_destroy s)) t = Returned (the (sn_value s)) \<and> the (sn_value s) \<notin> sn_objs (Singleton_destroy s)"
  using assms by (auto simp: once_inv_def instance_enter_def Singleton_destroy_def)

text \<open>Deleting a \<open>ThreadLocal\<close> leaves the objects of threads that are still running: their ends no longer free them.\<close>

lemma ThreadLocal_delete_leaks:
  "tl_objs (fold ThreadLocal_thread_exit ts (ThreadLocal_delete s)) = tl_objs s"
proof -
  have "fold ThreadLocal_thread_exit ts (ThreadLocal_delete s) = ThreadLocal_delete s"
    by (induction ts) (simp_all add: ThreadLocal_thread_exit_def ThreadLocal_delete_def)
  then show ?thesis by (simp add: ThreadLocal_delete_def)
qed

text \<open>\<open>ThreadLocalSingleton\<close> starts anew after \<open>destroy\<close>.\<close>

lemma ThreadLocalSingleton_renewed:
  "ThreadLocalSingleton_instance t a (ThreadLocalSingleton_destroy t s) = (a, snd (ThreadLocal_value t a (ThreadLocalSingleton_destroy t s)))"
  by (simp add: ThreadLocalSingleton_instance_def ThreadLocalSingleton_destroy_def ThreadLocal_value_def)

end
