(* ===== verification/Spec2Isabelle.thy ===== *)
theory Spec2Isabelle
  imports EPoller Servers Clients LoopExamples TimerExample TimeoutExample DateTest TimeZoneTest TimestampTest Logging AsyncLogging DoubleBuffer Conditions ThreadPool Signals Singletons
begin

text \<open>
  \<^bold>\<open>tiny-muduo\<close> is a network library of non-blocking sockets and event loops, one loop per thread, with its own
  date and time, logging and thread primitives. This library models its code and shows what it does.

  \<^bold>\<open>The parts and how they interact.\<close> An \<open>EventLoop\<close> owns a poller, a timer queue and a wake-up descriptor. Each descriptor
  it watches has a \<open>Channel\<close>, which binds the events of interest to callbacks. A round of \<open>loop()\<close> calls the
  poller, runs \<open>handleEvent\<close> of the channels it reports, and then the functors that other threads (or the loop itself)
  have queued. Timers are a channel on a \<open>timerfd\<close>; queued functors wake the loop through an \<open>eventfd\<close>. An \<open>Acceptor\<close> is a
  channel on a listening socket whose callback makes a \<open>TcpConnection\<close> in a \<open>TcpServer\<close>; a \<open>Connector\<close> is a channel on a
  connecting socket whose callback makes one in a \<open>TcpClient\<close>. A connection has a channel, an input and an output \<open>Buffer\<close>, and
  calls back the user's code. Log statements are put together in a \<open>LogStream\<close> and go to a rolling \<open>LogFile\<close>, directly or through
  the queues of \<open>AsyncLogging\<close>.

  \<^bold>\<open>Theories and sources\<close> (paths under \<^verbatim>\<open>src/muduo\<close>). Every theory has the operations of its class as definitions with the source's
  names (prefixed by the class where two classes share one), a record for the object's fields, and then invariant,
  lemmas and properties.

  \<^item> \<open>Prelude\<close>: failures as values (\<open>failure\<close>, \<open>bindR\<close>, \<open>assertR\<close>, \<open>foldR\<close>), \<open>size_t\<close> and signed division, memory copies.
  \<^item> \<open>Format\<close>: the decimal formats of \<open>snprintf\<close> that the code uses.
  \<^item> \<open>Buffer\<close>: \<^verbatim>\<open>Buffer.h\<close>, \<^verbatim>\<open>Buffer.cpp\<close>. Locale \<open>byte_queue\<close>: appends and retrieves are those of a queue of bytes.
  \<^item> \<open>Date\<close>, \<open>Timestamp\<close>, \<open>TimeZone\<close>: \<^verbatim>\<open>datetime/\<close>. The Julian day number and its inverse, \<open>gmtime\<close>, the zone file reader and the
    conversions. \<open>DateTest\<close>: \<^verbatim>\<open>datetime/Date_unittest.cc\<close>, the test that counts days, which passes. \<open>TimeZoneTest\<close>:
    \<^verbatim>\<open>datetime/TimeZone_unittest.cc\<close>, the test of four zones and of the conversion to UTC, which passes on every zone file with the switches of the tz
    database and every \<open>gmtime\<close> that keeps to POSIX. \<open>TimestampTest\<close>: \<^verbatim>\<open>datetime/Timestamp_unittest.cc\<close>, which counts the steps of the clock.
  \<^item> \<open>Channel\<close>: \<^verbatim>\<open>Channel.h\<close>, \<^verbatim>\<open>Channel.cpp\<close>. \<open>Multiplexer\<close>: the contract of a poller as a locale. \<open>Poller\<close> (\<open>poll\<close>) and
    \<open>EPoller\<close> (\<open>epoll\<close>, over any kernel that keeps the contract of \<open>epoll_ctl\<close>) interpret it.
  \<^item> \<open>EventLoop\<close>: \<^verbatim>\<open>EventLoop.h\<close>, \<^verbatim>\<open>EventLoop.cpp\<close>, with a step relation for \<open>queueInLoop\<close> from other threads. \<open>TimerQueue\<close>: the timers.
  \<^item> \<open>Sockets\<close>: addresses, byte order and the wrappers of the socket calls.
  \<^item> \<open>TcpConnection\<close>, \<open>TcpServer\<close> (with \<open>Acceptor\<close>), \<open>LoopPool\<close> (\<open>EventLoopThread\<close> and its pool), \<open>Connector\<close>, \<open>TcpClient\<close>. The state of
    each extends the record of the one it stands on, so that a whole server or client is one state.
  \<^item> \<open>ConnFrame\<close>, \<open>EchoServer\<close>, \<open>Servers\<close>, \<open>Clients\<close>, \<open>LoopExamples\<close>, \<open>TimerExample\<close>, \<open>TimeoutExample\<close>: the programs \<^verbatim>\<open>test2.cpp\<close> to \<^verbatim>\<open>test5.cpp\<close> and \<^verbatim>\<open>test8.cpp\<close> to \<^verbatim>\<open>test13.cpp\<close> on the whole
    stack; \<open>ConnFrame\<close> says what the events of one connection leave alone, \<open>OwnLoop\<close> what a round does in a loop with no
    descriptor but its own two.
  \<^item> \<open>LogStream\<close>, \<open>Logging\<close>, \<open>LogFile\<close>, \<open>AsyncLogging\<close> (both queues, through a locale of queues), \<open>DoubleBuffer\<close>: \<^verbatim>\<open>logging/\<close>.
  \<^item> \<open>Threads\<close>, \<open>Conditions\<close>, \<open>Queues\<close>, \<open>ThreadPool\<close>, \<open>Signals\<close>, \<open>Singletons\<close>: \<^verbatim>\<open>thread/\<close>. Concurrent code is a step relation
    whose steps are the critical sections and the single accesses outside them.

  \<^bold>\<open>Modelling.\<close> An operation is a function from the state to \<open>failure + state\<close>: a failed assertion, a fatal log message, an
  access outside an object or to a deleted one is a failure, so that every theorem with a result \<open>Inr\<close> says that none of
  these happens. Objects are addresses in stores that are fields of the state. Callbacks and functors are values of type
  variables which an argument executes; user code is that argument. What the system answers (\<open>readv\<close>, \<open>write\<close>, \<open>poll\<close>, \<open>accept\<close>, the clock,
  \<open>new\<close>) is an argument too, and the theorems hold for all answers unless they say so. Bit masks are words; \<open>size_t\<close>
  sums wrap around; \<open>int\<close> values that the code bounds are unbounded integers, with the wrap-around written out where it can happen. A \<open>double\<close> is a rational, and
  its rounding an argument.

  \<^bold>\<open>Loops and fuel.\<close> \<open>loop()\<close> runs over a list of rounds, and \<open>None\<close> says that it still runs after all of them; that it returns is proved
  as such (\<open>Loop_program_ends\<close>, \<open>Timer_program_counts\<close>, \<open>Timeout_program_ends\<close>). All other loops are structural or have a termination proof; the back ends of the loggers
  take as many iterations as messages wait, and one more (\<open>AsyncLogging_stop_terminates\<close>).

  \<^bold>\<open>What is shown.\<close> Byte streams: what is sent is what is buffered and written, in order, for one connection under every answer of
  \<open>write\<close>, and for all connections of a server in every run of its loop. Functors: each is run once, in order, and no
  wake-up is lost. Timers: the alarm runs the expired ones in order and reschedules. Pollers: every life of a channel succeeds and leaves other
  descriptors alone. Servers and clients: connections are registered under fresh names, established, removed once, retried with growing delays.
  Logging: no line is lost, doubled, split or reordered, by file, queue or double buffer. Calendar and zones: round
  trips, and agreement with counting. Threads: mutual exclusion, order, lost wake-ups. Where the code does not do what it means to, the
  fault is proved as a theorem about the same definitions (\<open>ThreadPool_stop_lost_wakeup\<close>,
  \<open>TimerQueue_cancel_ineffective\<close>, \<open>Condition_blinds_mutex\<close> and others).

  \<^bold>\<open>Not modelled.\<close> \<^verbatim>\<open>Callbacks.h\<close> and \<^verbatim>\<open>copyable.h\<close> (types only); \<^verbatim>\<open>TimeZone_dump.cc\<close> and \<^verbatim>\<open>LogStream_bench.cc\<close> (they print or measure); the texts printed by the examples; \<open>setNonBlockAndCloseOnExec\<close>
  (compiled under \<open>VALGRIND\<close> only); the assignment \<open>LogMessage::operator=\<close>, which has no return statement. The
  example programs \<^verbatim>\<open>test1.cpp\<close> and \<^verbatim>\<open>test6.cpp\<close> (two loops in two threads) and \<^verbatim>\<open>test7.cpp\<close> (two acceptors in one loop): the state of the model has
  one loop with at most one acceptor, and what two threads do to one loop is in the step relation of \<open>EventLoop\<close>. The programs under \<^verbatim>\<open>thread/test\<close>.
\<close>

end
